(* ===== verification/Prelude.thy ===== *)
theory Prelude
  imports Main "HOL-Library.Word"
begin

text \<open>
  Shared vocabulary of the development: the machine integer types of the C sources, the named
  fact collections the component theories feed, and the generic facts on lists, words and powers
  of two that several components use.
\<close>

type_synonym u8 = "8 word"
type_synonym u16 = "16 word"
type_synonym u32 = "32 word"
type_synonym u64 = "64 word"

named_theorems bitset_simps \<open>pointwise laws of the byte bitset\<close>
named_theorems pos_simps \<open>navigation between tree positions\<close>
named_theorems layout_simps \<open>sizes and offsets of the shared structures\<close>
named_theorems codec_simps \<open>packing and unpacking of bit fields\<close>

subsection \<open>Exhaustive checks over bytes\<close>

lemma byte_all_iff:
  "(\<forall>b::u8. P b) \<longleftrightarrow> list_all (\<lambda>n. P (word_of_nat n)) [0..<256]"
proof
  assume "\<forall>b. P b"
  then show "list_all (\<lambda>n. P (word_of_nat n)) [0..<256]" by (simp add: list_all_iff)
next
  assume *: "list_all (\<lambda>n. P (word_of_nat n)) [0..<256]"
  show "\<forall>b. P b"
  proof
    fix b :: u8
    have "unat b < 2 ^ LENGTH(8)" by (rule unsigned_less)
    then have "unat b \<in> set [0..<256]" by simp
    with * have "P (word_of_nat (unat b))" unfolding list_all_iff by blast
    then show "P b" by simp
  qed
qed

lemma less_8_cases:
  "i < (8::nat) \<longleftrightarrow> i \<in> {0, 1, 2, 3, 4, 5, 6, 7}"
  by auto

lemma div_eq_iff_bounds: "0 < (c::nat) \<Longrightarrow> y div c = i \<longleftrightarrow> i * c \<le> y \<and> y < i * c + c"
  using dividend_less_div_times [of c y] div_times_less_eq_dividend [of y c]
  by (auto simp: add.commute intro!: div_nat_eqI) (simp_all add: mult.commute)

subsection \<open>Length of a binary numeral\<close>

fun bit_length :: "nat \<Rightarrow> nat" where
  "bit_length n = (if n = 0 then 0 else Suc (bit_length (n div 2)))"

declare bit_length.simps [simp del]

lemma bit_length_0 [simp]: "bit_length 0 = 0"
  by (simp add: bit_length.simps)

lemma bit_length_pos: "0 < n \<Longrightarrow> bit_length n = Suc (bit_length (n div 2))"
  by (simp add: bit_length.simps [of n])

lemma bit_length_1 [simp]: "bit_length (Suc 0) = Suc 0"
  by (simp add: bit_length_pos)

lemma bit_length_double [simp]: "0 < n \<Longrightarrow> bit_length (2 * n) = Suc (bit_length n)"
  by (simp add: bit_length_pos [of "2 * n"])

lemma bit_length_double_Suc [simp]: "bit_length (Suc (2 * n)) = Suc (bit_length n)"
  by (simp add: bit_length_pos [of "Suc (2 * n)"])

lemma bit_length_bounds: "0 < n \<Longrightarrow> 2 ^ (bit_length n - 1) \<le> n \<and> n < 2 ^ bit_length n"
proof (induction n rule: bit_length.induct)
  case (1 n)
  show ?case
  proof (cases "n div 2 = 0")
    case True
    with "1.prems" have "n = 1" by auto
    then show ?thesis by simp
  next
    case False
    with 1 have IH: "2 ^ (bit_length (n div 2) - 1) \<le> n div 2" "n div 2 < 2 ^ bit_length (n div 2)"
      by auto
    from False have pos: "0 < bit_length (n div 2)" by (simp add: bit_length_pos)
    have "(2::nat) ^ bit_length (n div 2) = 2 * 2 ^ (bit_length (n div 2) - 1)"
      using pos by (cases "bit_length (n div 2)") auto
    with IH "1.prems" show ?thesis by (simp add: bit_length_pos [of n]) linarith
  qed
qed

lemma bit_length_eqI:
  assumes "2 ^ k \<le> n" "n < 2 ^ Suc k"
  shows "bit_length n = Suc k"
  using assms
proof (induction k arbitrary: n)
  case 0
  then have "n = 1" by simp
  then show ?case by simp
next
  case (Suc k)
  then have "2 ^ k \<le> n div 2" "n div 2 < 2 ^ Suc k" by auto
  with Suc.IH have "bit_length (n div 2) = Suc k" by blast
  moreover from Suc.prems have "0 < n" by (metis gr0I le_zero_eq power_not_zero zero_neq_numeral)
  ultimately show ?case by (simp add: bit_length_pos [of n])
qed

lemma bit_length_power [simp]: "bit_length (2 ^ k) = Suc k"
  by (rule bit_length_eqI) auto

lemma bit_length_le_iff: "bit_length n \<le> k \<longleftrightarrow> n < 2 ^ k"
proof (cases "n = 0")
  case False
  note b = bit_length_bounds [of n]
  show ?thesis
  proof
    assume "bit_length n \<le> k"
    then have "(2::nat) ^ bit_length n \<le> 2 ^ k" by simp
    with b False show "n < 2 ^ k" by linarith
  next
    assume "n < 2 ^ k"
    with b False have "(2::nat) ^ (bit_length n - 1) < 2 ^ k" by linarith
    then have "bit_length n - 1 < k" by simp
    then show "bit_length n \<le> k" by simp
  qed
qed simp

lemma bit_length_mono: "m \<le> n \<Longrightarrow> bit_length m \<le> bit_length n"
proof -
  assume "m \<le> n"
  have "n < 2 ^ bit_length n" using bit_length_le_iff by blast
  with \<open>m \<le> n\<close> show ?thesis unfolding bit_length_le_iff by simp
qed

text \<open>Shifting out \<open>k\<close> bits is sound once the value reaches \<open>2 ^ k - 1\<close>.\<close>

lemma bit_length_drop:
  assumes "2 ^ k - 1 \<le> n"
  shows "bit_length n = k + bit_length (n div 2 ^ k)"
  using assms
proof (induction k arbitrary: n)
  case (Suc k)
  show ?case
  proof (cases "n = 0")
    case True
    with Suc.prems have "(2::nat) ^ Suc k \<le> 1" by simp
    then show ?thesis using one_less_power [of "2::nat" "Suc k"] by simp
  next
    case False
    from Suc.prems have "2 ^ k - 1 \<le> n div 2" by auto
    from Suc.IH [OF this] False show ?thesis
      by (simp add: bit_length_pos [of n] div_mult2_eq)
  qed
qed simp

subsection \<open>Unsigned arithmetic of the C code\<close>

text \<open>\<open>size_t\<close> values are natural numbers; a subtraction that may go below zero is written with
  \<open>size_sub\<close>, which wraps at \<open>2 ^ 64\<close>. \<open>uint_shl1 k\<close> is \<^verbatim>\<open>1u << k\<close>, a 32-bit shift: it is
  \<open>2 ^ k\<close> for \<open>k < 32\<close>, and undefined in C (here \<open>0\<close>) from there on.\<close>

definition size_sub :: "nat \<Rightarrow> nat \<Rightarrow> nat" where
  "size_sub a b = (if b \<le> a then a - b else 2 ^ 64 - (b - a))"

lemma size_sub_le [simp]: "b \<le> a \<Longrightarrow> size_sub a b = a - b"
  by (simp add: size_sub_def)

definition uint_shl1 :: "nat \<Rightarrow> nat" where
  "uint_shl1 k = unat (push_bit k (1 :: u32))"

lemma uint_shl1_small [simp]: "k < 32 \<Longrightarrow> uint_shl1 k = 2 ^ k"
  unfolding uint_shl1_def unsigned_push_bit_eq by (simp add: take_bit_push_bit push_bit_eq_mult)

subsection \<open>Little-endian words in a byte buffer\<close>

definition bytes_le :: "nat \<Rightarrow> nat \<Rightarrow> u8 list" where
  "bytes_le n v = map (\<lambda>k. word_of_nat (v div 256 ^ k)) [0..<n]"

definition load_le :: "nat \<Rightarrow> u8 list \<Rightarrow> nat \<Rightarrow> nat" where
  "load_le n bs a = sum_list (map (\<lambda>k. unat (bs ! (a + k)) * 256 ^ k) [0..<n])"

definition store_bytes :: "u8 list \<Rightarrow> nat \<Rightarrow> u8 list \<Rightarrow> u8 list" where
  "store_bytes bs a cs = take a bs @ cs @ drop (a + length cs) bs"

definition store_le :: "nat \<Rightarrow> u8 list \<Rightarrow> nat \<Rightarrow> nat \<Rightarrow> u8 list" where
  "store_le n bs a v = store_bytes bs a (bytes_le n v)"

abbreviation load64 :: "u8 list \<Rightarrow> nat \<Rightarrow> nat" where
  "load64 \<equiv> load_le 8"

abbreviation store64 :: "u8 list \<Rightarrow> nat \<Rightarrow> nat \<Rightarrow> u8 list" where
  "store64 \<equiv> store_le 8"

lemma length_bytes_le [simp]: "length (bytes_le n v) = n"
  by (simp add: bytes_le_def)

lemma length_store_bytes [simp]: "a + length cs \<le> length bs \<Longrightarrow> length (store_bytes bs a cs) = length bs"
  by (simp add: store_bytes_def)

lemma length_store_le [simp]: "a + n \<le> length bs \<Longrightarrow> length (store_le n bs a v) = length bs"
  by (simp add: store_le_def)

lemma nth_store_bytes:
  assumes "a + length cs \<le> length bs"
  shows "store_bytes bs a cs ! j = (if a \<le> j \<and> j < a + length cs then cs ! (j - a) else bs ! j)"
  using assms by (auto simp: store_bytes_def nth_append add.commute)

lemma nth_store_le:
  assumes "a + n \<le> length bs"
  shows "store_le n bs a v ! j = (if a \<le> j \<and> j < a + n then bytes_le n v ! (j - a) else bs ! j)"
  using assms by (simp add: store_le_def nth_store_bytes)

lemma digits_sum: "(\<Sum>k = 0..<n. (v div 256 ^ k) mod 256 * 256 ^ k) = v mod (256 ^ n :: nat)"
proof (induction n)
  case (Suc n)
  have "v mod 256 ^ Suc n = 256 ^ n * (v div 256 ^ n mod 256) + v mod 256 ^ n"
    using mod_mult2_eq [of v "256 ^ n" 256] by (simp add: mult.commute)
  with Suc show ?case by simp
qed simp

lemma sum_bytes_le: "(\<Sum>k = 0..<n. unat (bytes_le n v ! k) * 256 ^ k) = v mod 256 ^ n"
proof -
  have "(\<Sum>k = 0..<n. unat (bytes_le n v ! k) * 256 ^ k) = (\<Sum>k = 0..<n. (v div 256 ^ k) mod 256 * 256 ^ k)"
    by (intro sum.cong) (auto simp: bytes_le_def unsigned_of_nat take_bit_eq_mod)
  then show ?thesis by (simp add: digits_sum)
qed

lemma load_store_same:
  assumes "a + n \<le> length bs"
  shows "load_le n (store_le n bs a v) a = v mod 256 ^ n"
  using assms sum_bytes_le [of n v] unfolding load_le_def
  by (simp add: nth_store_le interv_sum_list_conv_sum_set_nat)

lemma load_store64_same:
  assumes "a + 8 \<le> length bs" "v < 2 ^ 64"
  shows "load64 (store64 bs a v) a = v"
  using load_store_same [OF assms(1)] assms(2) by simp

lemma load_le_cong:
  "(\<And>k. a \<le> k \<Longrightarrow> k < a + n \<Longrightarrow> bs ! k = cs ! k) \<Longrightarrow> load_le n bs a = load_le n cs a"
  unfolding load_le_def by (intro arg_cong [where f = sum_list] map_cong refl) auto

lemma load_store_other:
  assumes "a + n \<le> length bs" "b + k \<le> a \<or> a + n \<le> b"
  shows "load_le k (store_le n bs a v) b = load_le k bs b"
  using assms by (intro load_le_cong) (auto simp: nth_store_le)

lemmas length_store64 = length_store_le [where n = 8]
lemmas nth_store64 = nth_store_le [where n = 8]
lemmas load64_cong = load_le_cong [where n = 8]
lemmas load_store64_other = load_store_other [where n = 8 and k = 8]

lemma load_le_bound: "load_le n bs a < 256 ^ n"
proof (induction n)
  case (Suc n)
  have "unat (bs ! (a + n)) \<le> 255" using unsigned_less [of "bs ! (a + n)", where ?'a = nat] by simp
  then have "unat (bs ! (a + n)) * 256 ^ n \<le> 255 * 256 ^ n" by (rule mult_right_mono) simp
  from add_less_le_mono [OF Suc this] show ?case by (simp add: load_le_def)
qed (simp add: load_le_def)

end
