(* ===== verification/Bitset.thy ===== *)
theory Bitset
  imports Prelude
begin

unbundle bit_operations_syntax

text \<open>
  The char-backed bitset of \<^verbatim>\<open>src/src/buddy/bitset.c\<close> and \<^verbatim>\<open>include/bitset.h\<close>, on the bytes
  the C code works on: a bitset is a list of bytes, bit \<open>pos\<close> lives in byte \<open>pos div 8\<close>. The
  masks and the population count are the tables of the source. The locale \<open>bitset_laws\<close> is the
  pointwise contract the tree code relies on; it is interpreted on the byte routines below.
\<close>

subsection \<open>Tables\<close>

definition CHAR_BIT :: nat where
  "CHAR_BIT = 8"

definition popcount_lookup :: "nat list" where
  "popcount_lookup = [
    0, 1, 1, 2, 1, 2, 2, 3, 1, 2, 2, 3, 2, 3, 3, 4, 1, 2, 2, 3, 2, 3, 3, 4, 2, 3, 3, 4, 3, 4, 4, 5,
    1, 2, 2, 3, 2, 3, 3, 4, 2, 3, 3, 4, 3, 4, 4, 5, 2, 3, 3, 4, 3, 4, 4, 5, 3, 4, 4, 5, 4, 5, 5, 6,
    1, 2, 2, 3, 2, 3, 3, 4, 2, 3, 3, 4, 3, 4, 4, 5, 2, 3, 3, 4, 3, 4, 4, 5, 3, 4, 4, 5, 4, 5, 5, 6,
    2, 3, 3, 4, 3, 4, 4, 5, 3, 4, 4, 5, 4, 5, 5, 6, 3, 4, 4, 5, 4, 5, 5, 6, 4, 5, 5, 6, 5, 6, 6, 7,
    1, 2, 2, 3, 2, 3, 3, 4, 2, 3, 3, 4, 3, 4, 4, 5, 2, 3, 3, 4, 3, 4, 4, 5, 3, 4, 4, 5, 4, 5, 5, 6,
    2, 3, 3, 4, 3, 4, 4, 5, 3, 4, 4, 5, 4, 5, 5, 6, 3, 4, 4, 5, 4, 5, 5, 6, 4, 5, 5, 6, 5, 6, 6, 7,
    2, 3, 3, 4, 3, 4, 4, 5, 3, 4, 4, 5, 4, 5, 5, 6, 3, 4, 4, 5, 4, 5, 5, 6, 4, 5, 5, 6, 5, 6, 6, 7,
    3, 4, 4, 5, 4, 5, 5, 6, 4, 5, 5, 6, 5, 6, 6, 7, 4, 5, 5, 6, 5, 6, 6, 7, 5, 6, 6, 7, 6, 7, 7, 8]"

definition popcount_byte :: "u8 \<Rightarrow> nat" where
  "popcount_byte b = popcount_lookup ! unat b"

definition bitset_index_mask :: "u8 list" where
  "bitset_index_mask = [1, 2, 4, 8, 16, 32, 64, 128]"

definition bitset_char_mask :: "u8 list list" where
  "bitset_char_mask = [
    [1, 3, 7, 15, 31, 63, 127, 255],
    [0, 2, 6, 14, 30, 62, 126, 254],
    [0, 0, 4, 12, 28, 60, 124, 252],
    [0, 0, 0,  8, 24, 56, 120, 248],
    [0, 0, 0,  0, 16, 48, 112, 240],
    [0, 0, 0,  0,  0, 32,  96, 224],
    [0, 0, 0,  0,  0,  0,  64, 192],
    [0, 0, 0,  0,  0,  0,   0, 128]]"

subsection \<open>Single bits\<close>

type_synonym bitset = "u8 list"

definition bitset_sizeof :: "nat \<Rightarrow> nat" where
  "bitset_sizeof elements = (elements + CHAR_BIT - 1) div CHAR_BIT"

definition bitset_set :: "bitset \<Rightarrow> nat \<Rightarrow> bitset" where
  "bitset_set bitset pos =
     (let bucket = pos div CHAR_BIT; index = pos mod CHAR_BIT
      in bitset[bucket := bitset ! bucket OR bitset_index_mask ! index])"

definition bitset_clear :: "bitset \<Rightarrow> nat \<Rightarrow> bitset" where
  "bitset_clear bitset pos =
     (let bucket = pos div CHAR_BIT; index = pos mod CHAR_BIT
      in bitset[bucket := bitset ! bucket AND NOT (bitset_index_mask ! index)])"

definition bitset_test :: "bitset \<Rightarrow> nat \<Rightarrow> bool" where
  "bitset_test bitset pos \<longleftrightarrow>
     (let bucket = pos div CHAR_BIT; index = pos mod CHAR_BIT
      in bitset ! bucket AND bitset_index_mask ! index \<noteq> 0)"

subsection \<open>Ranges\<close>

record bitset_bucket_range =
  br_from :: nat
  br_to :: nat

text \<open>
  The loop \<^verbatim>\<open>while (++from_bucket != to_bucket) bitset[from_bucket] = v\<close>, with the final value of
  \<open>from_bucket\<close>, which the callers return. The run stops where the C loop would leave the buffer
  (undefined behaviour); with \<open>from_bucket < to_bucket < length bitset\<close> it never gets there.
\<close>

function bitset_fill_buckets :: "bitset \<Rightarrow> u8 \<Rightarrow> nat \<Rightarrow> nat \<Rightarrow> bitset \<times> nat" where
  "bitset_fill_buckets bitset v from_bucket to_bucket =
     (let from_bucket' = from_bucket + 1 in
      if from_bucket' = to_bucket \<or> length bitset \<le> from_bucket' then (bitset, from_bucket')
      else bitset_fill_buckets (bitset[from_bucket' := v]) v from_bucket' to_bucket)"
  by pat_completeness auto
termination
  by (relation "measure (\<lambda>(bs, v, f, t). length bs - f)") auto

declare bitset_fill_buckets.simps [simp del]

definition bitset_clear_range :: "bitset \<Rightarrow> nat \<Rightarrow> nat \<Rightarrow> bitset \<times> bitset_bucket_range" where
  "bitset_clear_range bitset from_pos to_pos =
     (let from_bucket = from_pos div CHAR_BIT; to_bucket = to_pos div CHAR_BIT;
          from_index = from_pos mod CHAR_BIT; to_index = to_pos mod CHAR_BIT
      in if from_bucket = to_bucket then
           (bitset[from_bucket := bitset ! from_bucket AND
                     NOT (bitset_char_mask ! from_index ! to_index)],
            \<lparr>br_from = from_bucket, br_to = from_bucket\<rparr>)
         else
           let b1 = bitset[from_bucket := bitset ! from_bucket AND
                       NOT (bitset_char_mask ! from_index ! 7)];
               b2 = b1[to_bucket := b1 ! to_bucket AND NOT (bitset_char_mask ! 0 ! to_index)];
               (b3, from_bucket') = bitset_fill_buckets b2 0 from_bucket to_bucket
           in (b3, \<lparr>br_from = from_bucket', br_to = from_bucket'\<rparr>))"

definition bitset_set_range :: "bitset \<Rightarrow> nat \<Rightarrow> nat \<Rightarrow> bitset \<times> bitset_bucket_range" where
  "bitset_set_range bitset from_pos to_pos =
     (let from_bucket = from_pos div CHAR_BIT; to_bucket = to_pos div CHAR_BIT;
          from_index = from_pos mod CHAR_BIT; to_index = to_pos mod CHAR_BIT
      in if from_bucket = to_bucket then
           (bitset[from_bucket := bitset ! from_bucket OR
                     bitset_char_mask ! from_index ! to_index],
            \<lparr>br_from = from_bucket, br_to = from_bucket\<rparr>)
         else
           let b1 = bitset[from_bucket := bitset ! from_bucket OR
                       bitset_char_mask ! from_index ! 7];
               b2 = b1[to_bucket := b1 ! to_bucket OR bitset_char_mask ! 0 ! to_index];
               (b3, from_bucket') = bitset_fill_buckets b2 255 from_bucket to_bucket
           in (b3, \<lparr>br_from = from_bucket', br_to = from_bucket'\<rparr>))"

function bitset_count_buckets :: "bitset \<Rightarrow> nat \<Rightarrow> nat \<Rightarrow> nat \<Rightarrow> nat" where
  "bitset_count_buckets bitset result from_bucket to_bucket =
     (let from_bucket' = from_bucket + 1 in
      if from_bucket' = to_bucket \<or> length bitset \<le> from_bucket' then result
      else bitset_count_buckets bitset (result + popcount_byte (bitset ! from_bucket'))
             from_bucket' to_bucket)"
  by pat_completeness auto
termination
  by (relation "measure (\<lambda>(bs, r, f, t). length bs - f)") auto

declare bitset_count_buckets.simps [simp del]

definition bitset_count_range :: "bitset \<Rightarrow> nat \<Rightarrow> nat \<Rightarrow> nat" where
  "bitset_count_range bitset from_pos to_pos =
     (let from_bucket = from_pos div CHAR_BIT; to_bucket = to_pos div CHAR_BIT;
          from_index = from_pos mod CHAR_BIT; to_index = to_pos mod CHAR_BIT
      in if from_bucket = to_bucket then
           popcount_byte (bitset ! from_bucket AND bitset_char_mask ! from_index ! to_index)
         else
           let result = popcount_byte (bitset ! from_bucket AND bitset_char_mask ! from_index ! 7)
                 + popcount_byte (bitset ! to_bucket AND bitset_char_mask ! 0 ! to_index)
           in bitset_count_buckets bitset result from_bucket to_bucket)"

subsection \<open>Shifts\<close>

fun bitset_shift_left_loop :: "bitset \<Rightarrow> nat \<Rightarrow> nat \<Rightarrow> nat list \<Rightarrow> bitset" where
  "bitset_shift_left_loop bitset from_pos by_n [] = bitset"
| "bitset_shift_left_loop bitset from_pos by_n (i # is) =
     (let at = from_pos + i;
          bitset' = (if bitset_test bitset at then bitset_set bitset (at - by_n)
                     else bitset_clear bitset (at - by_n))
      in bitset_shift_left_loop bitset' from_pos by_n is)"

text \<open>The final clear starts at \<open>length\<close>, not at the end of the moved range, as in the source.\<close>

definition bitset_shift_left :: "bitset \<Rightarrow> nat \<Rightarrow> nat \<Rightarrow> nat \<Rightarrow> bitset" where
  "bitset_shift_left bitset from_pos to_pos by_n =
     (let len = to_pos - from_pos;
          bitset' = bitset_shift_left_loop bitset from_pos by_n [0..<len]
      in fst (bitset_clear_range bitset' len (len + by_n - 1)))"

text \<open>The loop counts \<open>length\<close> down to and including \<open>0\<close>.\<close>

fun bitset_shift_right_loop :: "bitset \<Rightarrow> nat \<Rightarrow> nat \<Rightarrow> nat list \<Rightarrow> bitset" where
  "bitset_shift_right_loop bitset from_pos by_n [] = bitset"
| "bitset_shift_right_loop bitset from_pos by_n (len # ls) =
     (let at = from_pos + len;
          bitset' = (if bitset_test bitset at then bitset_set bitset (at + by_n)
                     else bitset_clear bitset (at + by_n))
      in bitset_shift_right_loop bitset' from_pos by_n ls)"

definition bitset_shift_right :: "bitset \<Rightarrow> nat \<Rightarrow> nat \<Rightarrow> nat \<Rightarrow> bitset" where
  "bitset_shift_right bitset from_pos to_pos by_n =
     (let bitset' = bitset_shift_right_loop bitset from_pos by_n (rev [0..<to_pos - from_pos + 1])
      in fst (bitset_clear_range bitset' from_pos (from_pos + by_n - 1)))"

subsection \<open>The tables are right\<close>

lemma popcount_byte_filter: "popcount_byte b = length (filter (bit b) [0..<8])"
proof -
  have "\<forall>b::u8. popcount_byte b = length (filter (bit b) [0..<8])"
    unfolding byte_all_iff by code_simp
  then show ?thesis by blast
qed

lemma popcount_byte_card: "popcount_byte b = card {i. i < 8 \<and> bit b i}"
proof -
  have "{i. i < 8 \<and> bit b i} = set (filter (bit b) [0..<8])" by auto
  then show ?thesis
    using distinct_card [of "filter (bit b) [0..<8]"]
    by (simp add: popcount_byte_filter del: set_filter)
qed

lemma bit_index_mask:
  "i < 8 \<Longrightarrow> bit (bitset_index_mask ! i) n \<longleftrightarrow> n = i"
proof -
  assume i: "i < 8"
  have "list_all (\<lambda>i. bitset_index_mask ! i = 2 ^ i) [0..<8]" by code_simp
  with i have "bitset_index_mask ! i = 2 ^ i" unfolding list_all_iff by simp
  with i show ?thesis by (auto simp: bit_exp_iff)
qed

lemma bit_char_mask:
  assumes "f < 8" "t < 8"
  shows "bit (bitset_char_mask ! f ! t) n \<longleftrightarrow> f \<le> n \<and> n \<le> t"
proof -
  have "list_all (\<lambda>f. list_all (\<lambda>t. list_all (\<lambda>n.
          bit (bitset_char_mask ! f ! t) n \<longleftrightarrow> f \<le> n \<and> n \<le> t) [0..<8]) [0..<8]) [0..<8]"
    by code_simp
  then have small: "n < 8 \<Longrightarrow> ?thesis"
    using assms unfolding list_all_iff by simp
  moreover have "\<not> n < 8 \<Longrightarrow> ?thesis"
    using assms bit_imp_le_length [of "bitset_char_mask ! f ! t" n] by auto
  ultimately show ?thesis by blast
qed

subsection \<open>Pointwise laws of the byte routines\<close>

lemma bitset_test_bit: "bitset_test bs p \<longleftrightarrow> bit (bs ! (p div 8)) (p mod 8)"
proof -
  have *: "x AND m \<noteq> 0 \<longleftrightarrow> bit x i" if "\<And>n. bit m n \<longleftrightarrow> n = i" for x m :: u8 and i
  proof -
    have "bit (x AND m) n \<longleftrightarrow> n = i \<and> bit x i" for n
      using that by (auto simp: bit_and_iff)
    note b = this
    show ?thesis
    proof
      assume "x AND m \<noteq> 0"
      then obtain n where "bit (x AND m) n" using bit_word_eqI [of "x AND m" 0] by auto
      with b show "bit x i" by blast
    next
      assume "bit x i"
      with b have "bit (x AND m) i" by blast
      then show "x AND m \<noteq> 0" by (metis bit_0_eq bot_apply bot_bool_def)
    qed
  qed
  show ?thesis
    unfolding bitset_test_def Let_def CHAR_BIT_def
    by (rule *, rule bit_index_mask) simp
qed

lemma le_iff_div_mod:
  "(f::nat) \<le> q \<longleftrightarrow> f div 8 < q div 8 \<or> f div 8 = q div 8 \<and> f mod 8 \<le> q mod 8"
proof -
  have "f = 8 * (f div 8) + f mod 8" "q = 8 * (q div 8) + q mod 8" "f mod 8 < 8" "q mod 8 < 8"
    by auto
  then show ?thesis by linarith
qed

lemma eq_iff_div_mod: "(p::nat) = q \<longleftrightarrow> p div 8 = q div 8 \<and> p mod 8 = q mod 8"
  by (metis div_mult_mod_eq)

lemma length_bitset_set [simp]: "length (bitset_set bs p) = length bs"
  by (simp add: bitset_set_def Let_def)

lemma length_bitset_clear [simp]: "length (bitset_clear bs p) = length bs"
  by (simp add: bitset_clear_def Let_def)

lemma bitset_test_set [bitset_simps]:
  "p div 8 < length bs \<Longrightarrow> bitset_test (bitset_set bs p) q \<longleftrightarrow> q = p \<or> bitset_test bs q"
  unfolding bitset_test_bit bitset_set_def Let_def CHAR_BIT_def eq_iff_div_mod [of q p]
  by (auto simp: nth_list_update bit_or_iff bit_index_mask)

lemma bitset_test_clear [bitset_simps]:
  "p div 8 < length bs \<Longrightarrow> bitset_test (bitset_clear bs p) q \<longleftrightarrow> q \<noteq> p \<and> bitset_test bs q"
  unfolding bitset_test_bit bitset_clear_def Let_def CHAR_BIT_def eq_iff_div_mod [of q p]
  by (auto simp: nth_list_update bit_and_iff bit_not_iff bit_index_mask)

lemma bitset_fill_buckets_spec:
  assumes "f < t" "t < length bs"
  shows "snd (bitset_fill_buckets bs v f t) = t
    \<and> length (fst (bitset_fill_buckets bs v f t)) = length bs
    \<and> (\<forall>j. fst (bitset_fill_buckets bs v f t) ! j = (if f < j \<and> j < t then v else bs ! j))"
  using assms
proof (induction bs v f t rule: bitset_fill_buckets.induct)
  case (1 bs v f t)
  show ?case
  proof (cases "f + 1 = t")
    case True
    then show ?thesis by (auto simp: bitset_fill_buckets.simps [of bs v f t])
  next
    case False
    with "1.prems" have g: "\<not> (f + 1 = t \<or> length bs \<le> f + 1)" "f + 1 < t" "t < length (bs[f + 1 := v])"
      by auto
    note IH = "1.IH" [OF refl g]
    have eq: "bitset_fill_buckets bs v f t = bitset_fill_buckets (bs[f + 1 := v]) v (f + 1) t"
      using g(1) by (subst bitset_fill_buckets.simps) (simp add: Let_def)
    show ?thesis
      unfolding eq using IH g by (auto simp: nth_list_update)
  qed
qed

lemma bitset_range_cases:
  assumes "(f::nat) \<le> t"
  obtains (same) "f div 8 = t div 8" "f mod 8 \<le> t mod 8" | (diff) "f div 8 < t div 8"
  using assms unfolding le_iff_div_mod [of f t] by blast

lemma in_range_iff_div_mod:
  assumes "(f::nat) div 8 < t div 8"
  shows "f \<le> q \<and> q \<le> t \<longleftrightarrow>
    (if q div 8 = f div 8 then f mod 8 \<le> q mod 8
     else if q div 8 = t div 8 then q mod 8 \<le> t mod 8
     else f div 8 < q div 8 \<and> q div 8 < t div 8)"
  using assms unfolding le_iff_div_mod [of f q] le_iff_div_mod [of q t] by auto

lemma bitset_clear_range_spec:
  assumes "f \<le> t" "t div 8 < length bs"
  shows "(bitset_test (fst (bitset_clear_range bs f t)) q \<longleftrightarrow> bitset_test bs q \<and> \<not> (f \<le> q \<and> q \<le> t))
    \<and> length (fst (bitset_clear_range bs f t)) = length bs
    \<and> snd (bitset_clear_range bs f t) = \<lparr>br_from = t div 8, br_to = t div 8\<rparr>"
proof -
  from assms(1) show ?thesis
  proof (cases rule: bitset_range_cases)
    case same
    then have "f \<le> q \<and> q \<le> t \<longleftrightarrow> q div 8 = t div 8 \<and> f mod 8 \<le> q mod 8 \<and> q mod 8 \<le> t mod 8"
      unfolding le_iff_div_mod [of f q] le_iff_div_mod [of q t] by auto
    with same assms(2) show ?thesis
      by (auto simp: bitset_clear_range_def Let_def CHAR_BIT_def bitset_test_bit nth_list_update
          bit_and_iff bit_not_iff bit_char_mask)
  next
    case diff
    let ?b1 = "bs[f div 8 := bs ! (f div 8) AND NOT (bitset_char_mask ! (f mod 8) ! 7)]"
    let ?b2 = "?b1[t div 8 := ?b1 ! (t div 8) AND NOT (bitset_char_mask ! 0 ! (t mod 8))]"
    note fill = bitset_fill_buckets_spec [OF diff, of ?b2 0]
    have eq: "bitset_clear_range bs f t = (fst (bitset_fill_buckets ?b2 0 (f div 8) (t div 8)),
        \<lparr>br_from = t div 8, br_to = t div 8\<rparr>)"
      using diff fill assms(2)
      by (simp add: bitset_clear_range_def Let_def CHAR_BIT_def split_beta)
    have q: "q mod 8 \<le> 7" by simp
    show ?thesis
      unfolding eq in_range_iff_div_mod [OF diff] bitset_test_bit
      using fill assms(2) diff q
      by (simp add: nth_list_update bit_and_iff bit_not_iff bit_char_mask)
  qed
qed

lemma bit_byte_255: "bit (255 :: u8) n \<longleftrightarrow> n < 8"
proof -
  have "(255 :: u8) = mask 8" by (simp add: mask_eq_exp_minus_1)
  then have "bit (255 :: u8) n = bit (mask 8 :: u8) n" by (rule arg_cong)
  also have "\<dots> = (n < 8)" by (simp only: bit_mask_iff) auto
  finally show ?thesis .
qed

lemma bitset_set_range_spec:
  assumes "f \<le> t" "t div 8 < length bs"
  shows "(bitset_test (fst (bitset_set_range bs f t)) q \<longleftrightarrow> bitset_test bs q \<or> f \<le> q \<and> q \<le> t)
    \<and> length (fst (bitset_set_range bs f t)) = length bs
    \<and> snd (bitset_set_range bs f t) = \<lparr>br_from = t div 8, br_to = t div 8\<rparr>"
proof -
  from assms(1) show ?thesis
  proof (cases rule: bitset_range_cases)
    case same
    then have "f \<le> q \<and> q \<le> t \<longleftrightarrow> q div 8 = t div 8 \<and> f mod 8 \<le> q mod 8 \<and> q mod 8 \<le> t mod 8"
      unfolding le_iff_div_mod [of f q] le_iff_div_mod [of q t] by auto
    with same assms(2) show ?thesis
      by (auto simp: bitset_set_range_def Let_def CHAR_BIT_def bitset_test_bit nth_list_update
          bit_or_iff bit_byte_255 bit_char_mask)
  next
    case diff
    let ?b1 = "bs[f div 8 := bs ! (f div 8) OR bitset_char_mask ! (f mod 8) ! 7]"
    let ?b2 = "?b1[t div 8 := ?b1 ! (t div 8) OR bitset_char_mask ! 0 ! (t mod 8)]"
    note fill = bitset_fill_buckets_spec [OF diff, of ?b2 255]
    have eq: "bitset_set_range bs f t = (fst (bitset_fill_buckets ?b2 255 (f div 8) (t div 8)),
        \<lparr>br_from = t div 8, br_to = t div 8\<rparr>)"
      using diff fill assms(2)
      by (simp add: bitset_set_range_def Let_def CHAR_BIT_def split_beta)
    have q: "q mod 8 \<le> 7" by simp
    show ?thesis
      unfolding eq in_range_iff_div_mod [OF diff] bitset_test_bit
      using fill assms(2) diff q
      by (simp add: nth_list_update bit_or_iff bit_byte_255 bit_char_mask
          del: bit_numeral_word_iff) auto
  qed
qed

lemma popcount_byte_mask:
  assumes "a \<le> b" "b < 8"
  shows "popcount_byte (x AND bitset_char_mask ! a ! b) = (\<Sum>k = a..<Suc b. of_bool (bit x k))"
proof -
  have "{i. i < 8 \<and> bit (x AND bitset_char_mask ! a ! b) i} = {a..<Suc b} \<inter> {k. bit x k}"
    using assms by (auto simp: bit_and_iff bit_char_mask)
  then show ?thesis by (simp add: popcount_byte_card del: sum.op_ivl_Suc)
qed

lemma popcount_byte_sum: "popcount_byte x = (\<Sum>k = 0..<8. of_bool (bit x k))"
proof -
  have "{i. i < 8 \<and> bit x i} = {0..<8} \<inter> {k. bit x k}" by auto
  then show ?thesis by (simp add: popcount_byte_card del: sum.op_ivl_Suc)
qed

lemma bitset_test_in_bucket: "k < 8 \<Longrightarrow> bitset_test bs (8 * j + k) \<longleftrightarrow> bit (bs ! j) k"
  by (simp add: bitset_test_bit)

lemma bucket_sum:
  assumes "b \<le> 8"
  shows "(\<Sum>i = 8 * j + a..<8 * j + b. of_bool (bitset_test bs i)) =
    ((\<Sum>k = a..<b. of_bool (bit (bs ! j) k)) :: nat)"
proof -
  have "(\<Sum>i = 8 * j + a..<8 * j + b. of_bool (bitset_test bs i)) =
      ((\<Sum>k = a..<b. of_bool (bitset_test bs (8 * j + k))) :: nat)"
    using sum.shift_bounds_nat_ivl [of "\<lambda>i. of_bool (bitset_test bs i)" a "8 * j" b]
    by (simp add: add.commute del: sum_of_bool_eq)
  also have "\<dots> = (\<Sum>k = a..<b. of_bool (bit (bs ! j) k))"
    using assms by (intro sum.cong) (auto simp: bitset_test_in_bucket)
  finally show ?thesis .
qed

lemma buckets_sum:
  "m \<le> n \<Longrightarrow> (\<Sum>i = 8 * m..<8 * n. of_bool (bitset_test bs i)) =
    ((\<Sum>j = m..<n. popcount_byte (bs ! j)) :: nat)"
proof (induction rule: dec_induct)
  case (step n)
  have "(\<Sum>i = 8 * m..<8 * Suc n. of_bool (bitset_test bs i)) =
      (\<Sum>i = 8 * m..<8 * n. of_bool (bitset_test bs i)) +
      ((\<Sum>i = 8 * n + 0..<8 * n + 8. of_bool (bitset_test bs i)) :: nat)"
    using step.hyps by (simp add: sum.atLeastLessThan_concat add.commute del: sum_of_bool_eq)
  also have "\<dots> = (\<Sum>j = m..<Suc n. popcount_byte (bs ! j))"
    using step by (simp only: bucket_sum [OF order_refl] popcount_byte_sum [symmetric]) simp
  finally show ?case .
qed simp

lemma bitset_count_buckets_spec:
  "f < t \<Longrightarrow> t < length bs \<Longrightarrow>
    bitset_count_buckets bs r f t = r + (\<Sum>j = Suc f..<t. popcount_byte (bs ! j))"
proof (induction bs r f t rule: bitset_count_buckets.induct)
  case (1 bs r f t)
  show ?case
  proof (cases "f + 1 = t")
    case True
    then show ?thesis by (simp add: bitset_count_buckets.simps [of bs r f t])
  next
    case False
    with "1.prems" have g: "\<not> (f + 1 = t \<or> length bs \<le> f + 1)" "f + 1 < t" by auto
    have eq: "bitset_count_buckets bs r f t =
        bitset_count_buckets bs (r + popcount_byte (bs ! (f + 1))) (f + 1) t"
      using g(1) by (subst bitset_count_buckets.simps) (simp add: Let_def)
    show ?thesis
      unfolding eq "1.IH" [OF refl g "1.prems"(2)]
      using g(2) by (simp add: sum.atLeast_Suc_lessThan)
  qed
qed

lemma bitset_count_range_sum:
  assumes "f \<le> t" "t div 8 < length bs"
  shows "bitset_count_range bs f t = (\<Sum>i = f..<Suc t. of_bool (bitset_test bs i))"
proof -
  have t: "8 * (t div 8) + Suc (t mod 8) = Suc t" by auto
  from assms(1) show ?thesis
  proof (cases rule: bitset_range_cases)
    case same
    have "(\<Sum>i = f..<Suc t. of_bool (bitset_test bs i)) =
        ((\<Sum>i = 8 * (f div 8) + f mod 8..<8 * (f div 8) + Suc (t mod 8). of_bool (bitset_test bs i)) :: nat)"
      unfolding same(1) t by (simp only: mult_div_mod_eq same(1) [symmetric])
    also have "\<dots> = (\<Sum>k = f mod 8..<Suc (t mod 8). of_bool (bit (bs ! (f div 8)) k))"
      by (rule bucket_sum) (simp add: Suc_leI)
    finally show ?thesis
      using same by (simp add: bitset_count_range_def Let_def CHAR_BIT_def popcount_byte_mask)
  next
    case diff
    have "f \<le> 8 * Suc (f div 8)" using dividend_less_times_div [of 8 f] by simp
    moreover have "8 * Suc (f div 8) \<le> 8 * (t div 8)" using diff by (intro mult_le_mono2 Suc_leI)
    moreover have "8 * (t div 8) \<le> Suc t" by simp
    ultimately have bounds: "f \<le> 8 * Suc (f div 8)" "8 * Suc (f div 8) \<le> 8 * (t div 8)"
      "8 * (t div 8) \<le> Suc t" "f \<le> 8 * (t div 8)" by (blast intro: order_trans)+
    have "(\<Sum>i = f..<Suc t. of_bool (bitset_test bs i)) =
        (\<Sum>i = f..<8 * Suc (f div 8). of_bool (bitset_test bs i)) +
        (\<Sum>i = 8 * Suc (f div 8)..<8 * (t div 8). of_bool (bitset_test bs i)) +
        ((\<Sum>i = 8 * (t div 8)..<Suc t. of_bool (bitset_test bs i)) :: nat)"
      using sum.atLeastLessThan_concat [of f "8 * Suc (f div 8)" "8 * (t div 8)"
          "\<lambda>i. of_bool (bitset_test bs i) :: nat"]
        sum.atLeastLessThan_concat [of f "8 * (t div 8)" "Suc t"
          "\<lambda>i. of_bool (bitset_test bs i) :: nat"] bounds
      by (simp del: sum.op_ivl_Suc sum_of_bool_eq mult_Suc_right)
    also have "(\<Sum>i = f..<8 * Suc (f div 8). of_bool (bitset_test bs i)) =
        ((\<Sum>k = f mod 8..<Suc 7. of_bool (bit (bs ! (f div 8)) k)) :: nat)"
      using bucket_sum [of "Suc 7" bs "f div 8" "f mod 8"]
      by (simp add: add.commute del: sum.op_ivl_Suc sum_of_bool_eq)
    also have "(\<Sum>i = 8 * (t div 8)..<Suc t. of_bool (bitset_test bs i)) =
        ((\<Sum>k = 0..<Suc (t mod 8). of_bool (bit (bs ! (t div 8)) k)) :: nat)"
      using bucket_sum [of "Suc (t mod 8)" bs "t div 8" 0]
      by (simp only: t add_0_right Suc_leI mod_less_divisor zero_less_numeral)
    also have "(\<Sum>i = 8 * Suc (f div 8)..<8 * (t div 8). of_bool (bitset_test bs i)) =
        ((\<Sum>j = Suc (f div 8)..<t div 8. popcount_byte (bs ! j)) :: nat)"
      using diff by (intro buckets_sum Suc_leI)
    also have "(\<Sum>k = f mod 8..<Suc 7. of_bool (bit (bs ! (f div 8)) k)) =
        popcount_byte (bs ! (f div 8) AND bitset_char_mask ! (f mod 8) ! 7)"
      by (rule popcount_byte_mask [symmetric]) auto
    also have "(\<Sum>k = 0..<Suc (t mod 8). of_bool (bit (bs ! (t div 8)) k)) =
        popcount_byte (bs ! (t div 8) AND bitset_char_mask ! 0 ! (t mod 8))"
      by (rule popcount_byte_mask [symmetric]) auto
    finally show ?thesis
      using diff assms(2)
      by (simp add: bitset_count_range_def Let_def CHAR_BIT_def
          bitset_count_buckets_spec del: sum.op_ivl_Suc sum_of_bool_eq)
  qed
qed

lemma bitset_count_range_card:
  assumes "f \<le> t" "t div 8 < length bs"
  shows "bitset_count_range bs f t = card {i. f \<le> i \<and> i \<le> t \<and> bitset_test bs i}"
proof -
  have "{i. f \<le> i \<and> i \<le> t \<and> bitset_test bs i} = {f..<Suc t} \<inter> {i. bitset_test bs i}" by auto
  then show ?thesis
    unfolding bitset_count_range_sum [OF assms] by (simp del: sum.op_ivl_Suc)
qed

subsection \<open>The contract the allocation tree relies on\<close>

text \<open>What a client of the bitset may use: every operation is described by its effect on single
  positions, for positions inside the buffer (\<open>cap\<close> is the number of positions of the buffer).\<close>

locale bitset_laws =
  fixes cap :: "'b \<Rightarrow> nat"
    and test :: "'b \<Rightarrow> nat \<Rightarrow> bool"
    and set_bits :: "'b \<Rightarrow> nat \<Rightarrow> nat \<Rightarrow> 'b"
    and clear_bits :: "'b \<Rightarrow> nat \<Rightarrow> nat \<Rightarrow> 'b"
    and count_bits :: "'b \<Rightarrow> nat \<Rightarrow> nat \<Rightarrow> nat"
  assumes cap_set_bits: "f \<le> t \<Longrightarrow> t < cap b \<Longrightarrow> cap (set_bits b f t) = cap b"
    and cap_clear_bits: "f \<le> t \<Longrightarrow> t < cap b \<Longrightarrow> cap (clear_bits b f t) = cap b"
    and test_set_bits: "f \<le> t \<Longrightarrow> t < cap b \<Longrightarrow>
      test (set_bits b f t) q \<longleftrightarrow> test b q \<or> f \<le> q \<and> q \<le> t"
    and test_clear_bits: "f \<le> t \<Longrightarrow> t < cap b \<Longrightarrow>
      test (clear_bits b f t) q \<longleftrightarrow> test b q \<and> \<not> (f \<le> q \<and> q \<le> t)"
    and count_bits_card: "f \<le> t \<Longrightarrow> t < cap b \<Longrightarrow>
      count_bits b f t = card {i. f \<le> i \<and> i \<le> t \<and> test b i}"
begin

text \<open>A slot is \<open>w\<close> consecutive positions holding a number in unary.\<close>

definition slot_write :: "'b \<Rightarrow> nat \<Rightarrow> nat \<Rightarrow> nat \<Rightarrow> 'b" where
  "slot_write b l w v =
     (let c = clear_bits b l (l + w - 1) in if v = 0 then c else set_bits c l (l + v - 1))"

lemma cap_slot_write:
  assumes "0 < w" "l + w \<le> cap b" "v \<le> w"
  shows "cap (slot_write b l w v) = cap b"
  using assms by (simp add: slot_write_def Let_def cap_clear_bits cap_set_bits)

lemma test_slot_write:
  assumes "0 < w" "l + w \<le> cap b" "v \<le> w"
  shows "test (slot_write b l w v) q \<longleftrightarrow> (if l \<le> q \<and> q < l + w then q < l + v else test b q)"
  using assms
  by (auto simp: slot_write_def Let_def test_clear_bits test_set_bits cap_clear_bits)

lemma slot_write_read:
  assumes "0 < w" "l + w \<le> cap b" "v \<le> w"
  shows "count_bits (slot_write b l w v) l (l + w - 1) = v"
proof -
  have "{i. l \<le> i \<and> i \<le> l + w - 1 \<and> test (slot_write b l w v) i} = {l..<l + v}"
    using assms by (auto simp: test_slot_write)
  then show ?thesis
    using assms by (simp add: count_bits_card cap_slot_write)
qed

lemma slot_read_other:
  assumes "0 < w" "l + w \<le> cap b" "v \<le> w"
    and "f \<le> t" "t < cap b" "t < l \<or> l + w \<le> f"
  shows "count_bits (slot_write b l w v) f t = count_bits b f t"
proof -
  have "{i. f \<le> i \<and> i \<le> t \<and> test (slot_write b l w v) i} = {i. f \<le> i \<and> i \<le> t \<and> test b i}"
    using assms by (auto simp: test_slot_write)
  then show ?thesis using assms by (simp add: count_bits_card cap_slot_write)
qed

lemma count_bits_le:
  assumes "f \<le> t" "t < cap b"
  shows "count_bits b f t \<le> t - f + 1"
proof -
  have "card {i. f \<le> i \<and> i \<le> t \<and> test b i} \<le> card {f..t}"
    by (rule card_mono) auto
  with assms show ?thesis by (simp add: count_bits_card)
qed

end

interpretation byte_bits: bitset_laws "\<lambda>b. 8 * length b" bitset_test
  "\<lambda>b f t. fst (bitset_set_range b f t)" "\<lambda>b f t. fst (bitset_clear_range b f t)" bitset_count_range
proof unfold_locales
  fix f t q :: nat and b :: bitset
  assume ft: "f \<le> t" and t: "t < 8 * length b"
  then have tb: "t div 8 < length b" by (simp add: less_mult_imp_div_less mult.commute)
  show "8 * length (fst (bitset_set_range b f t)) = 8 * length b"
    using bitset_set_range_spec [OF ft tb] by simp
  show "8 * length (fst (bitset_clear_range b f t)) = 8 * length b"
    using bitset_clear_range_spec [OF ft tb] by simp
  show "bitset_test (fst (bitset_set_range b f t)) q \<longleftrightarrow> bitset_test b q \<or> f \<le> q \<and> q \<le> t"
    using bitset_set_range_spec [OF ft tb] by blast
  show "bitset_test (fst (bitset_clear_range b f t)) q \<longleftrightarrow> bitset_test b q \<and> \<not> (f \<le> q \<and> q \<le> t)"
    using bitset_clear_range_spec [OF ft tb] by blast
  show "bitset_count_range b f t = card {i. f \<le> i \<and> i \<le> t \<and> bitset_test b i}"
    using bitset_count_range_card [OF ft tb] .
qed

subsection \<open>Range operations agree with single-bit tests\<close>

text \<open>On a range of positions inside the buffer, \<open>bitset_set_range\<close> sets and
  \<open>bitset_clear_range\<close> clears exactly the positions of the range, both keep the size of the buffer,
  and \<open>bitset_count_range\<close> returns the number of positions of the range that are set.\<close>

lemma bitset_range_ops:
  assumes "from_pos \<le> to_pos" "to_pos < 8 * length bitset"
  shows "(\<forall>q. bitset_test (fst (bitset_set_range bitset from_pos to_pos)) q \<longleftrightarrow>
      bitset_test bitset q \<or> q \<in> {from_pos..to_pos})
    \<and> (\<forall>q. bitset_test (fst (bitset_clear_range bitset from_pos to_pos)) q \<longleftrightarrow>
      bitset_test bitset q \<and> q \<notin> {from_pos..to_pos})
    \<and> length (fst (bitset_set_range bitset from_pos to_pos)) = length bitset
    \<and> length (fst (bitset_clear_range bitset from_pos to_pos)) = length bitset
    \<and> bitset_count_range bitset from_pos to_pos = card {q \<in> {from_pos..to_pos}. bitset_test bitset q}"
  using byte_bits.test_set_bits [OF assms] byte_bits.test_clear_bits [OF assms]
    byte_bits.cap_set_bits [OF assms] byte_bits.cap_clear_bits [OF assms]
    byte_bits.count_bits_card [OF assms]
  by (auto simp: conj_assoc)

end
