(* ===== verification/Buddy_Bits.thy ===== *)
theory Buddy_Bits
  imports Prelude
begin

text \<open>
  The bit arithmetic at the bottom of \<^verbatim>\<open>src/src/buddy/include/buddy_alloc.h\<close>:
  \<open>highest_bit_position\<close>, \<open>ceiling_power_of_two\<close>, and the two functions of the allocator that only
  use them, \<open>is_valid_alignment\<close> and \<open>buddy_tree_order_for_memory\<close>. The table-driven search is
  shown to be the length of the binary numeral for every 64-bit value.
\<close>

subsection \<open>Definitions\<close>

definition all_set :: "nat list" where
  "all_set = [4294967295, 65535, 255, 15, 7, 3, 1]"

definition shift_count :: "nat list" where
  "shift_count = [32, 16, 8, 4, 2, 1, 1]"

fun highest_bit_loop :: "(nat \<times> nat) list \<Rightarrow> nat \<Rightarrow> nat \<Rightarrow> nat" where
  "highest_bit_loop [] result val = result + val"
| "highest_bit_loop ((s, c) # rest) result val =
     (if s \<le> val then highest_bit_loop rest (result + c) (val div 2 ^ c)
      else highest_bit_loop rest result val)"

definition highest_bit_position :: "nat \<Rightarrow> nat" where
  "highest_bit_position val = highest_bit_loop (zip all_set shift_count) 0 val"

text \<open>\<open>val + val - 1\<close> wraps at \<open>2 ^ 64\<close>; the shift is a \<open>size_t\<close> shift.\<close>

definition ceiling_power_of_two :: "nat \<Rightarrow> nat" where
  "ceiling_power_of_two val =
     (let val = (if val = 0 then 1 else val)
      in 2 ^ (highest_bit_position ((val + val + (2 ^ 64 - 1)) mod 2 ^ 64) - 1))"

definition is_valid_alignment :: "nat \<Rightarrow> bool" where
  "is_valid_alignment alignment \<longleftrightarrow> ceiling_power_of_two alignment = alignment"

definition buddy_tree_order_for_memory :: "nat \<Rightarrow> nat \<Rightarrow> nat" where
  "buddy_tree_order_for_memory memory_size alignment =
     highest_bit_position (ceiling_power_of_two (memory_size div alignment))"

subsection \<open>The search finds the highest bit\<close>

text \<open>What is left of the value at the end of the table.\<close>

fun highest_bit_rest :: "(nat \<times> nat) list \<Rightarrow> nat \<Rightarrow> nat" where
  "highest_bit_rest [] v = v"
| "highest_bit_rest ((s, c) # xs) v = highest_bit_rest xs (if s \<le> v then v div 2 ^ c else v)"

lemma highest_bit_loop_correct:
  "\<forall>(s, c) \<in> set xs. 2 ^ c - 1 \<le> s \<Longrightarrow> highest_bit_rest xs v \<le> 1 \<Longrightarrow>
    highest_bit_loop xs r v = r + bit_length v"
proof (induction xs r v rule: highest_bit_loop.induct)
  case (1 r v)
  then have "v = 0 \<or> v = 1" by auto
  then show ?case by auto
next
  case (2 s c rest r v)
  then show ?case using bit_length_drop [of c v] by auto
qed

lemma highest_bit_rest_le_1:
  assumes "v < 2 ^ 64"
  shows "highest_bit_rest (zip all_set shift_count) v \<le> 1"
proof -
  define step where "step s c v = (if s \<le> v then v div 2 ^ c else v)" for s c v :: nat
  have "step 4294967295 32 v < 2 ^ 32" using assms by (auto simp: step_def)
  then have "step 65535 16 (step 4294967295 32 v) < 2 ^ 16" (is "?v2 < _")
    unfolding step_def [of 65535] by auto
  then have "step 255 8 ?v2 < 2 ^ 8" (is "?v3 < _") unfolding step_def [of 255] by auto
  then have "step 15 4 ?v3 < 16" (is "?v4 < _") unfolding step_def [of 15] by auto
  then have "step 7 2 ?v4 < 7" (is "?v5 < _") unfolding step_def [of 7] by auto
  then have "step 3 1 ?v5 < 4" (is "?v6 < _") unfolding step_def [of 3] by auto
  then have "step 1 1 ?v6 \<le> 1" unfolding step_def [of 1] by auto
  then show ?thesis
    unfolding step_def all_set_def shift_count_def zip_Cons_Cons zip_Nil highest_bit_rest.simps .
qed

lemma highest_bit_position_eq:
  assumes "v < 2 ^ 64"
  shows "highest_bit_position v = bit_length v"
proof -
  have "\<forall>(s, c) \<in> set (zip all_set shift_count). 2 ^ c - 1 \<le> s"
    by (simp add: all_set_def shift_count_def)
  from highest_bit_loop_correct [OF this highest_bit_rest_le_1 [OF assms]]
  show ?thesis by (simp add: highest_bit_position_def)
qed

subsection \<open>Rounding up to a power of two\<close>

lemma ceiling_power_of_two_eq:
  assumes "0 < v" "v \<le> 2 ^ 63"
  shows "ceiling_power_of_two v = 2 ^ (bit_length (2 * v - 1) - 1)"
proof -
  have "(v + v + (2 ^ 64 - 1)) mod 2 ^ 64 = 2 * v - 1"
  proof -
    have "v + v + (2 ^ 64 - 1) = (2 * v - 1) + 2 ^ 64" using assms(1) by simp
    moreover have "2 * v - 1 < 2 ^ 64" using assms by simp
    ultimately show ?thesis by (metis mod_add_self2 mod_less)
  qed
  moreover have "2 * v - 1 < 2 ^ 64" using assms by simp
  ultimately show ?thesis
    using assms by (simp add: ceiling_power_of_two_def highest_bit_position_eq)
qed

lemma ceiling_power_of_two_bounds:
  assumes "0 < v" "v \<le> 2 ^ 63"
  shows "v \<le> ceiling_power_of_two v" "ceiling_power_of_two v < 2 * v"
proof -
  define b where "b = bit_length (2 * v - 1)"
  have pos: "0 < 2 * v - 1" using assms by simp
  then have b: "2 ^ (b - 1) \<le> 2 * v - 1" "2 * v - 1 < 2 ^ b" "0 < b"
    using bit_length_bounds [of "2 * v - 1"] bit_length_pos [of "2 * v - 1"] by (auto simp: b_def)
  then have "(2::nat) ^ b = 2 * 2 ^ (b - 1)" by (cases b) auto
  with b have "v \<le> 2 ^ (b - 1)" "2 ^ (b - 1) < 2 * v" by linarith+
  then show "v \<le> ceiling_power_of_two v" "ceiling_power_of_two v < 2 * v"
    by (simp_all add: ceiling_power_of_two_eq [OF assms] b_def)
qed

lemma ceiling_power_of_two_is_power: "\<exists>k. ceiling_power_of_two v = 2 ^ k"
  by (auto simp: ceiling_power_of_two_def)

lemma ceiling_power_of_two_power:
  assumes "k \<le> 63"
  shows "ceiling_power_of_two (2 ^ k) = 2 ^ k"
proof -
  have le: "(2::nat) ^ k \<le> 2 ^ 63" using assms by (intro power_increasing) auto
  have "2 ^ k \<le> 2 * 2 ^ k - (1::nat)" "2 * 2 ^ k - (1::nat) < 2 ^ Suc k" by simp_all
  then have "bit_length (2 * 2 ^ k - 1) = Suc k" by (rule bit_length_eqI)
  then show ?thesis using ceiling_power_of_two_eq [OF _ le] by simp
qed

text \<open>A valid alignment is a power of two; nothing else is.\<close>

lemma is_valid_alignment_iff:
  assumes "a \<le> 2 ^ 63"
  shows "is_valid_alignment a \<longleftrightarrow> (\<exists>k. a = 2 ^ k)"
proof
  assume "is_valid_alignment a"
  then show "\<exists>k. a = 2 ^ k"
    using ceiling_power_of_two_is_power [of a] by (simp add: is_valid_alignment_def)
next
  assume "\<exists>k. a = 2 ^ k"
  then obtain k where k: "a = 2 ^ k" by blast
  with assms have "(2::nat) ^ k \<le> 2 ^ 63" by (simp only:)
  then have "k \<le> 63" by (rule power_le_imp_le_exp [rotated]) simp
  then show "is_valid_alignment a"
    using ceiling_power_of_two_power [of k] by (simp add: is_valid_alignment_def k)
qed

text \<open>The power of two between \<open>v\<close> and \<open>2 * v\<close> is unique.\<close>

lemma power_two_unique:
  assumes "v \<le> 2 ^ i" "2 ^ i < 2 * v" "v \<le> 2 ^ j" "2 ^ j < 2 * (v::nat)"
  shows "i = j"
proof (rule ccontr)
  assume "i \<noteq> j"
  then consider "Suc i \<le> j" | "Suc j \<le> i" by linarith
  then show False
  proof cases
    case 1
    then have "(2::nat) ^ Suc i \<le> 2 ^ j" by (intro power_increasing) auto
    with assms show ?thesis by simp
  next
    case 2
    then have "(2::nat) ^ Suc j \<le> 2 ^ i" by (intro power_increasing) auto
    with assms show ?thesis by simp
  qed
qed

lemma ceiling_power_of_two_unique:
  assumes "0 < v" "v \<le> 2 ^ 63" "v \<le> 2 ^ k" "2 ^ k < 2 * v"
  shows "ceiling_power_of_two v = 2 ^ k"
proof -
  obtain j where j: "ceiling_power_of_two v = 2 ^ j" using ceiling_power_of_two_is_power by blast
  with power_two_unique [OF _ _ assms(3,4), of j] ceiling_power_of_two_bounds [OF assms(1,2)]
  show ?thesis by simp
qed

text \<open>With a power-of-two alignment that divides the memory, the tree of the computed order has
  exactly one leaf per alignment unit of the rounded-up memory.\<close>

lemma order_for_memory_leaves:
  assumes "0 < m" "m \<le> 2 ^ 63" "a = 2 ^ k" "a dvd m"
  shows "2 ^ (buddy_tree_order_for_memory m a - 1) * a = ceiling_power_of_two m"
    "0 < buddy_tree_order_for_memory m a"
proof -
  have am: "a * (m div a) = m" using assms(4) by simp
  have pos: "0 < m div a" using am assms(1) by (cases "m div a") auto
  have le: "m div a \<le> 2 ^ 63" using assms(2) div_le_dividend order_trans by blast
  obtain j where j: "ceiling_power_of_two (m div a) = 2 ^ j"
    using ceiling_power_of_two_is_power by blast
  note b = ceiling_power_of_two_bounds [OF pos le]
  have "2 ^ j < (2::nat) ^ 64" using b(2) le j by simp
  then have order: "buddy_tree_order_for_memory m a = Suc j"
    by (simp add: buddy_tree_order_for_memory_def j highest_bit_position_eq)
  have "m \<le> 2 ^ (j + k)" "2 ^ (j + k) < 2 * m"
  proof -
    have p: "a * 2 ^ j = 2 ^ (j + k)" by (simp add: assms(3) power_add)
    have "a * (m div a) \<le> a * 2 ^ j" using b(1) unfolding j by (rule mult_le_mono2)
    then show "m \<le> 2 ^ (j + k)" unfolding am p .
    have "0 < a" using assms(3) by simp
    with b(2) have "a * 2 ^ j < a * (2 * (m div a))" unfolding j by simp
    then show "2 ^ (j + k) < 2 * m" unfolding p mult.left_commute [of a] am .
  qed
  from ceiling_power_of_two_unique [OF assms(1,2) this] order
  show "2 ^ (buddy_tree_order_for_memory m a - 1) * a = ceiling_power_of_two m"
    "0 < buddy_tree_order_for_memory m a"
    by (simp_all add: assms(3) power_add)
qed

end
