(* ===== verification/Buddy_Tree.thy ===== *)
theory Buddy_Tree
  imports Bitset Buddy_Bits "HOL-Library.Code_Target_Nat"
begin

text \<open>
  The allocation tree of \<^verbatim>\<open>src/src/buddy/include/buddy_alloc.h\<close> (the functions named
  \<open>buddy_tree_...\<close>). A tree of order \<open>n\<close> has \<open>2 ^ n - 1\<close> nodes; node \<open>i\<close> (heap numbering, root \<open>1\<close>)
  owns a slot of \<open>n - depth + 1\<close> bits holding its status in unary: \<open>0\<close> is free, the full width is
  fully allocated, and a value \<open>k\<close> in between says that the nearest free block is \<open>k\<close> levels below.

  The record \<open>buddy_tree\<close> is the C struct: \<open>bt_data\<close> are the bytes of the flexible array
  \<^verbatim>\<open>data[]\<close>, which holds both the bits (from byte 0) and, as little-endian 64-bit words from word
  \<open>bt_size_for_order_offset\<close> on, the memoised row offsets. \<open>size_t\<close> values are naturals; indices,
  depths and offsets of a tree of order below 32 stay far from \<open>2 ^ 64\<close>, and the subtractions that
  could wrap are written with \<open>size_sub\<close>.
\<close>

subsection \<open>Positions\<close>

record buddy_tree_pos =
  index :: nat
  depth :: nat

definition INVALID_POS :: buddy_tree_pos where
  "INVALID_POS = \<lparr>index = 0, depth = 0\<rparr>"

record buddy_tree_interval =
  iv_from :: buddy_tree_pos
  iv_to :: buddy_tree_pos

record buddy_tree_walk_state =
  starting_pos :: buddy_tree_pos
  current_pos :: buddy_tree_pos
  going_up :: bool
  walk_done :: bool

record buddy_tree =
  bt_upper_pos_bound :: nat
  bt_size_for_order_offset :: nat
  bt_order :: nat
  bt_data :: "u8 list"

record internal_position =
  local_offset :: nat
  bitset_location :: nat

definition buddy_tree_root :: buddy_tree_pos where
  "buddy_tree_root = \<lparr>index = 1, depth = 1\<rparr>"

definition buddy_tree_valid :: "buddy_tree \<Rightarrow> buddy_tree_pos \<Rightarrow> bool" where
  "buddy_tree_valid t pos \<longleftrightarrow> index pos \<noteq> 0 \<and> index pos < bt_upper_pos_bound t"

definition buddy_tree_order :: "buddy_tree \<Rightarrow> nat" where
  "buddy_tree_order t = bt_order t"

definition buddy_tree_leftmost_child_internal :: "nat \<Rightarrow> buddy_tree_pos" where
  "buddy_tree_leftmost_child_internal tree_order =
     \<lparr>index = uint_shl1 (tree_order - 1), depth = tree_order\<rparr>"

definition buddy_tree_leftmost_child :: "buddy_tree \<Rightarrow> buddy_tree_pos" where
  "buddy_tree_leftmost_child t = buddy_tree_leftmost_child_internal (bt_order t)"

definition buddy_tree_depth :: "buddy_tree_pos \<Rightarrow> nat" where
  "buddy_tree_depth pos = depth pos"

definition buddy_tree_left_child :: "buddy_tree_pos \<Rightarrow> buddy_tree_pos" where
  "buddy_tree_left_child pos = \<lparr>index = index pos * 2, depth = depth pos + 1\<rparr>"

definition buddy_tree_right_child :: "buddy_tree_pos \<Rightarrow> buddy_tree_pos" where
  "buddy_tree_right_child pos = \<lparr>index = index pos * 2 + 1, depth = depth pos + 1\<rparr>"

definition buddy_tree_sibling :: "buddy_tree_pos \<Rightarrow> buddy_tree_pos" where
  "buddy_tree_sibling pos = pos \<lparr>index := index pos XOR 1\<rparr>"

definition buddy_tree_parent :: "buddy_tree_pos \<Rightarrow> buddy_tree_pos" where
  "buddy_tree_parent pos = \<lparr>index = index pos div 2, depth = size_sub (depth pos) 1\<rparr>"

definition buddy_tree_right_adjacent :: "buddy_tree_pos \<Rightarrow> buddy_tree_pos" where
  "buddy_tree_right_adjacent pos =
     (if index pos < ((index pos + 1) XOR index pos) then INVALID_POS
      else pos \<lparr>index := index pos + 1\<rparr>)"

text \<open>\<^verbatim>\<open>pos.index & ~(1u << (pos.depth - 1u))\<close>: the mask has one bit, for depths from 1 to 32.\<close>

definition buddy_tree_index_internal :: "buddy_tree_pos \<Rightarrow> nat" where
  "buddy_tree_index_internal pos = unset_bit (depth pos - 1) (index pos)"

definition buddy_tree_index :: "buddy_tree_pos \<Rightarrow> nat" where
  "buddy_tree_index pos = buddy_tree_index_internal pos"

subsection \<open>Row offsets and their memo table\<close>

text \<open>The loop counts the 8-bit \<open>order\<close> down to \<open>to\<close>; the arguments are converted to \<open>uint8_t\<close> at
  the call, and the \<open>size_t\<close> accumulators wrap.\<close>

function size_for_order_loop :: "nat \<Rightarrow> nat \<Rightarrow> u8 \<Rightarrow> u8 \<Rightarrow> nat" where
  "size_for_order_loop result multi ord to =
     (if ord = to then result
      else size_for_order_loop ((result + unat ord * multi) mod 2 ^ 64) (multi * 2 mod 2 ^ 64)
             (ord - 1) to)"
  by pat_completeness auto
termination
proof (relation "measure (\<lambda>(result, multi, ord, to). unat (ord - to))", goal_cases)
  case (2 result multi ord to)
  then have "ord - to \<noteq> 0" by simp
  then have "1 \<le> ord - to" "0 < unat (ord - to)"
    by (simp_all add: word_le_nat_alt unat_gt_0 Suc_leI)
  then have "unat (ord - to - 1) < unat (ord - to)" by (simp add: unat_sub)
  then show ?case by (simp add: algebra_simps)
qed auto

declare size_for_order_loop.simps [simp del]

definition size_for_order :: "nat \<Rightarrow> nat \<Rightarrow> nat" where
  "size_for_order ord to = size_for_order_loop 0 1 (word_of_nat ord) (word_of_nat to)"

definition buddy_tree_size_for_order :: "buddy_tree \<Rightarrow> nat \<Rightarrow> nat" where
  "buddy_tree_size_for_order t to = load64 (bt_data t) (8 * (bt_size_for_order_offset t + to))"

definition buddy_tree_internal_position_order :: "nat \<Rightarrow> buddy_tree_pos \<Rightarrow> internal_position" where
  "buddy_tree_internal_position_order tree_order pos =
     (let lo = size_sub (tree_order + 1) (buddy_tree_depth pos);
          total_offset = size_for_order tree_order lo;
          local_index = buddy_tree_index_internal pos
      in \<lparr>local_offset = lo, bitset_location = total_offset + lo * local_index\<rparr>)"

definition buddy_tree_internal_position_tree :: "buddy_tree \<Rightarrow> buddy_tree_pos \<Rightarrow> internal_position" where
  "buddy_tree_internal_position_tree t pos =
     (let lo = size_sub (bt_order t + 1) (buddy_tree_depth pos);
          total_offset = buddy_tree_size_for_order t lo;
          local_index = buddy_tree_index_internal pos
      in \<lparr>local_offset = lo, bitset_location = total_offset + lo * local_index\<rparr>)"

text \<open>\<open>sizeof(struct buddy_tree)\<close>: two \<open>size_t\<close>, one byte and its padding.\<close>

definition sizeof_struct_buddy_tree :: nat where
  "sizeof_struct_buddy_tree = 24"

definition buddy_tree_bitset_bytes :: "nat \<Rightarrow> nat" where
  "buddy_tree_bitset_bytes ord =
     (let n = bitset_sizeof (size_for_order ord 0) in if n mod 8 \<noteq> 0 then n + n mod 8 else n)"

definition buddy_tree_sizeof :: "nat \<Rightarrow> nat" where
  "buddy_tree_sizeof ord = sizeof_struct_buddy_tree + buddy_tree_bitset_bytes ord + (ord + 2) * 8"

fun populate_loop :: "nat \<Rightarrow> nat \<Rightarrow> u8 list \<Rightarrow> nat list \<Rightarrow> u8 list" where
  "populate_loop ord off data [] = data"
| "populate_loop ord off data (i # is) =
     populate_loop ord off (store64 data (8 * (off + i)) (size_for_order ord i)) is"

definition buddy_tree_populate_size_for_order :: "buddy_tree \<Rightarrow> buddy_tree" where
  "buddy_tree_populate_size_for_order t =
     (let off = buddy_tree_bitset_bytes (bt_order t) div 8 + 1
      in t \<lparr>bt_size_for_order_offset := off,
            bt_data := populate_loop (bt_order t) off (bt_data t) [0..<bt_order t + 1]\<rparr>)"

text \<open>\<open>buddy_tree_init\<close> clears the memory handed to it and builds the empty tree there; the result
  also carries the size it reports through its out-parameter.\<close>

definition buddy_tree_init :: "nat \<Rightarrow> buddy_tree \<times> nat" where
  "buddy_tree_init ord =
     (let size = buddy_tree_sizeof ord;
          t = \<lparr>bt_upper_pos_bound = uint_shl1 ord, bt_size_for_order_offset = 0, bt_order = ord,
               bt_data = replicate (size - sizeof_struct_buddy_tree) 0\<rparr>
      in (buddy_tree_populate_size_for_order t, size))"

subsection \<open>Slots\<close>

text \<open>\<open>write_to_internal_position\<close> returns the new bits and the byte range \<open>(start, length)\<close> it flushes
  from the CPU cache.\<close>

definition write_to_internal_position ::
  "bitset \<Rightarrow> internal_position \<Rightarrow> nat \<Rightarrow> bitset \<times> (nat \<times> nat)" where
  "write_to_internal_position bitset pos v =
     (let (cleared, clear_rng) = bitset_clear_range bitset (bitset_location pos)
            (bitset_location pos + local_offset pos - 1);
          (result, to) =
            (if v \<noteq> 0 then
               let (written, set_rng) = bitset_set_range cleared (bitset_location pos)
                     (bitset_location pos + v - 1)
               in (written, if br_to clear_rng < br_to set_rng then br_to set_rng else br_to clear_rng)
             else (cleared, br_to clear_rng))
      in (result, (br_from clear_rng, to - br_from clear_rng + 1)))"

definition read_from_internal_position :: "bitset \<Rightarrow> internal_position \<Rightarrow> nat" where
  "read_from_internal_position bitset pos =
     (if \<not> bitset_test bitset (bitset_location pos) then 0
      else bitset_count_range bitset (bitset_location pos)
             (bitset_location pos + local_offset pos - 1))"

definition compare_with_internal_position :: "bitset \<Rightarrow> internal_position \<Rightarrow> nat \<Rightarrow> bool" where
  "compare_with_internal_position bitset pos v = bitset_test bitset (bitset_location pos + v - 1)"

definition buddy_tree_status :: "buddy_tree \<Rightarrow> buddy_tree_pos \<Rightarrow> nat" where
  "buddy_tree_status t pos =
     read_from_internal_position (bt_data t) (buddy_tree_internal_position_tree t pos)"

subsection \<open>Intervals and walks\<close>

function interval_loop :: "nat \<Rightarrow> buddy_tree_interval \<Rightarrow> nat \<Rightarrow> buddy_tree_interval" where
  "interval_loop ord iv d =
     (if ord \<le> d then iv
      else interval_loop ord \<lparr>iv_from = buddy_tree_left_child (iv_from iv),
                              iv_to = buddy_tree_right_child (iv_to iv)\<rparr> (d + 1))"
  by pat_completeness auto
termination by (relation "measure (\<lambda>(ord, iv, d). ord - d)") auto

declare interval_loop.simps [simp del]

text \<open>The C loop runs while \<^verbatim>\<open>depth != t->order\<close>; for the positions it is called on the depth
  starts at most at the order.\<close>

definition buddy_tree_interval_of :: "buddy_tree \<Rightarrow> buddy_tree_pos \<Rightarrow> buddy_tree_interval" where
  "buddy_tree_interval_of t pos = interval_loop (bt_order t) \<lparr>iv_from = pos, iv_to = pos\<rparr> (depth pos)"

definition buddy_tree_interval_contains :: "buddy_tree_interval \<Rightarrow> buddy_tree_interval \<Rightarrow> bool" where
  "buddy_tree_interval_contains outer inner \<longleftrightarrow>
     index (iv_from outer) \<le> index (iv_from inner) \<and> index (iv_from inner) \<le> index (iv_to outer)
     \<and> index (iv_from outer) \<le> index (iv_to inner) \<and> index (iv_to inner) \<le> index (iv_to outer)"

definition buddy_tree_walk_state_root :: buddy_tree_walk_state where
  "buddy_tree_walk_state_root =
     \<lparr>starting_pos = buddy_tree_root, current_pos = buddy_tree_root, going_up = False, walk_done = False\<rparr>"

text \<open>One round of the \<^verbatim>\<open>do ... while (state->going_up)\<close> loop, and the loop.\<close>

definition walk_round :: "buddy_tree \<Rightarrow> buddy_tree_walk_state \<Rightarrow> buddy_tree_walk_state" where
  "walk_round t state =
     (if going_up state then
        (if index (current_pos state) = index (starting_pos state) then
           state \<lparr>walk_done := True, going_up := False\<rparr>
         else if odd (index (current_pos state)) then
           state \<lparr>current_pos := buddy_tree_parent (current_pos state)\<rparr>
         else
           state \<lparr>current_pos := buddy_tree_right_adjacent (current_pos state), going_up := False\<rparr>)
      else if buddy_tree_valid t (buddy_tree_left_child (current_pos state)) then
        state \<lparr>current_pos := buddy_tree_left_child (current_pos state)\<rparr>
      else state \<lparr>going_up := True\<rparr>)"

function buddy_tree_walk :: "buddy_tree \<Rightarrow> buddy_tree_walk_state \<Rightarrow> bool \<times> buddy_tree_walk_state" where
  "buddy_tree_walk t state =
     (let state' = walk_round t state
      in if going_up state' then buddy_tree_walk t state' else (\<not> walk_done state', state'))"
  by pat_completeness auto
termination
  by (relation "measure (\<lambda>(t, st). 2 * index (current_pos st) + (if going_up st then 0 else 1))")
    (auto simp: walk_round_def buddy_tree_parent_def elim: oddE split: if_splits)

declare buddy_tree_walk.simps [simp del]

subsection \<open>Allocation\<close>

text \<open>\<open>update_parent_chain\<close> recomputes the ancestors from the node upwards and stops at the first that
  does not change. Index 0 is no position of a tree; no caller passes it.\<close>

function update_parent_chain ::
  "buddy_tree \<Rightarrow> buddy_tree_pos \<Rightarrow> internal_position \<Rightarrow> nat \<Rightarrow> buddy_tree" where
  "update_parent_chain t pos pos_internal size_current =
     (if index pos \<le> 1 then t
      else
        let sibling_internal = pos_internal
              \<lparr>bitset_location := size_sub (bitset_location pos_internal + local_offset pos_internal)
                 (2 * local_offset pos_internal * (index pos AND 1))\<rparr>;
            size_sibling = read_from_internal_position (bt_data t) sibling_internal;
            pos' = buddy_tree_parent pos;
            pos_internal' = buddy_tree_internal_position_tree t pos';
            size_parent = read_from_internal_position (bt_data t) pos_internal';
            target_parent = (if size_current \<noteq> 0 \<or> size_sibling \<noteq> 0 then 1 else 0)
              * ((if size_current \<le> size_sibling then size_current else size_sibling) + 1)
        in if target_parent = size_parent then t
           else
             update_parent_chain
               (t \<lparr>bt_data := fst (write_to_internal_position (bt_data t) pos_internal' target_parent)\<rparr>)
               pos' pos_internal' target_parent)"
  by pat_completeness auto
termination
  by (relation "measure (\<lambda>(t, pos, _). index pos)") (auto simp: buddy_tree_parent_def)

declare update_parent_chain.simps [simp del]

definition buddy_tree_mark :: "buddy_tree \<Rightarrow> buddy_tree_pos \<Rightarrow> buddy_tree" where
  "buddy_tree_mark t pos =
     (let internal = buddy_tree_internal_position_tree t pos;
          t' = t \<lparr>bt_data := fst (write_to_internal_position (bt_data t) internal (local_offset internal))\<rparr>
      in update_parent_chain t' pos internal (local_offset internal))"

definition buddy_tree_release :: "buddy_tree \<Rightarrow> buddy_tree_pos \<Rightarrow> buddy_tree" where
  "buddy_tree_release t pos =
     (let internal = buddy_tree_internal_position_tree t pos
      in if read_from_internal_position (bt_data t) internal \<noteq> local_offset internal then t
         else
           let t' = t \<lparr>bt_data := fst (write_to_internal_position (bt_data t) internal 0)\<rparr>
           in update_parent_chain t' pos internal 0)"

text \<open>The descent of \<open>buddy_tree_find_free\<close>, from \<open>current_depth\<close> down to \<open>target_depth\<close>.\<close>

function find_free_loop :: "buddy_tree \<Rightarrow> buddy_tree_pos \<Rightarrow> nat \<Rightarrow> nat \<Rightarrow> nat \<Rightarrow> buddy_tree_pos" where
  "find_free_loop t cur target_status current_depth target_depth =
     (if target_depth \<le> current_depth then cur
      else
        let target_status = target_status - 1;
            left_pos = buddy_tree_left_child cur;
            right_pos = buddy_tree_sibling left_pos;
            left_internal = buddy_tree_internal_position_tree t left_pos;
            right_internal = left_internal
              \<lparr>bitset_location := bitset_location left_internal + local_offset left_internal\<rparr>;
            cur =
              (if compare_with_internal_position (bt_data t) left_internal (target_status + 1) then right_pos
               else if compare_with_internal_position (bt_data t) right_internal (target_status + 1) then left_pos
               else
                 let right_status = read_from_internal_position (bt_data t)
                       (right_internal \<lparr>local_offset := target_status\<rparr>)
                 in if right_status \<noteq> 0 then
                      if compare_with_internal_position (bt_data t) left_internal right_status
                      then left_pos else right_pos
                    else left_pos)
        in find_free_loop t cur target_status (current_depth + 1) target_depth)"
  by pat_completeness auto
termination
  by (relation "measure (\<lambda>(t, cur, ts, cd, td). td - cd)") auto

declare find_free_loop.simps [simp del]

text \<open>The target depth is at least 1 and at most 255 at every call, so \<open>target_status\<close>, a
  \<open>uint8_t\<close> that counts down to 0, does not wrap.\<close>

definition buddy_tree_find_free :: "buddy_tree \<Rightarrow> nat \<Rightarrow> buddy_tree_pos" where
  "buddy_tree_find_free t target_depth =
     (let target_status = target_depth - 1
      in if target_status < buddy_tree_status t buddy_tree_root then INVALID_POS
         else find_free_loop t buddy_tree_root target_status 1 target_depth)"

function is_free_loop :: "buddy_tree \<Rightarrow> buddy_tree_pos \<Rightarrow> bool" where
  "is_free_loop t pos =
     (if buddy_tree_valid t pos then
        let internal = buddy_tree_internal_position_tree t pos;
            v = read_from_internal_position (bt_data t) internal
        in if v \<noteq> 0 then v \<noteq> local_offset internal
           else is_free_loop t (buddy_tree_parent pos)
      else True)"
  by pat_completeness auto
termination
  by (relation "measure (\<lambda>(t, pos). index pos)") (auto simp: buddy_tree_parent_def buddy_tree_valid_def)

declare is_free_loop.simps [simp del]

definition buddy_tree_is_free :: "buddy_tree \<Rightarrow> buddy_tree_pos \<Rightarrow> bool" where
  "buddy_tree_is_free t pos =
     (if buddy_tree_status t pos \<noteq> 0 then False else is_free_loop t (buddy_tree_parent pos))"

definition buddy_tree_can_shrink :: "buddy_tree \<Rightarrow> bool" where
  "buddy_tree_can_shrink t =
     (if buddy_tree_status t (buddy_tree_right_child buddy_tree_root) \<noteq> 0 then False
      else
        let root_internal = buddy_tree_internal_position_tree t buddy_tree_root;
            root_value = read_from_internal_position (bt_data t) root_internal
        in root_value \<noteq> local_offset root_internal)"

subsection \<open>Resizing\<close>

fun grow_rows :: "nat \<Rightarrow> bitset \<Rightarrow> nat \<Rightarrow> buddy_tree_pos \<Rightarrow> buddy_tree_pos \<Rightarrow> bitset" where
  "grow_rows ord bits 0 cur next_pos = bits"
| "grow_rows ord bits (Suc k) cur next_pos =
     (let current_internal = buddy_tree_internal_position_order ord cur;
          next_internal = buddy_tree_internal_position_order (ord + 1) next_pos;
          node_count = uint_shl1 k;
          bits' = bitset_shift_right bits (bitset_location current_internal)
            (bitset_location current_internal + local_offset current_internal * node_count)
            (bitset_location next_internal - bitset_location current_internal);
          bits'' = fst (bitset_clear_range bits'
            (bitset_location next_internal + local_offset next_internal * node_count)
            (bitset_location next_internal + local_offset next_internal * node_count * 2 - 1))
      in grow_rows ord bits'' k (buddy_tree_parent cur) (buddy_tree_parent next_pos))"

function buddy_tree_grow :: "buddy_tree \<Rightarrow> nat \<Rightarrow> buddy_tree" where
  "buddy_tree_grow t desired_order =
     (if bt_order t < desired_order then
        let bits = grow_rows (bt_order t) (bt_data t) (bt_order t)
              (buddy_tree_leftmost_child_internal (bt_order t))
              (buddy_tree_leftmost_child_internal (bt_order t + 1));
            t' = buddy_tree_populate_size_for_order
              (t \<lparr>bt_data := bits, bt_order := bt_order t + 1,
                  bt_upper_pos_bound := uint_shl1 (bt_order t + 1)\<rparr>);
            pos = buddy_tree_right_child buddy_tree_root
        in buddy_tree_grow
             (update_parent_chain t' pos (buddy_tree_internal_position_tree t' pos) 0) desired_order
      else t)"
  by pat_completeness auto

function shrink_rows :: "nat \<Rightarrow> nat \<Rightarrow> bitset \<Rightarrow> buddy_tree_pos \<Rightarrow> bitset" where
  "shrink_rows ord bound bits left_start =
     (if index left_start \<noteq> 0 \<and> index left_start < bound then
        let current_internal = buddy_tree_internal_position_order ord left_start;
            next_internal = buddy_tree_internal_position_order (ord - 1) (buddy_tree_parent left_start);
            node_count = uint_shl1 (depth left_start - 1);
            bits' = bitset_shift_left bits (bitset_location current_internal)
              (bitset_location current_internal + local_offset current_internal * node_count div 2)
              (bitset_location current_internal - bitset_location next_internal)
        in shrink_rows ord bound bits' (buddy_tree_left_child left_start)
      else bits)"
  by pat_completeness auto
termination
  by (relation "measure (\<lambda>(ord, bound, bits, pos). bound - index pos)")
    (auto simp: buddy_tree_left_child_def)

declare shrink_rows.simps [simp del]

function buddy_tree_shrink :: "buddy_tree \<Rightarrow> nat \<Rightarrow> buddy_tree" where
  "buddy_tree_shrink t desired_order =
     (if desired_order < bt_order t then
        if \<not> buddy_tree_can_shrink t then t
        else
          let bits = shrink_rows (bt_order t) (bt_upper_pos_bound t) (bt_data t)
                (buddy_tree_left_child buddy_tree_root)
          in buddy_tree_shrink (buddy_tree_populate_size_for_order
               (t \<lparr>bt_data := bits, bt_order := bt_order t - 1,
                   bt_upper_pos_bound := uint_shl1 (bt_order t - 1)\<rparr>)) desired_order
      else t)"
  by pat_completeness auto
termination
  by (relation "measure (\<lambda>(t, d). bt_order t - d)")
    (auto simp: buddy_tree_populate_size_for_order_def Let_def)

declare buddy_tree_shrink.simps [simp del]

lemma bt_order_update_parent_chain [simp]:
  "bt_order (update_parent_chain t pos pi sc) = bt_order t"
  by (induction t pos pi sc rule: update_parent_chain.induct)
    (subst update_parent_chain.simps, auto simp: Let_def)

lemma bt_order_populate [simp]: "bt_order (buddy_tree_populate_size_for_order t) = bt_order t"
  by (simp add: buddy_tree_populate_size_for_order_def Let_def)

termination buddy_tree_grow
  by (relation "measure (\<lambda>(t, d). d - bt_order t)") auto

declare buddy_tree_grow.simps [simp del]

definition buddy_tree_resize :: "buddy_tree \<Rightarrow> nat \<Rightarrow> buddy_tree" where
  "buddy_tree_resize t desired_order =
     (if bt_order t = desired_order then t
      else if bt_order t < desired_order then buddy_tree_grow t desired_order
      else buddy_tree_shrink t desired_order)"

end
