(* ===== verification/Buddy_Tree_Layout.thy ===== *)
theory Buddy_Tree_Layout
  imports Buddy_Tree
begin

text \<open>
  Where the slots of the allocation tree lie. Numbering the nodes in heap order makes the slots
  consecutive: slot \<open>i + 1\<close> starts where slot \<open>i\<close> ends. From this follow that slots are disjoint,
  that they fit in the bitset the tree reserves, and that the memo table of row offsets, which
  shares the array with the bits, lies behind them and inside the memory \<open>buddy_tree_sizeof\<close> asks for.
\<close>

subsection \<open>Nodes and slots\<close>

definition node_pos :: "nat \<Rightarrow> buddy_tree_pos" where
  "node_pos i = \<lparr>index = i, depth = bit_length i\<rparr>"

definition node_width :: "nat \<Rightarrow> nat \<Rightarrow> nat" where
  "node_width n i = n + 1 - bit_length i"

definition slot_start :: "nat \<Rightarrow> nat \<Rightarrow> nat" where
  "slot_start n i = (\<Sum>k = 1..<i. node_width n k)"

definition node_slot :: "nat \<Rightarrow> nat \<Rightarrow> internal_position" where
  "node_slot n i = \<lparr>local_offset = node_width n i, bitset_location = slot_start n i\<rparr>"

lemma node_pos_simps [simp]: "index (node_pos i) = i" "depth (node_pos i) = bit_length i"
  by (simp_all add: node_pos_def)

lemma buddy_tree_root_node [pos_simps]: "buddy_tree_root = node_pos 1"
  by (simp add: buddy_tree_root_def node_pos_def)

lemma left_child_node [pos_simps]: "0 < i \<Longrightarrow> buddy_tree_left_child (node_pos i) = node_pos (2 * i)"
  by (simp add: buddy_tree_left_child_def node_pos_def)

lemma right_child_node [pos_simps]: "buddy_tree_right_child (node_pos i) = node_pos (2 * i + 1)"
  by (simp add: buddy_tree_right_child_def node_pos_def)

lemma parent_node [pos_simps]: "0 < i \<Longrightarrow> buddy_tree_parent (node_pos i) = node_pos (i div 2)"
  by (simp add: buddy_tree_parent_def node_pos_def bit_length_pos [of i])

lemma nat_xor_1: "(n::nat) XOR Suc 0 = (if even n then n + 1 else n - 1)"
  by (auto simp: xor_nat_unfold [of n "Suc 0"] elim!: evenE oddE)

lemma sibling_left_node [pos_simps]:
  "0 < i \<Longrightarrow> buddy_tree_sibling (node_pos (2 * i)) = node_pos (2 * i + 1)"
  by (simp add: buddy_tree_sibling_def node_pos_def nat_xor_1)

lemma node_width_pos: "i < 2 ^ n \<Longrightarrow> 0 < node_width n i"
  using bit_length_le_iff [of i n] by (simp add: node_width_def)

lemma node_width_children:
  assumes "0 < i" "2 * i < 2 ^ n"
  shows "node_width n (2 * i) = node_width n i - 1" "node_width n (2 * i + 1) = node_width n i - 1"
  using assms by (simp_all add: node_width_def)

lemma node_width_parent:
  assumes "1 < i" "i < 2 ^ n"
  shows "node_width n (i div 2) = node_width n i + 1"
  using assms bit_length_le_iff [of i n] by (simp add: node_width_def bit_length_pos [of i])

lemma slot_start_1 [simp]: "slot_start n (Suc 0) = 0"
  by (simp add: slot_start_def)

lemma slot_start_Suc: "0 < i \<Longrightarrow> slot_start n (Suc i) = slot_start n i + node_width n i"
  by (simp add: slot_start_def)

lemma slot_disjoint: "0 < i \<Longrightarrow> i < j \<Longrightarrow> slot_start n i + node_width n i \<le> slot_start n j"
proof -
  assume "0 < i" "i < j"
  then have "slot_start n (Suc i) \<le> slot_start n j"
    unfolding slot_start_def by (intro sum_mono2) auto
  with \<open>0 < i\<close> show ?thesis by (simp add: slot_start_Suc)
qed

subsection \<open>Rows\<close>

definition row_offset :: "nat \<Rightarrow> nat \<Rightarrow> nat" where
  "row_offset n d = (\<Sum>j<d. (n - j) * 2 ^ j)"

lemma row_slots:
  "k \<le> 2 ^ d \<Longrightarrow> slot_start n (2 ^ d + k) = slot_start n (2 ^ d) + (n - d) * k"
proof (induction k)
  case (Suc k)
  have "bit_length (2 ^ d + k) = Suc d" using Suc.prems by (intro bit_length_eqI) auto
  with Suc show ?case by (simp add: slot_start_Suc node_width_def)
qed simp

lemma slot_start_row: "slot_start n (2 ^ d) = row_offset n d"
proof (induction d)
  case (Suc d)
  have "slot_start n (2 ^ Suc d) = slot_start n (2 ^ d) + (n - d) * 2 ^ d"
    using row_slots [of "2 ^ d" d n] by (simp add: mult_2)
  with Suc show ?case by (simp add: row_offset_def)
qed (simp add: row_offset_def)

lemma slot_start_node:
  assumes "0 < i"
  shows "slot_start n i = row_offset n (bit_length i - 1) + node_width n i * (i - 2 ^ (bit_length i - 1))"
proof -
  define d where "d = bit_length i - 1"
  have b: "2 ^ d \<le> i" "i < 2 ^ Suc d" "bit_length i = Suc d"
    using bit_length_bounds [OF assms] bit_length_pos [OF assms] by (simp_all add: d_def)
  have "slot_start n (2 ^ d + (i - 2 ^ d)) = row_offset n d + (n - d) * (i - 2 ^ d)"
    using row_slots [of "i - 2 ^ d" d n] b slot_start_row by simp
  with b show ?thesis by (simp add: node_width_def)
qed

lemma row_offset_Suc_shift: "row_offset (Suc n) (Suc d) = Suc n + 2 * row_offset n d"
  unfolding row_offset_def sum.lessThan_Suc_shift by (simp add: sum_distrib_left ac_simps)

lemma row_offset_bound: "row_offset n d < n * 2 ^ d + 1"
proof (induction d)
  case (Suc d)
  have "row_offset n (Suc d) = row_offset n d + (n - d) * 2 ^ d" by (simp add: row_offset_def)
  moreover have "(n - d) * 2 ^ d \<le> n * 2 ^ d" by simp
  moreover have "n * 2 ^ Suc d = n * 2 ^ d + n * 2 ^ d" by simp
  ultimately show ?case using Suc by linarith
qed (simp add: row_offset_def)

lemma row_offset_small:
  assumes "n < 32" "d \<le> n"
  shows "row_offset n d < 2 ^ 37"
proof -
  have "n * 2 ^ d \<le> 31 * 2 ^ 31" using assms by (intro mult_mono power_increasing) auto
  with row_offset_bound [of n d] show ?thesis by simp
qed

lemma mod_accumulate: "(a mod m + b mod m * c) mod m = (a + b * c) mod (m::nat)"
  using mod_add_right_eq [of a "b mod m * c" m] mod_add_right_eq [of a "b * c" m]
  by (simp add: mod_mult_left_eq mod_add_left_eq)

lemma size_for_order_loop_eq:
  assumes "unat o1 = unat t1 + k" "r < 2 ^ 64"
  shows "size_for_order_loop r m o1 t1 = (r + m * row_offset (unat o1) k) mod 2 ^ 64"
  using assms
proof (induction k arbitrary: r m o1)
  case 0
  then have "o1 = t1" by (simp add: unsigned_word_eqI)
  with 0 show ?case by (subst size_for_order_loop.simps) (simp add: row_offset_def)
next
  case (Suc k)
  then have ne: "o1 \<noteq> t1" and ge: "1 \<le> o1" by (auto simp: word_le_nat_alt)
  then have u: "unat (o1 - 1) = unat o1 - 1" by (simp add: unat_sub)
  with Suc.prems have k: "unat (o1 - 1) = unat t1 + k" "unat o1 = Suc (unat (o1 - 1))" by auto
  have "size_for_order_loop r m o1 t1 = size_for_order_loop ((r + unat o1 * m) mod 2 ^ 64)
      (m * 2 mod 2 ^ 64) (o1 - 1) t1"
    using ne by (subst size_for_order_loop.simps) simp
  also have "\<dots> = ((r + unat o1 * m) mod 2 ^ 64 + m * 2 mod 2 ^ 64 * row_offset (unat (o1 - 1)) k) mod 2 ^ 64"
    by (rule Suc.IH) (use k in simp_all)
  also have "\<dots> = (r + (unat o1 * m + m * 2 * row_offset (unat (o1 - 1)) k)) mod 2 ^ 64"
    unfolding mod_accumulate by (simp only: add.assoc)
  also have "unat o1 * m + m * 2 * row_offset (unat (o1 - 1)) k = m * row_offset (unat o1) (Suc k)"
    unfolding k(2) row_offset_Suc_shift by (simp add: algebra_simps)
  finally show ?case .
qed

lemma size_for_order_eq:
  assumes "n < 32" "to \<le> n"
  shows "size_for_order n to = row_offset n (n - to)"
proof -
  have u: "unat (word_of_nat n :: u8) = n" "unat (word_of_nat to :: u8) = to"
    using assms by (simp_all add: unsigned_of_nat take_bit_eq_mod)
  have "size_for_order n to = (row_offset n (n - to)) mod 2 ^ 64"
    unfolding size_for_order_def
    using size_for_order_loop_eq [of "word_of_nat n" "word_of_nat to" "n - to" 0 1] assms u by simp
  then show ?thesis using row_offset_small [OF assms(1), of "n - to"] by simp
qed

lemma index_internal_node: "0 < i \<Longrightarrow> buddy_tree_index_internal (node_pos i) = i - 2 ^ (bit_length i - 1)"
proof -
  assume i: "0 < i"
  define d where "d = bit_length i - 1"
  have b: "2 ^ d \<le> i" "i < 2 * 2 ^ d"
    using bit_length_bounds [OF i] bit_length_pos [OF i] by (simp_all add: d_def)
  then have "i div 2 ^ d = 1" by (intro div_nat_eqI) auto
  then have "bit i d" by (simp add: bit_iff_odd)
  then have "int (unset_bit d i) = int i - 2 ^ d"
    by (simp add: of_nat_unset_bit_eq unset_bit_eq [where 'a = int] bit_of_nat_iff)
  also have "\<dots> = int (i - 2 ^ d)" using b by (simp add: of_nat_diff)
  finally have "unset_bit d i = i - 2 ^ d" by (simp only: of_nat_eq_iff)
  then show ?thesis by (simp add: buddy_tree_index_internal_def d_def)
qed

lemma internal_position_order_node:
  assumes "n < 32" "0 < i" "i < 2 ^ n"
  shows "buddy_tree_internal_position_order n (node_pos i) = node_slot n i"
proof -
  have d: "bit_length i \<le> n" using assms(3) bit_length_le_iff by blast
  have p: "0 < bit_length i" using bit_length_pos [OF assms(2)] by simp
  then have "size_for_order n (n + 1 - bit_length i) = row_offset n (bit_length i - 1)"
    using d assms(1) by (simp add: size_for_order_eq)
  then show ?thesis
    using assms(2) d by (simp add: buddy_tree_internal_position_order_def buddy_tree_depth_def Let_def
      node_slot_def node_width_def slot_start_node index_internal_node)
qed

subsection \<open>The memo table lies behind the bits\<close>

definition memo_word :: "nat \<Rightarrow> nat" where
  "memo_word n = buddy_tree_bitset_bytes n div 8 + 1"

text \<open>A well-formed tree: the order is in range for the 32-bit shifts, the header fields are the ones
  \<open>buddy_tree_init\<close> computes, the array is long enough, and the memo table holds the row offsets.\<close>

definition tree_wf :: "buddy_tree \<Rightarrow> bool" where
  "tree_wf t \<longleftrightarrow>
     0 < bt_order t \<and> bt_order t < 32 \<and> bt_upper_pos_bound t = 2 ^ bt_order t
     \<and> bt_size_for_order_offset t = memo_word (bt_order t)
     \<and> 8 * (memo_word (bt_order t) + bt_order t + 1) \<le> length (bt_data t)
     \<and> list_all (\<lambda>i. load64 (bt_data t) (8 * (memo_word (bt_order t) + i)) = size_for_order (bt_order t) i)
         [0..<bt_order t + 1]"

lemma slots_before_memo:
  assumes "n < 32"
  shows "slot_start n (2 ^ n) \<le> 8 * (8 * memo_word n)"
proof -
  define b where "b = bitset_sizeof (size_for_order n 0)"
  have "slot_start n (2 ^ n) \<le> 8 * b"
    unfolding slot_start_row b_def bitset_sizeof_def size_for_order_eq [OF assms le0] CHAR_BIT_def by simp
  moreover have "b \<le> buddy_tree_bitset_bytes n"
    by (simp add: buddy_tree_bitset_bytes_def b_def Let_def)
  moreover have "buddy_tree_bitset_bytes n < 8 * memo_word n"
    unfolding memo_word_def using dividend_less_times_div [of 8 "buddy_tree_bitset_bytes n"] by simp
  ultimately show ?thesis by linarith
qed

lemma node_slot_fits:
  assumes "tree_wf t" "0 < i" "i < 2 ^ bt_order t"
  shows "slot_start (bt_order t) i + node_width (bt_order t) i \<le> 8 * (8 * memo_word (bt_order t))"
    "slot_start (bt_order t) i + node_width (bt_order t) i \<le> 8 * length (bt_data t)"
proof -
  have "slot_start (bt_order t) i + node_width (bt_order t) i \<le> slot_start (bt_order t) (2 ^ bt_order t)"
    using assms by (intro slot_disjoint)
  also have "\<dots> \<le> 8 * (8 * memo_word (bt_order t))"
    using assms(1) by (intro slots_before_memo) (simp add: tree_wf_def)
  finally show *: "slot_start (bt_order t) i + node_width (bt_order t) i \<le> 8 * (8 * memo_word (bt_order t))" .
  have "8 * memo_word (bt_order t) \<le> length (bt_data t)" using assms(1) by (simp add: tree_wf_def)
  with * show "slot_start (bt_order t) i + node_width (bt_order t) i \<le> 8 * length (bt_data t)" by linarith
qed

lemma tree_wf_memo:
  assumes "tree_wf t" "i \<le> bt_order t"
  shows "buddy_tree_size_for_order t i = size_for_order (bt_order t) i"
proof -
  have "i \<in> set [0..<bt_order t + 1]" using assms(2) by auto
  with assms(1) show ?thesis
    unfolding tree_wf_def list_all_iff buddy_tree_size_for_order_def by metis
qed

lemma internal_position_tree_node:
  assumes "tree_wf t" "0 < i" "i < 2 ^ bt_order t"
  shows "buddy_tree_internal_position_tree t (node_pos i) = node_slot (bt_order t) i"
proof -
  have d: "bit_length i \<le> bt_order t" using assms(3) bit_length_le_iff by blast
  have p: "0 < bit_length i" using bit_length_pos [OF assms(2)] by simp
  have "buddy_tree_size_for_order t (bt_order t + 1 - bit_length i)
      = size_for_order (bt_order t) (bt_order t + 1 - bit_length i)"
    using assms(1) d p by (intro tree_wf_memo) auto
  moreover have "buddy_tree_internal_position_order (bt_order t) (node_pos i) = node_slot (bt_order t) i"
    using assms by (intro internal_position_order_node) (auto simp: tree_wf_def)
  ultimately show ?thesis
    using d by (simp add: buddy_tree_internal_position_tree_def buddy_tree_internal_position_order_def
        buddy_tree_depth_def Let_def)
qed

lemma length_populate_loop:
  "\<forall>i \<in> set is. 8 * (off + i) + 8 \<le> length data \<Longrightarrow> length (populate_loop n off data is) = length data"
  by (induction n off data "is" rule: populate_loop.induct) auto

lemma populate_loop_other:
  "\<forall>i \<in> set is. 8 * (off + i) + 8 \<le> length data \<Longrightarrow> j < 8 * off \<Longrightarrow>
    populate_loop n off data is ! j = data ! j"
  by (induction n off data "is" rule: populate_loop.induct) (auto simp: nth_store64)

lemma populate_loop_load:
  assumes "\<forall>i \<in> set is. 8 * (off + i) + 8 \<le> length data \<and> size_for_order n i < 2 ^ 64" "distinct is"
  shows "(\<forall>i \<in> set is. load64 (populate_loop n off data is) (8 * (off + i)) = size_for_order n i)
    \<and> (\<forall>i. i \<notin> set is \<longrightarrow> load64 (populate_loop n off data is) (8 * (off + i)) = load64 data (8 * (off + i)))"
  using assms
proof (induction n off data "is" rule: populate_loop.induct)
  case (2 n off data i "is")
  let ?d = "store64 data (8 * (off + i)) (size_for_order n i)"
  from 2 have IH: "\<forall>j \<in> set is. load64 (populate_loop n off ?d is) (8 * (off + j)) = size_for_order n j"
    "\<And>j. j \<notin> set is \<Longrightarrow> load64 (populate_loop n off ?d is) (8 * (off + j)) = load64 ?d (8 * (off + j))"
    by auto
  have same: "load64 ?d (8 * (off + i)) = size_for_order n i"
    using 2(2) by (intro load_store64_same) auto
  have other: "load64 ?d (8 * (off + j)) = load64 data (8 * (off + j))" if "j \<noteq> i" for j
    using that 2(2) by (intro load_store64_other) auto
  show ?case using IH same other 2(3) by auto
qed simp

lemma tree_wf_populate:
  assumes "0 < bt_order t" "bt_order t < 32" "bt_upper_pos_bound t = 2 ^ bt_order t"
    "8 * (memo_word (bt_order t) + bt_order t + 1) \<le> length (bt_data t)"
  shows "tree_wf (buddy_tree_populate_size_for_order t)"
proof -
  let ?n = "bt_order t" and ?off = "memo_word (bt_order t)"
  have small: "size_for_order ?n i < 2 ^ 64" if "i < ?n + 1" for i
    using that assms(2) row_offset_small [of ?n "?n - i"] by (simp add: size_for_order_eq)
  have fits: "\<forall>i \<in> set [0..<?n + 1]. 8 * (?off + i) + 8 \<le> length (bt_data t) \<and> size_for_order ?n i < 2 ^ 64"
    using assms(4) small by auto
  have eq: "buddy_tree_populate_size_for_order t = t \<lparr>bt_size_for_order_offset := ?off,
      bt_data := populate_loop ?n ?off (bt_data t) [0..<?n + 1]\<rparr>"
    by (simp add: buddy_tree_populate_size_for_order_def memo_word_def Let_def)
  show ?thesis
    unfolding eq using populate_loop_load [OF fits] fits
      length_populate_loop [of "[0..<?n + 1]" ?off "bt_data t" ?n] assms
    by (simp add: tree_wf_def list_all_iff del: upt_Suc)
qed

text \<open>The memory \<open>buddy_tree_sizeof\<close> asks for holds the bits and the table, although the padding it
  adds is \<open>size mod 8\<close> and not the distance to the next multiple of 8.\<close>

lemma memo_fits_sizeof:
  "sizeof_struct_buddy_tree + 8 * (memo_word n + n + 1) \<le> buddy_tree_sizeof n"
proof -
  have "8 * (buddy_tree_bitset_bytes n div 8) \<le> buddy_tree_bitset_bytes n" by simp
  then show ?thesis by (simp add: buddy_tree_sizeof_def memo_word_def)
qed

lemma tree_wf_init:
  assumes "0 < n" "n < 32"
  shows "tree_wf (fst (buddy_tree_init n))"
  using assms memo_fits_sizeof [of n]
  by (auto simp: buddy_tree_init_def Let_def intro!: tree_wf_populate)

end
