(* ===== verification/Buddy_Tree_Status.thy ===== *)
theory Buddy_Tree_Status
  imports Buddy_Tree_Layout
begin

text \<open>
  The bits of the tree as an array of numbers: \<open>tree_rep t st\<close> says that the slot of every node \<open>i\<close>
  holds \<open>st i\<close> in unary. Reading, writing and comparing slots are the obvious operations on
  \<open>st\<close>, and \<open>update_parent_chain\<close>, \<open>buddy_tree_mark\<close> and \<open>buddy_tree_release\<close> refine operations on it.
\<close>

subsection \<open>Representation\<close>

definition tree_rep :: "buddy_tree \<Rightarrow> (nat \<Rightarrow> nat) \<Rightarrow> bool" where
  "tree_rep t st \<longleftrightarrow> tree_wf t \<and>
     (\<forall>i \<in> {1..<2 ^ bt_order t}. st i \<le> node_width (bt_order t) i \<and>
       (\<forall>q < node_width (bt_order t) i.
          bitset_test (bt_data t) (slot_start (bt_order t) i + q) \<longleftrightarrow> q < st i))"

lemma tree_repD:
  assumes "tree_rep t st"
  shows "tree_wf t"
    and "0 < i \<Longrightarrow> i < 2 ^ bt_order t \<Longrightarrow> st i \<le> node_width (bt_order t) i"
    and "0 < i \<Longrightarrow> i < 2 ^ bt_order t \<Longrightarrow> q < node_width (bt_order t) i \<Longrightarrow>
      bitset_test (bt_data t) (slot_start (bt_order t) i + q) \<longleftrightarrow> q < st i"
  using assms by (auto simp: tree_rep_def)

lemma node_slot_simps [simp]:
  "local_offset (node_slot n i) = node_width n i" "bitset_location (node_slot n i) = slot_start n i"
  by (simp_all add: node_slot_def)

text \<open>A read may be limited to the first \<open>m\<close> bits when the value is known not to exceed \<open>m\<close>.\<close>

lemma read_slot_span:
  assumes "tree_rep t st" "0 < i" "i < 2 ^ bt_order t" "st i \<le> m" "m \<le> node_width (bt_order t) i"
  shows "read_from_internal_position (bt_data t) ((node_slot (bt_order t) i) \<lparr>local_offset := m\<rparr>) = st i"
proof -
  let ?w = "node_width (bt_order t) i" and ?s = "slot_start (bt_order t) i"
  note rep = tree_repD [OF assms(1)]
  have w: "0 < ?w" using assms(3) by (rule node_width_pos)
  have first: "bitset_test (bt_data t) ?s \<longleftrightarrow> 0 < st i" using rep(3) [OF assms(2,3) w] by simp
  show ?thesis
  proof (cases "st i = 0")
    case False
    have le: "?s \<le> ?s + m - 1" "?s + m - 1 < 8 * length (bt_data t)"
      using False assms(4,5) node_slot_fits(2) [OF rep(1) assms(2,3)] by linarith+
    have "{q. ?s \<le> q \<and> q \<le> ?s + m - 1 \<and> bitset_test (bt_data t) q} = {?s..<?s + st i}"
    proof (intro set_eqI iffI)
      fix q assume "q \<in> {q. ?s \<le> q \<and> q \<le> ?s + m - 1 \<and> bitset_test (bt_data t) q}"
      then have q: "?s \<le> q" "q - ?s < ?w" "bitset_test (bt_data t) (?s + (q - ?s))"
        using False assms(4,5) by auto
      with rep(3) [OF assms(2,3) q(2)] show "q \<in> {?s..<?s + st i}" by auto
    next
      fix q assume q: "q \<in> {?s..<?s + st i}"
      with assms(4,5) have "q - ?s < ?w" by auto
      with rep(3) [OF assms(2,3) this] q assms(4)
      show "q \<in> {q. ?s \<le> q \<and> q \<le> ?s + m - 1 \<and> bitset_test (bt_data t) q}" by auto
    qed
    then have "bitset_count_range (bt_data t) ?s (?s + m - 1) = st i"
      unfolding byte_bits.count_bits_card [OF le] by simp
    with first show ?thesis by (simp add: read_from_internal_position_def)
  qed (use first in \<open>simp add: read_from_internal_position_def\<close>)
qed

lemma read_slot:
  assumes "tree_rep t st" "0 < i" "i < 2 ^ bt_order t"
  shows "read_from_internal_position (bt_data t) (node_slot (bt_order t) i) = st i"
  using read_slot_span [OF assms tree_repD(2) [OF assms] order_refl] by (simp add: node_slot_def)

lemma status_node:
  assumes "tree_rep t st" "0 < i" "i < 2 ^ bt_order t"
  shows "buddy_tree_status t (node_pos i) = st i"
  using assms read_slot [OF assms] internal_position_tree_node [OF tree_repD(1) [OF assms(1)] assms(2,3)]
  by (simp add: buddy_tree_status_def)

lemma compare_slot:
  assumes "tree_rep t st" "0 < i" "i < 2 ^ bt_order t" "0 < v" "v \<le> node_width (bt_order t) i"
  shows "compare_with_internal_position (bt_data t) (node_slot (bt_order t) i) v \<longleftrightarrow> v \<le> st i"
  using tree_repD(3) [OF assms(1-3), of "v - 1"] assms(4,5)
  by (auto simp: compare_with_internal_position_def)

lemma write_slot_eq:
  "fst (write_to_internal_position b (node_slot n i) v) =
    byte_bits.slot_write b (slot_start n i) (node_width n i) v"
  by (simp add: write_to_internal_position_def byte_bits.slot_write_def Let_def split_beta)

text \<open>A byte none of whose bits changes is the same byte.\<close>

lemma byte_eq_of_tests:
  assumes "\<And>k. k < 8 \<Longrightarrow> bitset_test b (8 * j + k) \<longleftrightarrow> bitset_test c (8 * j + k)"
  shows "b ! j = c ! j"
proof (rule bit_word_eqI)
  fix k assume "k < LENGTH(8)"
  then have k: "k < 8" by simp
  then show "bit (b ! j) k = bit (c ! j) k"
    using assms [OF k] by (simp add: bitset_test_in_bucket)
qed

lemma write_slot:
  assumes rep: "tree_rep t st" and i: "0 < i" "i < 2 ^ bt_order t" and v: "v \<le> node_width (bt_order t) i"
  shows "tree_rep (t \<lparr>bt_data := fst (write_to_internal_position (bt_data t) (node_slot (bt_order t) i) v)\<rparr>)
    (st(i := v))" (is "tree_rep (t \<lparr>bt_data := ?d\<rparr>) _")
proof -
  let ?n = "bt_order t"
  let ?w = "node_width ?n i" and ?s = "slot_start ?n i"
  note wf = tree_repD(1) [OF rep]
  have w: "0 < ?w" using i(2) by (rule node_width_pos)
  note fit = node_slot_fits [OF wf i]
  have test: "bitset_test ?d q \<longleftrightarrow> (if ?s \<le> q \<and> q < ?s + ?w then q < ?s + v else bitset_test (bt_data t) q)" for q
    unfolding write_slot_eq by (rule byte_bits.test_slot_write [OF w fit(2) v])
  have len: "length ?d = length (bt_data t)"
    using byte_bits.cap_slot_write [OF w fit(2) v] by (simp add: write_slot_eq)
  have "?d ! j = bt_data t ! j" if "8 * memo_word ?n \<le> j" for j
    using that fit(1) by (intro byte_eq_of_tests) (auto simp: test)
  then have "load64 ?d (8 * (memo_word ?n + k)) = load64 (bt_data t) (8 * (memo_word ?n + k))" for k
    by (intro load64_cong) auto
  then have "tree_wf (t \<lparr>bt_data := ?d\<rparr>)"
    using wf len by (simp add: tree_wf_def)
  moreover have "(st(i := v)) j \<le> node_width ?n j \<and> (\<forall>q < node_width ?n j.
      bitset_test ?d (slot_start ?n j + q) \<longleftrightarrow> q < (st(i := v)) j)" if "j \<in> {1..<2 ^ ?n}" for j
  proof (cases "j = i")
    case False
    then consider "j < i" | "i < j" by linarith
    then have "slot_start ?n j + node_width ?n j \<le> ?s \<or> ?s + ?w \<le> slot_start ?n j"
      using slot_disjoint [of j i ?n] slot_disjoint [of i j ?n] that i by fastforce
    with False that tree_repD(2,3) [OF rep, of j] show ?thesis by (auto simp: test)
  qed (use v in \<open>auto simp: test\<close>)
  ultimately show ?thesis by (simp add: tree_rep_def)
qed

subsection \<open>The parent chain\<close>

definition combine :: "nat \<Rightarrow> nat \<Rightarrow> nat" where
  "combine a b = (if a = 0 \<and> b = 0 then 0 else min a b + 1)"

fun st_chain :: "(nat \<Rightarrow> nat) \<Rightarrow> nat \<Rightarrow> (nat \<Rightarrow> nat)" where
  "st_chain st i =
     (if i \<le> 1 then st
      else
        let p = i div 2; v = combine (st (2 * p)) (st (2 * p + 1))
        in if v = st p then st else st_chain (st(p := v)) p)"

declare st_chain.simps [simp del]

lemma st_chain_stop: "i \<le> 1 \<Longrightarrow> st_chain st i = st"
  by (subst st_chain.simps) simp

lemma st_chain_step:
  "1 < i \<Longrightarrow> st_chain st i = (let p = i div 2; v = combine (st (2 * p)) (st (2 * p + 1))
     in if v = st p then st else st_chain (st(p := v)) p)"
  by (subst st_chain.simps) simp

lemma sibling_slot:
  assumes "1 < i" "i < 2 ^ n"
  shows "(node_slot n i) \<lparr>bitset_location := size_sub (slot_start n i + node_width n i)
      (2 * node_width n i * (i AND 1))\<rparr> = node_slot n (if even i then i + 1 else i - 1)"
proof (cases "even i")
  case True
  then obtain k where k: "i = 2 * k" by blast
  with assms True show ?thesis
    by (simp add: node_slot_def and_one_eq slot_start_Suc [of "2 * k"] node_width_def)
next
  case False
  then obtain k where k: "i = 2 * k + 1" using oddE by blast
  with assms have "0 < 2 * k" by simp
  then have "slot_start n i = slot_start n (2 * k) + node_width n (2 * k)"
    "node_width n (2 * k) = node_width n i"
    by (simp_all add: k slot_start_Suc node_width_def)
  then show ?thesis
    using False by (simp add: node_slot_def and_one_eq k)
qed

lemma combine_parent:
  assumes "(p::nat) = i div 2"
  shows "combine (st i) (st (if even i then i + 1 else i - 1)) = combine (st (2 * p)) (st (2 * p + 1))"
  using assms by (auto simp: combine_def elim!: evenE oddE)

text \<open>One round of the chain on the represented statuses.\<close>

lemma update_parent_chain_node:
  assumes rep: "tree_rep t st" and i: "1 < i" "i < 2 ^ bt_order t" and p: "p = i div 2"
    and v: "v = combine (st (2 * p)) (st (2 * p + 1))"
  shows "update_parent_chain t (node_pos i) (node_slot (bt_order t) i) (st i) =
    (if v = st p then t
     else update_parent_chain
       (t \<lparr>bt_data := fst (write_to_internal_position (bt_data t) (node_slot (bt_order t) p) v)\<rparr>)
       (node_pos p) (node_slot (bt_order t) p) v)"
    and "v \<le> node_width (bt_order t) p"
proof -
  let ?n = "bt_order t"
  define s where "s = (if even i then i + 1 else i - 1)"
  have "0 < ?n" using tree_repD(1) [OF rep] by (simp add: tree_wf_def)
  then obtain m where "?n = Suc m" using gr0_conv_Suc by blast
  then have s: "0 < s" "s < 2 ^ ?n" using i by (auto simp: s_def elim!: evenE)
  have p0: "0 < p" "p < 2 ^ ?n" using i by (auto simp: p)
  have v': "v = combine (st i) (st s)"
    unfolding v s_def using combine_parent [OF p, of st] by simp
  show "v \<le> node_width ?n p"
    using tree_repD(2) [OF rep, of i] node_width_parent [of i ?n] i
    by (auto simp: v' combine_def p min_def)
  have reads: "read_from_internal_position (bt_data t) (node_slot ?n s) = st s"
    "read_from_internal_position (bt_data t) (node_slot ?n p) = st p"
    using read_slot [OF rep] s p0 by blast+
  have sib: "(node_slot ?n i) \<lparr>bitset_location := size_sub (slot_start ?n i + node_width ?n i)
      (2 * node_width ?n i * (i AND 1))\<rparr> = node_slot ?n s"
    unfolding s_def by (rule sibling_slot [OF i])
  show "update_parent_chain t (node_pos i) (node_slot ?n i) (st i) =
      (if v = st p then t
       else update_parent_chain (t \<lparr>bt_data := fst (write_to_internal_position (bt_data t) (node_slot ?n p) v)\<rparr>)
         (node_pos p) (node_slot ?n p) v)"
    using i reads sib parent_node [of i] internal_position_tree_node [OF tree_repD(1) [OF rep] p0]
    by (subst update_parent_chain.simps) (auto simp: Let_def v' combine_def p [symmetric] min_def)
qed

lemma update_parent_chain_rep:
  "tree_rep t st \<Longrightarrow> 0 < i \<Longrightarrow> i < 2 ^ bt_order t \<Longrightarrow>
    tree_rep (update_parent_chain t (node_pos i) (node_slot (bt_order t) i) (st i)) (st_chain st i)"
proof (induction i arbitrary: t st rule: less_induct)
  case (less i)
  let ?n = "bt_order t"
  show ?case
  proof (cases "i \<le> 1")
    case True
    then show ?thesis using less.prems by (simp add: update_parent_chain.simps st_chain_stop)
  next
    case False
    define p where "p = i div 2"
    define v where "v = combine (st (2 * p)) (st (2 * p + 1))"
    have p: "0 < p" "p < i" "p < 2 ^ ?n" using False less.prems by (auto simp: p_def)
    have i: "1 < i" using False by simp
    note step = update_parent_chain_node [OF less.prems(1) i less.prems(3) p_def v_def]
    let ?t = "t \<lparr>bt_data := fst (write_to_internal_position (bt_data t) (node_slot ?n p) v)\<rparr>"
    show ?thesis
    proof (cases "v = st p")
      case True
      then show ?thesis
        using less.prems i by (simp add: step st_chain_step p_def [symmetric] v_def Let_def)
    next
      case ne: False
      have "tree_rep (update_parent_chain ?t (node_pos p) (node_slot (bt_order ?t) p) ((st(p := v)) p))
          (st_chain (st(p := v)) p)"
        by (rule less.IH [OF p(2) write_slot [OF less.prems(1) p(1,3) step(2)]]) (use p in simp_all)
      then show ?thesis
        using ne i by (simp add: step st_chain_step p_def [symmetric] v_def Let_def)
    qed
  qed
qed

lemma mark_rep:
  assumes "tree_rep t st" "0 < i" "i < 2 ^ bt_order t"
  shows "tree_rep (buddy_tree_mark t (node_pos i))
    (st_chain (st(i := node_width (bt_order t) i)) i)"
proof -
  let ?w = "node_width (bt_order t) i"
  let ?t = "t \<lparr>bt_data := fst (write_to_internal_position (bt_data t) (node_slot (bt_order t) i) ?w)\<rparr>"
  have "tree_rep (update_parent_chain ?t (node_pos i) (node_slot (bt_order ?t) i) ((st(i := ?w)) i))
      (st_chain (st(i := ?w)) i)"
    by (rule update_parent_chain_rep [OF write_slot [OF assms order_refl]]) (use assms in simp_all)
  then show ?thesis
    using internal_position_tree_node [OF tree_repD(1) [OF assms(1)] assms(2,3)]
    by (simp add: buddy_tree_mark_def Let_def)
qed

lemma release_rep:
  assumes "tree_rep t st" "0 < i" "i < 2 ^ bt_order t"
  shows "tree_rep (buddy_tree_release t (node_pos i))
    (if st i = node_width (bt_order t) i then st_chain (st(i := 0)) i else st)"
proof -
  let ?t = "t \<lparr>bt_data := fst (write_to_internal_position (bt_data t) (node_slot (bt_order t) i) 0)\<rparr>"
  have "tree_rep (update_parent_chain ?t (node_pos i) (node_slot (bt_order ?t) i) ((st(i := 0)) i))
      (st_chain (st(i := 0)) i)"
    by (rule update_parent_chain_rep [OF write_slot [OF assms]]) (use assms in simp_all)
  then show ?thesis
    using internal_position_tree_node [OF tree_repD(1) [OF assms(1)] assms(2,3)] read_slot [OF assms] assms(1)
    by (simp add: buddy_tree_release_def Let_def)
qed

end
