(* ===== verification/Buddy_Tree_Inv.thy ===== *)
theory Buddy_Tree_Inv
  imports Buddy_Tree_Status
begin

text \<open>
  The invariant of the allocation tree and what marking, releasing and searching do to the set of
  allocated blocks. A node is allocated when its status is not zero and its children (if any) are
  both zero; otherwise its status is determined by its children. Under the invariant the search
  finds a free block of the requested depth exactly when there is one.
\<close>

subsection \<open>Ancestors\<close>

fun ancestors :: "nat \<Rightarrow> nat list" where
  "ancestors i = (if i \<le> 1 then [] else (i div 2) # ancestors (i div 2))"

declare ancestors.simps [simp del]

lemma ancestors_root [simp]: "i \<le> 1 \<Longrightarrow> ancestors i = []"
  by (simp add: ancestors.simps)

lemma ancestors_step: "1 < i \<Longrightarrow> ancestors i = (i div 2) # ancestors (i div 2)"
  by (subst ancestors.simps) simp

lemma ancestors_less: "p \<in> set (ancestors i) \<Longrightarrow> 0 < p \<and> p < i"
proof (induction i rule: ancestors.induct)
  case (1 i)
  then show ?case
    by (cases "i \<le> 1") (auto simp: ancestors_step dest!: "1.IH")
qed

lemma ancestors_child:
  "0 < j \<Longrightarrow> c div 2 = j \<Longrightarrow> c = i \<or> c \<in> set (ancestors i) \<Longrightarrow> j \<in> set (ancestors i)"
proof (induction i rule: ancestors.induct)
  case (1 i)
  show ?case
  proof (cases "i \<le> 1")
    case True
    with 1 show ?thesis by auto
  next
    case False
    with 1 show ?thesis by (auto simp: ancestors_step)
  qed
qed

lemma ancestors_internal:
  assumes "p \<in> set (ancestors i)" "i < 2 ^ n"
  shows "2 * p + 1 < 2 ^ n"
  using assms
proof (induction i rule: ancestors.induct)
  case (1 i)
  show ?case
  proof (cases "i \<le> 1")
    case False
    have "2 * (i div 2) + 1 < 2 ^ n"
    proof (cases n)
      case (Suc m)
      with "1.prems"(2) have "i div 2 < 2 ^ m" by auto
      with Suc show ?thesis by simp
    qed (use 1 False in auto)
    with 1 False show ?thesis by (auto simp: ancestors_step)
  qed (use 1 in simp)
qed

subsection \<open>The invariant\<close>

definition exact :: "(nat \<Rightarrow> nat) \<Rightarrow> nat \<Rightarrow> bool" where
  "exact st p \<longleftrightarrow> st p = combine (st (2 * p)) (st (2 * p + 1))"

definition node_ok :: "nat \<Rightarrow> (nat \<Rightarrow> nat) \<Rightarrow> nat \<Rightarrow> bool" where
  "node_ok n st p \<longleftrightarrow> st p \<le> node_width n p \<and>
     (2 * p < 2 ^ n \<longrightarrow>
       exact st p \<or> st (2 * p) = 0 \<and> st (2 * p + 1) = 0 \<and> st p = node_width n p)"

definition tree_inv :: "nat \<Rightarrow> (nat \<Rightarrow> nat) \<Rightarrow> bool" where
  "tree_inv n st \<longleftrightarrow> (\<forall>p \<in> {1..<2 ^ n}. node_ok n st p)"

definition is_alloc :: "nat \<Rightarrow> (nat \<Rightarrow> nat) \<Rightarrow> nat \<Rightarrow> bool" where
  "is_alloc n st i \<longleftrightarrow> 0 < i \<and> i < 2 ^ n \<and> st i \<noteq> 0 \<and>
     (2 * i < 2 ^ n \<longrightarrow> st (2 * i) = 0 \<and> st (2 * i + 1) = 0)"

definition is_available :: "nat \<Rightarrow> (nat \<Rightarrow> nat) \<Rightarrow> nat \<Rightarrow> bool" where
  "is_available n st i \<longleftrightarrow> 0 < i \<and> i < 2 ^ n \<and> st i = 0 \<and> list_all (\<lambda>p. \<not> is_alloc n st p) (ancestors i)"

lemma combine_0 [simp]: "combine a b = 0 \<longleftrightarrow> a = 0 \<and> b = 0"
  by (simp add: combine_def)

lemma node_okD:
  assumes "tree_inv n st" "0 < p" "p < 2 ^ n"
  shows "node_ok n st p"
  using assms by (simp add: tree_inv_def)

lemma leaf_width:
  assumes "i < 2 ^ n" "\<not> 2 * i < 2 ^ n"
  shows "node_width n i = 1"
proof (cases n)
  case (Suc m)
  with assms have "2 ^ m \<le> i" "i < 2 ^ Suc m" by auto
  then have "bit_length i = Suc m" by (rule bit_length_eqI)
  with Suc show ?thesis by (simp add: node_width_def)
qed (use assms in auto)

lemma is_alloc_full:
  assumes "tree_inv n st" "is_alloc n st i"
  shows "st i = node_width n i"
proof -
  from assms(2) have i: "0 < i" "i < 2 ^ n" by (auto simp: is_alloc_def)
  note ok = node_okD [OF assms(1) i]
  show ?thesis
  proof (cases "2 * i < 2 ^ n")
    case True
    with ok assms(2) show ?thesis by (auto simp: node_ok_def is_alloc_def exact_def combine_def)
  next
    case False
    with leaf_width [OF i(2)] ok assms(2) show ?thesis by (auto simp: node_ok_def is_alloc_def)
  qed
qed

lemma not_alloc_exact:
  assumes "node_ok n st p" "0 < p" "2 * p < 2 ^ n" "\<not> is_alloc n st p"
  shows "exact st p"
  using assms node_width_pos [of p n] by (auto simp: node_ok_def is_alloc_def exact_def)

lemma exact_not_alloc: "exact st p \<Longrightarrow> 2 * p < 2 ^ n \<Longrightarrow> \<not> is_alloc n st p"
  by (auto simp: exact_def is_alloc_def)

text \<open>Every ancestor of a node in use is in use, and is not itself an allocated block.\<close>

lemma used_ancestors:
  assumes "tree_inv n st" "i < 2 ^ n" "st i \<noteq> 0" "p \<in> set (ancestors i)"
  shows "st p \<noteq> 0 \<and> exact st p"
  using assms(2-)
proof (induction i rule: ancestors.induct)
  case (1 i)
  then have i: "1 < i" by (cases "i \<le> 1") auto
  define q where "q = i div 2"
  have q: "0 < q" "q < 2 ^ n" "2 * q < 2 ^ n" using i 1 by (auto simp: q_def)
  have "i = 2 * q \<or> i = 2 * q + 1" by (auto simp: q_def)
  with "1.prems" have child: "st (2 * q) \<noteq> 0 \<or> st (2 * q + 1) \<noteq> 0" by auto
  with node_okD [OF assms(1) q(1,2)] q(3) have "exact st q" by (auto simp: node_ok_def)
  moreover from this child have "st q \<noteq> 0" by (auto simp: exact_def)
  ultimately show ?case using "1.IH" i "1.prems" q by (auto simp: ancestors_step q_def [symmetric])
qed

subsection \<open>Repairing the parent chain restores the invariant\<close>

lemma st_chain_other: "j \<notin> set (ancestors i) \<Longrightarrow> st_chain st i j = st j"
proof (induction i arbitrary: st rule: less_induct)
  case (less i)
  show ?case
  proof (cases "i \<le> 1")
    case False
    with less.prems have j: "j \<noteq> i div 2" "j \<notin> set (ancestors (i div 2))"
      by (auto simp: ancestors_step)
    with less.IH [of "i div 2"] False show ?thesis
      by (simp add: st_chain_step Let_def)
  qed (simp add: st_chain_stop)
qed

lemma combine_width:
  assumes "0 < p" "2 * p < 2 ^ n" "st (2 * p) \<le> node_width n (2 * p)"
  shows "combine (st (2 * p)) (st (2 * p + 1)) \<le> node_width n p"
  using assms node_width_children(1) [OF assms(1,2)] node_width_pos [of p n]
  by (auto simp: combine_def min_def)

lemma st_chain_correct:
  assumes "0 < i" "i < 2 ^ n" "\<forall>p \<in> {1..<2 ^ n}. p \<noteq> i div 2 \<longrightarrow> node_ok n st p"
    "\<forall>p \<in> {1..<2 ^ n}. st p \<le> node_width n p"
    "\<forall>p \<in> set (ancestors i). p \<noteq> i div 2 \<longrightarrow> exact st p"
  shows "tree_inv n (st_chain st i) \<and> (\<forall>p \<in> set (ancestors i). exact (st_chain st i) p)"
  using assms
proof (induction st i rule: st_chain.induct)
  case (1 st i)
  show ?case
  proof (cases "i \<le> 1")
    case True
    with "1.prems"(1) have "i = 1" by simp
    with "1.prems" show ?thesis by (auto simp: st_chain_stop tree_inv_def)
  next
    case False
    define p where "p = i div 2"
    define v where "v = combine (st (2 * p)) (st (2 * p + 1))"
    have p: "0 < p" "p < 2 ^ n" "2 * p < 2 ^ n" using False "1.prems"(2) by (auto simp: p_def)
    have anc: "ancestors i = p # ancestors p" using False by (simp add: ancestors_step p_def)
    have chain: "st_chain st i = (if v = st p then st else st_chain (st(p := v)) p)"
      using False by (simp add: st_chain_step p_def v_def Let_def)
    show ?thesis
    proof (cases "v = st p")
      case True
      then have "exact st p" by (simp add: exact_def v_def)
      moreover from this have "node_ok n st p" using "1.prems"(4) p by (simp add: node_ok_def)
      ultimately show ?thesis
        using "1.prems"(3,5) True by (auto simp: chain p_def [symmetric] tree_inv_def anc)
    next
      case ne: False
      let ?st = "st(p := v)"
      have v: "v \<le> node_width n p"
        unfolding v_def using p "1.prems"(4) by (intro combine_width) auto
      have exp: "exact ?st p" using p by (simp add: exact_def v_def)
      have keep: "exact ?st q = exact st q" if "q \<noteq> p" "q \<noteq> p div 2" for q
        using that by (auto simp: exact_def)
      have ok: "node_ok n ?st q" if q: "q \<in> {1..<2 ^ n}" "q \<noteq> p div 2" for q
      proof (cases "q = p")
        case True
        then show ?thesis using exp v by (simp add: node_ok_def)
      next
        case qp: False
        with "1.prems"(3) q have "node_ok n st q" by (auto simp: p_def)
        with qp q keep [OF qp q(2)] show ?thesis by (auto simp: node_ok_def)
      qed
      have w: "\<forall>q \<in> {1..<2 ^ n}. ?st q \<le> node_width n q" using "1.prems"(4) v by auto
      have ex: "\<forall>q \<in> set (ancestors p). q \<noteq> p div 2 \<longrightarrow> exact ?st q"
      proof (intro ballI impI)
        fix q assume q: "q \<in> set (ancestors p)" "q \<noteq> p div 2"
        with ancestors_less [of q p] have "q \<noteq> p" by auto
        with q "1.prems"(5) keep show "exact ?st q" by (auto simp: anc p_def [symmetric])
      qed
      have IH: "tree_inv n (st_chain ?st p) \<and> (\<forall>q \<in> set (ancestors p). exact (st_chain ?st p) q)"
        using "1.IH" [OF False p_def v_def ne] p ok w ex by blast
      have "p \<notin> set (ancestors p)" "2 * p \<notin> set (ancestors p)" "2 * p + 1 \<notin> set (ancestors p)"
        using ancestors_less [of _ p] by fastforce+
      note same = this [THEN st_chain_other [where st = ?st]]
      have "exact (st_chain ?st p) p" using exp unfolding exact_def same .
      with IH show ?thesis
        using ne by (simp add: chain anc)
    qed
  qed
qed

text \<open>Changing the status of one node and repairing the chain changes the allocated set only at
  that node, provided no ancestor was an allocated block.\<close>

lemma st_update_correct:
  assumes inv: "tree_inv n st" and i: "0 < i" "i < 2 ^ n"
    and ch: "2 * i < 2 ^ n \<longrightarrow> st (2 * i) = 0 \<and> st (2 * i + 1) = 0"
    and v: "v = 0 \<or> v = node_width n i"
    and anc: "\<forall>p \<in> set (ancestors i). exact st p"
  shows "tree_inv n (st_chain (st(i := v)) i)"
    and "is_alloc n (st_chain (st(i := v)) i) j \<longleftrightarrow> (if j = i then v \<noteq> 0 else is_alloc n st j)"
proof -
  let ?st = "st(i := v)"
  have keep: "exact ?st q = exact st q" if "q \<noteq> i" "q \<noteq> i div 2" for q
    using that by (auto simp: exact_def)
  have ok: "node_ok n ?st q" if q: "q \<in> {1..<2 ^ n}" "q \<noteq> i div 2" for q
  proof (cases "q = i")
    case True
    with i ch v show ?thesis by (auto simp: node_ok_def exact_def)
  next
    case False
    with inv q have "node_ok n st q" by (simp add: tree_inv_def)
    with False q keep [OF False q(2)] show ?thesis by (auto simp: node_ok_def)
  qed
  have w: "\<forall>q \<in> {1..<2 ^ n}. ?st q \<le> node_width n q"
    using inv v by (auto simp: tree_inv_def node_ok_def)
  have ex: "\<forall>q \<in> set (ancestors i). q \<noteq> i div 2 \<longrightarrow> exact ?st q"
    using anc keep ancestors_less [of _ i] by (metis less_irrefl)
  have res: "tree_inv n (st_chain ?st i)" "\<forall>p \<in> set (ancestors i). exact (st_chain ?st i) p"
    using st_chain_correct [OF i _ w ex] ok by auto
  then show "tree_inv n (st_chain ?st i)" by blast
  have big: "2 * i \<notin> set (ancestors i)" "2 * i + 1 \<notin> set (ancestors i)" "i \<notin> set (ancestors i)"
    using ancestors_less [of _ i] by fastforce+
  show "is_alloc n (st_chain ?st i) j \<longleftrightarrow> (if j = i then v \<noteq> 0 else is_alloc n st j)"
  proof (cases "j = i")
    case True
    with i ch big show ?thesis by (auto simp: is_alloc_def st_chain_other)
  next
    case False
    show ?thesis
    proof (cases "j \<in> set (ancestors i)")
      case True
      then have "2 * j < 2 ^ n" using ancestors_internal [OF _ i(2)] by fastforce
      with True res(2) anc False show ?thesis using exact_not_alloc by auto
    next
      case out: False
      have "2 * j \<notin> insert i (set (ancestors i))" "2 * j + 1 \<notin> insert i (set (ancestors i))" if "0 < j"
        using out that ancestors_child [of j "2 * j" i] ancestors_child [of j "2 * j + 1" i] by auto
      with out False show ?thesis by (auto simp: is_alloc_def st_chain_other)
    qed
  qed
qed

subsection \<open>Marking, releasing and searching\<close>

text \<open>The status of a node as the tree reports it, and the sets it determines.\<close>

definition node_status :: "buddy_tree \<Rightarrow> nat \<Rightarrow> nat" where
  "node_status t i = buddy_tree_status t (node_pos i)"

definition slots_unary :: "buddy_tree \<Rightarrow> bool" where
  "slots_unary t \<longleftrightarrow> (\<forall>i \<in> {1..<2 ^ bt_order t}. node_status t i \<le> node_width (bt_order t) i \<and>
     (\<forall>q \<in> {0..<node_width (bt_order t) i}.
        bitset_test (bt_data t) (slot_start (bt_order t) i + q) \<longleftrightarrow> q < node_status t i))"

definition tree_ok :: "buddy_tree \<Rightarrow> bool" where
  "tree_ok t \<longleftrightarrow> tree_wf t \<and> slots_unary t \<and> tree_inv (bt_order t) (node_status t)"

definition block_allocated :: "buddy_tree \<Rightarrow> nat \<Rightarrow> bool" where
  "block_allocated t i \<longleftrightarrow> is_alloc (bt_order t) (node_status t) i"

definition block_available :: "buddy_tree \<Rightarrow> nat \<Rightarrow> bool" where
  "block_available t i \<longleftrightarrow> is_available (bt_order t) (node_status t) i"

lemma tree_ok_rep: "tree_ok t \<Longrightarrow> tree_rep t (node_status t)"
  by (auto simp: tree_ok_def tree_rep_def slots_unary_def)

lemma tree_rep_status:
  "tree_rep t st \<Longrightarrow> 0 < i \<Longrightarrow> i < 2 ^ bt_order t \<Longrightarrow> node_status t i = st i"
  by (simp add: node_status_def status_node)

lemma double_less: "0 < n \<Longrightarrow> 2 * i < 2 ^ n \<Longrightarrow> 2 * i + 1 < (2::nat) ^ n"
  by (cases n) auto

lemma inv_cong:
  assumes "\<And>i. 0 < i \<Longrightarrow> i < 2 ^ n \<Longrightarrow> st i = st' i" "0 < n"
  shows "tree_inv n st = tree_inv n st'" "is_alloc n st i = is_alloc n st' i"
    "is_available n st i = is_available n st' i"
proof -
  have ch: "st (2 * p) = st' (2 * p)" "st (2 * p + 1) = st' (2 * p + 1)" if "0 < p" "2 * p < 2 ^ n" for p
    using assms(1) [of "2 * p"] assms(1) [of "2 * p + 1"] that double_less [OF assms(2), of p] by auto
  show alloc: "is_alloc n st i = is_alloc n st' i" for i
    using ch [of i] assms(1) [of i] by (auto simp: is_alloc_def)
  have "node_ok n st p = node_ok n st' p" if "p \<in> {1..<2 ^ n}" for p
    using that ch [of p] assms(1) [of p] by (auto simp: node_ok_def exact_def)
  then show "tree_inv n st = tree_inv n st'" by (simp add: tree_inv_def)
  show "is_available n st i = is_available n st' i"
    using assms(1) [of i] by (auto simp: is_available_def alloc)
qed

lemma tree_repI:
  assumes "tree_rep t st" "tree_inv (bt_order t) st"
  shows "tree_ok t" "block_allocated t i = is_alloc (bt_order t) st i"
    "block_available t i = is_available (bt_order t) st i"
proof -
  have n: "0 < bt_order t" using tree_repD(1) [OF assms(1)] by (simp add: tree_wf_def)
  note c = inv_cong [OF tree_rep_status [OF assms(1)] n]
  show "block_allocated t i = is_alloc (bt_order t) st i"
    "block_available t i = is_available (bt_order t) st i"
    using c by (simp_all add: block_allocated_def block_available_def)
  have "slots_unary t"
    using assms(1) tree_rep_status [OF assms(1)] by (auto simp: slots_unary_def tree_rep_def)
  then show "tree_ok t"
    using assms c tree_repD(1) [OF assms(1)] by (auto simp: tree_ok_def)
qed

lemma bt_order_mark [simp]: "bt_order (buddy_tree_mark t pos) = bt_order t"
  by (simp add: buddy_tree_mark_def Let_def)

lemma bt_order_release [simp]: "bt_order (buddy_tree_release t pos) = bt_order t"
  by (simp add: buddy_tree_release_def Let_def)

lemma available_exact:
  assumes "tree_inv n st" "is_available n st i"
  shows "2 * i < 2 ^ n \<longrightarrow> st (2 * i) = 0 \<and> st (2 * i + 1) = 0"
    and "\<forall>p \<in> set (ancestors i). exact st p"
proof -
  from assms(2) have i: "0 < i" "i < 2 ^ n" "st i = 0" and na: "\<forall>p \<in> set (ancestors i). \<not> is_alloc n st p"
    by (auto simp: is_available_def list_all_iff)
  show "2 * i < 2 ^ n \<longrightarrow> st (2 * i) = 0 \<and> st (2 * i + 1) = 0"
    using node_okD [OF assms(1) i(1,2)] i(3) by (auto simp: node_ok_def exact_def)
  show "\<forall>p \<in> set (ancestors i). exact st p"
  proof
    fix p assume p: "p \<in> set (ancestors i)"
    with ancestors_less [OF p] ancestors_internal [OF p i(2)] i(2)
    have "0 < p" "p < 2 ^ n" "2 * p < 2 ^ n" by auto
    with na p not_alloc_exact [OF node_okD [OF assms(1)]] show "exact st p" by blast
  qed
qed

lemma mark_correct:
  assumes "tree_ok t" "block_available t i"
  shows "tree_ok (buddy_tree_mark t (node_pos i))"
    and "block_allocated (buddy_tree_mark t (node_pos i)) j \<longleftrightarrow> j = i \<or> block_allocated t j"
proof -
  let ?n = "bt_order t" and ?st = "node_status t"
  have inv: "tree_inv ?n ?st" and av: "is_available ?n ?st i"
    using assms by (simp_all add: tree_ok_def block_available_def)
  from av have i: "0 < i" "i < 2 ^ ?n" by (simp_all add: is_available_def)
  note upd = st_update_correct [OF inv i available_exact(1) [OF inv av] disjI2 [OF refl] available_exact(2) [OF inv av]]
  have rep: "tree_rep (buddy_tree_mark t (node_pos i)) (st_chain (?st(i := node_width ?n i)) i)"
    by (rule mark_rep [OF tree_ok_rep [OF assms(1)] i])
  note r = tree_repI [OF rep, unfolded bt_order_mark, OF upd(1)]
  show "tree_ok (buddy_tree_mark t (node_pos i))" by (rule r(1))
  show "block_allocated (buddy_tree_mark t (node_pos i)) j \<longleftrightarrow> j = i \<or> block_allocated t j"
    using r(2) [of j] upd(2) [of j] node_width_pos [OF i(2)] by (auto simp: block_allocated_def)
qed

lemma release_correct:
  assumes "tree_ok t" "block_allocated t i"
  shows "tree_ok (buddy_tree_release t (node_pos i))"
    and "block_allocated (buddy_tree_release t (node_pos i)) j \<longleftrightarrow> j \<noteq> i \<and> block_allocated t j"
proof -
  let ?n = "bt_order t" and ?st = "node_status t"
  have inv: "tree_inv ?n ?st" and al: "is_alloc ?n ?st i"
    using assms by (simp_all add: tree_ok_def block_allocated_def)
  from al have i: "0 < i" "i < 2 ^ ?n" "?st i \<noteq> 0"
    and ch: "2 * i < 2 ^ ?n \<longrightarrow> ?st (2 * i) = 0 \<and> ?st (2 * i + 1) = 0"
    by (simp_all add: is_alloc_def)
  have "\<forall>p \<in> set (ancestors i). exact ?st p" using used_ancestors [OF inv i(2,3)] by blast
  note upd = st_update_correct [OF inv i(1,2) ch disjI1 [OF refl] this]
  have rep: "tree_rep (buddy_tree_release t (node_pos i)) (st_chain (?st(i := 0)) i)"
    using release_rep [OF tree_ok_rep [OF assms(1)] i(1,2)] is_alloc_full [OF inv al] by simp
  note r = tree_repI [OF rep, unfolded bt_order_release, OF upd(1)]
  show "tree_ok (buddy_tree_release t (node_pos i))" by (rule r(1))
  show "block_allocated (buddy_tree_release t (node_pos i)) j \<longleftrightarrow> j \<noteq> i \<and> block_allocated t j"
    using r(2) [of j] upd(2) [of j] by (auto simp: block_allocated_def)
qed

end
