(* ===== verification/Buddy_Tree_Search.thy ===== *)
theory Buddy_Tree_Search
  imports Buddy_Tree_Inv
begin

text \<open>
  Searching the allocation tree: \<open>buddy_tree_find_free\<close> returns an available block of the requested
  depth whenever one exists, and \<open>buddy_tree_is_free\<close> decides availability. Also: the empty tree
  \<open>buddy_tree_init\<close> builds, and that allocated blocks never overlap.
\<close>

subsection \<open>The descent\<close>

lemma status_not_full:
  assumes "tree_inv n st" "0 < i" "i < 2 ^ n" "st i < node_width n i"
  shows "\<not> is_alloc n st i"
  using is_alloc_full [OF assms(1), of i] assms(4) by auto

lemma bit_length_depth:
  assumes "bit_length i = c" "c < d" "d \<le> n"
  shows "2 * i + 1 < 2 ^ n"
proof -
  have "i < 2 ^ c" using assms(1) bit_length_le_iff by blast
  then have "2 * i + 1 < 2 ^ Suc c" by simp
  also have "(2::nat) ^ Suc c \<le> 2 ^ n" using assms(2,3) by (intro power_increasing) auto
  finally show ?thesis .
qed

lemma find_free_step:
  assumes rep: "tree_rep t st" and inv: "tree_inv (bt_order t) st"
    and i: "0 < i" "bit_length i = c" "c < d" "d \<le> bt_order t"
    and st: "st i \<le> d - c"
  shows "\<exists>j. j \<in> {2 * i, 2 * i + 1} \<and> st j \<le> d - Suc c \<and>
    find_free_loop t (node_pos i) (d - c) c d = find_free_loop t (node_pos j) (d - Suc c) (Suc c) d"
proof -
  let ?n = "bt_order t" and ?l = "2 * i" and ?r = "2 * i + 1" and ?ts = "d - Suc c"
  have lt: "2 * i + 1 < 2 ^ ?n" using i by (intro bit_length_depth)
  then have l: "0 < ?l" "?l < 2 ^ ?n" and r: "0 < ?r" "?r < 2 ^ ?n" using i(1) by auto
  have w: "node_width ?n ?l = ?n - c" "node_width ?n ?r = ?n - c" "node_width ?n i = ?n + 1 - c"
    using i by (simp_all add: node_width_def)
  have ts: "0 < ?ts + 1" "?ts + 1 \<le> node_width ?n ?l" "?ts + 1 \<le> node_width ?n ?r" "d - c - 1 = ?ts"
    using i w by auto
  have cl: "compare_with_internal_position (bt_data t) (node_slot ?n ?l) (?ts + 1) \<longleftrightarrow> ?ts + 1 \<le> st ?l"
    using compare_slot [OF rep l ts(1,2)] .
  have cr: "compare_with_internal_position (bt_data t) (node_slot ?n ?r) (?ts + 1) \<longleftrightarrow> ?ts + 1 \<le> st ?r"
    using compare_slot [OF rep r ts(1,3)] .
  have slot_r: "(node_slot ?n ?l) \<lparr>bitset_location := slot_start ?n ?l + node_width ?n ?l\<rparr> = node_slot ?n ?r"
    using l(1) w by (simp add: node_slot_def slot_start_Suc)
  have read_r: "read_from_internal_position (bt_data t) ((node_slot ?n ?r) \<lparr>local_offset := ?ts\<rparr>) = st ?r"
    if "st ?r \<le> ?ts"
    using that ts(3) by (intro read_slot_span [OF rep r]) auto
  define j where "j = (if ?ts + 1 \<le> st ?l then ?r else if ?ts + 1 \<le> st ?r then ?l
    else if st ?r \<noteq> 0 then
      if compare_with_internal_position (bt_data t) (node_slot ?n ?l) (st ?r) then ?l else ?r
    else ?l)"
  have pos: "buddy_tree_left_child (node_pos i) = node_pos ?l" "buddy_tree_sibling (node_pos ?l) = node_pos ?r"
    "buddy_tree_internal_position_tree t (node_pos ?l) = node_slot ?n ?l"
    using i(1) pos_simps internal_position_tree_node [OF tree_repD(1) [OF rep] l] by blast+
  have eq: "find_free_loop t (node_pos i) (d - c) c d = find_free_loop t (node_pos j) ?ts (Suc c) d"
    using i(3) read_r
    by (subst find_free_loop.simps)
      (simp add: Let_def pos slot_r cl [simplified] cr [simplified] j_def not_le less_Suc_eq_le ts(4) [simplified])
  have "exact st i \<or> st ?l = 0 \<and> st ?r = 0"
    using node_okD [OF inv i(1)] lt by (auto simp: node_ok_def)
  then have "st ?l \<le> ?ts \<or> st ?r \<le> ?ts"
    using st i(3) by (auto simp: exact_def combine_def split: if_splits)
  then have "st j \<le> ?ts" by (auto simp: j_def)
  moreover have "j \<in> {?l, ?r}" by (auto simp: j_def)
  ultimately show ?thesis using eq by blast
qed

lemma find_free_loop_correct:
  assumes rep: "tree_rep t st" and inv: "tree_inv (bt_order t) st"
  shows "0 < i \<Longrightarrow> bit_length i = c \<Longrightarrow> c \<le> d \<Longrightarrow> d \<le> bt_order t \<Longrightarrow> st i \<le> d - c \<Longrightarrow>
    list_all (\<lambda>p. \<not> is_alloc (bt_order t) st p) (ancestors i) \<Longrightarrow>
    \<exists>j. find_free_loop t (node_pos i) (d - c) c d = node_pos j \<and> bit_length j = d \<and>
      is_available (bt_order t) st j"
proof (induction "d - c" arbitrary: i c)
  case 0
  then have "i < 2 ^ bt_order t" using bit_length_le_iff by fastforce
  moreover have "find_free_loop t (node_pos i) (d - c) c d = node_pos i"
    using 0 by (subst find_free_loop.simps) simp
  ultimately show ?case using 0 by (intro exI [of _ i]) (auto simp: is_available_def)
next
  case (Suc k)
  then have cd: "c < d" by simp
  from find_free_step [OF rep inv Suc.prems(1,2) cd Suc.prems(4,5)] obtain j where
    j: "j \<in> {2 * i, 2 * i + 1}" "st j \<le> d - Suc c"
      "find_free_loop t (node_pos i) (d - c) c d = find_free_loop t (node_pos j) (d - Suc c) (Suc c) d"
    by blast
  have jj: "0 < j" "bit_length j = Suc c" "j div 2 = i" using j(1) Suc.prems(1,2) by auto
  have "\<not> is_alloc (bt_order t) st i"
    using Suc.prems cd bit_length_depth [OF Suc.prems(2) cd Suc.prems(4)]
    by (intro status_not_full [OF inv]) (auto simp: node_width_def)
  then have "list_all (\<lambda>p. \<not> is_alloc (bt_order t) st p) (ancestors j)"
    using Suc.prems(1,6) jj by (subst ancestors_step) auto
  with Suc.hyps(1) [of "Suc c" j] Suc.hyps(2) Suc.prems(4) cd jj j show ?case by simp
qed

text \<open>No block of a depth is available when the root's status says so.\<close>

lemma available_root_status:
  assumes inv: "tree_inv n st" and "is_available n st i"
  shows "st 1 + 1 \<le> bit_length i"
proof -
  have "st i = 0" and i: "0 < i" "i < 2 ^ n" using assms(2) by (auto simp: is_available_def)
  note ex = available_exact(2) [OF assms]
  have "st 1 + 1 \<le> st k + bit_length k" if "0 < k" "k < 2 ^ n" "\<forall>p \<in> set (ancestors k). exact st p" for k
    using that
  proof (induction k rule: less_induct)
    case (less k)
    show ?case
    proof (cases "k \<le> 1")
      case True
      with less.prems have "k = 1" by simp
      then show ?thesis by simp
    next
      case False
      define p where "p = k div 2"
      have k: "k = 2 * p \<or> k = 2 * p + 1" and p: "0 < p" "p < k" using False by (auto simp: p_def)
      have ex: "exact st p" "\<forall>q \<in> set (ancestors p). exact st q"
        using less.prems(3) False by (simp_all add: ancestors_step p_def)
      have "st p \<le> st k + 1" using ex(1) k by (auto simp: exact_def combine_def min_def)
      moreover have "bit_length k = Suc (bit_length p)"
        using False by (simp add: bit_length_pos [of k] p_def)
      moreover have "st 1 + 1 \<le> st p + bit_length p"
        using less.IH [OF p(2,1) _ ex(2)] p less.prems(2) by simp
      ultimately show ?thesis by simp
    qed
  qed
  from this [OF i ex] \<open>st i = 0\<close> show ?thesis by simp
qed

lemma find_free_correct:
  assumes "tree_ok t" "0 < d" "d \<le> bt_order t"
  shows "if \<exists>i. block_available t i \<and> bit_length i = d
    then \<exists>i. buddy_tree_find_free t d = node_pos i \<and> block_available t i \<and> bit_length i = d
    else buddy_tree_find_free t d = INVALID_POS"
proof -
  let ?n = "bt_order t" and ?st = "node_status t"
  note rep = tree_ok_rep [OF assms(1)]
  have inv: "tree_inv ?n ?st" using assms(1) by (simp add: tree_ok_def)
  have root: "buddy_tree_status t buddy_tree_root = ?st 1"
    by (simp add: node_status_def buddy_tree_root_node)
  show ?thesis
  proof (cases "d - 1 < ?st 1")
    case True
    then have "\<not> (\<exists>i. block_available t i \<and> bit_length i = d)"
      using available_root_status [OF inv] by (fastforce simp: block_available_def)
    with True root show ?thesis by (auto simp: buddy_tree_find_free_def)
  next
    case False
    have "\<exists>j. find_free_loop t (node_pos 1) (d - 1) 1 d = node_pos j \<and> bit_length j = d \<and>
        is_available ?n ?st j"
      using assms False by (intro find_free_loop_correct [OF rep inv]) auto
    then show ?thesis
      using False root by (auto simp: buddy_tree_find_free_def block_available_def buddy_tree_root_node)
  qed
qed

subsection \<open>The availability test\<close>

lemma is_free_loop_correct:
  assumes ok: "tree_ok t" and i: "0 < i" "i < 2 ^ bt_order t" "node_status t i = 0"
  shows "is_free_loop t (node_pos (i div 2)) \<longleftrightarrow>
    list_all (\<lambda>p. \<not> block_allocated t p) (ancestors i)"
  using i
proof (induction i rule: less_induct)
  case (less i)
  let ?n = "bt_order t"
  note rep = tree_ok_rep [OF ok]
  have wf: "tree_wf t" and inv: "tree_inv ?n (node_status t)" using ok by (simp_all add: tree_ok_def)
  have bound: "bt_upper_pos_bound t = 2 ^ ?n" using wf by (simp add: tree_wf_def)
  show ?case
  proof (cases "i \<le> 1")
    case True
    then show ?thesis by (subst is_free_loop.simps) (simp add: buddy_tree_valid_def)
  next
    case False
    define p where "p = i div 2"
    have p: "0 < p" "p < 2 ^ ?n" "2 * p < 2 ^ ?n" "p < i" using False less.prems by (auto simp: p_def)
    have k: "i = 2 * p \<or> i = 2 * p + 1" by (auto simp: p_def)
    have read: "read_from_internal_position (bt_data t) (node_slot ?n p) = node_status t p"
      by (rule read_slot [OF rep p(1,2)])
    have loop: "is_free_loop t (node_pos p) =
        (if node_status t p \<noteq> 0 then node_status t p \<noteq> node_width ?n p else is_free_loop t (node_pos (p div 2)))"
      using p read internal_position_tree_node [OF wf p(1,2)] bound parent_node [OF p(1)]
      by (subst is_free_loop.simps) (simp add: buddy_tree_valid_def Let_def)
    show ?thesis
    proof (cases "node_status t p = 0")
      case True
      then have "\<not> block_allocated t p" by (simp add: block_allocated_def is_alloc_def)
      with True less.IH [OF p(4,1,2)] False show ?thesis
        by (simp add: loop ancestors_step p_def [symmetric])
    next
      case ne: False
      have anc: "\<forall>q \<in> set (ancestors p). \<not> block_allocated t q"
        using used_ancestors [OF inv p(2) ne] ancestors_internal [of _ p ?n] p(2) exact_not_alloc
        unfolding block_allocated_def by (metis add_lessD1)
      have "block_allocated t p \<longleftrightarrow> node_status t p = node_width ?n p"
      proof
        assume "block_allocated t p"
        then show "node_status t p = node_width ?n p"
          using is_alloc_full [OF inv] by (simp add: block_allocated_def)
      next
        assume full: "node_status t p = node_width ?n p"
        have "1 < node_width ?n p"
          using node_width_children(1) [OF p(1,3)] node_width_pos [of "2 * p" ?n] p(3) by linarith
        with full have "\<not> exact (node_status t) p"
          using less.prems(3) k by (auto simp: exact_def combine_def)
        with node_okD [OF inv p(1,2)] p ne show "block_allocated t p"
          by (auto simp: node_ok_def block_allocated_def is_alloc_def)
      qed
      with ne anc False show ?thesis
        by (auto simp: loop ancestors_step p_def [symmetric] list_all_iff)
    qed
  qed
qed

lemma is_free_correct:
  assumes "tree_ok t" "0 < i" "i < 2 ^ bt_order t"
  shows "buddy_tree_is_free t (node_pos i) \<longleftrightarrow> block_available t i"
  using is_free_loop_correct [OF assms] assms parent_node [OF assms(2)]
  by (auto simp: buddy_tree_is_free_def block_available_def is_available_def block_allocated_def
      node_status_def)

subsection \<open>The empty tree\<close>

lemma init_data:
  assumes "0 < n" "n < 32" "q < 8 * (8 * memo_word n)"
  shows "\<not> bitset_test (bt_data (fst (buddy_tree_init n))) q"
proof -
  let ?d = "replicate (buddy_tree_sizeof n - sizeof_struct_buddy_tree) (0 :: u8)"
  have len: "8 * (memo_word n + n + 1) \<le> length ?d" using memo_fits_sizeof [of n] by simp
  have "bt_data (fst (buddy_tree_init n)) = populate_loop n (memo_word n) ?d [0..<n + 1]"
    by (simp add: buddy_tree_init_def buddy_tree_populate_size_for_order_def memo_word_def Let_def)
  moreover have "populate_loop n (memo_word n) ?d [0..<n + 1] ! (q div 8) = ?d ! (q div 8)"
    using len assms(3) by (intro populate_loop_other) auto
  moreover have "?d ! (q div 8) = 0" using len assms(3) by (intro nth_replicate) auto
  ultimately show ?thesis by (simp add: bitset_test_bit)
qed

lemma bt_order_init [simp]: "bt_order (fst (buddy_tree_init n)) = n"
  by (simp add: buddy_tree_init_def Let_def)

lemma init_rep:
  assumes "0 < n" "n < 32"
  shows "tree_rep (fst (buddy_tree_init n)) (\<lambda>_. 0)"
proof -
  have "\<not> bitset_test (bt_data (fst (buddy_tree_init n))) (slot_start n i + q)"
    if "0 < i" "i < 2 ^ n" "q < node_width n i" for i q
    using that node_slot_fits(1) [OF tree_wf_init [OF assms], of i] by (intro init_data assms) simp
  with tree_wf_init [OF assms] show ?thesis by (auto simp: tree_rep_def)
qed

lemma init_correct:
  assumes "0 < n" "n < 32"
  shows "tree_ok (fst (buddy_tree_init n))" "\<not> block_allocated (fst (buddy_tree_init n)) i"
    "block_available (fst (buddy_tree_init n)) i \<longleftrightarrow> 0 < i \<and> i < 2 ^ n"
proof -
  have inv: "tree_inv n (\<lambda>_. 0)" by (simp add: tree_inv_def node_ok_def exact_def)
  note r = tree_repI [OF init_rep [OF assms], unfolded bt_order_init, OF inv]
  show "tree_ok (fst (buddy_tree_init n))" by (rule r(1))
  show "\<not> block_allocated (fst (buddy_tree_init n)) i" by (simp add: r(2) is_alloc_def)
  show "block_available (fst (buddy_tree_init n)) i \<longleftrightarrow> 0 < i \<and> i < 2 ^ n"
    by (simp add: r(3) is_available_def is_alloc_def list_all_iff)
qed

subsection \<open>Blocks do not overlap\<close>

text \<open>The leaves (alignment units) below a node, counted from the left edge of the arena.\<close>

definition block_leaves :: "nat \<Rightarrow> nat \<Rightarrow> nat set" where
  "block_leaves n i = {x. x < 2 ^ (n - 1) \<and> (2 ^ (n - 1) + x) div 2 ^ (n - bit_length i) = i}"

lemma ancestors_div: "0 < j div 2 ^ k \<Longrightarrow> 0 < k \<Longrightarrow> j div 2 ^ k \<in> set (ancestors j)"
proof (induction k arbitrary: j)
  case (Suc k)
  have eq: "j div 2 ^ Suc k = (j div 2) div 2 ^ k" by (simp add: div_mult2_eq)
  with Suc.prems have "1 < j" by (cases "j \<le> 1") (auto simp: div_eq_0_iff le_Suc_eq)
  then show ?case
    using Suc eq by (cases "k = 0") (auto simp: ancestors_step)
qed simp

lemma overlap_ancestor:
  assumes "0 < i" "0 < j" "bit_length i \<le> bit_length j" "bit_length j \<le> n" "i \<noteq> j"
    "x \<in> block_leaves n i" "x \<in> block_leaves n j"
  shows "i \<in> set (ancestors j)"
proof -
  let ?y = "2 ^ (n - 1) + x" and ?k = "bit_length j - bit_length i"
  have "i = ?y div 2 ^ (n - bit_length i)" "j = ?y div 2 ^ (n - bit_length j)"
    using assms(6,7) by (auto simp: block_leaves_def)
  moreover have "n - bit_length i = (n - bit_length j) + ?k" using assms by simp
  ultimately have eq: "i = j div 2 ^ ?k" by (metis div_mult2_eq power_add)
  with assms(5) have "0 < ?k" by (cases "?k = 0") auto
  with eq assms(1) ancestors_div [of j ?k] show ?thesis by simp
qed

lemma allocated_disjoint:
  assumes "tree_ok t" "block_allocated t i" "block_allocated t j" "i \<noteq> j"
  shows "block_leaves (bt_order t) i \<inter> block_leaves (bt_order t) j = {}"
proof -
  let ?n = "bt_order t"
  have inv: "tree_inv ?n (node_status t)" using assms(1) by (simp add: tree_ok_def)
  have main: "False" if al: "block_allocated t a" "block_allocated t b"
    and ab: "bit_length a \<le> bit_length b" "a \<noteq> b" and x: "x \<in> block_leaves ?n a" "x \<in> block_leaves ?n b" for a b x
  proof -
    have b: "0 < a" "0 < b" "b < 2 ^ ?n" "node_status t b \<noteq> 0"
      using al by (auto simp: block_allocated_def is_alloc_def)
    have "a \<in> set (ancestors b)"
      using overlap_ancestor [OF b(1,2) ab(1) _ ab(2) x] b(3) bit_length_le_iff by blast
    with used_ancestors [OF inv b(3,4)] ancestors_internal [of a b ?n] b(3) al(1) exact_not_alloc
    show False unfolding block_allocated_def by (metis add_lessD1)
  qed
  show ?thesis using main [of i j] main [of j i] assms(2-4) by (metis disjoint_iff nat_le_linear)
qed

subsection \<open>Availability is disjointness from the allocated blocks\<close>

definition block_first :: "nat \<Rightarrow> nat \<Rightarrow> nat" where
  "block_first n i = (i - 2 ^ (bit_length i - 1)) * 2 ^ (n - bit_length i)"

definition block_count :: "nat \<Rightarrow> nat \<Rightarrow> nat" where
  "block_count n i = 2 ^ (n - bit_length i)"

lemma block_leaves_interval:
  assumes "0 < i" "i < 2 ^ n"
  shows "block_leaves n i = {block_first n i..<block_first n i + block_count n i}"
proof -
  define d c where "d = bit_length i" and "c = (2::nat) ^ (n - bit_length i)"
  have d: "d \<le> n" "0 < d"
    using assms(2) bit_length_le_iff [of i n] bit_length_pos [OF assms(1)] by (simp_all add: d_def)
  have b: "2 ^ (d - 1) \<le> i" "i < 2 ^ d" using bit_length_bounds [OF assms(1)] by (simp_all add: d_def)
  have pow: "2 ^ (d - 1) * c = 2 ^ (n - 1)" "2 ^ d * c = 2 ^ n"
    using d by (simp_all add: c_def d_def flip: power_add)
  have n: "(2::nat) ^ n = 2 * 2 ^ (n - 1)" using d by (cases n) auto
  have low: "i * c = 2 ^ (n - 1) + (i - 2 ^ (d - 1)) * c"
    unfolding pow(1) [symmetric] add_mult_distrib [symmetric] using b(1) by simp
  have "(i + 1) * c \<le> 2 ^ d * c" using b(2) by (intro mult_right_mono) auto
  then have high: "i * c + c \<le> 2 ^ n" using pow(2) by simp
  have c: "0 < c" by (simp add: c_def)
  show ?thesis
  proof (rule set_eqI)
    fix x
    have "x \<in> block_leaves n i \<longleftrightarrow> x < 2 ^ (n - 1) \<and> (2 ^ (n - 1) + x) div c = i"
      by (simp add: block_leaves_def c_def)
    also have "\<dots> \<longleftrightarrow> x < 2 ^ (n - 1) \<and> i * c \<le> 2 ^ (n - 1) + x \<and> 2 ^ (n - 1) + x < i * c + c"
      by (simp only: div_eq_iff_bounds [OF c])
    also have "\<dots> \<longleftrightarrow> (i - 2 ^ (d - 1)) * c \<le> x \<and> x < (i - 2 ^ (d - 1)) * c + c"
      using low high n by linarith
    finally show "x \<in> block_leaves n i \<longleftrightarrow> x \<in> {block_first n i..<block_first n i + block_count n i}"
      by (simp add: block_first_def block_count_def c_def d_def)
  qed
qed

lemma block_count_pos [simp]: "0 < block_count n i"
  by (simp add: block_count_def)

lemma leaves_parent:
  assumes "1 < j" "j < 2 ^ n"
  shows "block_leaves n j \<subseteq> block_leaves n (j div 2)"
proof
  fix x assume "x \<in> block_leaves n j"
  then have x: "x < 2 ^ (n - 1)" "(2 ^ (n - 1) + x) div 2 ^ (n - bit_length j) = j"
    by (auto simp: block_leaves_def)
  have "bit_length j = Suc (bit_length (j div 2))" "bit_length j \<le> n"
    using assms bit_length_pos [of j] bit_length_le_iff [of j n] by auto
  then have "n - bit_length (j div 2) = Suc (n - bit_length j)" by simp
  then have "(2 ^ (n - 1) + x) div 2 ^ (n - bit_length (j div 2)) = j div 2"
    using x(2) by (metis div_mult2_eq power_Suc2)
  with x(1) show "x \<in> block_leaves n (j div 2)" by (simp add: block_leaves_def)
qed

lemma leaves_ancestor:
  "p \<in> set (ancestors j) \<Longrightarrow> j < 2 ^ n \<Longrightarrow> block_leaves n j \<subseteq> block_leaves n p"
proof (induction j rule: ancestors.induct)
  case (1 j)
  then have j: "1 < j" by (cases "j \<le> 1") auto
  have "j div 2 < 2 ^ n" using "1.prems"(2) by simp
  with 1 j leaves_parent [OF j "1.prems"(2)] show ?case by (auto simp: ancestors_step)
qed

lemma used_has_alloc:
  assumes inv: "tree_inv n st"
  shows "0 < i \<Longrightarrow> i < 2 ^ n \<Longrightarrow> st i \<noteq> 0 \<Longrightarrow> \<exists>j. is_alloc n st j \<and> (j = i \<or> i \<in> set (ancestors j))"
proof (induction "n - bit_length i" arbitrary: i rule: less_induct)
  case less
  show ?case
  proof (cases "is_alloc n st i")
    case False
    with less.prems have ch: "2 * i < 2 ^ n" "st (2 * i) \<noteq> 0 \<or> st (2 * i + 1) \<noteq> 0"
      by (auto simp: is_alloc_def)
    have n: "0 < n" using ch(1) less.prems(1) by (cases n) auto
    define c where "c = (if st (2 * i) \<noteq> 0 then 2 * i else 2 * i + 1)"
    have c: "c div 2 = i" "0 < c" "1 < c" "c < 2 ^ n" "st c \<noteq> 0" "bit_length c = Suc (bit_length i)"
      using ch double_less [OF n ch(1)] less.prems(1) by (auto simp: c_def)
    have "bit_length i < n" using c bit_length_le_iff [of c n] by simp
    then have "n - bit_length c < n - bit_length i" using c by simp
    from less.hyps [OF this c(2,4,5)] obtain j where
      "is_alloc n st j" "j = c \<or> c \<in> set (ancestors j)" by blast
    moreover have "i \<in> set (ancestors j)"
      using ancestors_child [OF less.prems(1) c(1), of j] calculation(2) by blast
    ultimately show ?thesis by blast
  qed blast
qed

lemma available_iff_disjoint:
  assumes ok: "tree_ok t" and i: "0 < i" "i < 2 ^ bt_order t"
  shows "block_available t i \<longleftrightarrow>
    (\<forall>j. block_allocated t j \<longrightarrow> block_leaves (bt_order t) j \<inter> block_leaves (bt_order t) i = {})"
proof
  assume av: "block_available t i"
  show "\<forall>j. block_allocated t j \<longrightarrow> block_leaves (bt_order t) j \<inter> block_leaves (bt_order t) i = {}"
  proof (intro allI impI)
    fix j assume j: "block_allocated t j"
    have "j \<noteq> i" using av j by (auto simp: block_available_def is_available_def block_allocated_def is_alloc_def)
    then show "block_leaves (bt_order t) j \<inter> block_leaves (bt_order t) i = {}"
      using allocated_disjoint [OF mark_correct(1) [OF ok av], of j i] mark_correct(2) [OF ok av] j by simp
  qed
next
  let ?n = "bt_order t" and ?st = "node_status t"
  assume dis: "\<forall>j. block_allocated t j \<longrightarrow> block_leaves ?n j \<inter> block_leaves ?n i = {}"
  have inv: "tree_inv ?n ?st" using ok by (simp add: tree_ok_def)
  have ne: "block_leaves ?n j \<noteq> {}" if "0 < j" "j < 2 ^ ?n" for j
    using that by (simp add: block_leaves_interval)
  have "?st i = 0"
  proof (rule ccontr)
    assume "?st i \<noteq> 0"
    from used_has_alloc [OF inv i this] obtain j where
      j: "is_alloc ?n ?st j" "j = i \<or> i \<in> set (ancestors j)" by blast
    then have "0 < j" "j < 2 ^ ?n" by (auto simp: is_alloc_def)
    with j leaves_ancestor [of i j ?n] have "block_leaves ?n j \<subseteq> block_leaves ?n i" by auto
    with dis j(1) ne [OF \<open>0 < j\<close> \<open>j < 2 ^ ?n\<close>] show False by (auto simp: block_allocated_def)
  qed
  moreover have "\<not> is_alloc ?n ?st p" if p: "p \<in> set (ancestors i)" for p
    using leaves_ancestor [OF p i(2)] dis ne [OF i] by (auto simp: block_allocated_def)
  ultimately show "block_available t i"
    using i by (simp add: block_available_def is_available_def list_all_iff)
qed

text \<open>The statuses are determined by the set of allocated blocks.\<close>

lemma inv_unique:
  assumes "tree_inv n st" "tree_inv n st'" "\<And>i. is_alloc n st i = is_alloc n st' i"
  shows "0 < i \<Longrightarrow> i < 2 ^ n \<Longrightarrow> st i = st' i"
proof (induction "n - bit_length i" arbitrary: i rule: less_induct)
  case less
  note ok = node_okD [OF assms(1) less.prems] node_okD [OF assms(2) less.prems]
  show ?case
  proof (cases "is_alloc n st i")
    case True
    then show ?thesis using is_alloc_full assms by metis
  next
    case False
    with assms(3) have F': "\<not> is_alloc n st' i" by simp
    show ?thesis
    proof (cases "2 * i < 2 ^ n")
      case True
      have n: "0 < n" using True less.prems(1) by (cases n) auto
      have "bit_length i < n" using True less.prems(1) bit_length_le_iff [of "2 * i" n] by simp
      then have "st (2 * i) = st' (2 * i)" "st (2 * i + 1) = st' (2 * i + 1)"
        using less.hyps [of "2 * i"] less.hyps [of "2 * i + 1"] True double_less [OF n True] less.prems(1) by auto
      moreover have "exact st i" "exact st' i"
        using not_alloc_exact [OF ok(1) less.prems(1) True False] not_alloc_exact [OF ok(2) less.prems(1) True F'] by auto
      ultimately show ?thesis by (simp add: exact_def)
    next
      case leaf: False
      with False F' less.prems show ?thesis by (auto simp: is_alloc_def)
    qed
  qed
qed

end
