(* ===== verification/Buddy_Alloc.thy ===== *)
theory Buddy_Alloc
  imports Buddy_Tree_Search
begin

text \<open>
  The allocator proper of \<^verbatim>\<open>src/src/buddy/include/buddy_alloc.h\<close>: \<open>struct buddy\<close> and the public
  functions on it. Addresses are naturals and \<open>NULL\<close> is \<open>0\<close>; a \<open>struct buddy *\<close> that may be null is
  a \<open>buddy option\<close>. \<open>bd_at\<close> is the address of the structure itself, which the relative (embedded)
  mode needs, and \<open>bd_arena\<close> the union of the arena pointer and its offset. A function that changes
  the allocator returns the changed structure next to its result; the contents of the arena, which
  only \<open>buddy_calloc\<close> and \<open>buddy_realloc\<close> touch, are a map from addresses to bytes.
\<close>

subsection \<open>Geometry of the arena\<close>

record buddy =
  bd_at :: nat
  bd_memory_size :: nat
  bd_alignment :: nat
  bd_arena :: nat
  bd_flags :: nat
  bd_tree :: buddy_tree

definition sizeof_struct_buddy :: nat where
  "sizeof_struct_buddy = 32"

definition BUDDY_ALLOC_ALIGN :: nat where
  "BUDDY_ALLOC_ALIGN = 8 * CHAR_BIT"

definition BUDDY_RELATIVE_MODE :: nat where
  "BUDDY_RELATIVE_MODE = 1"

record buddy_embed_check =
  can_fit :: bool
  embed_offset :: nat
  embed_buddy_size :: nat

definition buddy_relative_mode :: "buddy \<Rightarrow> bool" where
  "buddy_relative_mode b \<longleftrightarrow> (bd_flags b AND BUDDY_RELATIVE_MODE) \<noteq> 0"

definition buddy_main :: "buddy \<Rightarrow> nat" where
  "buddy_main b = (if buddy_relative_mode b then bd_at b - bd_arena b else bd_arena b)"

definition buddy_effective_memory_size :: "buddy \<Rightarrow> nat" where
  "buddy_effective_memory_size b = ceiling_power_of_two (bd_memory_size b)"

definition size_for_depth :: "buddy \<Rightarrow> nat \<Rightarrow> nat" where
  "size_for_depth b d = ceiling_power_of_two (bd_memory_size b) div 2 ^ (d - 1)"

text \<open>\<^verbatim>\<open>while ((effective_memory_size / requested_size) >> 1u) { depth++; effective_memory_size >>= 1u; }\<close>\<close>

function depth_loop :: "nat \<Rightarrow> nat \<Rightarrow> nat \<Rightarrow> nat" where
  "depth_loop d eff requested =
     (if eff div requested div 2 \<noteq> 0 then depth_loop (d + 1) (eff div 2) requested else d)"
  by pat_completeness auto
termination
proof (relation "measure (\<lambda>(d, eff, r). eff)", goal_cases)
  case (2 d eff requested)
  then have "eff \<noteq> 0" by (intro notI) simp
  then show ?case by simp
qed auto

declare depth_loop.simps [simp del]

definition depth_for_size :: "buddy \<Rightarrow> nat \<Rightarrow> nat" where
  "depth_for_size b requested =
     (let requested = (if requested < bd_alignment b then bd_alignment b else requested)
      in depth_loop 1 (buddy_effective_memory_size b) requested)"

definition buddy_virtual_slots :: "buddy \<Rightarrow> nat" where
  "buddy_virtual_slots b =
     (let eff = buddy_effective_memory_size b
      in if eff = bd_memory_size b then 0 else (eff - bd_memory_size b) div bd_alignment b)"

definition address_for_position :: "buddy \<Rightarrow> buddy_tree_pos \<Rightarrow> nat" where
  "address_for_position b pos =
     (let block_size = size_for_depth b (buddy_tree_depth pos);
          addr = block_size * buddy_tree_index pos
      in buddy_main b + addr)"

definition deepest_position_for_offset :: "buddy \<Rightarrow> nat \<Rightarrow> buddy_tree_pos" where
  "deepest_position_for_offset b offset =
     (let pos = buddy_tree_leftmost_child (bd_tree b)
      in pos \<lparr>index := index pos + offset div bd_alignment b\<rparr>)"

function position_climb :: "buddy_tree \<Rightarrow> buddy_tree_pos \<Rightarrow> buddy_tree_pos" where
  "position_climb t pos =
     (if buddy_tree_status t pos \<noteq> 0 then pos
      else if \<not> buddy_tree_valid t (buddy_tree_parent pos) then INVALID_POS
      else position_climb t (buddy_tree_parent pos))"
  by pat_completeness auto
termination
  by (relation "measure (\<lambda>(t, pos). index pos)") (auto simp: buddy_tree_parent_def buddy_tree_valid_def)

declare position_climb.simps [simp del]

text \<open>A position whose address differs from the argument is rejected; an invalid position left by
  the climb is returned as it is.\<close>

definition position_for_address :: "buddy \<Rightarrow> nat \<Rightarrow> buddy_tree_pos" where
  "position_for_address b addr =
     (let offset = size_sub addr (buddy_main b)
      in if offset mod bd_alignment b \<noteq> 0 then INVALID_POS
         else
           let pos = position_climb (bd_tree b) (deepest_position_for_offset b offset)
           in if pos = INVALID_POS then INVALID_POS
              else if address_for_position b pos \<noteq> addr then INVALID_POS
              else pos)"

subsection \<open>Construction\<close>

definition buddy_sizeof_alignment :: "nat \<Rightarrow> nat \<Rightarrow> nat" where
  "buddy_sizeof_alignment memory_size alignment =
     (if \<not> is_valid_alignment alignment then 0
      else if memory_size < alignment then 0
      else sizeof_struct_buddy
        + buddy_tree_sizeof (buddy_tree_order_for_memory memory_size alignment mod 256))"

definition buddy_sizeof :: "nat \<Rightarrow> nat" where
  "buddy_sizeof memory_size = buddy_sizeof_alignment memory_size BUDDY_ALLOC_ALIGN"

text \<open>The loop of \<open>buddy_toggle_virtual_slots\<close>: \<open>toggle\<close> is the selected tree operation. Every round
  that does not end the loop descends one level; the fuel is the number of levels of a 64-bit
  arena, more than the halvings any block size allows.\<close>

fun virtual_slots_loop ::
  "(buddy_tree \<Rightarrow> buddy_tree_pos \<Rightarrow> buddy_tree) \<Rightarrow> buddy \<Rightarrow> nat \<Rightarrow> nat \<Rightarrow> buddy_tree_pos \<Rightarrow> buddy_tree
    \<Rightarrow> buddy_tree option" where
  "virtual_slots_loop toggle b 0 delta pos t = None"
| "virtual_slots_loop toggle b (Suc fuel) delta pos t =
     (if delta = 0 then Some t
      else
        let current_pos_size = size_for_depth b (buddy_tree_depth pos)
        in if delta = current_pos_size then Some (toggle t pos)
           else if delta \<le> current_pos_size div 2 then
             virtual_slots_loop toggle b fuel delta (buddy_tree_right_child pos) t
           else
             virtual_slots_loop toggle b fuel (delta - current_pos_size div 2)
               (buddy_tree_left_child pos) (toggle t (buddy_tree_right_child pos)))"

declare virtual_slots_loop.simps(2) [simp del]

definition buddy_toggle_virtual_slots :: "buddy \<Rightarrow> bool \<Rightarrow> buddy option" where
  "buddy_toggle_virtual_slots b state =
     (let eff = buddy_effective_memory_size b
      in if eff = bd_memory_size b then Some b
         else
           map_option (\<lambda>t. b \<lparr>bd_tree := t\<rparr>)
             (virtual_slots_loop (if state then buddy_tree_mark else buddy_tree_release) b 66
               (eff - bd_memory_size b) (buddy_tree_right_child buddy_tree_root) (bd_tree b)))"

text \<open>\<open>None\<close> is the \<open>NULL\<close> the C function returns on a bad argument. \<open>at\<close> is aligned to 8 bytes
  (the alignment of \<open>struct buddy\<close>), \<open>main\<close> to that of \<open>size_t\<close>.\<close>

definition buddy_init_alignment :: "nat \<Rightarrow> nat \<Rightarrow> nat \<Rightarrow> nat \<Rightarrow> buddy option" where
  "buddy_init_alignment at main memory_size alignment =
     (if at = 0 \<or> main = 0 \<or> at = main then None
      else if \<not> is_valid_alignment alignment then None
      else if at mod 8 \<noteq> 0 \<or> main mod 8 \<noteq> 0 then None
      else
        let memory_size = memory_size - memory_size mod alignment
        in if buddy_sizeof_alignment memory_size alignment = 0 then None
           else
             let ord = buddy_tree_order_for_memory memory_size alignment;
                 b = \<lparr>bd_at = at, bd_memory_size = memory_size, bd_alignment = alignment,
                      bd_arena = main, bd_flags = 0, bd_tree = fst (buddy_tree_init (ord mod 256))\<rparr>
             in buddy_toggle_virtual_slots b True)"

definition buddy_init :: "nat \<Rightarrow> nat \<Rightarrow> nat \<Rightarrow> buddy option" where
  "buddy_init at main memory_size = buddy_init_alignment at main memory_size BUDDY_ALLOC_ALIGN"

definition buddy_embed_offset :: "nat \<Rightarrow> nat \<Rightarrow> buddy_embed_check" where
  "buddy_embed_offset memory_size alignment =
     (let buddy_size = buddy_sizeof_alignment memory_size alignment;
          fit = (buddy_size < memory_size);
          offset = size_sub memory_size buddy_size;
          buddy_size' = (if offset mod 8 \<noteq> 0 then buddy_size + offset mod 8 else buddy_size);
          fit' = (if offset mod 8 \<noteq> 0 \<and> memory_size \<le> buddy_size' then False else fit);
          offset' = (if offset mod 8 \<noteq> 0 then size_sub memory_size buddy_size' else offset)
      in if fit' then \<lparr>can_fit = True, embed_offset = offset', embed_buddy_size = buddy_size'\<rparr>
         else \<lparr>can_fit = False, embed_offset = 0, embed_buddy_size = 0\<rparr>)"

definition buddy_embed_alignment :: "nat \<Rightarrow> nat \<Rightarrow> nat \<Rightarrow> buddy option" where
  "buddy_embed_alignment main memory_size alignment =
     (if main = 0 then None
      else if \<not> is_valid_alignment alignment then None
      else
        let check_result = buddy_embed_offset memory_size alignment
        in if \<not> can_fit check_result then None
           else
             map_option (\<lambda>b. b \<lparr>bd_flags := bd_flags b OR BUDDY_RELATIVE_MODE, bd_arena := bd_at b - main\<rparr>)
               (buddy_init_alignment (main + embed_offset check_result) main
                  (embed_offset check_result) alignment))"

definition buddy_embed :: "nat \<Rightarrow> nat \<Rightarrow> buddy option" where
  "buddy_embed main memory_size = buddy_embed_alignment main memory_size BUDDY_ALLOC_ALIGN"

subsection \<open>Allocation and release\<close>

fun buddy_malloc :: "buddy option \<Rightarrow> nat \<Rightarrow> nat \<times> buddy option" where
  "buddy_malloc None requested = (0, None)"
| "buddy_malloc (Some b) requested =
     (let requested = (if requested = 0 then 1 else requested)
      in if bd_memory_size b < requested then (0, Some b)
         else
           let target_depth = depth_for_size b requested;
               pos = buddy_tree_find_free (bd_tree b) (target_depth mod 256)
           in if \<not> buddy_tree_valid (bd_tree b) pos then (0, Some b)
              else
                let b' = b \<lparr>bd_tree := buddy_tree_mark (bd_tree b) pos\<rparr>
                in (address_for_position b' pos, Some b'))"

fun buddy_malloc_find_pos :: "buddy option \<Rightarrow> nat \<Rightarrow> buddy_tree_pos" where
  "buddy_malloc_find_pos None requested = INVALID_POS"
| "buddy_malloc_find_pos (Some b) requested =
     (let requested = (if requested = 0 then 1 else requested)
      in if bd_memory_size b < requested then INVALID_POS
         else
           let target_depth = depth_for_size b requested;
               pos = buddy_tree_find_free (bd_tree b) (target_depth mod 256)
           in if \<not> buddy_tree_valid (bd_tree b) pos then INVALID_POS else pos)"

definition buddy_malloc_apply :: "buddy \<Rightarrow> buddy_tree_pos \<Rightarrow> nat \<times> buddy" where
  "buddy_malloc_apply b pos =
     (let b' = b \<lparr>bd_tree := buddy_tree_mark (bd_tree b) pos\<rparr> in (address_for_position b' pos, b'))"

definition mem_fill :: "(nat \<Rightarrow> u8) \<Rightarrow> nat \<Rightarrow> u8 \<Rightarrow> nat \<Rightarrow> (nat \<Rightarrow> u8)" where
  "mem_fill mem a v len = (\<lambda>x. if a \<le> x \<and> x < a + len then v else mem x)"

definition mem_move :: "(nat \<Rightarrow> u8) \<Rightarrow> nat \<Rightarrow> nat \<Rightarrow> nat \<Rightarrow> (nat \<Rightarrow> u8)" where
  "mem_move mem dst src len = (\<lambda>x. if dst \<le> x \<and> x < dst + len then mem (src + (x - dst)) else mem x)"

text \<open>The overflow test of \<open>buddy_calloc\<close> uses the wrapped product.\<close>

definition buddy_calloc ::
  "buddy option \<Rightarrow> (nat \<Rightarrow> u8) \<Rightarrow> nat \<Rightarrow> nat \<Rightarrow> nat \<times> buddy option \<times> (nat \<Rightarrow> u8)" where
  "buddy_calloc b mem members_count member_size =
     (let (members_count, member_size) =
            (if members_count = 0 \<or> member_size = 0 then (1, 1) else (members_count, member_size))
      in if (members_count * member_size) mod 2 ^ 64 div members_count \<noteq> member_size then (0, b, mem)
         else
           let total_size = (members_count * member_size) mod 2 ^ 64;
               (result, b') = buddy_malloc b total_size
           in (result, b', if result \<noteq> 0 then mem_fill mem result 0 total_size else mem))"

fun buddy_free :: "buddy option \<Rightarrow> nat \<Rightarrow> buddy option" where
  "buddy_free None ptr = None"
| "buddy_free (Some b) ptr =
     (if ptr = 0 then Some b
      else if ptr < buddy_main b \<or> buddy_main b + bd_memory_size b \<le> ptr then Some b
      else
        let pos = position_for_address b ptr
        in if \<not> buddy_tree_valid (bd_tree b) pos then Some b
           else Some (b \<lparr>bd_tree := buddy_tree_release (bd_tree b) pos\<rparr>))"

definition buddy_realloc ::
  "buddy \<Rightarrow> (nat \<Rightarrow> u8) \<Rightarrow> nat \<Rightarrow> nat \<Rightarrow> nat \<times> buddy option \<times> (nat \<Rightarrow> u8)" where
  "buddy_realloc b mem ptr requested =
     (if ptr = 0 then let (p, b') = buddy_malloc (Some b) requested in (p, b', mem)
      else if requested = 0 then (0, buddy_free (Some b) ptr, mem)
      else if bd_memory_size b < requested then (0, Some b, mem)
      else
        let origin = position_for_address b ptr
        in if \<not> buddy_tree_valid (bd_tree b) origin then (0, Some b, mem)
           else
             let current_depth = buddy_tree_depth origin;
                 target_depth = depth_for_size b requested;
                 t = buddy_tree_release (bd_tree b) origin;
                 new_pos = buddy_tree_find_free t (target_depth mod 256)
             in if \<not> buddy_tree_valid t new_pos then
                  (0, Some (b \<lparr>bd_tree := buddy_tree_mark t origin\<rparr>), mem)
                else if index origin = index new_pos then
                  (ptr, Some (b \<lparr>bd_tree := buddy_tree_mark t origin\<rparr>), mem)
                else
                  let source = address_for_position b origin;
                      destination = address_for_position b new_pos;
                      mem' = mem_move mem destination source
                        (size_for_depth b (if target_depth < current_depth then current_depth else target_depth))
                  in (destination, Some (b \<lparr>bd_tree := buddy_tree_mark t new_pos\<rparr>), mem'))"

definition buddy_reallocarray ::
  "buddy \<Rightarrow> (nat \<Rightarrow> u8) \<Rightarrow> nat \<Rightarrow> nat \<Rightarrow> nat \<Rightarrow> nat \<times> buddy option \<times> (nat \<Rightarrow> u8)" where
  "buddy_reallocarray b mem ptr members_count member_size =
     (if members_count = 0 \<or> member_size = 0 then buddy_realloc b mem ptr 0
      else if (members_count * member_size) mod 2 ^ 64 div members_count \<noteq> member_size then (0, Some b, mem)
      else buddy_realloc b mem ptr ((members_count * member_size) mod 2 ^ 64))"

fun buddy_free_find_pos :: "buddy option \<Rightarrow> nat \<Rightarrow> nat \<Rightarrow> buddy_tree_pos" where
  "buddy_free_find_pos None ptr requested = INVALID_POS"
| "buddy_free_find_pos (Some b) ptr requested =
     (if ptr = 0 then INVALID_POS
      else if ptr < buddy_main b \<or> buddy_main b + bd_memory_size b \<le> ptr then INVALID_POS
      else
        let pos = position_for_address b ptr
        in if \<not> buddy_tree_valid (bd_tree b) pos then INVALID_POS
           else
             let allocated_size_for_depth = size_for_depth b (depth pos);
                 requested = (if requested < bd_alignment b then bd_alignment b else requested)
             in if allocated_size_for_depth < requested then INVALID_POS
                else if requested \<le> allocated_size_for_depth div 2 then INVALID_POS
                else pos)"

definition buddy_free_apply :: "buddy \<Rightarrow> buddy_tree_pos \<Rightarrow> buddy" where
  "buddy_free_apply b pos = b \<lparr>bd_tree := buddy_tree_release (bd_tree b) pos\<rparr>"

fun buddy_safe_free :: "buddy option \<Rightarrow> nat \<Rightarrow> nat \<Rightarrow> buddy option" where
  "buddy_safe_free None ptr requested = None"
| "buddy_safe_free (Some b) ptr requested =
     (if ptr = 0 then Some b
      else if ptr < buddy_main b \<or> buddy_main b + bd_memory_size b \<le> ptr then Some b
      else
        let pos = position_for_address b ptr
        in if \<not> buddy_tree_valid (bd_tree b) pos then Some b
           else
             let allocated_size_for_depth = size_for_depth b (depth pos);
                 requested = (if requested < bd_alignment b then bd_alignment b else requested)
             in if allocated_size_for_depth < requested then Some b
                else if requested \<le> allocated_size_for_depth div 2 then Some b
                else Some (b \<lparr>bd_tree := buddy_tree_release (bd_tree b) pos\<rparr>))"

subsection \<open>Reservations, queries and resizing\<close>

function range_loop ::
  "(buddy_tree \<Rightarrow> buddy_tree_pos \<Rightarrow> buddy_tree) \<Rightarrow> nat \<Rightarrow> nat \<Rightarrow> buddy_tree_pos \<Rightarrow> buddy_tree \<Rightarrow> buddy_tree" where
  "range_loop toggle alignment requested pos t =
     (if requested = 0 then t
      else range_loop toggle alignment
        (if requested < alignment \<or> alignment = 0 then 0 else requested - alignment)
        (pos \<lparr>index := index pos + 1\<rparr>) (toggle t pos))"
  by pat_completeness auto
termination by (relation "measure (\<lambda>(toggle, a, r, pos, t). r)") auto

declare range_loop.simps [simp del]

text \<open>With an alignment of 0, which no allocator has, the C loop would not end.\<close>

fun buddy_toggle_range_reservation :: "buddy option \<Rightarrow> nat \<Rightarrow> nat \<Rightarrow> bool \<Rightarrow> buddy option" where
  "buddy_toggle_range_reservation None ptr requested state = None"
| "buddy_toggle_range_reservation (Some b) ptr requested state =
     (if ptr = 0 then Some b
      else if requested = 0 then Some b
      else if ptr < buddy_main b \<or> buddy_main b + bd_memory_size b < ptr + requested then Some b
      else
        let pos = deepest_position_for_offset b (ptr - buddy_main b)
        in Some (b \<lparr>bd_tree := range_loop (if state then buddy_tree_mark else buddy_tree_release)
             (bd_alignment b) requested pos (bd_tree b)\<rparr>))"

definition buddy_reserve_range :: "buddy option \<Rightarrow> nat \<Rightarrow> nat \<Rightarrow> buddy option" where
  "buddy_reserve_range b ptr requested = buddy_toggle_range_reservation b ptr requested True"

definition buddy_unsafe_release_range :: "buddy option \<Rightarrow> nat \<Rightarrow> nat \<Rightarrow> buddy option" where
  "buddy_unsafe_release_range b ptr requested = buddy_toggle_range_reservation b ptr requested False"

text \<open>\<open>buddy_is_free\<close>: the inner loop climbs while the query range contains the parent's range. The
  fuel bounds the climbs by the depth of the tree and the advances by its number of positions;
  \<open>None\<close> is a loop that has not ended by then.\<close>

fun is_free_climb ::
  "nat \<Rightarrow> buddy_tree \<Rightarrow> buddy_tree_interval \<Rightarrow> buddy_tree_pos \<Rightarrow> buddy_tree_interval
    \<Rightarrow> (buddy_tree_pos \<times> buddy_tree_interval) option" where
  "is_free_climb 0 t query pos cur = None"
| "is_free_climb (Suc fuel) t query pos cur =
     (let parent_range = buddy_tree_interval_of t (buddy_tree_parent pos)
      in if buddy_tree_interval_contains query parent_range
         then is_free_climb fuel t query (buddy_tree_parent pos) parent_range
         else Some (pos, cur))"

fun is_free_scan :: "nat \<Rightarrow> buddy_tree \<Rightarrow> buddy_tree_interval \<Rightarrow> buddy_tree_pos \<Rightarrow> bool option" where
  "is_free_scan 0 t query pos = None"
| "is_free_scan (Suc fuel) t query pos =
     (if buddy_tree_valid t pos \<and> index pos < index (iv_to query) then
        case is_free_climb (Suc (depth pos)) t query pos (buddy_tree_interval_of t pos) of
          None \<Rightarrow> None
        | Some (pos', cur) \<Rightarrow>
            if \<not> buddy_tree_is_free t pos' then Some False
            else is_free_scan fuel t query (buddy_tree_right_adjacent (iv_to cur))
      else Some True)"

definition buddy_is_free :: "buddy \<Rightarrow> nat \<Rightarrow> bool option" where
  "buddy_is_free b from_offset =
     (let eff = buddy_effective_memory_size b;
          virtual_slots = buddy_virtual_slots b;
          to = eff - (if virtual_slots \<noteq> 0 then virtual_slots else 1) * bd_alignment b;
          query = \<lparr>iv_from = deepest_position_for_offset b from_offset,
                   iv_to = deepest_position_for_offset b to\<rparr>
      in is_free_scan (bt_upper_pos_bound (bd_tree b) + 1) (bd_tree b) query
           (deepest_position_for_offset b from_offset))"

fun buddy_can_shrink :: "buddy option \<Rightarrow> bool option" where
  "buddy_can_shrink None = Some False"
| "buddy_can_shrink (Some b) = buddy_is_free b (bd_memory_size b div 2)"

fun buddy_is_empty :: "buddy option \<Rightarrow> bool option" where
  "buddy_is_empty None = Some True"
| "buddy_is_empty (Some b) = buddy_is_free b 0"

fun buddy_is_full :: "buddy option \<Rightarrow> bool" where
  "buddy_is_full None = False"
| "buddy_is_full (Some b) =
     (buddy_tree_status (bd_tree b) buddy_tree_root = buddy_tree_order (bd_tree b))"

fun buddy_arena_size :: "buddy option \<Rightarrow> nat" where
  "buddy_arena_size None = 0"
| "buddy_arena_size (Some b) = bd_memory_size b"

text \<open>The result of a resize: the loops did not end (outer \<open>None\<close>), the \<open>NULL\<close> the C function
  returns on refusal (inner \<open>None\<close>), or the resized allocator.\<close>

definition buddy_resize_standard :: "buddy \<Rightarrow> nat \<Rightarrow> buddy option option" where
  "buddy_resize_standard b new_memory_size =
     (let new_size = new_memory_size - new_memory_size mod bd_alignment b
      in case buddy_is_free b new_size of
           None \<Rightarrow> None
         | Some False \<Rightarrow> Some None
         | Some True \<Rightarrow>
             (case buddy_toggle_virtual_slots b False of
                None \<Rightarrow> None
              | Some b1 \<Rightarrow>
                  let ord = buddy_tree_order_for_memory new_size (bd_alignment b1);
                      b2 = b1 \<lparr>bd_tree := buddy_tree_resize (bd_tree b1) (ord mod 256),
                               bd_memory_size := new_size\<rparr>
                  in map_option Some (buddy_toggle_virtual_slots b2 True)))"

text \<open>The embedded variant moves the structure to its new place behind the arena.\<close>

definition buddy_resize_embedded :: "buddy \<Rightarrow> nat \<Rightarrow> buddy option option" where
  "buddy_resize_embedded b new_memory_size =
     (let check_result = buddy_embed_offset new_memory_size (bd_alignment b)
      in if \<not> can_fit check_result then Some None
         else
           case buddy_resize_standard b (embed_offset check_result) of
             Some (Some r) \<Rightarrow>
               let main = buddy_main r;
                   destination = main + embed_offset check_result
               in Some (Some (r \<lparr>bd_at := destination, bd_arena := destination - main\<rparr>))
           | other \<Rightarrow> other)"

definition buddy_resize :: "buddy \<Rightarrow> nat \<Rightarrow> buddy option option" where
  "buddy_resize b new_memory_size =
     (if new_memory_size = bd_memory_size b then Some (Some b)
      else if buddy_relative_mode b then buddy_resize_embedded b new_memory_size
      else buddy_resize_standard b new_memory_size)"

end
