(* ===== verification/Buddy_Alloc_Inv.thy ===== *)
theory Buddy_Alloc_Inv
  imports Buddy_Alloc
begin

text \<open>
  The allocator invariant and what \<open>buddy_malloc\<close>, \<open>buddy_free\<close> and their split versions do, in terms
  of byte ranges. The arena of \<open>memory_size\<close> bytes is the left part of a power-of-two sized one; the
  invariant says that the alignment units behind \<open>memory_size\<close> are covered by blocks reserved at
  initialisation, so that no request is ever served from there.
\<close>

subsection \<open>The invariant\<close>

definition bd_units :: "buddy \<Rightarrow> nat" where
  "bd_units b = bd_memory_size b div bd_alignment b"

definition bd_wf :: "buddy \<Rightarrow> bool" where
  "bd_wf b \<longleftrightarrow>
     0 < bd_memory_size b \<and> bd_memory_size b \<le> 2 ^ 63 \<and> bd_alignment b \<le> 2 ^ 63
     \<and> is_valid_alignment (bd_alignment b) \<and> bd_memory_size b mod bd_alignment b = 0
     \<and> bt_order (bd_tree b) = buddy_tree_order_for_memory (bd_memory_size b) (bd_alignment b)
     \<and> buddy_main b \<noteq> 0 \<and> tree_ok (bd_tree b)"

definition bd_covered :: "buddy \<Rightarrow> bool" where
  "bd_covered b \<longleftrightarrow>
     (\<forall>x \<in> {bd_units b..<2 ^ (bt_order (bd_tree b) - 1)}.
        \<exists>i. block_allocated (bd_tree b) i \<and> x \<in> block_leaves (bt_order (bd_tree b)) i)
     \<and> (\<forall>i. block_allocated (bd_tree b) i \<longrightarrow>
          block_first (bt_order (bd_tree b)) i + block_count (bt_order (bd_tree b)) i \<le> bd_units b
          \<or> bd_units b \<le> block_first (bt_order (bd_tree b)) i)"

definition bd_ok :: "buddy \<Rightarrow> bool" where
  "bd_ok b \<longleftrightarrow> bd_wf b \<and> bd_covered b"

subsection \<open>Arena geometry\<close>

lemma bd_wf_align:
  assumes "bd_wf b"
  obtains k where "bd_alignment b = 2 ^ k"
  using assms is_valid_alignment_iff [of "bd_alignment b"] by (auto simp: bd_wf_def)

lemma bd_wf_geometry:
  assumes "bd_wf b"
  shows "0 < bd_alignment b" "bd_alignment b * bd_units b = bd_memory_size b" "0 < bd_units b"
    "bd_alignment b * 2 ^ (bt_order (bd_tree b) - 1) = buddy_effective_memory_size b"
    "0 < bt_order (bd_tree b)" "bt_order (bd_tree b) < 32" "bd_units b \<le> 2 ^ (bt_order (bd_tree b) - 1)"
    "bd_memory_size b \<le> buddy_effective_memory_size b"
    "buddy_effective_memory_size b < 2 * bd_memory_size b"
proof -
  obtain k where k: "bd_alignment b = 2 ^ k" using bd_wf_align [OF assms] .
  have ms: "0 < bd_memory_size b" "bd_memory_size b \<le> 2 ^ 63" and dvd: "bd_alignment b dvd bd_memory_size b"
    and ord: "bt_order (bd_tree b) = buddy_tree_order_for_memory (bd_memory_size b) (bd_alignment b)"
    using assms by (auto simp: bd_wf_def)
  show al: "0 < bd_alignment b" using k by simp
  show un: "bd_alignment b * bd_units b = bd_memory_size b" using dvd by (simp add: bd_units_def)
  show "0 < bd_units b" using un ms(1) by (cases "bd_units b") auto
  show eff: "bd_alignment b * 2 ^ (bt_order (bd_tree b) - 1) = buddy_effective_memory_size b"
    "0 < bt_order (bd_tree b)"
    using order_for_memory_leaves [OF ms k dvd] by (simp_all add: ord buddy_effective_memory_size_def mult.commute)
  show le: "bd_memory_size b \<le> buddy_effective_memory_size b"
    "buddy_effective_memory_size b < 2 * bd_memory_size b"
    using ceiling_power_of_two_bounds [OF ms] by (simp_all add: buddy_effective_memory_size_def)
  show "bd_units b \<le> 2 ^ (bt_order (bd_tree b) - 1)"
    using le(1) al unfolding un [symmetric] eff(1) [symmetric] by simp
  show "bt_order (bd_tree b) < 32" using assms by (simp add: bd_wf_def tree_ok_def tree_wf_def)
qed

lemma size_for_depth_eq:
  assumes "bd_wf b" "0 < d" "d \<le> bt_order (bd_tree b)"
  shows "size_for_depth b d = bd_alignment b * 2 ^ (bt_order (bd_tree b) - d)"
proof -
  let ?n = "bt_order (bd_tree b)"
  have "(2::nat) ^ (?n - 1) = 2 ^ (?n - d) * 2 ^ (d - 1)" using assms by (simp flip: power_add)
  then have "ceiling_power_of_two (bd_memory_size b) = bd_alignment b * 2 ^ (?n - d) * 2 ^ (d - 1)"
    using bd_wf_geometry(4) [OF assms(1)] by (simp add: buddy_effective_memory_size_def)
  then show ?thesis by (simp add: size_for_depth_def)
qed

definition block_addr :: "buddy \<Rightarrow> nat \<Rightarrow> nat" where
  "block_addr b i = buddy_main b + bd_alignment b * block_first (bt_order (bd_tree b)) i"

definition block_size :: "buddy \<Rightarrow> nat \<Rightarrow> nat" where
  "block_size b i = bd_alignment b * block_count (bt_order (bd_tree b)) i"

lemma node_depth: "0 < i \<Longrightarrow> i < 2 ^ n \<Longrightarrow> 0 < bit_length i \<and> bit_length i \<le> n"
  using bit_length_le_iff [of i n] bit_length_pos [of i] by simp

lemma size_for_node:
  assumes "bd_wf b" "0 < i" "i < 2 ^ bt_order (bd_tree b)"
  shows "size_for_depth b (bit_length i) = block_size b i"
  using size_for_depth_eq [OF assms(1)] node_depth [OF assms(2,3)] by (simp add: block_size_def block_count_def)

lemma address_for_node:
  assumes "bd_wf b" "0 < i" "i < 2 ^ bt_order (bd_tree b)"
  shows "address_for_position b (node_pos i) = block_addr b i"
  using size_for_node [OF assms] index_internal_node [OF assms(2)]
  by (simp add: address_for_position_def buddy_tree_depth_def buddy_tree_index_def Let_def block_addr_def
      block_size_def block_first_def block_count_def)

lemma address_for_position_tree [simp]:
  "address_for_position (b \<lparr>bd_tree := t\<rparr>) pos = address_for_position b pos"
  "buddy_main (b \<lparr>bd_tree := t\<rparr>) = buddy_main b"
  "size_for_depth (b \<lparr>bd_tree := t\<rparr>) d = size_for_depth b d"
  "buddy_effective_memory_size (b \<lparr>bd_tree := t\<rparr>) = buddy_effective_memory_size b"
  by (simp_all add: address_for_position_def buddy_main_def buddy_relative_mode_def size_for_depth_def
      buddy_effective_memory_size_def)

subsection \<open>The depth chosen for a request\<close>

lemma depth_loop_correct:
  assumes "0 < q" "q \<le> eff"
  shows "\<exists>k. depth_loop d eff q = d + k \<and> q \<le> eff div 2 ^ k \<and> eff div 2 ^ k < 2 * q"
  using assms
proof (induction d eff q rule: depth_loop.induct)
  case (1 d eff q)
  show ?case
  proof (cases "eff div q div 2 = 0")
    case True
    then have "eff div q < 2" by simp
    then have "eff < 2 * q" using "1.prems"(1) by (simp add: div_less_iff_less_mult mult.commute)
    with True "1.prems" show ?thesis
      by (subst depth_loop.simps) (auto intro!: exI [of _ 0])
  next
    case False
    then have "2 \<le> eff div q" by simp
    then have "2 * q \<le> eff" using "1.prems"(1) by (simp add: less_eq_div_iff_mult_less_eq mult.commute)
    then have "q \<le> eff div 2" by simp
    from "1.IH" [OF _ "1.prems"(1) this] False obtain k where
      "depth_loop (d + 1) (eff div 2) q = d + 1 + k" "q \<le> eff div 2 div 2 ^ k" "eff div 2 div 2 ^ k < 2 * q"
      by auto
    with False show ?thesis
      by (subst depth_loop.simps) (auto intro!: exI [of _ "Suc k"] simp: div_mult2_eq)
  qed
qed

text \<open>The block of the chosen depth holds the request (at least one alignment unit), and a block of
  half its size would not.\<close>

lemma depth_for_size_correct:
  assumes "bd_wf b" "r \<le> bd_memory_size b"
  defines "q \<equiv> max r (bd_alignment b)" and "d \<equiv> depth_for_size b r"
  shows "0 < d" "d \<le> bt_order (bd_tree b)" "q \<le> size_for_depth b d" "size_for_depth b d < 2 * q"
proof -
  let ?n = "bt_order (bd_tree b)" and ?a = "bd_alignment b" and ?eff = "buddy_effective_memory_size b"
  note g = bd_wf_geometry [OF assms(1)]
  have q: "0 < q" using g(1) by (simp add: q_def)
  have "?a \<le> ?a * 2 ^ (?n - 1)" by simp
  then have "?a \<le> ?eff" unfolding g(4) .
  then have "q \<le> ?eff" using assms(2) g(8) by (simp add: q_def)
  from depth_loop_correct [OF q this, of 1] obtain k where
    k: "depth_loop 1 ?eff q = 1 + k" "q \<le> ?eff div 2 ^ k" "?eff div 2 ^ k < 2 * q" by blast
  have "(if r < ?a then ?a else r) = q" by (auto simp: q_def)
  then have d: "d = 1 + k" using k(1) by (simp add: d_def depth_for_size_def)
  show "0 < d" using d by simp
  show dn: "d \<le> ?n"
  proof (rule ccontr)
    assume "\<not> d \<le> ?n"
    then have "?n \<le> k" using d by simp
    then have "?eff div 2 ^ k \<le> ?eff div 2 ^ ?n" by (intro div_le_mono2 power_increasing) auto
    also have "?eff div 2 ^ ?n < ?a"
    proof -
      have "(2::nat) ^ (?n - 1) < 2 ^ ?n" using g(5) by (intro power_strict_increasing) auto
      then have "?a * 2 ^ (?n - 1) < ?a * 2 ^ ?n" using g(1) by simp
      then have "?eff < ?a * 2 ^ ?n" unfolding g(4) .
      then show ?thesis by (simp add: div_less_iff_less_mult)
    qed
    finally show False using k(2) by (simp add: q_def)
  qed
  have "size_for_depth b d = ?eff div 2 ^ k"
    by (simp add: d size_for_depth_def buddy_effective_memory_size_def)
  with k show "q \<le> size_for_depth b d" "size_for_depth b d < 2 * q" by simp_all
qed

subsection \<open>From addresses back to positions\<close>

lemma climb_correct:
  assumes "tree_ok t" "block_allocated t i"
  shows "0 < l \<Longrightarrow> l < 2 ^ bt_order t \<Longrightarrow> l = i \<or> i \<in> set (ancestors l) \<Longrightarrow>
    position_climb t (node_pos l) = node_pos i"
proof (induction l rule: less_induct)
  case (less l)
  let ?n = "bt_order t"
  have inv: "tree_inv ?n (node_status t)" and bound: "bt_upper_pos_bound t = 2 ^ ?n"
    using assms(1) by (simp_all add: tree_ok_def tree_wf_def)
  have al: "is_alloc ?n (node_status t) i" using assms(2) by (simp add: block_allocated_def)
  show ?case
  proof (cases "l = i")
    case True
    with al show ?thesis
      by (subst position_climb.simps) (auto simp: is_alloc_def node_status_def)
  next
    case False
    with less.prems have anc: "i \<in> set (ancestors l)" by blast
    then have l: "1 < l" by (cases "l \<le> 1") auto
    have "node_status t l = 0"
    proof (rule ccontr)
      assume "node_status t l \<noteq> 0"
      from used_ancestors [OF inv less.prems(2) this anc] have "exact (node_status t) i" by blast
      moreover have "2 * i < 2 ^ ?n" using ancestors_internal [OF anc less.prems(2)] by simp
      ultimately show False using exact_not_alloc al by blast
    qed
    moreover have "position_climb t (node_pos (l div 2)) = node_pos i"
      using anc l less.prems by (intro less.IH) (auto simp: ancestors_step)
    ultimately show ?thesis
      using l less.prems(2) parent_node [of l] bound
      by (subst position_climb.simps) (simp add: node_status_def buddy_tree_valid_def)
  qed
qed

lemma deepest_position:
  assumes "bd_wf b" "x < 2 ^ (bt_order (bd_tree b) - 1)"
  shows "deepest_position_for_offset b (bd_alignment b * x) = node_pos (2 ^ (bt_order (bd_tree b) - 1) + x)"
proof -
  let ?n = "bt_order (bd_tree b)"
  note g = bd_wf_geometry [OF assms(1)]
  have "bit_length (2 ^ (?n - 1) + x) = Suc (?n - 1)" using assms(2) by (intro bit_length_eqI) auto
  then show ?thesis
    using g(1,5,6) by (simp add: deepest_position_for_offset_def buddy_tree_leftmost_child_def
        buddy_tree_leftmost_child_internal_def Let_def node_pos_def)
qed

lemma position_for_block:
  assumes "bd_wf b" "block_allocated (bd_tree b) i"
  shows "position_for_address b (block_addr b i) = node_pos i"
proof -
  let ?n = "bt_order (bd_tree b)"
  let ?l = "2 ^ (?n - 1) + block_first ?n i"
  note g = bd_wf_geometry [OF assms(1)]
  have ok: "tree_ok (bd_tree b)" using assms(1) by (simp add: bd_wf_def)
  have i: "0 < i" "i < 2 ^ ?n" using assms(2) by (auto simp: block_allocated_def is_alloc_def)
  have "block_first ?n i \<in> block_leaves ?n i" by (simp add: block_leaves_interval [OF i])
  then have x: "block_first ?n i < 2 ^ (?n - 1)" "?l div 2 ^ (?n - bit_length i) = i"
    by (auto simp: block_leaves_def)
  have l: "0 < ?l" "?l < 2 ^ ?n" using x(1) g(5) by (auto simp: power_eq_if)
  have "?l = i \<or> i \<in> set (ancestors ?l)"
    using ancestors_div [of ?l "?n - bit_length i"] x(2) i(1) by (cases "?n - bit_length i = 0") auto
  from climb_correct [OF ok assms(2) l this]
  have "position_climb (bd_tree b) (deepest_position_for_offset b (bd_alignment b * block_first ?n i)) = node_pos i"
    by (simp add: deepest_position [OF assms(1) x(1)])
  moreover have "node_pos i \<noteq> INVALID_POS" using i(1) by (simp add: node_pos_def INVALID_POS_def)
  ultimately show ?thesis
    using address_for_node [OF assms(1) i] by (simp add: position_for_address_def block_addr_def Let_def)
qed

subsection \<open>What the operations do to the set of blocks\<close>

lemma bd_okD: "bd_ok b \<Longrightarrow> bd_wf b" "bd_ok b \<Longrightarrow> tree_ok (bd_tree b)"
  by (simp_all add: bd_ok_def bd_wf_def)

lemma bd_coveredD:
  assumes "bd_ok b" "bd_units b \<le> x" "x < 2 ^ (bt_order (bd_tree b) - 1)"
  obtains j where "block_allocated (bd_tree b) j" "x \<in> block_leaves (bt_order (bd_tree b)) j"
proof -
  have "x \<in> {bd_units b..<2 ^ (bt_order (bd_tree b) - 1)}" using assms(2,3) by simp
  with assms(1) that show ?thesis unfolding bd_ok_def bd_covered_def by blast
qed

lemma available_in_arena:
  assumes "bd_ok b" "block_available (bd_tree b) i"
  shows "block_first (bt_order (bd_tree b)) i + block_count (bt_order (bd_tree b)) i \<le> bd_units b"
proof (rule ccontr)
  let ?n = "bt_order (bd_tree b)"
  let ?x = "block_first ?n i + block_count ?n i - 1"
  assume "\<not> ?thesis"
  then have x: "bd_units b \<le> ?x" by simp
  have i: "0 < i" "i < 2 ^ ?n" using assms(2) by (simp_all add: block_available_def is_available_def)
  have "0 < block_count ?n i" by simp
  then have xl: "?x \<in> block_leaves ?n i" unfolding block_leaves_interval [OF i] atLeastLessThan_iff by linarith
  then have "?x < 2 ^ (?n - 1)" by (simp add: block_leaves_def)
  from bd_coveredD [OF assms(1) x this] obtain j where
    "block_allocated (bd_tree b) j" "?x \<in> block_leaves ?n j" .
  with available_iff_disjoint [OF bd_okD(2) [OF assms(1)] i] assms(2) xl show False by auto
qed

lemma available_first:
  assumes "bd_ok b" "block_available (bd_tree b) i"
  shows "block_first (bt_order (bd_tree b)) i < bd_units b"
  using available_in_arena [OF assms] block_count_pos [of "bt_order (bd_tree b)" i] by linarith

lemma bd_wf_tree:
  "bd_wf b \<Longrightarrow> tree_ok t \<Longrightarrow> bt_order t = bt_order (bd_tree b) \<Longrightarrow> bd_wf (b \<lparr>bd_tree := t\<rparr>)"
  by (simp add: bd_wf_def)

lemma mark_bd_ok:
  assumes "bd_ok b" "block_available (bd_tree b) i"
  shows "bd_ok (b \<lparr>bd_tree := buddy_tree_mark (bd_tree b) (node_pos i)\<rparr>)"
proof -
  note m = mark_correct [OF bd_okD(2) [OF assms(1)] assms(2)]
  have "bd_wf (b \<lparr>bd_tree := buddy_tree_mark (bd_tree b) (node_pos i)\<rparr>)"
    using bd_wf_tree [OF bd_okD(1) [OF assms(1)] m(1)] by simp
  moreover have "bd_covered (b \<lparr>bd_tree := buddy_tree_mark (bd_tree b) (node_pos i)\<rparr>)"
    using assms(1) available_in_arena [OF assms]
    by (auto simp: bd_ok_def bd_covered_def m(2) bd_units_def)
  ultimately show ?thesis by (simp add: bd_ok_def)
qed

lemma release_bd_ok:
  assumes "bd_ok b" "block_allocated (bd_tree b) i"
    "block_first (bt_order (bd_tree b)) i < bd_units b"
  shows "bd_ok (b \<lparr>bd_tree := buddy_tree_release (bd_tree b) (node_pos i)\<rparr>)"
proof -
  let ?n = "bt_order (bd_tree b)"
  note m = release_correct [OF bd_okD(2) [OF assms(1)] assms(2)]
  have i: "0 < i" "i < 2 ^ ?n" using assms(2) by (auto simp: block_allocated_def is_alloc_def)
  have "block_first ?n i + block_count ?n i \<le> bd_units b"
    using assms by (fastforce simp: bd_ok_def bd_covered_def)
  then have out: "x \<notin> block_leaves ?n i" if "bd_units b \<le> x" for x
    using that by (simp add: block_leaves_interval [OF i])
  have "bd_wf (b \<lparr>bd_tree := buddy_tree_release (bd_tree b) (node_pos i)\<rparr>)"
    using bd_wf_tree [OF bd_okD(1) [OF assms(1)] m(1)] by simp
  moreover have "bd_covered (b \<lparr>bd_tree := buddy_tree_release (bd_tree b) (node_pos i)\<rparr>)"
    unfolding bd_covered_def
  proof (intro conjI ballI allI impI)
    fix x assume x: "x \<in> {bd_units (b \<lparr>bd_tree := buddy_tree_release (bd_tree b) (node_pos i)\<rparr>)..<
      2 ^ (bt_order (bd_tree (b \<lparr>bd_tree := buddy_tree_release (bd_tree b) (node_pos i)\<rparr>)) - 1)}"
    then have "bd_units b \<le> x" "x < 2 ^ (?n - 1)" by (simp_all add: bd_units_def)
    from bd_coveredD [OF assms(1) this] obtain j where
      j: "block_allocated (bd_tree b) j" "x \<in> block_leaves ?n j" .
    with out [OF \<open>bd_units b \<le> x\<close>] have "j \<noteq> i" by auto
    with j m(2) show "\<exists>j. block_allocated (bd_tree (b \<lparr>bd_tree := buddy_tree_release (bd_tree b) (node_pos i)\<rparr>)) j \<and>
      x \<in> block_leaves (bt_order (bd_tree (b \<lparr>bd_tree := buddy_tree_release (bd_tree b) (node_pos i)\<rparr>))) j"
      by auto
  qed (use assms(1) m(2) in \<open>auto simp: bd_ok_def bd_covered_def bd_units_def\<close>)
  ultimately show ?thesis by (simp add: bd_ok_def)
qed

subsection \<open>Blocks as byte ranges\<close>

definition bd_block_list :: "buddy \<Rightarrow> (nat \<times> nat) list" where
  "bd_block_list b =
     map (\<lambda>i. (block_addr b i, block_size b i))
       (filter (\<lambda>i. block_allocated (bd_tree b) i \<and> block_first (bt_order (bd_tree b)) i < bd_units b)
         [1..<2 ^ bt_order (bd_tree b)])"

text \<open>The blocks handed out to clients: address and size.\<close>

definition bd_blocks :: "buddy \<Rightarrow> (nat \<times> nat) set" where
  "bd_blocks b = set (bd_block_list b)"

lemma bd_blocks_iff:
  "x \<in> bd_blocks b \<longleftrightarrow> (\<exists>i. x = (block_addr b i, block_size b i) \<and> block_allocated (bd_tree b) i \<and>
     block_first (bt_order (bd_tree b)) i < bd_units b)"
  by (auto simp: bd_blocks_def bd_block_list_def block_allocated_def is_alloc_def Suc_le_eq)

lemma block_addr_tree [simp]:
  assumes "bt_order t = bt_order (bd_tree b)"
  shows "block_addr (b \<lparr>bd_tree := t\<rparr>) i = block_addr b i" "block_size (b \<lparr>bd_tree := t\<rparr>) i = block_size b i"
    "bd_units (b \<lparr>bd_tree := t\<rparr>) = bd_units b"
  using assms by (simp_all add: block_addr_def block_size_def bd_units_def)

text \<open>Two different allocated blocks are separated in the address space.\<close>

lemma blocks_separated:
  assumes "bd_ok b" "block_allocated (bd_tree b) i" "block_allocated (bd_tree b) j" "i \<noteq> j"
  shows "block_addr b i + block_size b i \<le> block_addr b j \<or> block_addr b j + block_size b j \<le> block_addr b i"
proof -
  let ?n = "bt_order (bd_tree b)"
  have v: "0 < i" "i < 2 ^ ?n" "0 < j" "j < 2 ^ ?n"
    using assms(2,3) by (auto simp: block_allocated_def is_alloc_def)
  have "block_leaves ?n i \<inter> block_leaves ?n j = {}"
    by (rule allocated_disjoint [OF bd_okD(2) [OF assms(1)] assms(2-4)])
  then have "block_first ?n i + block_count ?n i \<le> block_first ?n j \<or>
      block_first ?n j + block_count ?n j \<le> block_first ?n i"
    unfolding block_leaves_interval [OF v(1,2)] block_leaves_interval [OF v(3,4)] disjoint_iff
    by (metis atLeastLessThan_iff block_count_pos leI le_refl less_add_same_cancel1 nat_le_linear)
  then have "bd_alignment b * (block_first ?n i + block_count ?n i) \<le> bd_alignment b * block_first ?n j \<or>
      bd_alignment b * (block_first ?n j + block_count ?n j) \<le> bd_alignment b * block_first ?n i"
    using mult_le_mono2 by blast
  then show ?thesis by (auto simp: block_addr_def block_size_def distrib_left)
qed

lemma block_in_arena:
  assumes "bd_ok b" "block_allocated (bd_tree b) i" "block_first (bt_order (bd_tree b)) i < bd_units b"
  shows "buddy_main b \<le> block_addr b i" "block_addr b i + block_size b i \<le> buddy_main b + bd_memory_size b"
    "0 < block_size b i"
proof -
  let ?n = "bt_order (bd_tree b)"
  note g = bd_wf_geometry [OF bd_okD(1) [OF assms(1)]]
  have "block_first ?n i + block_count ?n i \<le> bd_units b"
    using assms by (fastforce simp: bd_ok_def bd_covered_def)
  then have "bd_alignment b * (block_first ?n i + block_count ?n i) \<le> bd_alignment b * bd_units b"
    by (rule mult_le_mono2)
  then show "block_addr b i + block_size b i \<le> buddy_main b + bd_memory_size b"
    using g(2) by (simp add: block_addr_def block_size_def distrib_left)
  show "buddy_main b \<le> block_addr b i" by (simp add: block_addr_def)
  show "0 < block_size b i" using g(1) by (simp add: block_size_def)
qed

lemma valid_node:
  assumes "bd_wf b" "0 < i" "i < 2 ^ bt_order (bd_tree b)"
  shows "buddy_tree_valid (bd_tree b) (node_pos i)"
  using assms by (simp add: buddy_tree_valid_def bd_wf_def tree_ok_def tree_wf_def)

lemma invalid_pos [simp]: "\<not> buddy_tree_valid t INVALID_POS"
  by (simp add: buddy_tree_valid_def INVALID_POS_def)

text \<open>The position search of \<open>buddy_malloc\<close> and \<open>buddy_malloc_find_pos\<close>.\<close>

lemma malloc_search:
  assumes "bd_ok b" "r \<le> bd_memory_size b"
  shows "if \<exists>i. block_available (bd_tree b) i \<and> bit_length i = depth_for_size b r
    then \<exists>i. buddy_tree_find_free (bd_tree b) (depth_for_size b r mod 256) = node_pos i \<and>
      block_available (bd_tree b) i \<and> bit_length i = depth_for_size b r
    else buddy_tree_find_free (bd_tree b) (depth_for_size b r mod 256) = INVALID_POS"
proof -
  note d = depth_for_size_correct [OF bd_okD(1) [OF assms(1)] assms(2)]
  have "depth_for_size b r < 256" using d(2) bd_wf_geometry(6) [OF bd_okD(1) [OF assms(1)]] by simp
  then have "depth_for_size b r mod 256 = depth_for_size b r" by simp
  then show ?thesis using find_free_correct [OF bd_okD(2) [OF assms(1)] d(1,2)] by simp
qed

lemma malloc_correct:
  fixes r :: nat
  assumes "bd_ok b"
  defines "r' \<equiv> if r = 0 then 1 else r"
  shows "(\<exists>i b'. buddy_malloc (Some b) r = (block_addr b i, Some b') \<and>
      buddy_malloc_find_pos (Some b) r = node_pos i \<and> buddy_malloc_apply b (node_pos i) = (block_addr b i, b') \<and>
      block_available (bd_tree b) i \<and> bit_length i = depth_for_size b r' \<and> r' \<le> bd_memory_size b \<and>
      b' = b \<lparr>bd_tree := buddy_tree_mark (bd_tree b) (node_pos i)\<rparr>)
    \<or> buddy_malloc (Some b) r = (0, Some b) \<and> buddy_malloc_find_pos (Some b) r = INVALID_POS \<and>
      (bd_memory_size b < r' \<or> \<not> (\<exists>i. block_available (bd_tree b) i \<and> bit_length i = depth_for_size b r'))"
proof (cases "bd_memory_size b < r'")
  case True
  then show ?thesis by (auto simp: r'_def Let_def)
next
  case False
  then have le: "r' \<le> bd_memory_size b" by simp
  note search = malloc_search [OF assms(1) le]
  show ?thesis
  proof (cases "\<exists>i. block_available (bd_tree b) i \<and> bit_length i = depth_for_size b r'")
    case True
    with search obtain i where i: "buddy_tree_find_free (bd_tree b) (depth_for_size b r' mod 256) = node_pos i"
      "block_available (bd_tree b) i" "bit_length i = depth_for_size b r'" by auto
    have v: "0 < i" "i < 2 ^ bt_order (bd_tree b)"
      using i(2) by (simp_all add: block_available_def is_available_def)
    note facts = valid_node [OF bd_okD(1) [OF assms(1)] v] address_for_node [OF bd_okD(1) [OF assms(1)] v] i le
    then show ?thesis
      by (intro disjI1 exI [of _ i]
          exI [of _ "b \<lparr>bd_tree := buddy_tree_mark (bd_tree b) (node_pos i)\<rparr>"])
        (simp add: buddy_malloc_apply_def Let_def not_less flip: r'_def)
  next
    case no: False
    with search have "buddy_tree_find_free (bd_tree b) (depth_for_size b r' mod 256) = INVALID_POS" by auto
    with no False show ?thesis
      by (intro disjI2) (simp add: Let_def flip: r'_def)
  qed
qed

end
