(* ===== verification/Buddy_Alloc_Spec.thy ===== *)
theory Buddy_Alloc_Spec
  imports Buddy_Alloc_Inv
begin

text \<open>
  The contract of a heap allocator, as a locale over any implementation, and its interpretation on
  \<open>buddy_malloc\<close> and \<open>buddy_free\<close>. The initialisation of the allocator, including the reservation of the
  virtual slots behind a memory size that is no power of two, establishes the invariant.
\<close>

subsection \<open>The contract\<close>

datatype heap_op = Alloc nat | Release nat

locale heap_allocator =
  fixes ok :: "'s \<Rightarrow> bool"
    and lo :: "'s \<Rightarrow> nat"
    and hi :: "'s \<Rightarrow> nat"
    and blocks :: "'s \<Rightarrow> (nat \<times> nat) set"
    and alloc :: "'s \<Rightarrow> nat \<Rightarrow> nat \<times> 's"
    and release :: "'s \<Rightarrow> nat \<Rightarrow> 's"
  assumes alloc_fail: "ok s \<Longrightarrow> alloc s r = (0, s') \<Longrightarrow> s' = s"
    and alloc_new: "ok s \<Longrightarrow> alloc s r = (p, s') \<Longrightarrow> p \<noteq> 0 \<Longrightarrow>
      ok s' \<and> lo s' = lo s \<and> hi s' = hi s \<and>
      (\<exists>n. r \<le> n \<and> 0 < n \<and> lo s \<le> p \<and> p + n \<le> hi s \<and> blocks s' = insert (p, n) (blocks s) \<and>
        (\<forall>q m. (q, m) \<in> blocks s \<longrightarrow> p + n \<le> q \<or> q + m \<le> p))"
    and release_block: "ok s \<Longrightarrow> (p, n) \<in> blocks s \<Longrightarrow>
      ok (release s p) \<and> lo (release s p) = lo s \<and> hi (release s p) = hi s \<and>
      blocks (release s p) = blocks s - {(p, n)}"
begin

text \<open>A client that releases only what it holds.\<close>

fun run :: "'s \<Rightarrow> heap_op list \<Rightarrow> 's" where
  "run s [] = s"
| "run s (Alloc r # ops) = run (snd (alloc s r)) ops"
| "run s (Release p # ops) = run (if p \<in> fst ` blocks s then release s p else s) ops"

definition separated :: "'s \<Rightarrow> bool" where
  "separated s \<longleftrightarrow>
     (\<forall>p n q m. (p, n) \<in> blocks s \<and> (q, m) \<in> blocks s \<and> (p, n) \<noteq> (q, m) \<longrightarrow> p + n \<le> q \<or> q + m \<le> p)
     \<and> (\<forall>p n. (p, n) \<in> blocks s \<longrightarrow> lo s \<le> p \<and> p + n \<le> hi s)"

lemma step_alloc:
  assumes "ok s" "separated s"
  shows "ok (snd (alloc s r)) \<and> separated (snd (alloc s r))"
proof -
  obtain p s' where e: "alloc s r = (p, s')" by fastforce
  show ?thesis
  proof (cases "p = 0")
    case True
    with e alloc_fail [OF assms(1), of r s'] assms show ?thesis by simp
  next
    case False
    from alloc_new [OF assms(1) e False] obtain n where
      n: "ok s'" "lo s' = lo s" "hi s' = hi s" "lo s \<le> p" "p + n \<le> hi s"
        "blocks s' = insert (p, n) (blocks s)"
        "\<forall>q m. (q, m) \<in> blocks s \<longrightarrow> p + n \<le> q \<or> q + m \<le> p" by blast
    have "separated s'"
      unfolding separated_def n(2,3,6)
    proof (intro conjI allI impI)
      fix a k c m
      assume h: "(a, k) \<in> insert (p, n) (blocks s) \<and> (c, m) \<in> insert (p, n) (blocks s) \<and> (a, k) \<noteq> (c, m)"
      then consider "(a, k) = (p, n)" "(c, m) \<in> blocks s" | "(c, m) = (p, n)" "(a, k) \<in> blocks s"
        | "(a, k) \<in> blocks s" "(c, m) \<in> blocks s" by blast
      then show "a + k \<le> c \<or> c + m \<le> a"
        using n(7) assms(2) h unfolding separated_def by cases auto
    qed (use n(4,5) assms(2) in \<open>auto simp: separated_def\<close>)
    with e n(1) show ?thesis by simp
  qed
qed

lemma step_release:
  assumes "ok s" "separated s" "p \<in> fst ` blocks s"
  shows "ok (release s p) \<and> separated (release s p)"
proof -
  from assms(3) obtain n where "(p, n) \<in> blocks s" by auto
  from release_block [OF assms(1) this] assms(2) show ?thesis
    unfolding separated_def by auto
qed

lemma run_separated: "ok s \<Longrightarrow> separated s \<Longrightarrow> ok (run s ops) \<and> separated (run s ops)"
  by (induction s ops rule: run.induct) (auto simp: step_alloc step_release)

end

subsection \<open>The buddy allocator fulfils it\<close>

definition bd_malloc :: "buddy \<Rightarrow> nat \<Rightarrow> nat \<times> buddy" where
  "bd_malloc b r = (let (p, b') = buddy_malloc (Some b) r in (p, the b'))"

definition bd_free :: "buddy \<Rightarrow> nat \<Rightarrow> buddy" where
  "bd_free b p = the (buddy_free (Some b) p)"

lemma malloc_blocks:
  assumes "bd_ok b" "bd_malloc b r = (p, b')" "p \<noteq> 0"
  shows "bd_ok b'" "buddy_main b' = buddy_main b" "bd_memory_size b' = bd_memory_size b"
    "\<exists>n. r \<le> n \<and> 0 < n \<and> n < 2 * max r (bd_alignment b) \<and> buddy_main b \<le> p \<and> p + n \<le> buddy_main b + bd_memory_size b \<and>
      bd_blocks b' = insert (p, n) (bd_blocks b) \<and>
      (\<forall>q m. (q, m) \<in> bd_blocks b \<longrightarrow> p + n \<le> q \<or> q + m \<le> p)"
proof -
  define r' where "r' = (if r = 0 then 1 else r)"
  note wf = bd_okD(1) [OF assms(1)]
  from malloc_correct [OF assms(1), of r] assms(2,3) obtain i where
    i: "p = block_addr b i" "block_available (bd_tree b) i" "bit_length i = depth_for_size b r'"
      "r' \<le> bd_memory_size b" and b': "b' = b \<lparr>bd_tree := buddy_tree_mark (bd_tree b) (node_pos i)\<rparr>"
    by (auto simp: bd_malloc_def r'_def)
  have v: "0 < i" "i < 2 ^ bt_order (bd_tree b)"
    using i(2) by (simp_all add: block_available_def is_available_def)
  note mk = mark_correct(2) [OF bd_okD(2) [OF assms(1)] i(2)]
  show ok': "bd_ok b'" unfolding b' by (rule mark_bd_ok [OF assms(1) i(2)])
  show "buddy_main b' = buddy_main b" "bd_memory_size b' = bd_memory_size b" by (simp_all add: b')
  have al: "block_allocated (bd_tree b') i" by (simp add: b' mk)
  have first: "block_first (bt_order (bd_tree b)) i < bd_units b"
    by (rule available_first [OF assms(1) i(2)])
  note arena = block_in_arena [OF ok' al]
  have size: "max r' (bd_alignment b) \<le> block_size b i" "block_size b i < 2 * max r' (bd_alignment b)"
    using depth_for_size_correct(3,4) [OF wf i(4)] size_for_node [OF wf v] i(3) by simp_all
  moreover have "max r' (bd_alignment b) = max r (bd_alignment b)"
    using bd_wf_geometry(1) [OF wf] by (auto simp: r'_def)
  moreover have "bd_blocks b' = insert (p, block_size b i) (bd_blocks b)"
    using first by (auto simp: bd_blocks_iff b' mk i(1))
  moreover have "p + block_size b i \<le> q \<or> q + m \<le> p" if "(q, m) \<in> bd_blocks b" for q m
  proof -
    from that obtain j where j: "q = block_addr b j" "m = block_size b j" "block_allocated (bd_tree b) j"
      by (auto simp: bd_blocks_iff)
    have "j \<noteq> i"
      using i(2) j(3) by (auto simp: block_available_def is_available_def block_allocated_def is_alloc_def)
    moreover have "block_allocated (bd_tree b') j" using j(3) by (simp add: b' mk)
    ultimately show ?thesis using blocks_separated [OF ok' al] i(1) j(1,2) by (fastforce simp: b')
  qed
  ultimately show "\<exists>n. r \<le> n \<and> 0 < n \<and> n < 2 * max r (bd_alignment b) \<and> buddy_main b \<le> p \<and>
      p + n \<le> buddy_main b + bd_memory_size b \<and> bd_blocks b' = insert (p, n) (bd_blocks b) \<and>
      (\<forall>q m. (q, m) \<in> bd_blocks b \<longrightarrow> p + n \<le> q \<or> q + m \<le> p)"
    using arena first i(1) by (intro exI [of _ "block_size b i"]) (auto simp: b')
qed

lemma free_correct:
  assumes "bd_ok b" "block_allocated (bd_tree b) i" "block_first (bt_order (bd_tree b)) i < bd_units b"
  shows "buddy_free (Some b) (block_addr b i) =
      Some (b \<lparr>bd_tree := buddy_tree_release (bd_tree b) (node_pos i)\<rparr>)"
    and "r \<le> block_size b i \<Longrightarrow> block_size b i < 2 * max r (bd_alignment b) \<Longrightarrow>
      buddy_free_find_pos (Some b) (block_addr b i) r = node_pos i \<and>
      buddy_safe_free (Some b) (block_addr b i) r =
        Some (b \<lparr>bd_tree := buddy_tree_release (bd_tree b) (node_pos i)\<rparr>)"
proof -
  note wf = bd_okD(1) [OF assms(1)]
  have v: "0 < i" "i < 2 ^ bt_order (bd_tree b)"
    using assms(2) by (auto simp: block_allocated_def is_alloc_def)
  note arena = block_in_arena [OF assms]
  have nz: "block_addr b i \<noteq> 0" using wf by (simp add: bd_wf_def block_addr_def)
  have guard: "\<not> (block_addr b i < buddy_main b \<or> buddy_main b + bd_memory_size b \<le> block_addr b i)"
    using arena by linarith
  note facts = position_for_block [OF wf assms(2)] valid_node [OF wf v] nz guard
  then show "buddy_free (Some b) (block_addr b i) =
      Some (b \<lparr>bd_tree := buddy_tree_release (bd_tree b) (node_pos i)\<rparr>)"
    by simp
  assume r: "r \<le> block_size b i" "block_size b i < 2 * max r (bd_alignment b)"
  have "bd_alignment b \<le> block_size b i" by (simp add: block_size_def Suc_leI)
  with r have q: "\<not> block_size b i < (if r < bd_alignment b then bd_alignment b else r)"
    "\<not> (if r < bd_alignment b then bd_alignment b else r) \<le> block_size b i div 2"
    by (auto split: if_splits)
  show "buddy_free_find_pos (Some b) (block_addr b i) r = node_pos i \<and>
      buddy_safe_free (Some b) (block_addr b i) r =
        Some (b \<lparr>bd_tree := buddy_tree_release (bd_tree b) (node_pos i)\<rparr>)"
    using facts q size_for_node [OF wf v] by (simp add: Let_def)
qed

lemma block_addr_inj:
  assumes "bd_ok b" "block_allocated (bd_tree b) i" "block_allocated (bd_tree b) j" "block_addr b i = block_addr b j"
  shows "i = j"
proof (rule ccontr)
  assume "i \<noteq> j"
  note g = bd_wf_geometry(1) [OF bd_okD(1) [OF assms(1)]]
  have "0 < block_size b i" "0 < block_size b j" using g by (simp_all add: block_size_def)
  with blocks_separated [OF assms(1-3) \<open>i \<noteq> j\<close>] assms(4) show False by simp
qed

lemma free_blocks:
  assumes "bd_ok b" "(p, n) \<in> bd_blocks b"
  shows "bd_ok (bd_free b p)" "buddy_main (bd_free b p) = buddy_main b"
    "bd_memory_size (bd_free b p) = bd_memory_size b" "bd_blocks (bd_free b p) = bd_blocks b - {(p, n)}"
proof -
  from assms(2) obtain i where i: "p = block_addr b i" "n = block_size b i" "block_allocated (bd_tree b) i"
    "block_first (bt_order (bd_tree b)) i < bd_units b" by (auto simp: bd_blocks_iff)
  have b': "bd_free b p = b \<lparr>bd_tree := buddy_tree_release (bd_tree b) (node_pos i)\<rparr>"
    using free_correct(1) [OF assms(1) i(3,4)] by (simp add: bd_free_def i(1))
  show "bd_ok (bd_free b p)" unfolding b' by (rule release_bd_ok [OF assms(1) i(3,4)])
  show "buddy_main (bd_free b p) = buddy_main b" "bd_memory_size (bd_free b p) = bd_memory_size b"
    by (simp_all add: b')
  note rel = release_correct(2) [OF bd_okD(2) [OF assms(1)] i(3)]
  have "(block_addr b j, block_size b j) \<noteq> (p, n)" if "j \<noteq> i" "block_allocated (bd_tree b) j" for j
    using block_addr_inj [OF assms(1) that(2) i(3)] that i(1) by auto
  then show "bd_blocks (bd_free b p) = bd_blocks b - {(p, n)}"
    unfolding b' unfolding set_eq_iff bd_blocks_iff Diff_iff i(1,2) by (auto simp: rel)
qed

interpretation buddy_heap: heap_allocator bd_ok buddy_main "\<lambda>b. buddy_main b + bd_memory_size b"
  bd_blocks bd_malloc bd_free
proof unfold_locales
  fix b :: buddy and r :: nat and b'
  assume ok: "bd_ok b" and m: "bd_malloc b r = (0, b')"
  from ok have "block_addr b i \<noteq> 0" for i by (simp add: bd_ok_def bd_wf_def block_addr_def)
  moreover from m have "fst (buddy_malloc (Some b) r) = 0"
    by (simp add: bd_malloc_def split_beta del: buddy_malloc.simps)
  ultimately have "buddy_malloc (Some b) r = (0, Some b)"
    using malloc_correct [OF ok, of r] by (metis fst_conv)
  with m show "b' = b" by (simp add: bd_malloc_def del: buddy_malloc.simps)
next
  fix b :: buddy and r :: nat and p b'
  assume a: "bd_ok b" "bd_malloc b r = (p, b')" "p \<noteq> 0"
  from malloc_blocks [OF this] show "bd_ok b' \<and> buddy_main b' = buddy_main b \<and>
      buddy_main b' + bd_memory_size b' = buddy_main b + bd_memory_size b \<and>
      (\<exists>n. r \<le> n \<and> 0 < n \<and> buddy_main b \<le> p \<and> p + n \<le> buddy_main b + bd_memory_size b \<and>
        bd_blocks b' = insert (p, n) (bd_blocks b) \<and>
        (\<forall>q m. (q, m) \<in> bd_blocks b \<longrightarrow> p + n \<le> q \<or> q + m \<le> p))" by auto
next
  fix b :: buddy and p n
  assume "bd_ok b" "(p, n) \<in> bd_blocks b"
  from free_blocks [OF this] show "bd_ok (bd_free b p) \<and> buddy_main (bd_free b p) = buddy_main b \<and>
      buddy_main (bd_free b p) + bd_memory_size (bd_free b p) = buddy_main b + bd_memory_size b \<and>
      bd_blocks (bd_free b p) = bd_blocks b - {(p, n)}" by simp
qed

subsection \<open>Initialisation reserves the virtual slots\<close>

lemma child_blocks:
  assumes "0 < i" "2 * i < 2 ^ n"
  shows "block_count n i = 2 * block_count n (2 * i)" "block_count n (2 * i + 1) = block_count n (2 * i)"
    "block_first n (2 * i) = block_first n i" "block_first n (2 * i + 1) = block_first n i + block_count n (2 * i)"
proof -
  have d: "bit_length i < n" using assms bit_length_le_iff [of "2 * i" n] by simp
  then have pow: "(2::nat) ^ (n - bit_length i) = 2 * 2 ^ (n - Suc (bit_length i))"
    by (metis Suc_diff_Suc power_Suc)
  have b: "2 ^ (bit_length i - 1) \<le> i" "2 * 2 ^ (bit_length i - 1) = (2::nat) ^ bit_length i"
    using bit_length_bounds [OF assms(1)] bit_length_pos [OF assms(1)] by auto
  show "block_count n i = 2 * block_count n (2 * i)" "block_count n (2 * i + 1) = block_count n (2 * i)"
    using assms(1) pow by (simp_all add: block_count_def)
  show "block_first n (2 * i) = block_first n i"
    using assms(1) pow by (simp add: block_first_def flip: b(2) diff_mult_distrib2)
  have "Suc (2 * i) - 2 ^ bit_length i = 2 * (i - 2 ^ (bit_length i - 1)) + 1"
    unfolding b(2) [symmetric] using b(1) by (simp add: Suc_diff_le flip: diff_mult_distrib2)
  then show "block_first n (2 * i + 1) = block_first n i + block_count n (2 * i)"
    using assms(1) pow by (simp add: block_first_def block_count_def)
qed

lemma available_child:
  assumes ok: "tree_ok t" and av: "block_available t i" and c: "0 < c" "c < 2 ^ bt_order t" "c div 2 = i"
  shows "block_available t c"
proof -
  have i: "0 < i" "i < 2 ^ bt_order t" using av by (simp_all add: block_available_def is_available_def)
  have "1 < c" using c(3) i(1) by (cases "c \<le> 1") auto
  from leaves_parent [OF this c(2)] c(3) have "block_leaves (bt_order t) c \<subseteq> block_leaves (bt_order t) i" by simp
  then show ?thesis
    using av unfolding available_iff_disjoint [OF ok i] available_iff_disjoint [OF ok c(1,2)] by blast
qed

text \<open>Below an available node the loop marks blocks that cover exactly the last \<open>u\<close> alignment units.\<close>

lemma virtual_slots_loop_correct:
  assumes wf: "bd_wf b"
  shows "tree_ok t \<Longrightarrow> bt_order t = bt_order (bd_tree b) \<Longrightarrow> block_available t i \<Longrightarrow>
    0 < u \<Longrightarrow> u \<le> block_count (bt_order t) i \<Longrightarrow> bt_order t - bit_length i < fuel \<Longrightarrow>
    \<exists>t' s. virtual_slots_loop buddy_tree_mark b fuel (bd_alignment b * u) (node_pos i) t = Some t' \<and>
      tree_ok t' \<and> bt_order t' = bt_order t \<and>
      (\<forall>j. block_allocated t' j \<longleftrightarrow> block_allocated t j \<or> j \<in> s) \<and>
      (\<forall>j \<in> s. block_first (bt_order t) i + block_count (bt_order t) i - u \<le> block_first (bt_order t) j) \<and>
      {block_first (bt_order t) i + block_count (bt_order t) i - u..<
        block_first (bt_order t) i + block_count (bt_order t) i} \<subseteq> (\<Union>j \<in> s. block_leaves (bt_order t) j)"
proof (induction fuel arbitrary: t i u)
  case (Suc fuel)
  let ?n = "bt_order t" and ?a = "bd_alignment b" and ?c = "block_count (bt_order t) i"
  have a: "0 < ?a" using bd_wf_geometry(1) [OF wf] .
  have i: "0 < i" "i < 2 ^ ?n" using Suc.prems(3) by (simp_all add: block_available_def is_available_def)
  have size: "size_for_depth b (buddy_tree_depth (node_pos i)) = ?a * ?c"
    using size_for_node [OF wf i(1)] i(2) Suc.prems(2) by (simp add: block_size_def buddy_tree_depth_def)
  show ?case
  proof (cases "u = ?c")
    case True
    have "virtual_slots_loop buddy_tree_mark b (Suc fuel) (?a * u) (node_pos i) t = Some (buddy_tree_mark t (node_pos i))"
      using True a by (simp add: size block_count_def virtual_slots_loop.simps(2))
    with mark_correct [OF Suc.prems(1,3)] True show ?thesis
      by (intro exI [of _ "buddy_tree_mark t (node_pos i)"] exI [of _ "{i}"])
        (auto simp: block_leaves_interval [OF i])
  next
    case False
    with Suc.prems(4,5) have "1 < ?c" by simp
    then have "bit_length i < ?n" by (cases "?n - bit_length i") (auto simp: block_count_def)
    then have dd: "2 * i < 2 ^ ?n" using bit_length_le_iff [of "2 * i" ?n] i(1) by simp
    note ch = child_blocks [OF i(1) dd]
    have n: "0 < ?n" using \<open>bit_length i < ?n\<close> by simp
    have l: "0 < 2 * i" "2 * i < 2 ^ ?n" "2 * i div 2 = i" and r: "0 < 2 * i + 1" "2 * i + 1 < 2 ^ ?n" "(2 * i + 1) div 2 = i"
      using i(1) dd double_less [OF n dd] by auto
    note avl = available_child [OF Suc.prems(1,3) l] and avr = available_child [OF Suc.prems(1,3) r]
    let ?h = "block_count ?n (2 * i)"
    have half: "?a * ?c div 2 = ?a * ?h" using ch(1) by simp
    have fuel: "?n - bit_length (2 * i) < fuel" "?n - bit_length (2 * i + 1) < fuel"
      using Suc.prems(6) \<open>bit_length i < ?n\<close> i(1) by auto
    show ?thesis
    proof (cases "u \<le> ?h")
      case True
      have "virtual_slots_loop buddy_tree_mark b (Suc fuel) (?a * u) (node_pos i) t =
          virtual_slots_loop buddy_tree_mark b fuel (?a * u) (node_pos (2 * i + 1)) t"
        using True False Suc.prems(4) a half by (simp add: size right_child_node virtual_slots_loop.simps(2))
      moreover have "block_first ?n (2 * i + 1) + block_count ?n (2 * i + 1) = block_first ?n i + ?c"
        using ch by simp
      moreover have "u \<le> block_count ?n (2 * i + 1)" using True ch(2) by simp
      ultimately show ?thesis using Suc.IH [OF Suc.prems(1,2) avr Suc.prems(4) _ fuel(2)] by simp
    next
      case big: False
      let ?t = "buddy_tree_mark t (node_pos (2 * i + 1))"
      note mk = mark_correct [OF Suc.prems(1) avr]
      have "virtual_slots_loop buddy_tree_mark b (Suc fuel) (?a * u) (node_pos i) t =
          virtual_slots_loop buddy_tree_mark b fuel (?a * (u - ?h)) (node_pos (2 * i)) ?t"
        using big False Suc.prems(4) a half i(1) 
        by (simp add: size right_child_node left_child_node diff_mult_distrib2 virtual_slots_loop.simps(2))
      moreover have avt: "block_available ?t (2 * i)"
      proof -
        have "block_leaves ?n (2 * i + 1) \<inter> block_leaves ?n (2 * i) = {}"
          unfolding block_leaves_interval [OF l(1,2)] block_leaves_interval [OF r(1,2)] using ch by auto
        then show ?thesis
          using avl unfolding available_iff_disjoint [OF Suc.prems(1) l(1,2)]
          by (subst available_iff_disjoint [OF mk(1)]) (use l mk(2) in auto)
      qed
      moreover have "0 < u - ?h" "u - ?h \<le> ?h" using big Suc.prems(5) ch(1) by auto
      note IH = Suc.IH [OF mk(1), unfolded bt_order_mark, OF Suc.prems(2) avt this fuel(1)]
      ultimately obtain t' s where IH: "virtual_slots_loop buddy_tree_mark b (Suc fuel) (?a * u) (node_pos i) t = Some t'"
        "tree_ok t'" "bt_order t' = ?n" "\<forall>j. block_allocated t' j \<longleftrightarrow> block_allocated ?t j \<or> j \<in> s"
        "\<forall>j \<in> s. block_first ?n (2 * i) + ?h - (u - ?h) \<le> block_first ?n j"
        "{block_first ?n (2 * i) + ?h - (u - ?h)..<block_first ?n (2 * i) + ?h} \<subseteq> (\<Union>j \<in> s. block_leaves ?n j)"
        by metis
      have low: "block_first ?n (2 * i) + ?h - (u - ?h) = block_first ?n i + ?c - u"
        using big ch by simp
      have "{block_first ?n i + ?c - u..<block_first ?n i + ?c} \<subseteq>
          (\<Union>j \<in> insert (2 * i + 1) s. block_leaves ?n j)"
      proof
        fix x assume x: "x \<in> {block_first ?n i + ?c - u..<block_first ?n i + ?c}"
        show "x \<in> (\<Union>j \<in> insert (2 * i + 1) s. block_leaves ?n j)"
        proof (cases "x < block_first ?n (2 * i) + ?h")
          case True
          with x IH(6) low show ?thesis by auto
        next
          case False
          with x ch have "x \<in> block_leaves ?n (2 * i + 1)" unfolding block_leaves_interval [OF r(1,2)] by auto
          then show ?thesis by blast
        qed
      qed
      moreover have "\<forall>j \<in> insert (2 * i + 1) s. block_first ?n i + ?c - u \<le> block_first ?n j"
        using IH(5) big ch(1,3,4) unfolding low by auto
      ultimately show ?thesis
        using IH(1-3) IH(4) [unfolded mk(2)] by (intro exI [of _ t'] exI [of _ "insert (2 * i + 1) s"]) auto
    qed
  qed
qed simp

lemma toggle_virtual_slots_correct:
  assumes wf: "bd_wf b" and empty: "\<And>i. \<not> block_allocated (bd_tree b) i"
  shows "\<exists>b'. buddy_toggle_virtual_slots b True = Some b' \<and> bd_ok b' \<and> bd_blocks b' = {} \<and>
    (\<exists>t. b' = b \<lparr>bd_tree := t\<rparr>)"
proof -
  let ?n = "bt_order (bd_tree b)" and ?eff = "buddy_effective_memory_size b"
  note g = bd_wf_geometry [OF wf]
  have ok: "tree_ok (bd_tree b)" using wf by (simp add: bd_wf_def)
  have none: "bd_blocks b = {}" using empty by (auto simp: bd_blocks_iff)
  show ?thesis
  proof (cases "?eff = bd_memory_size b")
    case True
    then have "bd_units b = 2 ^ (?n - 1)" using g(1,2,4) by (metis mult_cancel1 less_numeral_extra(3))
    then have "bd_covered b" using empty by (simp add: bd_covered_def)
    with True wf none show ?thesis
      by (intro exI [of _ b] conjI exI [of _ "bd_tree b"]) (simp_all add: buddy_toggle_virtual_slots_def bd_ok_def)
  next
    case False
    define u where "u = 2 ^ (?n - 1) - bd_units b"
    have "bd_units b \<noteq> 2 ^ (?n - 1)" using False g(2,4) by metis
    then have u: "0 < u" using g(7) by (simp add: u_def)
    have twice: "2 ^ (?n - 1) < 2 * bd_units b"
    proof -
      have "bd_alignment b * 2 ^ (?n - 1) < bd_alignment b * (2 * bd_units b)"
        using g(9) unfolding g(4) mult.left_commute [of _ 2] g(2) .
      then show ?thesis using g(1) by simp
    qed
    have n2: "2 \<le> ?n"
    proof (rule ccontr)
      assume "\<not> 2 \<le> ?n"
      then have "?n = 1" using g(5) by linarith
      then show False using u g(3) by (simp add: u_def)
    qed
    then have "?n - 1 = Suc (?n - 2)" by linarith
    then have pow: "(2::nat) ^ (?n - 1) = 2 * 2 ^ (?n - 2)" "(4::nat) \<le> 2 ^ ?n"
      using power_increasing [OF n2, of "2::nat"] by (simp_all only: power_Suc) simp
    have b3: "bit_length 3 = 2" using bit_length_double_Suc [of 1] by (simp add: numeral_3_eq_3)
    have geo: "block_first ?n 3 = 2 ^ (?n - 2)" "block_count ?n 3 = 2 ^ (?n - 2)"
      by (simp_all add: block_first_def block_count_def b3)
    have three: "(3::nat) < 2 ^ ?n" using pow(2) by simp
    have av: "block_available (bd_tree b) 3"
      using empty three by (subst available_iff_disjoint [OF ok]) auto
    have u3: "u \<le> block_count ?n 3" using twice pow geo by (simp add: u_def)
    have delta: "?eff - bd_memory_size b = bd_alignment b * u"
      unfolding u_def diff_mult_distrib2 g(2,4) ..
    have fuel: "?n - bit_length 3 < 66" using g(6) by simp
    have pos: "buddy_tree_right_child buddy_tree_root = node_pos 3"
      by (simp add: buddy_tree_root_node right_child_node)
    have ends: "2 ^ (?n - 1) - u = bd_units b" "block_first ?n 3 + block_count ?n 3 = 2 ^ (?n - 1)"
      using geo pow(1) g(7) by (simp_all add: u_def)
    from virtual_slots_loop_correct [OF wf ok refl av u u3 fuel, unfolded ends] obtain t s where
      t: "virtual_slots_loop buddy_tree_mark b 66 (bd_alignment b * u) (node_pos 3) (bd_tree b) = Some t"
        "tree_ok t" "bt_order t = ?n" "\<forall>j. block_allocated t j \<longleftrightarrow> block_allocated (bd_tree b) j \<or> j \<in> s"
        "\<forall>j \<in> s. bd_units b \<le> block_first ?n j"
        "{bd_units b..<2 ^ (?n - 1)} \<subseteq> (\<Union>j \<in> s. block_leaves ?n j)"
      by (elim exE conjE) (erule (5) that)
    have alloc: "block_allocated t j \<longleftrightarrow> j \<in> s" for j using t(4) empty by blast
    have "bd_covered (b \<lparr>bd_tree := t\<rparr>)"
      unfolding bd_covered_def
    proof (intro conjI ballI allI impI)
      fix x assume "x \<in> {bd_units (b \<lparr>bd_tree := t\<rparr>)..<2 ^ (bt_order (bd_tree (b \<lparr>bd_tree := t\<rparr>)) - 1)}"
      then have "x \<in> {bd_units b..<2 ^ (?n - 1)}" using t(3) by simp
      with t(6) show "\<exists>i. block_allocated (bd_tree (b \<lparr>bd_tree := t\<rparr>)) i \<and>
          x \<in> block_leaves (bt_order (bd_tree (b \<lparr>bd_tree := t\<rparr>))) i"
        using t(3) by (auto simp: alloc)
    qed (use t(3,5) in \<open>simp add: alloc\<close>)
    moreover have "bd_wf (b \<lparr>bd_tree := t\<rparr>)" using bd_wf_tree [OF wf t(2,3)] .
    moreover have "bd_blocks (b \<lparr>bd_tree := t\<rparr>) = {}"
      using t(3,5) by (fastforce simp: bd_blocks_iff alloc)
    ultimately show ?thesis
      using False t(1) by (intro exI [of _ "b \<lparr>bd_tree := t\<rparr>"] conjI exI [of _ t])
        (simp_all add: buddy_toggle_virtual_slots_def delta pos Let_def bd_ok_def)
  qed
qed

lemma init_alignment_correct:
  assumes "at \<noteq> 0" "main \<noteq> 0" "at \<noteq> main" "at mod 8 = 0" "main mod 8 = 0"
    and al: "alignment = 2 ^ k" "alignment \<le> memory_size" "memory_size \<le> 2 ^ 63"
    and ord: "buddy_tree_order_for_memory (memory_size - memory_size mod alignment) alignment < 32"
  shows "\<exists>b. buddy_init_alignment at main memory_size alignment = Some b \<and> bd_ok b \<and> bd_blocks b = {} \<and>
    buddy_main b = main \<and> bd_memory_size b = memory_size - memory_size mod alignment \<and> bd_alignment b = alignment"
proof -
  let ?m = "memory_size - memory_size mod alignment" and ?n = "buddy_tree_order_for_memory (memory_size - memory_size mod alignment) alignment"
  have va: "is_valid_alignment alignment"
    using is_valid_alignment_iff [of alignment] al by auto
  have dvd: "alignment dvd ?m" by (simp add: minus_mod_eq_mult_div)
  have "memory_size mod alignment < alignment" using al(1) by simp
  then have m: "0 < ?m" "?m \<le> 2 ^ 63" using al(2,3) by linarith+
  have ge: "alignment \<le> ?m" using dvd m(1) by (rule dvd_imp_le)
  have n: "0 < ?n" using order_for_memory_leaves(2) [OF m al(1) dvd] .
  define b where "b = \<lparr>bd_at = at, bd_memory_size = ?m, bd_alignment = alignment, bd_arena = main,
    bd_flags = 0, bd_tree = fst (buddy_tree_init ?n)\<rparr>"
  have mod: "?n mod 256 = ?n" using ord by simp
  have main: "buddy_main b = main" by (simp add: buddy_main_def buddy_relative_mode_def b_def)
  have wf: "bd_wf b"
    unfolding bd_wf_def main
    using m va dvd al assms(2) init_correct(1) [OF n ord] by (simp add: b_def)
  have "\<not> block_allocated (bd_tree b) i" for i using init_correct(2) [OF n ord] by (simp add: b_def)
  from toggle_virtual_slots_correct [OF wf this] obtain b' t where
    b': "buddy_toggle_virtual_slots b True = Some b'" "bd_ok b'" "bd_blocks b' = {}" "b' = b \<lparr>bd_tree := t\<rparr>"
    by blast
  have "buddy_sizeof_alignment ?m alignment \<noteq> 0"
    using va ge by (simp add: buddy_sizeof_alignment_def sizeof_struct_buddy_def)
  then have "buddy_init_alignment at main memory_size alignment = Some b'"
    using assms(1-5) va b'(1) mod by (simp add: buddy_init_alignment_def Let_def b_def)
  moreover have "buddy_main b' = main" using main by (simp add: b'(4))
  ultimately show ?thesis using b'(2-4) by (auto simp: b_def)
qed

subsection \<open>An arena without allocations\<close>

lemma fresh_available:
  assumes "bd_ok b" "bd_blocks b = {}" "0 < i" "i < 2 ^ bt_order (bd_tree b)"
    and "block_first (bt_order (bd_tree b)) i + block_count (bt_order (bd_tree b)) i \<le> bd_units b"
  shows "block_available (bd_tree b) i"
proof (subst available_iff_disjoint [OF bd_okD(2) [OF assms(1)] assms(3,4)], intro allI impI)
  fix j assume j: "block_allocated (bd_tree b) j"
  then have v: "0 < j" "j < 2 ^ bt_order (bd_tree b)" by (simp_all add: block_allocated_def is_alloc_def)
  have "(block_addr b j, block_size b j) \<notin> bd_blocks b" using assms(2) by simp
  with j have "bd_units b \<le> block_first (bt_order (bd_tree b)) j" unfolding bd_blocks_iff by fastforce
  with assms(5) show "block_leaves (bt_order (bd_tree b)) j \<inter> block_leaves (bt_order (bd_tree b)) i = {}"
    by (simp add: block_leaves_interval v assms(3,4))
qed

lemma fresh_find_pos:
  assumes "bd_ok b" "bd_blocks b = {}" "0 < r" "size_for_depth b (depth_for_size b r) \<le> bd_memory_size b" "r \<le> bd_memory_size b"
  shows "buddy_malloc_find_pos (Some b) r \<noteq> INVALID_POS"
proof -
  let ?n = "bt_order (bd_tree b)" and ?d = "depth_for_size b r"
  let ?i = "2 ^ (?d - 1) :: nat"
  note wf = bd_okD(1) [OF assms(1)]
  note d = depth_for_size_correct(1,2) [OF wf assms(5)] and g = bd_wf_geometry [OF wf]
  have bl: "bit_length ?i = ?d" using bit_length_power [of "?d - 1"] d(1) by simp
  have i: "0 < ?i" "?i < 2 ^ ?n" using d by (simp_all add: power_strict_increasing)
  have first: "block_first ?n ?i = 0" by (simp add: block_first_def bl)
  have "bd_alignment b * block_count ?n ?i \<le> bd_alignment b * bd_units b"
    using assms(4) size_for_node [OF wf i, unfolded bl] g(2) by (simp add: block_size_def)
  then have "block_count ?n ?i \<le> bd_units b" using g(1) by simp
  then have "block_available (bd_tree b) ?i" using fresh_available [OF assms(1,2) i] first by simp
  with malloc_correct [OF assms(1), of r] bl assms(3,5) show ?thesis
    by (auto simp: node_pos_def INVALID_POS_def block_available_def is_available_def
        simp del: buddy_malloc_find_pos.simps buddy_malloc.simps)
qed

end
