(* ===== verification/Buddy_Props.thy ===== *)
theory Buddy_Props
  imports Buddy_Alloc_Spec
begin

text \<open>
  The properties of the buddy allocator: bit arithmetic, layout and contents of the allocation
  tree, search, allocation and release, and the contract towards clients. The last section holds
  what the resizing and flushing code does on concrete trees.
\<close>

text \<open>An arena of seven 64-byte units at address 4096, used by the examples.\<close>

lemma ex_arena:
  "(64::nat) \<noteq> 0" "(4096::nat) \<noteq> 0" "(64::nat) \<noteq> 4096" "(64::nat) mod 8 = 0" "(4096::nat) mod 8 = 0"
  "(64::nat) = 2 ^ 6" "(64::nat) \<le> 448" "(448::nat) \<le> 2 ^ 63"
  "buddy_tree_order_for_memory (448 - 448 mod 64) 64 < 32"
  by (simp_all, code_simp)

text \<open>In the fresh arena the first unit is available, and a request of one unit succeeds.\<close>

lemma ex_available:
  "\<exists>b. bd_ok b \<and> bd_alignment b = 64 \<and> bd_memory_size b = 448 \<and> bt_order (bd_tree b) = 4 \<and>
    block_available (bd_tree b) 8"
proof -
  from init_alignment_correct [OF ex_arena] obtain b where b: "bd_ok b" "bd_alignment b = 64" "bd_memory_size b = 448"
    "bd_blocks b = {}" by auto
  note wf = bd_okD(1) [OF b(1)] and g = bd_wf_geometry [OF bd_okD(1) [OF b(1)]]
  have u: "bd_units b = 7" using b(2,3) by (simp add: bd_units_def)
  have "ceiling_power_of_two 448 = 512" by code_simp
  then have "(2::nat) ^ (bt_order (bd_tree b) - 1) = 2 ^ 3"
    using g(4) b(2,3) by (simp add: buddy_effective_memory_size_def)
  then have n: "bt_order (bd_tree b) = 4" using g(5) by (simp only: power_inject_exp)
  have bl: "bit_length 8 = 4" using bit_length_power [of 3] by simp
  have g8: "block_first 4 8 = 0" "block_count 4 8 = 1" by (simp_all add: block_first_def block_count_def bl)
  have "block_available (bd_tree b) 8"
    by (rule fresh_available [OF b(1,4)]) (simp_all add: n u g8)
  with b n show ?thesis by blast
qed

lemma ex_block: "\<exists>b p n. bd_ok b \<and> (p, n) \<in> bd_blocks b"
proof -
  from ex_available obtain b where b: "bd_ok b" "bd_alignment b = 64" "bd_memory_size b = 448"
    "bt_order (bd_tree b) = 4" and av: "block_available (bd_tree b) 8" by blast
  let ?b = "b \<lparr>bd_tree := buddy_tree_mark (bd_tree b) (node_pos 8)\<rparr>"
  have "block_allocated (bd_tree ?b) 8" using mark_correct(2) [OF bd_okD(2) [OF b(1)] av] by simp
  moreover have "block_first (bt_order (bd_tree ?b)) 8 < bd_units ?b"
    using available_first [OF b(1) av] by simp
  ultimately have "(block_addr ?b 8, block_size ?b 8) \<in> bd_blocks ?b" unfolding bd_blocks_iff by blast
  with mark_bd_ok [OF b(1) av] show ?thesis by blast
qed

lemma ex_fresh: "\<exists>b. bd_ok b \<and> buddy_malloc_find_pos (Some b) 64 \<noteq> INVALID_POS"
proof -
  from ex_available obtain b where b: "bd_ok b" "bd_alignment b = 64" "bd_memory_size b = 448"
    "bt_order (bd_tree b) = 4" and av: "block_available (bd_tree b) 8" by blast
  have "depth_loop 1 (ceiling_power_of_two 448) 64 = 4" by code_simp
  then have "depth_for_size b 64 = 4"
    using b(2,3) by (simp add: depth_for_size_def buddy_effective_memory_size_def)
  moreover have "bit_length 8 = 4" using bit_length_power [of 3] by simp
  ultimately have "\<exists>i. block_available (bd_tree b) i \<and> bit_length i = depth_for_size b 64"
    using av by metis
  with malloc_correct [OF b(1), of 64] b(3) have "\<exists>i. 0 < i \<and> buddy_malloc_find_pos (Some b) 64 = node_pos i"
    by (auto simp: block_available_def is_available_def simp del: buddy_malloc_find_pos.simps buddy_malloc.simps)
  with b(1) show ?thesis by (auto simp: node_pos_def INVALID_POS_def simp del: buddy_malloc_find_pos.simps)
qed

subsection \<open>Any client of the allocator\<close>

text \<open>C8: After \<open>buddy_init_alignment\<close> on an arena (with a power-of-two alignment and a tree of order
  below 32), every sequence of \<open>buddy_malloc\<close> and \<open>buddy_free\<close> calls, where the client frees only
  pointers it holds, leaves the allocator in a consistent state in which the blocks handed out are
  pairwise disjoint and lie inside the arena.\<close>

theorem buddy_heap_safe:
  assumes "at \<noteq> 0" "main \<noteq> 0" "at \<noteq> main" "at mod 8 = 0" "main mod 8 = 0"
    and "alignment = 2 ^ k" "alignment \<le> memory_size" "memory_size \<le> 2 ^ 63"
    and "buddy_tree_order_for_memory (memory_size - memory_size mod alignment) alignment < 32"
  shows "\<exists>b. buddy_init_alignment at main memory_size alignment = Some b \<and> bd_blocks b = {} \<and>
    (\<forall>ops. let b' = buddy_heap.run b ops in
       bd_ok b' \<and>
       (\<forall>(p, n) \<in> bd_blocks b'. \<forall>(q, m) \<in> bd_blocks b'. (p, n) = (q, m) \<or> p + n \<le> q \<or> q + m \<le> p) \<and>
       (\<forall>(p, n) \<in> bd_blocks b'. buddy_main b' \<le> p \<and> p + n \<le> buddy_main b' + bd_memory_size b'))"
proof -
  from init_alignment_correct [OF assms] obtain b where
    b: "buddy_init_alignment at main memory_size alignment = Some b" "bd_ok b" "bd_blocks b = {}" by blast
  have "buddy_heap.separated b" using b(3) by (simp add: buddy_heap.separated_def)
  from buddy_heap.run_separated [OF b(2) this] b(1,3) show ?thesis
    unfolding buddy_heap.separated_def Let_def by (intro exI [of _ b]) fastforce
qed

theorem buddy_heap_safe_witness:
  "\<exists>b. buddy_init_alignment 64 4096 448 64 = Some b \<and>
    bd_ok (buddy_heap.run b [Alloc 100, Alloc 64, Release 4096, Alloc 200])"
proof -
  from buddy_heap_safe [OF ex_arena] show ?thesis
    unfolding Let_def
    by meson
qed

text \<open>C9: A successful \<open>buddy_malloc\<close> returns a block that holds the request and is less than twice
  the size asked for (or the alignment, if larger), that lies inside the arena, overlaps no block in
  use, and is the only change to the set of blocks in use. A failed one changes nothing, and fails
  only because the request exceeds the arena or no free block of the needed depth exists.\<close>

theorem buddy_malloc_block:
  assumes "bd_ok b"
  shows "case buddy_malloc (Some b) r of (p, b') \<Rightarrow>
    if p = 0 then
      b' = Some b \<and> (bd_memory_size b < max r 1 \<or>
        \<not> (\<exists>i. block_available (bd_tree b) i \<and> bit_length i = depth_for_size b (max r 1)))
    else
      bd_ok (the b') \<and> (\<exists>n. r \<le> n \<and> n < 2 * max r (bd_alignment b) \<and> buddy_main b \<le> p \<and>
        p + n \<le> buddy_main b + bd_memory_size b \<and>
        bd_blocks (the b') = insert (p, n) (bd_blocks b) \<and>
        (\<forall>(q, m) \<in> bd_blocks b. p + n \<le> q \<or> q + m \<le> p))"
proof (cases "fst (buddy_malloc (Some b) r) = 0")
  case True
  have nz: "block_addr b i \<noteq> 0" for i using assms by (simp add: bd_ok_def bd_wf_def block_addr_def)
  have m: "(if r = 0 then 1 else r) = max r 1" by simp
  show ?thesis
    using malloc_correct [OF assms, of r, unfolded m]
  proof (elim disjE, goal_cases)
    case 1
    then obtain i b' where "buddy_malloc (Some b) r = (block_addr b i, Some b')" by blast
    with True nz show ?case by (simp del: buddy_malloc.simps)
  next
    case 2
    then show ?case by (simp del: buddy_malloc.simps)
  qed
next
  case False
  obtain p b' where m: "buddy_malloc (Some b) r = (p, b')" by fastforce
  with False have p: "p \<noteq> 0" by (simp del: buddy_malloc.simps)
  from m have "bd_malloc b r = (p, the b')" by (simp add: bd_malloc_def del: buddy_malloc.simps)
  from malloc_blocks [OF assms this p] show ?thesis
    using m p by (auto simp del: buddy_malloc.simps)
qed

theorem buddy_malloc_block_witness:
  "\<exists>b. buddy_init_alignment 64 4096 448 64 = Some b \<and> bd_ok b \<and>
    (case buddy_malloc (Some b) 100 of (p, b') \<Rightarrow> p \<noteq> 0 \<longrightarrow> bd_ok (the b'))"
proof -
  from init_alignment_correct [OF ex_arena] obtain b where
    "buddy_init_alignment 64 4096 448 64 = Some b" "bd_ok b" by blast
  with buddy_malloc_block [of b 100] show ?thesis
    by (intro exI [of _ b]) (auto simp: split_beta simp del: buddy_malloc.simps)
qed

text \<open>C10: \<open>buddy_free\<close> of a block in use, given by its address, takes exactly that block out of the set
  of blocks in use and keeps the allocator consistent.\<close>

theorem buddy_free_block:
  assumes "bd_ok b" "(p, n) \<in> bd_blocks b"
  shows "\<exists>b'. buddy_free (Some b) p = Some b' \<and> bd_ok b' \<and> bd_blocks b' = bd_blocks b - {(p, n)}"
proof -
  have "buddy_free (Some b) p = Some (bd_free b p)" by (auto simp: bd_free_def Let_def)
  with free_blocks [OF assms] show ?thesis by blast
qed

theorem buddy_free_block_witness:
  "\<exists>b p n. bd_ok b \<and> (p, n) \<in> bd_blocks b \<and>
    (\<exists>b'. buddy_free (Some b) p = Some b' \<and> bd_blocks b' = bd_blocks b - {(p, n)})"
proof -
  from ex_block obtain b p n where "bd_ok b" "(p, n) \<in> bd_blocks b" by blast
  with buddy_free_block [of b p n] show ?thesis by blast
qed

text \<open>C11: The two-phase interface the redo log uses agrees with the direct one: the position
  \<open>buddy_malloc_find_pos\<close> announces is the one \<open>buddy_malloc\<close> takes, applying it gives the same pointer
  and allocator, and \<open>buddy_free_find_pos\<close> on that pointer with the requested size finds the same
  position again, so that \<open>buddy_free_apply\<close> releases what was allocated.\<close>

theorem malloc_find_apply_free:
  assumes "bd_ok b" "buddy_malloc_find_pos (Some b) r \<noteq> INVALID_POS"
  shows "\<exists>p b'. buddy_malloc (Some b) r = (p, Some b') \<and> p \<noteq> 0 \<and>
    buddy_malloc_apply b (buddy_malloc_find_pos (Some b) r) = (p, b') \<and>
    buddy_free_find_pos (Some b') p r = buddy_malloc_find_pos (Some b) r \<and>
    bd_ok (buddy_free_apply b' (buddy_free_find_pos (Some b') p r)) \<and>
    bd_blocks (buddy_free_apply b' (buddy_free_find_pos (Some b') p r)) = bd_blocks b"
  using malloc_correct [OF assms(1), of r]
proof (elim disjE, goal_cases)
  case 1
  define r' where "r' = (if r = 0 then 1 else r)"
  note wf = bd_okD(1) [OF assms(1)]
  from 1 obtain i b' where
    i: "buddy_malloc (Some b) r = (block_addr b i, Some b')" "buddy_malloc_find_pos (Some b) r = node_pos i"
      "buddy_malloc_apply b (node_pos i) = (block_addr b i, b')" "block_available (bd_tree b) i"
      "bit_length i = depth_for_size b r'" "r' \<le> bd_memory_size b"
      "b' = b \<lparr>bd_tree := buddy_tree_mark (bd_tree b) (node_pos i)\<rparr>"
    unfolding r'_def by blast
  have v: "0 < i" "i < 2 ^ bt_order (bd_tree b)"
    using i(4) by (simp_all add: block_available_def is_available_def)
  note mk = mark_correct [OF bd_okD(2) [OF assms(1)] i(4)]
  have ok: "bd_ok b'" unfolding i(7) by (rule mark_bd_ok [OF assms(1) i(4)])
  have al: "block_allocated (bd_tree b') i" by (simp add: i(7) mk(2))
  have first: "block_first (bt_order (bd_tree b')) i < bd_units b'"
    using available_first [OF assms(1) i(4)] by (simp add: i(7))
  have size: "r \<le> block_size b' i" "block_size b' i < 2 * max r (bd_alignment b')"
    using depth_for_size_correct(3,4) [OF wf i(6)] size_for_node [OF wf v] i(5) bd_wf_geometry(1) [OF wf]
    by (auto simp: i(7) r'_def split: if_splits)
  have addr: "block_addr b' i = block_addr b i" by (simp add: i(7))
  have find: "buddy_free_find_pos (Some b') (block_addr b i) r = node_pos i"
    using free_correct(2) [OF ok al first size] by (simp only: addr)
  have nz: "block_addr b i \<noteq> 0" using wf by (simp add: bd_wf_def block_addr_def)
  have ok2: "bd_ok (buddy_free_apply b' (node_pos i))"
    unfolding buddy_free_apply_def by (rule release_bd_ok [OF ok al first])
  have unused: "\<not> block_allocated (bd_tree b) i"
    using i(4) by (simp add: block_available_def is_available_def block_allocated_def is_alloc_def)
  have "block_allocated (bd_tree (buddy_free_apply b' (node_pos i))) j \<longleftrightarrow> block_allocated (bd_tree b) j" for j
    using release_correct(2) [OF bd_okD(2) [OF ok] al, of j] mk(2) [of j] unused
    by (auto simp: i(7) buddy_free_apply_def)
  then have "bd_blocks (buddy_free_apply b' (node_pos i)) = bd_blocks b"
    unfolding set_eq_iff bd_blocks_iff by (simp add: buddy_free_apply_def i(7))
  with i(1-3) find nz ok2 show ?case by (intro exI [of _ "block_addr b i"] exI [of _ b']) (simp only: simp_thms)
next
  case 2
  with assms(2) show ?case by blast
qed

theorem malloc_find_apply_free_witness:
  "\<exists>b b' p. bd_ok b \<and> buddy_malloc_find_pos (Some b) 64 \<noteq> INVALID_POS \<and>
    buddy_malloc (Some b) 64 = (p, Some b') \<and>
    buddy_free_find_pos (Some b') p 64 = buddy_malloc_find_pos (Some b) 64"
proof -
  from ex_fresh obtain b where b: "bd_ok b" "buddy_malloc_find_pos (Some b) 64 \<noteq> INVALID_POS" by blast
  from malloc_find_apply_free [OF this] b show ?thesis by blast
qed

subsection \<open>The allocation tree\<close>

text \<open>In a consistent tree \<open>buddy_tree_find_free\<close> returns an available position of the requested depth
  whenever there is one, and the invalid position otherwise: the search is sound and complete.\<close>

lemma find_free_complete:
  assumes "tree_ok t" "0 < d" "d \<le> bt_order t"
  shows "(buddy_tree_find_free t d = INVALID_POS \<longleftrightarrow> (\<forall>i. block_available t i \<longrightarrow> bit_length i \<noteq> d))
    \<and> (buddy_tree_find_free t d \<noteq> INVALID_POS \<longrightarrow>
      (\<exists>i. buddy_tree_find_free t d = node_pos i \<and> block_available t i \<and> bit_length i = d))"
proof -
  have ne: "node_pos i \<noteq> INVALID_POS" if "block_available t i" for i
    using that by (simp add: node_pos_def INVALID_POS_def block_available_def is_available_def)
  show ?thesis
  proof (cases "\<exists>i. block_available t i \<and> bit_length i = d")
    case True
    with find_free_correct [OF assms] obtain i where
      "buddy_tree_find_free t d = node_pos i" "block_available t i" "bit_length i = d" by auto
    with ne show ?thesis by auto
  next
    case False
    with find_free_correct [OF assms] show ?thesis by auto
  qed
qed

text \<open>\<open>buddy_tree_mark\<close> on an available position keeps the tree consistent, although it stops
  climbing at the first ancestor that does not change, and adds exactly that block to the allocated
  ones.\<close>

lemma mark_allocates:
  assumes "tree_ok t" "block_available t i"
  shows "tree_ok (buddy_tree_mark t (node_pos i)) \<and>
    (\<forall>j. block_allocated (buddy_tree_mark t (node_pos i)) j \<longleftrightarrow> j = i \<or> block_allocated t j)"
  using mark_correct [OF assms] by blast

text \<open>\<open>buddy_tree_release\<close> of an allocated block keeps the tree consistent and removes exactly that
  block; releasing what was just marked restores the status of every node.\<close>

lemma release_frees:
  assumes "tree_ok t"
  shows "(\<forall>i. block_allocated t i \<longrightarrow> tree_ok (buddy_tree_release t (node_pos i)) \<and>
      (\<forall>j. block_allocated (buddy_tree_release t (node_pos i)) j \<longleftrightarrow> j \<noteq> i \<and> block_allocated t j))
    \<and> (\<forall>i. block_available t i \<longrightarrow>
      (\<forall>j. 0 < j \<and> j < 2 ^ bt_order t \<longrightarrow>
        node_status (buddy_tree_release (buddy_tree_mark t (node_pos i)) (node_pos i)) j = node_status t j))"
proof (intro conjI allI impI)
  fix i j :: nat assume i: "block_available t i" and j: "0 < j \<and> j < 2 ^ bt_order t"
  let ?m = "buddy_tree_mark t (node_pos i)"
  note mk = mark_correct [OF assms i]
  have al: "block_allocated ?m i" by (simp add: mk(2))
  note rel = release_correct [OF mk(1) al]
  have "\<not> block_allocated t i"
    using i by (simp add: block_available_def is_available_def block_allocated_def is_alloc_def)
  then have "is_alloc (bt_order t) (node_status (buddy_tree_release ?m (node_pos i))) k =
      is_alloc (bt_order t) (node_status t) k" for k
    using rel(2) [of k] mk(2) [of k] by (auto simp: block_allocated_def)
  moreover have "tree_inv (bt_order t) (node_status (buddy_tree_release ?m (node_pos i)))"
    using rel(1) by (simp add: tree_ok_def)
  moreover have "tree_inv (bt_order t) (node_status t)" using assms by (simp add: tree_ok_def)
  ultimately show "node_status (buddy_tree_release ?m (node_pos i)) j = node_status t j"
    using inv_unique j by blast
qed (use release_correct [OF assms] in blast)+

text \<open>In a consistent tree the sets of leaves of two different allocated blocks are disjoint, and a
  block is available exactly when its leaves meet no allocated block. \<open>buddy_tree_is_free\<close> decides
  just this.\<close>

lemma tree_blocks_disjoint:
  assumes "tree_ok t"
  shows "(\<forall>i j. block_allocated t i \<and> block_allocated t j \<and> i \<noteq> j \<longrightarrow>
      block_leaves (bt_order t) i \<inter> block_leaves (bt_order t) j = {})
    \<and> (\<forall>i \<in> {1..<2 ^ bt_order t}. buddy_tree_is_free t (node_pos i) \<longleftrightarrow>
      (\<forall>j. block_allocated t j \<longrightarrow> block_leaves (bt_order t) j \<inter> block_leaves (bt_order t) i = {}))"
proof (intro conjI allI impI ballI)
  fix i :: nat assume "i \<in> {1..<2 ^ bt_order t}"
  then have i: "0 < i" "i < 2 ^ bt_order t" by auto
  show "buddy_tree_is_free t (node_pos i) \<longleftrightarrow>
      (\<forall>j. block_allocated t j \<longrightarrow> block_leaves (bt_order t) j \<inter> block_leaves (bt_order t) i = {})"
    using is_free_correct [OF assms i] available_iff_disjoint [OF assms i] by simp
qed (use allocated_disjoint [OF assms] in blast)

subsection \<open>Bit arithmetic and layout\<close>

text \<open>For every 64-bit value the table search of \<open>highest_bit_position\<close> returns the position of the
  highest set bit (the length of the binary numeral), and up to \<open>2 ^ 63\<close> \<open>ceiling_power_of_two\<close> is the
  least power of two that is not smaller than its argument.\<close>

lemma highest_bit_and_ceiling:
  "(\<forall>v < 2 ^ 64. highest_bit_position v = (if v = 0 then 0 else Suc (Max {k. bit v k})))
    \<and> (\<forall>v. 0 < v \<and> v \<le> 2 ^ 63 \<longrightarrow>
      (\<exists>k. ceiling_power_of_two v = 2 ^ k \<and> v \<le> 2 ^ k \<and> (\<forall>j. v \<le> 2 ^ j \<longrightarrow> k \<le> j)))"
proof (intro conjI allI impI)
  fix v :: nat assume v: "v < 2 ^ 64"
  show "highest_bit_position v = (if v = 0 then 0 else Suc (Max {k. bit v k}))"
  proof (cases "v = 0")
    case False
    define d where "d = bit_length v - 1"
    have b: "2 ^ d \<le> v" "v < 2 ^ Suc d" "bit_length v = Suc d"
      using bit_length_bounds [of v] bit_length_pos [of v] False by (simp_all add: d_def)
    have "v div 2 ^ d = 1" using b by (subst div_eq_iff_bounds) auto
    then have in_d: "bit v d" by (simp add: bit_iff_odd)
    have le: "k \<le> d" if "bit v k" for k
    proof (rule ccontr)
      assume "\<not> k \<le> d"
      then have "(2::nat) ^ Suc d \<le> 2 ^ k" by (intro power_increasing) auto
      with b(2) have "v div 2 ^ k = 0" by simp
      with that show False by (simp add: bit_iff_odd)
    qed
    have "{k. bit v k} \<subseteq> {..d}" using le by blast
    then have "finite {k. bit v k}" by (rule finite_subset) (rule finite_atMost)
    then have "Max {k. bit v k} = d" by (rule Max_eqI) (use in_d le in blast)+
    with False b(3) highest_bit_position_eq [OF v] show ?thesis by simp
  qed (simp add: highest_bit_position_eq)
next
  fix v :: nat assume v: "0 < v \<and> v \<le> 2 ^ 63"
  then obtain k where k: "ceiling_power_of_two v = 2 ^ k" using ceiling_power_of_two_is_power by blast
  have "k \<le> j" if "v \<le> 2 ^ j" for j
  proof (rule ccontr)
    assume "\<not> k \<le> j"
    then have "(2::nat) ^ Suc j \<le> 2 ^ k" by (intro power_increasing) auto
    with that ceiling_power_of_two_bounds(2) [of v] v k show False by simp
  qed
  with k ceiling_power_of_two_bounds(1) [of v] v
  show "\<exists>k. ceiling_power_of_two v = 2 ^ k \<and> v \<le> 2 ^ k \<and> (\<forall>j. v \<le> 2 ^ j \<longrightarrow> k \<le> j)" by metis
qed

text \<open>C12: In a tree of order below 32 the slots of different nodes are disjoint ranges of bits, and all of
  them lie in front of the memo table of row offsets, which in turn fits in the memory that
  \<open>buddy_tree_sizeof\<close> reports; the memoised position of a node is the computed one.\<close>

theorem slots_and_memo_disjoint:
  assumes "0 < n" "n < 32"
  defines "t \<equiv> fst (buddy_tree_init n)"
  shows "\<forall>i \<in> {1..<2 ^ n}.
    (\<forall>j \<in> {1..<2 ^ n}. i \<noteq> j \<longrightarrow>
      slot_start n i + node_width n i \<le> slot_start n j \<or> slot_start n j + node_width n j \<le> slot_start n i)
    \<and> slot_start n i + node_width n i \<le> 8 * (8 * bt_size_for_order_offset t)
    \<and> sizeof_struct_buddy_tree + 8 * (bt_size_for_order_offset t + n + 1) \<le> buddy_tree_sizeof n
    \<and> buddy_tree_internal_position_tree t (node_pos i) = buddy_tree_internal_position_order n (node_pos i)
    \<and> buddy_tree_internal_position_order n (node_pos i)
        = \<lparr>local_offset = node_width n i, bitset_location = slot_start n i\<rparr>"
proof
  fix i :: nat assume "i \<in> {1..<2 ^ n}"
  then have i: "0 < i" "i < 2 ^ n" by auto
  have wf: "tree_wf t" and ord: "bt_order t = n" using tree_wf_init [OF assms(1,2)] by (simp_all add: t_def)
  then have off: "bt_size_for_order_offset t = memo_word n" by (simp add: tree_wf_def)
  have "slot_start n i + node_width n i \<le> slot_start n j \<or> slot_start n j + node_width n j \<le> slot_start n i"
    if "j \<in> {1..<2 ^ n}" "i \<noteq> j" for j
    using that i slot_disjoint [of i j n] slot_disjoint [of j i n] by (cases "i < j") auto
  then show "(\<forall>j \<in> {1..<2 ^ n}. i \<noteq> j \<longrightarrow>
      slot_start n i + node_width n i \<le> slot_start n j \<or> slot_start n j + node_width n j \<le> slot_start n i)
    \<and> slot_start n i + node_width n i \<le> 8 * (8 * bt_size_for_order_offset t)
    \<and> sizeof_struct_buddy_tree + 8 * (bt_size_for_order_offset t + n + 1) \<le> buddy_tree_sizeof n
    \<and> buddy_tree_internal_position_tree t (node_pos i) = buddy_tree_internal_position_order n (node_pos i)
    \<and> buddy_tree_internal_position_order n (node_pos i)
        = \<lparr>local_offset = node_width n i, bitset_location = slot_start n i\<rparr>"
    using node_slot_fits(1) [OF wf i(1)] i(2) off ord memo_fits_sizeof [of n]
      internal_position_tree_node [OF wf i(1)] internal_position_order_node [OF assms(2) i]
    by (simp add: node_slot_def)
qed

theorem slots_and_memo_disjoint_witness:
  "sizeof_struct_buddy_tree + 8 * (bt_size_for_order_offset (fst (buddy_tree_init 5)) + 5 + 1) \<le> buddy_tree_sizeof 5"
proof -
  have "(1::nat) \<in> {1..<2 ^ 5}" by simp
  with slots_and_memo_disjoint [of 5] show ?thesis by fastforce
qed

subsection \<open>Resizing and flushing\<close>

text \<open>A tree of order 3 with its leftmost leaf allocated.\<close>

definition ex_tree :: buddy_tree where
  "ex_tree = \<lparr>bt_upper_pos_bound = 8, bt_size_for_order_offset = 1, bt_order = 3,
     bt_data = [137, 0, 0, 0, 0, 0, 0, 0, 11, 0, 0, 0, 0, 0, 0, 0, 7, 0, 0, 0, 0, 0, 0, 0,
       3, 0, 0, 0, 0, 0, 0, 0, 0, 0, 0, 0, 0, 0, 0, 0, 0, 0, 0, 0]\<rparr>"

lemma ex_tree_leaf: "buddy_tree_status ex_tree (node_pos 4) = 1"
  by code_simp

lemma ex_tree_can_shrink: "buddy_tree_can_shrink ex_tree"
  by code_simp

lemma ex_tree_shrunk: "buddy_tree_status (buddy_tree_shrink ex_tree 2) (node_pos 2) = 0"
  by code_simp


text \<open>\<open>write_to_internal_position\<close> flushes only the last byte of a slot that spans several bytes:
  filling the twelve-bit slot at bit 4 changes bytes 0 and 1, while the byte range reported for the
  cache flush is (1, 1), because the clearing loop has already moved its start bucket to the end.\<close>

lemma write_flushes_last_byte_only:
  "write_to_internal_position [0, 0, 0] \<lparr>local_offset = 12, bitset_location = 4\<rparr> 12 = ([0xF0, 0xFF, 0], (1, 1))"
  by code_simp

end
