(* ===== verification/Persist_Cas.thy ===== *)
theory Persist_Cas
  imports Prelude
begin

text \<open>
  The persistent compare-and-swap of \<^verbatim>\<open>src/src/common/persist_cas.h\<close>. A shared word is modelled by the
  value the coherent caches hold and the value that has reached the memory device; the second one
  survives the failure of the machine whose cache holds the line. The three build configurations are
  the datatype \<open>granularity\<close>: with \<open>CACHELINE_GRANULAR\<close> a store stays in the cache until the line is
  written back, with \<open>BYTE_GRANULAR\<close> a store is persistent at once, and \<open>DRAM\<close> gives no persistence.
  Each operation is one atomic step.

  The source repeats the five operations for 8, 16, 32, 64 and 128 bits. They are defined once, for
  words of any width whose top bit is the dirty mark, and named for each width below.
\<close>

unbundle bit_operations_syntax

datatype granularity = DRAM | BYTE_GRANULAR | CACHELINE_GRANULAR

record 'a pcell =
  cached :: 'a
  media :: 'a

definition DIRTY :: "'w::len word" where
  "DIRTY = push_bit (LENGTH('w) - 1) 1"

definition CLEAR_DIRTY :: "'w::len word" where
  "CLEAR_DIRTY = NOT DIRTY"

definition load_acquire :: "'w word pcell \<Rightarrow> 'w::len word" where
  "load_acquire c = cached c"

definition store_release :: "granularity \<Rightarrow> 'w word pcell \<Rightarrow> 'w::len word \<Rightarrow> 'w word pcell" where
  "store_release g c v = (if g = BYTE_GRANULAR then \<lparr>cached = v, media = v\<rparr> else c \<lparr>cached := v\<rparr>)"

definition shmem_output_cacheline :: "granularity \<Rightarrow> 'w word pcell \<Rightarrow> 'w::len word pcell" where
  "shmem_output_cacheline g c = (if g = CACHELINE_GRANULAR then c \<lparr>media := cached c\<rparr> else c)"

text \<open>Returns whether the exchange took place, the value left in \<open>*exp\<close> and the new cell.\<close>

definition atomic_cmpxchg ::
  "granularity \<Rightarrow> 'w word pcell \<Rightarrow> 'w::len word \<Rightarrow> 'w word \<Rightarrow> bool \<times> 'w word \<times> 'w word pcell" where
  "atomic_cmpxchg g c exp desire =
     (if cached c = exp then (True, exp, store_release g c desire) else (False, cached c, c))"

definition pcas_read :: "granularity \<Rightarrow> 'w word pcell \<Rightarrow> 'w::len word \<times> 'w word pcell" where
  "pcas_read g c =
     (let val = load_acquire c
      in if g = CACHELINE_GRANULAR then
           let c' = (if val AND DIRTY \<noteq> 0 then
                       let c = shmem_output_cacheline g c
                       in snd (snd (atomic_cmpxchg g c val (val AND CLEAR_DIRTY)))
                     else c)
           in (val AND CLEAR_DIRTY, c')
         else (val, c))"

definition pcas_read_noflush :: "granularity \<Rightarrow> 'w word pcell \<Rightarrow> 'w::len word" where
  "pcas_read_noflush g c =
     (let val = load_acquire c
      in if g = CACHELINE_GRANULAR then val AND CLEAR_DIRTY else val)"

definition persist_atomic_write :: "granularity \<Rightarrow> 'w word pcell \<Rightarrow> 'w::len word \<Rightarrow> 'w word pcell" where
  "persist_atomic_write g c val =
     (if g = CACHELINE_GRANULAR then shmem_output_cacheline g (store_release g c (val OR DIRTY))
      else store_release g c val)"

definition persist_cas ::
  "granularity \<Rightarrow> 'w word pcell \<Rightarrow> 'w::len word \<Rightarrow> 'w word \<Rightarrow> bool \<times> 'w word \<times> 'w word pcell" where
  "persist_cas g c exp desire =
     (if g = CACHELINE_GRANULAR then atomic_cmpxchg g (snd (pcas_read g c)) exp (desire OR DIRTY)
      else atomic_cmpxchg g c exp desire)"

subsection \<open>The operations at each width\<close>

definition pcas_read_uint8 :: "granularity \<Rightarrow> u8 pcell \<Rightarrow> u8 \<times> u8 pcell" where "pcas_read_uint8 = pcas_read"
definition pcas_read_noflush_uint8 :: "granularity \<Rightarrow> u8 pcell \<Rightarrow> u8" where "pcas_read_noflush_uint8 = pcas_read_noflush"
definition persist_atomic_write_uint8 :: "granularity \<Rightarrow> u8 pcell \<Rightarrow> u8 \<Rightarrow> u8 pcell" where
  "persist_atomic_write_uint8 = persist_atomic_write"
definition persist_cas_uint8 :: "granularity \<Rightarrow> u8 pcell \<Rightarrow> u8 \<Rightarrow> u8 \<Rightarrow> bool \<times> u8 \<times> u8 pcell" where
  "persist_cas_uint8 = persist_cas"

definition pcas_read_uint16 :: "granularity \<Rightarrow> u16 pcell \<Rightarrow> u16 \<times> u16 pcell" where "pcas_read_uint16 = pcas_read"
definition pcas_read_noflush_uint16 :: "granularity \<Rightarrow> u16 pcell \<Rightarrow> u16" where "pcas_read_noflush_uint16 = pcas_read_noflush"
definition persist_atomic_write_uint16 :: "granularity \<Rightarrow> u16 pcell \<Rightarrow> u16 \<Rightarrow> u16 pcell" where
  "persist_atomic_write_uint16 = persist_atomic_write"
definition persist_cas_uint16 :: "granularity \<Rightarrow> u16 pcell \<Rightarrow> u16 \<Rightarrow> u16 \<Rightarrow> bool \<times> u16 \<times> u16 pcell" where
  "persist_cas_uint16 = persist_cas"

definition pcas_read_uint32 :: "granularity \<Rightarrow> u32 pcell \<Rightarrow> u32 \<times> u32 pcell" where "pcas_read_uint32 = pcas_read"
definition pcas_read_noflush_uint32 :: "granularity \<Rightarrow> u32 pcell \<Rightarrow> u32" where "pcas_read_noflush_uint32 = pcas_read_noflush"
definition persist_atomic_write_uint32 :: "granularity \<Rightarrow> u32 pcell \<Rightarrow> u32 \<Rightarrow> u32 pcell" where
  "persist_atomic_write_uint32 = persist_atomic_write"
definition persist_cas_uint32 :: "granularity \<Rightarrow> u32 pcell \<Rightarrow> u32 \<Rightarrow> u32 \<Rightarrow> bool \<times> u32 \<times> u32 pcell" where
  "persist_cas_uint32 = persist_cas"

definition pcas_read_uint64 :: "granularity \<Rightarrow> u64 pcell \<Rightarrow> u64 \<times> u64 pcell" where "pcas_read_uint64 = pcas_read"
definition pcas_read_noflush_uint64 :: "granularity \<Rightarrow> u64 pcell \<Rightarrow> u64" where "pcas_read_noflush_uint64 = pcas_read_noflush"
definition persist_atomic_write_uint64 :: "granularity \<Rightarrow> u64 pcell \<Rightarrow> u64 \<Rightarrow> u64 pcell" where
  "persist_atomic_write_uint64 = persist_atomic_write"
definition persist_cas_uint64 :: "granularity \<Rightarrow> u64 pcell \<Rightarrow> u64 \<Rightarrow> u64 \<Rightarrow> bool \<times> u64 \<times> u64 pcell" where
  "persist_cas_uint64 = persist_cas"

definition pcas_read_uint128 :: "granularity \<Rightarrow> 128 word pcell \<Rightarrow> 128 word \<times> 128 word pcell" where "pcas_read_uint128 = pcas_read"
definition pcas_read_noflush_uint128 :: "granularity \<Rightarrow> 128 word pcell \<Rightarrow> 128 word" where
  "pcas_read_noflush_uint128 = pcas_read_noflush"
definition persist_atomic_write_uint128 :: "granularity \<Rightarrow> 128 word pcell \<Rightarrow> 128 word \<Rightarrow> 128 word pcell" where
  "persist_atomic_write_uint128 = persist_atomic_write"
definition persist_cas_uint128 :: "granularity \<Rightarrow> 128 word pcell \<Rightarrow> 128 word \<Rightarrow> 128 word \<Rightarrow> bool \<times> 128 word \<times> 128 word pcell" where
  "persist_cas_uint128 = persist_cas"

subsection \<open>The value of a cell\<close>

text \<open>What a reader sees: the cached value without the dirty mark.\<close>

definition pvalue :: "granularity \<Rightarrow> 'w word pcell \<Rightarrow> 'w::len word" where
  "pvalue g c = pcas_read_noflush g c"

text \<open>What a reader would see after the caches are lost.\<close>

definition pdurable :: "granularity \<Rightarrow> 'w word pcell \<Rightarrow> 'w::len word" where
  "pdurable g c = pvalue g (c \<lparr>cached := media c\<rparr>)"

text \<open>The failure of the machine whose cache holds the line.\<close>

definition lose_cache :: "'w word pcell \<Rightarrow> 'w::len word pcell" where
  "lose_cache c = c \<lparr>cached := media c\<rparr>"

definition plain :: "'w::len word \<Rightarrow> bool" where
  "plain v \<longleftrightarrow> v AND DIRTY = 0"

text \<open>A cell whose cached value carries no dirty mark agrees with the device.\<close>

definition pcell_ok :: "granularity \<Rightarrow> 'w::len word pcell \<Rightarrow> bool" where
  "pcell_ok g c \<longleftrightarrow>
     (case g of
        CACHELINE_GRANULAR \<Rightarrow> plain (cached c) \<longrightarrow> media c AND CLEAR_DIRTY = cached c
      | BYTE_GRANULAR \<Rightarrow> media c = cached c
      | DRAM \<Rightarrow> True)"

lemma bit_DIRTY: "bit (DIRTY :: 'w::len word) n \<longleftrightarrow> n = LENGTH('w) - 1"
proof -
  have "LENGTH('w) - 1 < LENGTH('w)" by simp
  then show ?thesis by (auto simp: DIRTY_def bit_exp_iff)
qed

lemma bit_CLEAR: "bit (CLEAR_DIRTY :: 'w::len word) n \<longleftrightarrow> n < LENGTH('w) - 1"
  by (auto simp: CLEAR_DIRTY_def bit_DIRTY bit_simps)

lemma plain_bit: "plain (v :: 'w::len word) \<longleftrightarrow> \<not> bit v (LENGTH('w) - 1)"
proof -
  have "v AND DIRTY = (if bit v (LENGTH('w) - 1) then DIRTY else 0)"
    by (rule bit_word_eqI) (auto simp: bit_simps bit_DIRTY)
  moreover have "(DIRTY :: 'w word) \<noteq> 0" using bit_DIRTY [of "LENGTH('w) - 1", where ?'w = 'w] by force
  ultimately show ?thesis by (simp add: plain_def)
qed

lemma clear_plain [simp]: "plain v \<Longrightarrow> v AND CLEAR_DIRTY = v"
  unfolding plain_bit by (rule bit_word_eqI) (auto simp: bit_simps bit_CLEAR, metis Suc_pred len_gt_0 less_antisym)

lemma clear_dirty [simp]: "(v OR DIRTY) AND CLEAR_DIRTY = v AND CLEAR_DIRTY"
  by (rule bit_word_eqI) (auto simp: bit_simps bit_CLEAR bit_DIRTY)

lemma clear_clear [simp]: "(v AND CLEAR_DIRTY) AND CLEAR_DIRTY = v AND CLEAR_DIRTY"
  by (simp add: and.assoc)

lemma plain_clear [simp]: "plain (v AND CLEAR_DIRTY)"
  unfolding plain_bit by (simp add: bit_simps bit_CLEAR)

lemma not_plain_dirty [simp]: "\<not> plain (v OR DIRTY)"
  unfolding plain_bit by (simp add: bit_simps bit_DIRTY)

lemma plain_0 [simp]: "plain 0"
  by (simp add: plain_def)

text \<open>A value has room for the mark when its top bit is clear; only such values go through the
  cacheline configuration unchanged.\<close>

definition fits :: "granularity \<Rightarrow> 'w::len word \<Rightarrow> bool" where
  "fits g v \<longleftrightarrow> g = CACHELINE_GRANULAR \<longrightarrow> plain v"

lemmas pcas_defs = load_acquire_def store_release_def shmem_output_cacheline_def atomic_cmpxchg_def pcas_read_def
  pcas_read_noflush_def persist_atomic_write_def persist_cas_def pvalue_def pdurable_def Let_def

lemma pcas_read_value: "fst (pcas_read g c) = pvalue g c" "pvalue g (snd (pcas_read g c)) = pvalue g c"
  by (simp_all add: pcas_defs)

lemma pcas_read_ok: "pcell_ok g c \<Longrightarrow> pcell_ok g (snd (pcas_read g c))"
  by (cases g) (auto simp: pcas_defs pcell_ok_def plain_def [symmetric])

lemma pcas_read_durable:
  assumes "pcell_ok g c" "g \<noteq> DRAM"
  shows "pdurable g (snd (pcas_read g c)) = pvalue g c"
  using assms by (cases g) (auto simp: pcas_defs pcell_ok_def plain_def [symmetric])

lemma persist_write_value: "fits g v \<Longrightarrow> pvalue g (persist_atomic_write g c v) = v"
  by (cases g) (auto simp: pcas_defs fits_def)

lemma persist_write_durable: "fits g v \<Longrightarrow> g \<noteq> DRAM \<Longrightarrow> pdurable g (persist_atomic_write g c v) = v"
  by (cases g) (auto simp: pcas_defs fits_def)

lemma persist_write_ok: "pcell_ok g (persist_atomic_write g c v)"
  by (cases g) (auto simp: pcas_defs pcell_ok_def)

lemma persist_cas_ok: "pcell_ok g c \<Longrightarrow> pcell_ok g (snd (snd (persist_cas g c exp desire)))"
  using pcas_read_ok [of g c]
  by (cases g) (auto simp: persist_cas_def atomic_cmpxchg_def store_release_def pcell_ok_def)

lemma persist_cas_value:
  assumes "fits g exp" "fits g desire"
  shows "fst (persist_cas g c exp desire) \<longleftrightarrow> pvalue g c = exp"
    and "pvalue g (snd (snd (persist_cas g c exp desire))) = (if pvalue g c = exp then desire else pvalue g c)"
proof -
  have "cached (snd (pcas_read g c)) = pvalue g c"
    by (auto simp: pcas_defs plain_def [symmetric])
  then show "fst (persist_cas g c exp desire) \<longleftrightarrow> pvalue g c = exp"
    and "pvalue g (snd (snd (persist_cas g c exp desire))) = (if pvalue g c = exp then desire else pvalue g c)"
    using assms by (auto simp: persist_cas_def atomic_cmpxchg_def store_release_def fits_def pvalue_def
        pcas_read_noflush_def load_acquire_def)
qed

subsection \<open>Properties\<close>

text \<open>C17: A value that \<open>pcas_read\<close> returns is durable: in both persistent configurations the read returns
  the current value, leaves the cell consistent, and the same value is read again after the caches are
  lost.\<close>

theorem pcas_read_survives_crash:
  assumes "pcell_ok g c" "g \<noteq> DRAM"
  shows "fst (pcas_read g c) = pvalue g c \<and> pcell_ok g (snd (pcas_read g c)) \<and>
    pvalue g (lose_cache (snd (pcas_read g c))) = fst (pcas_read g c)"
  using assms pcas_read_value [of g c] pcas_read_ok [of g c] pcas_read_durable [of g c]
  by (simp add: lose_cache_def pdurable_def)

theorem pcas_read_survives_crash_witness:
  "pcell_ok CACHELINE_GRANULAR \<lparr>cached = 5 OR DIRTY, media = 3 :: u64\<rparr> \<and>
   pvalue CACHELINE_GRANULAR (lose_cache (snd (pcas_read CACHELINE_GRANULAR \<lparr>cached = 5 OR DIRTY, media = 3 :: u64\<rparr>))) =
     fst (pcas_read CACHELINE_GRANULAR \<lparr>cached = 5 OR DIRTY, media = 3 :: u64\<rparr>)"
proof -
  have "pcell_ok CACHELINE_GRANULAR \<lparr>cached = 5 OR DIRTY, media = 3 :: u64\<rparr>" by (simp add: pcell_ok_def)
  with pcas_read_survives_crash [OF this] show ?thesis by simp
qed

text \<open>\<open>persist_cas\<close> is a compare-and-swap on the value of the cell: for values that leave room for the
  dirty mark it succeeds exactly when the cell holds the expected value, then stores the new one, and
  otherwise leaves the value as it is; consistency of the cell is kept.\<close>

lemma persist_cas_compares_value:
  assumes "fits g exp" "fits g desire" "pcell_ok g c"
  shows "(fst (persist_cas g c exp desire) \<longleftrightarrow> pvalue g c = exp) \<and>
    pvalue g (snd (snd (persist_cas g c exp desire))) = (if pvalue g c = exp then desire else pvalue g c) \<and>
    pcell_ok g (snd (snd (persist_cas g c exp desire)))"
  using persist_cas_value [OF assms(1,2)] persist_cas_ok [OF assms(3)] by simp

text \<open>A successful \<open>persist_cas\<close> is not durable by itself in the cacheline configuration: nothing writes
  the line back, so losing the cache right after the exchange brings the old value back, while a
  \<open>persist_atomic_write\<close> of the same value survives.\<close>

lemma persist_cas_not_flushed:
  "fst (persist_cas CACHELINE_GRANULAR \<lparr>cached = 0, media = 0 :: u64\<rparr> 0 7) \<and>
   pvalue CACHELINE_GRANULAR (lose_cache (snd (snd (persist_cas CACHELINE_GRANULAR \<lparr>cached = 0, media = 0 :: u64\<rparr> 0 7)))) = 0 \<and>
   pvalue CACHELINE_GRANULAR (lose_cache (persist_atomic_write CACHELINE_GRANULAR \<lparr>cached = 0, media = 0 :: u64\<rparr> 7)) = 7"
  by (simp add: pcas_defs lose_cache_def) (simp add: CLEAR_DIRTY_def DIRTY_def)

end
