(* ===== verification/Lock_Spec.thy ===== *)
theory Lock_Spec
  imports Main
begin

text \<open>
  What a mutual-exclusion lock promises, over any step relation. A provider gives the transition
  system of its clients (initial states, steps), when a process is in its critical section, and which
  process the lock word names as the owner; it shows that only the owner can be inside and that this
  is kept by every step. Mutual exclusion in every reachable state follows.
\<close>

inductive reach :: "('s \<Rightarrow> bool) \<Rightarrow> ('s \<Rightarrow> 's \<Rightarrow> bool) \<Rightarrow> 's \<Rightarrow> bool" for init step where
  start: "init s \<Longrightarrow> reach init step s"
| step: "reach init step s \<Longrightarrow> step s t \<Longrightarrow> reach init step t"

text \<open>An invariant of a transition system holds in every reachable state.\<close>

locale transition_invariant =
  fixes init :: "'s \<Rightarrow> bool"
    and step :: "'s \<Rightarrow> 's \<Rightarrow> bool"
    and inv :: "'s \<Rightarrow> bool"
  assumes init_inv: "init s \<Longrightarrow> inv s"
    and step_inv: "inv s \<Longrightarrow> step s t \<Longrightarrow> inv t"
begin

lemma reach_inv: "reach init step s \<Longrightarrow> inv s"
  by (induction rule: reach.induct) (auto intro: init_inv step_inv)

end

locale owned_lock = transition_invariant init step inv
  for init :: "'s \<Rightarrow> bool" and step :: "'s \<Rightarrow> 's \<Rightarrow> bool" and inv :: "'s \<Rightarrow> bool" +
  fixes crit :: "'s \<Rightarrow> 'p \<Rightarrow> bool"
    and holds :: "'s \<Rightarrow> 'p \<Rightarrow> bool"
  assumes crit_holds: "inv s \<Longrightarrow> crit s p \<Longrightarrow> holds s p"
    and holds_unique: "holds s p \<Longrightarrow> holds s q \<Longrightarrow> p = q"
begin

lemma mutual_exclusion: "reach init step s \<Longrightarrow> crit s p \<Longrightarrow> crit s q \<Longrightarrow> p = q"
  using reach_inv crit_holds holds_unique by blast

end

end
