(* ===== verification/TTAS_Lock.thy ===== *)
theory TTAS_Lock
  imports Persist_Cas Lock_Spec
begin

text \<open>
  The test-and-test-and-set lock of \<^verbatim>\<open>src/src/common/tatas\<close> with owner and generation, the packing of
  its word (\<^verbatim>\<open>jj_ab_cs_status.h\<close>) and the process numbers of \<^verbatim>\<open>src/driver/src/process_id.h\<close>. The lock
  is one persistent word: \<open>0\<close> when free, otherwise bit 62 with the owner in the rest.

  An operation that spins does not return by itself: it takes the list of changes that other
  processes make to the word between its steps, and the result is \<open>Blocked\<close> when that list is used up.
  \<open>Bug\<close> is a failed \<^verbatim>\<open>BUG_ON\<close>. Disabling preemption and interrupts, lock annotations and \<^verbatim>\<open>mmiowb\<close> do
  not touch the word; the \<open>_irq\<close> and \<open>_bh\<close> variants are therefore the same operations.
\<close>

unbundle bit_operations_syntax

subsection \<open>The lock word\<close>

record cs_status =
  cs_b :: u64
  cs_s :: u64

definition CSST_B_SHIFT :: nat where "CSST_B_SHIFT = 62"
definition CSST_B_MASK :: u64 where "CSST_B_MASK = push_bit CSST_B_SHIFT 1"
definition CSST_S_MASK :: u64 where "CSST_S_MASK = push_bit CSST_B_SHIFT 1 - 1"

definition compose_cs_status :: "bool \<Rightarrow> u64 \<Rightarrow> u64" where
  "compose_cs_status b s = (if b then CSST_B_MASK OR s else CSST_S_MASK AND s)"

definition decompose_cs_status :: "u64 \<Rightarrow> cs_status" where
  "decompose_cs_status w = \<lparr>cs_b = w AND CSST_B_MASK, cs_s = w AND CSST_S_MASK\<rparr>"

definition read_cs_status :: "granularity \<Rightarrow> u64 pcell \<Rightarrow> u64 \<times> u64 pcell" where
  "read_cs_status g c = pcas_read_uint64 g c"

definition write_cs_status :: "granularity \<Rightarrow> u64 pcell \<Rightarrow> u64 \<Rightarrow> u64 pcell" where
  "write_cs_status g c v = persist_atomic_write_uint64 g c v"

definition atomic_cmpxchg_cs_status :: "granularity \<Rightarrow> u64 pcell \<Rightarrow> u64 \<Rightarrow> u64 \<Rightarrow> bool \<times> u64 \<times> u64 pcell" where
  "atomic_cmpxchg_cs_status g c exp desire = persist_cas_uint64 g c exp desire"

definition read_decompose_cs_status :: "granularity \<Rightarrow> u64 pcell \<Rightarrow> cs_status \<times> u64 pcell" where
  "read_decompose_cs_status g c = (case read_cs_status g c of (w, c) \<Rightarrow> (decompose_cs_status w, c))"

definition UNLOCKED :: u64 where "UNLOCKED = 0"
definition OWNER_GEN_MASK :: u64 where "OWNER_GEN_MASK = 0xffffffff"
definition OWNER_ID_MASK :: u64 where "OWNER_ID_MASK = push_bit 32 0xffff"

definition GET_OWNER_GEN :: "u64 \<Rightarrow> u64" where "GET_OWNER_GEN x = x AND OWNER_GEN_MASK"
definition GET_OWNER_ID :: "u64 \<Rightarrow> u64" where "GET_OWNER_ID x = drop_bit 32 (x AND OWNER_ID_MASK)"

definition compose_owner_gen :: "u16 \<Rightarrow> u32 \<Rightarrow> u64" where
  "compose_owner_gen proc_id gen = push_bit 32 (ucast proc_id) OR ucast gen"

definition lock_val_gen :: "u16 \<Rightarrow> u32 \<Rightarrow> u64" where
  "lock_val_gen proc_id gen = compose_cs_status True (compose_owner_gen proc_id gen)"

definition lock_val :: "u16 \<Rightarrow> u64" where
  "lock_val proc_id = compose_cs_status True (ucast proc_id)"

subsection \<open>Entering and leaving\<close>

datatype 'a outcome = Bug | Blocked | Done 'a

primrec bind_outcome :: "'a outcome \<Rightarrow> ('a \<Rightarrow> 'b outcome) \<Rightarrow> 'b outcome" where
  "bind_outcome Bug f = Bug"
| "bind_outcome Blocked f = Blocked"
| "bind_outcome (Done x) f = f x"

lemma bind_outcome_Done:
  assumes "bind_outcome r f = Done y"
  obtains x where "r = Done x" "f x = Done y"
  using assms that by (cases r) simp_all

type_synonym env = "(u64 pcell \<Rightarrow> u64 pcell) list"

text \<open>The loops shared by \<open>ttas_enter\<close> and \<open>ttas_enter_with_gen\<close>: spin while the word is taken, then try
  to exchange it.\<close>

fun ttas_enter_loop ::
  "granularity \<Rightarrow> u64 \<Rightarrow> (u32 \<Rightarrow> bool) \<Rightarrow> u32 \<Rightarrow> env \<Rightarrow> u64 pcell \<Rightarrow> (bool \<times> u64 pcell) outcome" where
  "ttas_enter_loop g lock_v abort_signal counter [] c = Blocked"
| "ttas_enter_loop g lock_v abort_signal counter (e # es) c =
     (let (v, c) = pcas_read_uint64 g (e c)
      in if v \<noteq> UNLOCKED then
           if abort_signal counter then Done (False, c)
           else ttas_enter_loop g lock_v abort_signal (counter + 1) es c
         else
           case es of
             [] \<Rightarrow> Blocked
           | e' # es' \<Rightarrow>
               let (ok, ex, c) = persist_cas_uint64 g (e' c) UNLOCKED lock_v
               in if ok then Done (True, c) else ttas_enter_loop g lock_v abort_signal counter es' c)"

definition ttas_enter_with_gen ::
  "granularity \<Rightarrow> u16 \<Rightarrow> u32 \<Rightarrow> (u32 \<Rightarrow> bool) \<Rightarrow> env \<Rightarrow> u64 pcell \<Rightarrow> (bool \<times> u64 pcell) outcome" where
  "ttas_enter_with_gen g proc_id gen abort_signal es c =
     ttas_enter_loop g (lock_val_gen proc_id gen) abort_signal 0 es c"

definition ttas_enter ::
  "granularity \<Rightarrow> u16 \<Rightarrow> (u32 \<Rightarrow> bool) \<Rightarrow> env \<Rightarrow> u64 pcell \<Rightarrow> (bool \<times> u64 pcell) outcome" where
  "ttas_enter g proc_id abort_signal es c = ttas_enter_loop g (lock_val proc_id) abort_signal 0 es c"

definition ttas_exit :: "granularity \<Rightarrow> u16 \<Rightarrow> u64 pcell \<Rightarrow> u64 pcell" where
  "ttas_exit g proc_id c = persist_atomic_write_uint64 g c UNLOCKED"

definition ttas_try_enter :: "granularity \<Rightarrow> u16 \<Rightarrow> u64 pcell \<Rightarrow> bool \<times> u64 pcell" where
  "ttas_try_enter g proc_id c =
     (case persist_cas_uint64 g c UNLOCKED (lock_val proc_id) of (ok, ex, c) \<Rightarrow> (ok, c))"

definition ttas_try_enter_with_gen :: "granularity \<Rightarrow> u16 \<Rightarrow> u32 \<Rightarrow> u64 pcell \<Rightarrow> bool \<times> u64 pcell" where
  "ttas_try_enter_with_gen g proc_id gen c =
     (case persist_cas_uint64 g c UNLOCKED (lock_val_gen proc_id gen) of (ok, ex, c) \<Rightarrow> (ok, c))"

definition ttas_recover :: "granularity \<Rightarrow> u16 \<Rightarrow> u64 pcell \<Rightarrow> bool \<times> u64 pcell" where
  "ttas_recover g proc_id c = (case pcas_read_uint64 g c of (v, c) \<Rightarrow> (v = lock_val proc_id, c))"

definition ttas_recover_with_gen :: "granularity \<Rightarrow> u16 \<Rightarrow> u32 \<Rightarrow> u64 pcell \<Rightarrow> bool \<times> u64 pcell" where
  "ttas_recover_with_gen g proc_id gen c = (case pcas_read_uint64 g c of (v, c) \<Rightarrow> (v = lock_val_gen proc_id gen, c))"

definition ttas_free_if_locked :: "granularity \<Rightarrow> u16 \<Rightarrow> u64 pcell \<Rightarrow> u64 pcell" where
  "ttas_free_if_locked g proc_id c =
     (case ttas_recover g proc_id c of (locked, c) \<Rightarrow> if locked then ttas_exit g proc_id c else c)"

definition ttas_free_wth_gen_if_locked :: "granularity \<Rightarrow> u16 \<Rightarrow> u32 \<Rightarrow> u64 pcell \<Rightarrow> u64 pcell" where
  "ttas_free_wth_gen_if_locked g proc_id gen c =
     (case ttas_recover_with_gen g proc_id gen c of (locked, c) \<Rightarrow> if locked then ttas_exit g proc_id c else c)"

datatype transfer_st = UNLOCK | TRANSFERED | FAILED

definition ttas_lock_transfer :: "granularity \<Rightarrow> u16 \<Rightarrow> u16 \<Rightarrow> u64 pcell \<Rightarrow> transfer_st \<times> u64 pcell" where
  "ttas_lock_transfer g exp_id change_id c =
     (let (lock_st, c) = pcas_read_uint64 g c
      in if lock_st = UNLOCKED then (UNLOCK, c)
         else if cs_s (decompose_cs_status lock_st) \<noteq> ucast exp_id then (FAILED, c)
         else
           let (ret, ex, c) = persist_cas_uint64 g c lock_st (lock_val change_id)
           in (if ret then TRANSFERED else FAILED, c))"

definition ttas_init :: "granularity \<Rightarrow> u64 pcell \<Rightarrow> u64 pcell" where
  "ttas_init g c = persist_atomic_write_uint64 g c UNLOCKED"

subsection \<open>The lock as user programs and the kernel take it\<close>

definition spin_no_abort :: "u32 \<Rightarrow> bool" where
  "spin_no_abort counter = False"

definition ttas_lock :: "granularity \<Rightarrow> u16 \<Rightarrow> env \<Rightarrow> u64 pcell \<Rightarrow> u64 pcell outcome" where
  "ttas_lock g proc_id es c =
     (case ttas_recover g proc_id c of (mine, c) \<Rightarrow>
        if mine then Done c
        else case ttas_enter g proc_id spin_no_abort es c of
               Bug \<Rightarrow> Bug
             | Blocked \<Rightarrow> Blocked
             | Done (ret, c) \<Rightarrow> if \<not> ret then Bug else Done c)"

definition ttas_unlock :: "granularity \<Rightarrow> u16 \<Rightarrow> u64 pcell \<Rightarrow> u64 pcell" where
  "ttas_unlock g proc_id c = ttas_exit g proc_id c"

definition ttas_trylock :: "granularity \<Rightarrow> u16 \<Rightarrow> u64 pcell \<Rightarrow> bool \<times> u64 pcell" where
  "ttas_trylock g proc_id c =
     (case ttas_recover g proc_id c of (mine, c) \<Rightarrow> if mine then (True, c) else ttas_try_enter g proc_id c)"

text \<open>The number of CPUs of a machine and the CPU the code runs on come from the kernel.\<close>

record cpu =
  nr_cpu_ids :: u32
  cpu_id :: u32

definition get_process_identifier :: "cpu \<Rightarrow> u16 \<Rightarrow> u16 option" where
  "get_process_identifier k machine_id =
     (let cpu_global_id = nr_cpu_ids k * (ucast machine_id - 1) + cpu_id k
      in if 0xffff < cpu_global_id then None else Some (ucast cpu_global_id))"

definition kernel_process :: "cpu \<Rightarrow> u16 \<Rightarrow> u16 option" where
  "kernel_process k machine_id = (if machine_id < 1 then None else get_process_identifier k machine_id)"

definition ttas_lock_kern :: "granularity \<Rightarrow> cpu \<Rightarrow> u16 \<Rightarrow> env \<Rightarrow> u64 pcell \<Rightarrow> u64 pcell outcome" where
  "ttas_lock_kern g k machine_id es c =
     (case kernel_process k machine_id of None \<Rightarrow> Bug | Some process_id \<Rightarrow> ttas_lock g process_id es c)"

definition ttas_lock_with_gen_kern ::
  "granularity \<Rightarrow> cpu \<Rightarrow> u16 \<Rightarrow> u32 \<Rightarrow> env \<Rightarrow> u64 pcell \<Rightarrow> u64 pcell outcome" where
  "ttas_lock_with_gen_kern g k machine_id gen_id es c =
     (case kernel_process k machine_id of
        None \<Rightarrow> Bug
      | Some process_id \<Rightarrow>
          (case ttas_recover_with_gen g process_id gen_id c of (mine, c) \<Rightarrow>
             if mine then Done c
             else case ttas_enter_with_gen g process_id gen_id spin_no_abort es c of
                    Bug \<Rightarrow> Bug
                  | Blocked \<Rightarrow> Blocked
                  | Done (ret, c) \<Rightarrow> if \<not> ret then Bug else Done c))"

definition ttas_trylock_with_gen_kern ::
  "granularity \<Rightarrow> cpu \<Rightarrow> u16 \<Rightarrow> u32 \<Rightarrow> u64 pcell \<Rightarrow> (bool \<times> u64 pcell) outcome" where
  "ttas_trylock_with_gen_kern g k machine_id gen_id c =
     (case kernel_process k machine_id of
        None \<Rightarrow> Bug
      | Some process_id \<Rightarrow>
          (case ttas_recover_with_gen g process_id gen_id c of (mine, c) \<Rightarrow>
             if mine then Done (True, c) else Done (ttas_try_enter_with_gen g process_id gen_id c)))"

definition ttas_unlock_kern :: "granularity \<Rightarrow> cpu \<Rightarrow> u16 \<Rightarrow> u64 pcell \<Rightarrow> u64 pcell outcome" where
  "ttas_unlock_kern g k machine_id c =
     (case kernel_process k machine_id of None \<Rightarrow> Bug | Some process_id \<Rightarrow> Done (ttas_exit g process_id c))"

text \<open>Taking over the lock of a failed machine. The division by \<open>nr_cpu_ids\<close> recovers the machine number
  from the process number on the lock; the comparison is made in 16 bits.\<close>

definition ttas_lock_recover_kern ::
  "granularity \<Rightarrow> cpu \<Rightarrow> u16 \<Rightarrow> u16 \<Rightarrow> u32 \<Rightarrow> u64 pcell \<Rightarrow> (transfer_st \<times> u64 pcell) outcome" where
  "ttas_lock_recover_kern g k old_machine_id new_machine_id newm_gen_id c =
     (case kernel_process k new_machine_id of
        None \<Rightarrow> Bug
      | Some newm_process_id \<Rightarrow>
          let new_lock_val = lock_val_gen newm_process_id newm_gen_id;
              (lock_state, c) = pcas_read_uint64 g c;
              old_process_id = (ucast (GET_OWNER_ID (cs_s (decompose_cs_status lock_state))) :: u16);
              old_machine_id_on_lock = (ucast (ucast old_process_id div nr_cpu_ids k + 1) :: u16)
          in if old_process_id = newm_process_id \<or> lock_state = UNLOCKED \<or> old_machine_id_on_lock = old_machine_id then
               let (ret, ex, c) = persist_cas_uint64 g c lock_state new_lock_val
               in Done (if ret then TRANSFERED else FAILED, c)
             else Done (FAILED, c))"

definition do_ttas_unlock :: "granularity \<Rightarrow> cpu \<Rightarrow> u16 \<Rightarrow> u64 pcell \<Rightarrow> u64 pcell outcome" where
  "do_ttas_unlock g k machine_id c = ttas_unlock_kern g k machine_id c"

definition do_ttas_lock_recover ::
  "granularity \<Rightarrow> cpu \<Rightarrow> u16 \<Rightarrow> u16 \<Rightarrow> u32 \<Rightarrow> u64 pcell \<Rightarrow> (transfer_st \<times> u64 pcell) outcome" where
  "do_ttas_lock_recover g k old_machine_id new_machine_id newm_gen_id c =
     ttas_lock_recover_kern g k old_machine_id new_machine_id newm_gen_id c"

definition done_ttas_lock_recover ::
  "granularity \<Rightarrow> cpu \<Rightarrow> u16 \<Rightarrow> transfer_st \<Rightarrow> u64 pcell \<Rightarrow> u64 pcell outcome" where
  "done_ttas_lock_recover g k machine_id st c = (if st = TRANSFERED then do_ttas_unlock g k machine_id c else Done c)"

subsection \<open>Packing and unpacking\<close>

lemma bit_B_MASK: "bit CSST_B_MASK n \<longleftrightarrow> n = 62"
  unfolding CSST_B_MASK_def CSST_B_SHIFT_def by (simp only: bit_push_bit_iff bit_1_iff) auto

lemma bit_S_MASK: "bit CSST_S_MASK n \<longleftrightarrow> n < 62"
proof -
  have S: "CSST_S_MASK = mask 62" by (simp add: CSST_S_MASK_def CSST_B_SHIFT_def mask_eq_exp_minus_1)
  show ?thesis unfolding S by (simp only: bit_mask_iff) auto
qed

lemma bit_OWNER_MASK: "bit OWNER_ID_MASK n \<longleftrightarrow> 32 \<le> n \<and> n < 48" "bit OWNER_GEN_MASK n \<longleftrightarrow> n < 32"
proof -
  have I: "OWNER_ID_MASK = push_bit 32 (mask 16)" and G: "OWNER_GEN_MASK = mask 32"
    by (simp_all add: OWNER_ID_MASK_def OWNER_GEN_MASK_def mask_eq_exp_minus_1)
  show "bit OWNER_ID_MASK n \<longleftrightarrow> 32 \<le> n \<and> n < 48" unfolding I by (simp only: bit_push_bit_iff bit_mask_iff) auto
  show "bit OWNER_GEN_MASK n \<longleftrightarrow> n < 32" unfolding G by (simp only: bit_mask_iff) auto
qed

lemma bit_lock_val_gen: "bit (lock_val_gen p gen) n \<longleftrightarrow> n = 62 \<or> 32 \<le> n \<and> bit p (n - 32) \<or> bit gen n"
proof -
  have "bit p k \<Longrightarrow> k < 16" for k using bit_imp_le_length [of p k] by simp
  moreover have "bit gen k \<Longrightarrow> k < 32" for k using bit_imp_le_length [of gen k] by simp
  ultimately show ?thesis
    by (force simp: lock_val_gen_def compose_cs_status_def compose_owner_gen_def bit_simps bit_B_MASK)
qed

lemma lock_val_gen_nonzero [simp]: "lock_val_gen p gen \<noteq> UNLOCKED"
  using bit_lock_val_gen [of p gen 62] by (auto simp: UNLOCKED_def)

lemmas unlocked_not_lock_val [simp] = lock_val_gen_nonzero [symmetric]

lemma lock_val_gen_fits [simp]: "fits g (lock_val_gen p gen)" "fits g UNLOCKED"
proof -
  have "\<not> bit p 31" using bit_imp_le_length [of p 31] by auto
  moreover have "\<not> bit gen 63" using bit_imp_le_length [of gen 63] by auto
  ultimately show "fits g (lock_val_gen p gen)" by (simp add: fits_def plain_bit bit_lock_val_gen)
  show "fits g UNLOCKED" by (simp add: fits_def UNLOCKED_def)
qed

text \<open>Owner and generation are read back from the word.\<close>

lemma lock_val_gen_owner [codec_simps]:
  "ucast (GET_OWNER_ID (cs_s (decompose_cs_status (lock_val_gen p gen)))) = p"
  "ucast (GET_OWNER_GEN (cs_s (decompose_cs_status (lock_val_gen p gen)))) = gen"
proof -
  have p: "bit p k \<Longrightarrow> k < 16" for k using bit_imp_le_length [of p k] by simp
  have gen: "bit gen k \<Longrightarrow> k < 32" for k using bit_imp_le_length [of gen k] by simp
  show "ucast (GET_OWNER_ID (cs_s (decompose_cs_status (lock_val_gen p gen)))) = p"
    by (rule bit_word_eqI)
      (auto simp: GET_OWNER_ID_def decompose_cs_status_def bit_simps bit_S_MASK bit_OWNER_MASK bit_lock_val_gen dest: p gen)
  show "ucast (GET_OWNER_GEN (cs_s (decompose_cs_status (lock_val_gen p gen)))) = gen"
    by (rule bit_word_eqI)
      (auto simp: GET_OWNER_GEN_def decompose_cs_status_def bit_simps bit_S_MASK bit_OWNER_MASK bit_lock_val_gen dest: p gen)
qed

lemma lock_val_gen_inject: "lock_val_gen p gen = lock_val_gen q gen' \<longleftrightarrow> p = q \<and> gen = gen'"
  by (metis lock_val_gen_owner)

lemma UNLOCKED_owner: "GET_OWNER_ID (cs_s (decompose_cs_status UNLOCKED)) = 0"
  by (simp add: GET_OWNER_ID_def decompose_cs_status_def UNLOCKED_def)

subsection \<open>Effects on the value of the word\<close>

lemma pcas64_read: "fst (pcas_read_uint64 g c) = pvalue g c" "pvalue g (snd (pcas_read_uint64 g c)) = pvalue g c"
  "pcas_read_uint64 g c = (v, c') \<Longrightarrow> v = pvalue g c \<and> pvalue g c' = pvalue g c"
  using pcas_read_value [of g c] by (auto simp: pcas_read_uint64_def)

lemma pcas64_cas:
  assumes "persist_cas_uint64 g c e d = (ok, ex, c')" "fits g e" "fits g d"
  shows "ok \<longleftrightarrow> pvalue g c = e" "pvalue g c' = (if pvalue g c = e then d else pvalue g c)"
  using persist_cas_value [OF assms(2,3), of c] assms(1) by (auto simp: persist_cas_uint64_def)

lemma exit_value [simp]: "pvalue g (ttas_exit g p c) = UNLOCKED"
  by (simp add: ttas_exit_def persist_atomic_write_uint64_def persist_write_value)

text \<open>When \<open>ttas_enter_loop\<close> returns true, the word was free just before and names the caller now.\<close>

lemma enter_loop_value:
  assumes "fits g lv"
  shows "ttas_enter_loop g lv ab n es c = Done (True, c') \<Longrightarrow> pvalue g c' = lv"
  using assms
proof (induction g lv ab n es c rule: ttas_enter_loop.induct)
  case (2 g lv ab n e es c)
  obtain v c1 where r: "pcas_read_uint64 g (e c) = (v, c1)" by (cases "pcas_read_uint64 g (e c)")
  show ?case
  proof (cases "v = UNLOCKED")
    case True
    with 2(3) r obtain e' es' where es: "es = e' # es'" by (auto split: list.splits)
    obtain ok ex c2 where k: "persist_cas_uint64 g (e' c1) UNLOCKED lv = (ok, ex, c2)"
      by (cases "persist_cas_uint64 g (e' c1) UNLOCKED lv") auto
    show ?thesis
    proof (cases ok)
      case ok: True
      with 2(3) r True es k have "c' = c2" by simp
      with ok pcas64_cas [OF k lock_val_gen_fits(2) 2(4)] show ?thesis by simp
    next
      case False
      with 2(2) [OF refl r [symmetric] _ es refl k [symmetric] refl] 2(3,4) r True es k show ?thesis by simp
    qed
  next
    case False
    with 2(1) [OF refl r [symmetric]] 2(3,4) r show ?thesis by (auto split: if_splits)
  qed
qed simp

text \<open>If the word is free at a read and at the exchange that follows, the loop enters.\<close>

lemma enter_loop_enters:
  assumes "fits g lv" "pvalue g (e c) = UNLOCKED" "\<And>c. pvalue g (e' c) = pvalue g c"
  shows "\<exists>c'. ttas_enter_loop g lv ab n (e # e' # es) c = Done (True, c')"
proof -
  obtain v c1 where r: "pcas_read_uint64 g (e c) = (v, c1)" by (cases "pcas_read_uint64 g (e c)")
  obtain ok ex c2 where k: "persist_cas_uint64 g (e' c1) UNLOCKED lv = (ok, ex, c2)"
    by (cases "persist_cas_uint64 g (e' c1) UNLOCKED lv") auto
  from pcas64_read(3) [OF r] assms(2) have "v = UNLOCKED" "pvalue g c1 = UNLOCKED" by auto
  moreover from this pcas64_cas(1) [OF k lock_val_gen_fits(2) assms(1)] assms(3) have ok by simp
  ultimately show ?thesis using r k by simp
qed

text \<open>A lock taken without a generation; \<open>quiet_env\<close> environments leave the value of the word alone.\<close>

lemma lock_val_gen_0: "lock_val p = lock_val_gen 0 (ucast p)"
proof -
  have "ucast p = (ucast (ucast p :: u32) :: u64)"
    by (rule bit_word_eqI) (auto simp: bit_simps dest: bit_imp_le_length)
  then show ?thesis by (simp add: lock_val_def lock_val_gen_def compose_owner_gen_def)
qed

definition quiet_env :: "granularity \<Rightarrow> env \<Rightarrow> bool" where
  "quiet_env g es \<longleftrightarrow> 2 \<le> length es \<and> (\<forall>e\<in>set es. \<forall>c. pvalue g (e c) = pvalue g c)"

lemma quiet_env_calm [simp]: "quiet_env g [\<lambda>c. c, \<lambda>c. c]"
  by (simp add: quiet_env_def)

lemma enter_quiet:
  assumes "pvalue g c = UNLOCKED" "quiet_env g es" "fits g lv"
  obtains c' where "ttas_enter_loop g lv ab 0 es c = Done (True, c')" "pvalue g c' = lv"
proof -
  from assms(2) obtain e e' es' where es: "es = e # e' # es'"
    by (auto simp: quiet_env_def numeral_2_eq_2 Suc_le_length_iff)
  have "\<exists>c'. ttas_enter_loop g lv ab 0 es c = Done (True, c')"
    unfolding es by (rule enter_loop_enters) (use assms es in \<open>auto simp: quiet_env_def\<close>)
  with enter_loop_value [OF assms(3)] that show ?thesis by blast
qed

lemma ttas_lock_free:
  assumes "pvalue g c = UNLOCKED" "quiet_env g es"
  obtains c' where "ttas_lock g p es c = Done c'" "pvalue g c' = lock_val p"
proof -
  obtain v c1 where r: "pcas_read_uint64 g c = (v, c1)" by (cases "pcas_read_uint64 g c")
  with assms have v: "v = UNLOCKED" "pvalue g c1 = UNLOCKED" by (auto dest: pcas64_read(3))
  obtain c2 where "ttas_enter_loop g (lock_val p) spin_no_abort 0 es c1 = Done (True, c2)" "pvalue g c2 = lock_val p"
    using enter_quiet [OF v(2) assms(2), of "lock_val p" spin_no_abort] by (auto simp: lock_val_gen_0)
  with r v that show ?thesis by (simp add: ttas_lock_def ttas_recover_def ttas_enter_def lock_val_gen_0)
qed

lemma ttas_lock_with_gen_free:
  assumes "pvalue g c = UNLOCKED" "quiet_env g es" "kernel_process k m = Some p"
  obtains c' where "ttas_lock_with_gen_kern g k m gen es c = Done c'" "pvalue g c' = lock_val_gen p gen"
proof -
  obtain v c1 where r: "pcas_read_uint64 g c = (v, c1)" by (cases "pcas_read_uint64 g c")
  with assms have v: "v = UNLOCKED" "pvalue g c1 = UNLOCKED" by (auto dest: pcas64_read(3))
  obtain c2 where "ttas_enter_loop g (lock_val_gen p gen) spin_no_abort 0 es c1 = Done (True, c2)"
    "pvalue g c2 = lock_val_gen p gen"
    using enter_quiet [OF v(2) assms(2), of "lock_val_gen p gen" spin_no_abort] by auto
  with r v assms(3) that show ?thesis
    by (simp add: ttas_lock_with_gen_kern_def ttas_recover_with_gen_def ttas_enter_with_gen_def)
qed

lemma ttas_lock_mine:
  assumes "pvalue g c = lock_val p"
  obtains c' where "ttas_lock g p es c = Done c'" "pvalue g c' = lock_val p"
proof -
  obtain v c1 where r: "pcas_read_uint64 g c = (v, c1)" by (cases "pcas_read_uint64 g c")
  with pcas64_read(3) [OF r] assms that show ?thesis by (simp add: ttas_lock_def ttas_recover_def)
qed

subsection \<open>Processes competing for the lock\<close>

text \<open>Every process is outside, in one of the two loops of \<open>ttas_enter_with_gen\<close>, inside its critical
  section, or down after the failure of its machine. A restart gives it a new generation. A takeover
  is a call of \<open>ttas_lock_recover_kern\<close> for a machine none of whose processes is running inside.\<close>

datatype ttas_pc = Outside | Spinning | Swapping | Inside | Down

record ttas_sys =
  sys_word :: "u64 pcell"
  sys_pc :: "u16 \<Rightarrow> ttas_pc"
  sys_gen :: "u16 \<Rightarrow> u32"

definition machine_on_lock :: "u32 \<Rightarrow> u16 \<Rightarrow> u16" where
  "machine_on_lock ncpus p = ucast (ucast p div ncpus + 1)"

definition ttas_goto :: "ttas_sys \<Rightarrow> u16 \<Rightarrow> ttas_pc \<Rightarrow> u64 pcell \<Rightarrow> ttas_sys" where
  "ttas_goto s p pc w = s \<lparr>sys_word := w, sys_pc := (sys_pc s)(p := pc)\<rparr>"

inductive ttas_step :: "granularity \<Rightarrow> u32 \<Rightarrow> ttas_sys \<Rightarrow> ttas_sys \<Rightarrow> bool" for g ncpus where
  call: "sys_pc s p = Outside \<Longrightarrow> ttas_recover_with_gen g p (sys_gen s p) (sys_word s) = (mine, w) \<Longrightarrow>
    ttas_step g ncpus s (ttas_goto s p (if mine then Inside else Spinning) w)"
| spin: "sys_pc s p = Spinning \<Longrightarrow> pcas_read_uint64 g (sys_word s) = (v, w) \<Longrightarrow>
    ttas_step g ncpus s (ttas_goto s p (if v = UNLOCKED then Swapping else Spinning) w)"
| swap: "sys_pc s p = Swapping \<Longrightarrow>
    persist_cas_uint64 g (sys_word s) UNLOCKED (lock_val_gen p (sys_gen s p)) = (ok, ex, w) \<Longrightarrow>
    ttas_step g ncpus s (ttas_goto s p (if ok then Inside else Spinning) w)"
| leave: "sys_pc s p = Inside \<Longrightarrow> ttas_step g ncpus s (ttas_goto s p Outside (ttas_exit g p (sys_word s)))"
| crash: "ttas_step g ncpus s (ttas_goto s p Down (sys_word s))"
| restart: "sys_pc s p = Down \<Longrightarrow>
    ttas_step g ncpus s ((ttas_goto s p Outside (sys_word s)) \<lparr>sys_gen := (sys_gen s)(p := sys_gen s p + 1)\<rparr>)"
| takeover: "sys_pc s q = Outside \<Longrightarrow> nr_cpu_ids k = ncpus \<Longrightarrow> kernel_process k new_machine = Some q \<Longrightarrow>
    (\<And>p. machine_on_lock ncpus p = old_machine \<Longrightarrow> sys_pc s p \<noteq> Inside) \<Longrightarrow>
    ttas_lock_recover_kern g k old_machine new_machine (sys_gen s q) (sys_word s) = Done (st, w) \<Longrightarrow>
    ttas_step g ncpus s (ttas_goto s q (if st = TRANSFERED then Inside else Outside) w)"

definition ttas_start :: "granularity \<Rightarrow> ttas_sys \<Rightarrow> bool" where
  "ttas_start g s \<longleftrightarrow> (\<exists>c. sys_word s = ttas_init g c) \<and> (\<forall>p. sys_pc s p = Outside)"

definition ttas_holds :: "granularity \<Rightarrow> ttas_sys \<Rightarrow> u16 \<Rightarrow> bool" where
  "ttas_holds g s p \<longleftrightarrow> pvalue g (sys_word s) = lock_val_gen p (sys_gen s p)"

definition ttas_inv :: "granularity \<Rightarrow> ttas_sys \<Rightarrow> bool" where
  "ttas_inv g s \<longleftrightarrow> (\<forall>p. sys_pc s p = Inside \<longrightarrow> ttas_holds g s p)"

lemma ttas_goto_sel [simp]:
  "sys_word (ttas_goto s p pc w) = w" "sys_pc (ttas_goto s p pc w) = (sys_pc s)(p := pc)"
  "sys_gen (ttas_goto s p pc w) = sys_gen s"
  by (simp_all add: ttas_goto_def)

text \<open>A process that holds the lock excludes every other one from being inside.\<close>

lemma ttas_inv_unique: "ttas_inv g s \<Longrightarrow> sys_pc s p = Inside \<Longrightarrow> sys_pc s q = Inside \<Longrightarrow> p = q"
  unfolding ttas_inv_def ttas_holds_def by (metis lock_val_gen_inject)

lemma recover_kern_cases:
  assumes "ttas_lock_recover_kern g k old_machine new_machine gen c = Done (st, w)" "kernel_process k new_machine = Some q"
  shows "st \<noteq> TRANSFERED \<Longrightarrow> pvalue g w = pvalue g c"
    and "st = TRANSFERED \<Longrightarrow> pvalue g w = lock_val_gen q gen"
    and "st = TRANSFERED \<Longrightarrow> pvalue g c = lock_val_gen p gen' \<Longrightarrow>
      p = q \<or> machine_on_lock (nr_cpu_ids k) p = old_machine"
proof -
  obtain v c1 where r: "pcas_read_uint64 g c = (v, c1)" by (cases "pcas_read_uint64 g c")
  obtain ok ex c2 where k: "persist_cas_uint64 g c1 v (lock_val_gen q gen) = (ok, ex, c2)"
    by (cases "persist_cas_uint64 g c1 v (lock_val_gen q gen)") auto
  note rv = pcas64_read(3) [OF r]
  have "fits g (pvalue g c)"
    by (cases g) (simp_all add: fits_def pvalue_def pcas_read_noflush_def)
  with rv have f: "fits g v" by simp
  note kv = pcas64_cas [OF k f lock_val_gen_fits(1)]
  show "st \<noteq> TRANSFERED \<Longrightarrow> pvalue g w = pvalue g c" "st = TRANSFERED \<Longrightarrow> pvalue g w = lock_val_gen q gen"
    using assms r k rv kv by (auto simp: ttas_lock_recover_kern_def Let_def split: if_splits)
  assume st: "st = TRANSFERED" and c: "pvalue g c = lock_val_gen p gen'"
  have own: "(ucast (GET_OWNER_ID (cs_s (decompose_cs_status v))) :: u16) = p" "v \<noteq> UNLOCKED"
    using rv c by (simp_all add: lock_val_gen_owner)
  show "p = q \<or> machine_on_lock (nr_cpu_ids k) p = old_machine"
    using assms r st own by (auto simp: ttas_lock_recover_kern_def machine_on_lock_def Let_def split: if_splits)
qed

lemma recover_kern_held:
  assumes "kernel_process k new_machine = Some q" "pvalue g c = lock_val_gen p gen'"
  shows "\<exists>w. ttas_lock_recover_kern g k old_machine new_machine gen c =
      Done (if p = q \<or> machine_on_lock (nr_cpu_ids k) p = old_machine then TRANSFERED else FAILED, w) \<and>
    pvalue g w = (if p = q \<or> machine_on_lock (nr_cpu_ids k) p = old_machine then lock_val_gen q gen else pvalue g c)"
proof -
  obtain v c1 where r: "pcas_read_uint64 g c = (v, c1)" by (cases "pcas_read_uint64 g c")
  obtain ok ex c2 where k: "persist_cas_uint64 g c1 v (lock_val_gen q gen) = (ok, ex, c2)"
    by (cases "persist_cas_uint64 g c1 v (lock_val_gen q gen)") auto
  note rv = pcas64_read(3) [OF r]
  have v: "v = lock_val_gen p gen'" "pvalue g c1 = v" using rv assms(2) by auto
  note kv = pcas64_cas [OF k [unfolded v(1)] lock_val_gen_fits(1) lock_val_gen_fits(1)]
  have "ttas_lock_recover_kern g k old_machine new_machine gen c =
      Done (if p = q \<or> machine_on_lock (nr_cpu_ids k) p = old_machine then (TRANSFERED, c2) else (FAILED, c1))"
    using assms(1) r k kv v
    by (simp add: ttas_lock_recover_kern_def machine_on_lock_def Let_def lock_val_gen_owner)
  then show ?thesis using kv v assms(2) by auto
qed

text \<open>After a failure of a machine its word is free or still names one of its processes; taking it over
  succeeds.\<close>

definition left_by :: "granularity \<Rightarrow> cpu \<Rightarrow> u16 \<Rightarrow> u64 pcell \<Rightarrow> bool" where
  "left_by g k m c \<longleftrightarrow> pvalue g c = UNLOCKED \<or>
     (\<exists>p gen. pvalue g c = lock_val_gen p gen \<and> machine_on_lock (nr_cpu_ids k) p = m)"

lemma recover_kern_left:
  assumes "left_by g k old c" "kernel_process k m = Some q"
  obtains c' where "do_ttas_lock_recover g k old m gen c = Done (TRANSFERED, c')" "pvalue g c' = lock_val_gen q gen"
proof (cases "pvalue g c = UNLOCKED")
  case True
  obtain v c1 where r: "pcas_read_uint64 g c = (v, c1)" by (cases "pcas_read_uint64 g c")
  with True have v: "v = UNLOCKED" "pvalue g c1 = UNLOCKED" by (auto dest: pcas64_read(3))
  obtain ok ex c2 where p: "persist_cas_uint64 g c1 UNLOCKED (lock_val_gen q gen) = (ok, ex, c2)"
    by (cases "persist_cas_uint64 g c1 UNLOCKED (lock_val_gen q gen)")
  with pcas64_cas [OF p] v have ok "pvalue g c2 = lock_val_gen q gen" by simp_all
  with r v p assms(2) that show ?thesis by (simp add: do_ttas_lock_recover_def ttas_lock_recover_kern_def Let_def)
next
  case False
  with assms(1) obtain p gen' where "pvalue g c = lock_val_gen p gen'" "machine_on_lock (nr_cpu_ids k) p = old"
    by (auto simp: left_by_def)
  with recover_kern_held [OF assms(2), of g c p gen' old gen] that show ?thesis by (auto simp: do_ttas_lock_recover_def)
qed

lemma ttas_step_inv:
  assumes "ttas_inv g s" "ttas_step g ncpus s t"
  shows "ttas_inv g t"
  using assms(2,1)
proof (induction rule: ttas_step.induct)
  case (call s p mine w)
  obtain v c where r: "pcas_read_uint64 g (sys_word s) = (v, c)" by (cases "pcas_read_uint64 g (sys_word s)")
  with call pcas64_read(3) [OF r] show ?case
    by (auto simp: ttas_inv_def ttas_holds_def ttas_recover_with_gen_def)
next
  case (spin s p v w)
  with pcas64_read(3) [OF spin(2)] show ?case by (auto simp: ttas_inv_def ttas_holds_def)
next
  case (swap s p ok ex w)
  with pcas64_cas [OF swap(2) lock_val_gen_fits(2,1)] show ?case by (auto simp: ttas_inv_def ttas_holds_def)
next
  case (leave s p)
  then have "q \<noteq> p \<Longrightarrow> sys_pc s q \<noteq> Inside" for q using ttas_inv_unique by blast
  then show ?case by (auto simp: ttas_inv_def)
next
  case (takeover s q k new_machine old_machine st w)
  note c = recover_kern_cases [OF takeover(5,3)]
  show ?case
  proof (cases "st = TRANSFERED")
    case True
    have "sys_pc s p \<noteq> Inside" if "p \<noteq> q" for p
      using c(3) [OF True, of p "sys_gen s p"] takeover(1,2,4,6) that by (auto simp: ttas_inv_def ttas_holds_def)
    with True c(2) show ?thesis by (auto simp: ttas_inv_def ttas_holds_def)
  next
    case False
    with c(1) takeover(6) show ?thesis by (auto simp: ttas_inv_def ttas_holds_def)
  qed
qed (auto simp: ttas_inv_def ttas_holds_def)

lemma ttas_start_inv: "ttas_start g s \<Longrightarrow> ttas_inv g s"
  by (simp add: ttas_start_def ttas_inv_def)

interpretation ttas: owned_lock "ttas_start g" "ttas_step g ncpus" "ttas_inv g" "\<lambda>s p. sys_pc s p = Inside" "ttas_holds g"
proof unfold_locales
  show "ttas_inv g s \<Longrightarrow> ttas_step g ncpus s t \<Longrightarrow> ttas_inv g t" for s t by (rule ttas_step_inv)
  show "ttas_inv g s \<Longrightarrow> sys_pc s p = Inside \<Longrightarrow> ttas_holds g s p" for s p by (simp add: ttas_inv_def)
  show "ttas_holds g s p \<Longrightarrow> ttas_holds g s q \<Longrightarrow> p = q" for s p q by (simp add: ttas_holds_def lock_val_gen_inject)
qed (rule ttas_start_inv)

subsection \<open>Properties\<close>


text \<open>A run in which process 3 enters.\<close>

definition ex_start :: ttas_sys where
  "ex_start = \<lparr>sys_word = ttas_init CACHELINE_GRANULAR \<lparr>cached = 0, media = 0\<rparr>, sys_pc = (\<lambda>_. Outside), sys_gen = (\<lambda>_. 1)\<rparr>"

lemma ex_inside:
  "\<exists>s. reach (ttas_start CACHELINE_GRANULAR) (ttas_step CACHELINE_GRANULAR 4) s \<and> sys_pc s 3 = Inside"
proof -
  let ?g = CACHELINE_GRANULAR
  have r0: "reach (ttas_start ?g) (ttas_step ?g 4) ex_start"
    by (rule reach.start) (auto simp: ttas_start_def ex_start_def)
  have u: "pvalue ?g (sys_word ex_start) = UNLOCKED"
    by (simp add: ex_start_def ttas_init_def persist_atomic_write_uint64_def persist_write_value)
  obtain v w1 where 1: "pcas_read_uint64 ?g (sys_word ex_start) = (v, w1)" by (cases "pcas_read_uint64 ?g (sys_word ex_start)")
  note v1 = pcas64_read(3) [OF 1]
  let ?s1 = "ttas_goto ex_start 3 Spinning w1"
  have "ttas_step ?g 4 ex_start (ttas_goto ex_start 3 (if False then Inside else Spinning) w1)"
    using 1 v1 u by (intro ttas_step.call) (auto simp: ttas_recover_with_gen_def ex_start_def)
  then have s1: "reach (ttas_start ?g) (ttas_step ?g 4) ?s1" using reach.step [OF r0] by simp
  obtain v' w2 where 2: "pcas_read_uint64 ?g w1 = (v', w2)" by (cases "pcas_read_uint64 ?g w1")
  note v2 = pcas64_read(3) [OF 2]
  let ?s2 = "ttas_goto ?s1 3 Swapping w2"
  have "ttas_step ?g 4 ?s1 (ttas_goto ?s1 3 (if v' = UNLOCKED then Swapping else Spinning) w2)"
    using 2 by (intro ttas_step.spin) simp_all
  then have s2: "reach (ttas_start ?g) (ttas_step ?g 4) ?s2" using reach.step [OF s1] v1 v2 u by simp
  obtain ok ex w3 where 3: "persist_cas_uint64 ?g w2 UNLOCKED (lock_val_gen 3 (sys_gen ?s2 3)) = (ok, ex, w3)"
    by (cases "persist_cas_uint64 ?g w2 UNLOCKED (lock_val_gen 3 (sys_gen ?s2 3))") auto
  have ok using pcas64_cas(1) [OF 3] v1 v2 u by simp
  have "ttas_step ?g 4 ?s2 (ttas_goto ?s2 3 (if ok then Inside else Spinning) w3)"
    using 3 by (intro ttas_step.swap) simp_all
  then have "reach (ttas_start ?g) (ttas_step ?g 4) (ttas_goto ?s2 3 Inside w3)" using reach.step [OF s2] \<open>ok\<close> by simp
  then show ?thesis by (intro exI [of _ "ttas_goto ?s2 3 Inside w3"]) simp
qed


text \<open>C19: A waiting process enters once the lock stays free: if the word is free at one of the reads of
  \<open>ttas_enter_with_gen\<close> (after any number of reads that found it taken, none of them aborted) and other
  processes leave its value alone until the exchange that follows, the call returns true and the word
  names the caller and its generation.\<close>

theorem ttas_enter_progress:
  assumes "\<And>n. \<not> abort_signal n" "\<And>e c. e \<in> set busy \<Longrightarrow> pvalue g (e c) \<noteq> UNLOCKED"
    and "\<And>c. pvalue g (free c) = UNLOCKED" "\<And>c. pvalue g (quiet c) = pvalue g c"
  shows "\<exists>c'. ttas_enter_with_gen g p gen abort_signal (busy @ free # quiet # es) c = Done (True, c') \<and>
    pvalue g c' = lock_val_gen p gen"
proof -
  have "\<exists>c'. ttas_enter_loop g (lock_val_gen p gen) abort_signal n (busy @ free # quiet # es) c = Done (True, c')" for n
    using assms(2)
  proof (induction busy arbitrary: n c)
    case Nil
    show ?case using enter_loop_enters [of g "lock_val_gen p gen" free c quiet] assms(3,4) by simp
  next
    case (Cons e busy)
    obtain v c1 where r: "pcas_read_uint64 g (e c) = (v, c1)" by (cases "pcas_read_uint64 g (e c)")
    have "v \<noteq> UNLOCKED" using pcas64_read(3) [OF r] Cons.prems [of e c] by simp
    with r Cons.IH [of "n + 1" c1] Cons.prems assms(1) show ?case by simp
  qed
  then obtain c' where "ttas_enter_loop g (lock_val_gen p gen) abort_signal 0 (busy @ free # quiet # es) c = Done (True, c')"
    by blast
  with enter_loop_value [OF lock_val_gen_fits(1) this] show ?thesis by (simp add: ttas_enter_with_gen_def)
qed

theorem ttas_enter_progress_witness:
  "\<exists>c'. ttas_enter_with_gen BYTE_GRANULAR 3 1 spin_no_abort ([] @ (\<lambda>c. c \<lparr>cached := 0\<rparr>) # (\<lambda>c. c) # []) \<lparr>cached = 9, media = 9\<rparr>
      = Done (True, c') \<and> pvalue BYTE_GRANULAR c' = lock_val_gen 3 1"
  by (rule ttas_enter_progress)
    (simp_all add: spin_no_abort_def pvalue_def pcas_read_noflush_def load_acquire_def UNLOCKED_def)

text \<open>The owner and generation written to the lock word are read back by the recovery code, and two
  different owners or generations never share a word; the word is never the free one and never collides
  with the dirty mark.\<close>

lemma lock_word_roundtrip:
  "ucast (GET_OWNER_ID (cs_s (decompose_cs_status (lock_val_gen p gen)))) = p \<and>
   ucast (GET_OWNER_GEN (cs_s (decompose_cs_status (lock_val_gen p gen)))) = gen \<and>
   (lock_val_gen p gen = lock_val_gen q gen' \<longleftrightarrow> p = q \<and> gen = gen') \<and>
   lock_val_gen p gen \<noteq> UNLOCKED \<and> fits CACHELINE_GRANULAR (lock_val_gen p gen)"
  by (simp add: lock_val_gen_owner lock_val_gen_inject)

text \<open>Taking over a lock that names process \<open>p\<close>: \<open>ttas_lock_recover_kern\<close> never blocks. If \<open>p\<close> belongs to
  the failed machine or is the caller itself, it reports a transfer and the word names the caller with
  its new generation; otherwise it reports failure and leaves the owner in place.\<close>

lemma ttas_recover_transfers:
  assumes "kernel_process k new_machine = Some q" "pvalue g c = lock_val_gen p gen'"
  shows "\<exists>w. ttas_lock_recover_kern g k old_machine new_machine gen c =
      Done (if p = q \<or> machine_on_lock (nr_cpu_ids k) p = old_machine then TRANSFERED else FAILED, w) \<and>
    pvalue g w = (if p = q \<or> machine_on_lock (nr_cpu_ids k) p = old_machine then lock_val_gen q gen else pvalue g c)"
  by (rule recover_kern_held [OF assms])

end
