(* ===== verification/Min_Array.thy ===== *)
theory Min_Array
  imports Persist_Cas
begin

text \<open>
  The array of process states with constant-time minimum of \<^verbatim>\<open>src/src/common/min_array\<close>: a perfect
  binary tree stored in an array, whose leaves hold the state of one process each and whose inner
  nodes hold the minimum of their children. \<open>shift\<close> is \<^verbatim>\<open>MINARR_MAX_PROCESS_SHIFT\<close>; the headers are
  instantiated for 4, 5 and 6. Node \<open>k\<close> (counted from 1) is the array element \<open>k - 1\<close>.

  Positions are pairs of natural numbers: below \<open>2 ^ 64\<close> they agree with \<^verbatim>\<open>size_t\<close>, and no operation takes the
  parent of a position of depth 0. An update that would write outside the array or climb forever is \<open>None\<close>.
\<close>

unbundle bit_operations_syntax

subsection \<open>Positions\<close>

record tree_pos =
  tp_index :: nat
  tp_depth :: nat

definition INVALID_TREE_POS :: tree_pos where "INVALID_TREE_POS = \<lparr>tp_index = 0, tp_depth = 0\<rparr>"

definition binary_tree_root :: tree_pos where "binary_tree_root = \<lparr>tp_index = 1, tp_depth = 1\<rparr>"

definition tree_pos_is_root :: "tree_pos \<Rightarrow> bool" where
  "tree_pos_is_root pos \<longleftrightarrow> tp_depth pos = 1 \<and> tp_index pos = 1"

definition tree_left_child :: "tree_pos \<Rightarrow> tree_pos" where
  "tree_left_child pos = \<lparr>tp_index = tp_index pos * 2, tp_depth = tp_depth pos + 1\<rparr>"

definition get_tree_left_child :: "tree_pos \<Rightarrow> tree_pos" where
  "get_tree_left_child pos = \<lparr>tp_index = tp_index pos * 2, tp_depth = tp_depth pos + 1\<rparr>"

definition tree_right_child :: "tree_pos \<Rightarrow> tree_pos" where
  "tree_right_child pos = \<lparr>tp_index = tp_index pos * 2 + 1, tp_depth = tp_depth pos + 1\<rparr>"

definition get_tree_right_child :: "tree_pos \<Rightarrow> tree_pos" where
  "get_tree_right_child pos = \<lparr>tp_index = tp_index pos * 2 + 1, tp_depth = tp_depth pos + 1\<rparr>"

definition tree_sibling :: "tree_pos \<Rightarrow> tree_pos" where
  "tree_sibling pos = pos \<lparr>tp_index := tp_index pos XOR 1\<rparr>"

definition tree_parent :: "tree_pos \<Rightarrow> tree_pos" where
  "tree_parent pos = \<lparr>tp_index = tp_index pos div 2, tp_depth = tp_depth pos - 1\<rparr>"

definition update_tree_parent :: "tree_pos \<Rightarrow> tree_pos" where
  "update_tree_parent pos = \<lparr>tp_index = tp_index pos div 2, tp_depth = tp_depth pos - 1\<rparr>"

definition tree_right_adjacent :: "tree_pos \<Rightarrow> tree_pos" where
  "tree_right_adjacent pos =
     (if tp_index pos < ((tp_index pos + 1) XOR tp_index pos) then INVALID_TREE_POS
      else pos \<lparr>tp_index := tp_index pos + 1\<rparr>)"

subsection \<open>Process states\<close>

definition COUNTER_MASK :: u64 where "COUNTER_MASK = push_bit 16 (push_bit 47 1 - 1)"
definition COUNTER_INF :: u64 where "COUNTER_INF = push_bit 47 1 - 1"
definition PROCESS_ID_MASK :: u64 where "PROCESS_ID_MASK = 0xffff"

definition default_process_state :: "u16 \<Rightarrow> u64" where
  "default_process_state process_id = COUNTER_MASK OR ucast process_id"

definition compose_process_state :: "u64 \<Rightarrow> u16 \<Rightarrow> u64" where
  "compose_process_state token process_id = push_bit 16 token OR ucast process_id"

definition get_process_state :: "granularity \<Rightarrow> u64 pcell \<Rightarrow> u64 \<times> u64 pcell" where
  "get_process_state g state = pcas_read_uint64 g state"

definition atomic_cmpxchg_process_state :: "granularity \<Rightarrow> u64 pcell \<Rightarrow> u64 \<Rightarrow> u64 \<Rightarrow> bool \<times> u64 \<times> u64 pcell" where
  "atomic_cmpxchg_process_state g state expect set_to = persist_cas_uint64 g state expect set_to"

definition get_counter :: "u64 \<Rightarrow> u64" where
  "get_counter state = drop_bit 16 (state AND COUNTER_MASK)"

definition get_process_id :: "u64 \<Rightarrow> u16" where
  "get_process_id state = ucast (state AND PROCESS_ID_MASK)"

subsection \<open>The array\<close>

type_synonym min_array = "u64 pcell list"

definition MINARR_MAX_NUM_PROCESSES :: "nat \<Rightarrow> nat" where "MINARR_MAX_NUM_PROCESSES shift = 2 ^ shift"
definition NUM_ARR_NODES :: "nat \<Rightarrow> nat" where "NUM_ARR_NODES shift = 2 ^ (shift + 1) - 1"

definition find_min :: "min_array \<Rightarrow> u64" where
  "find_min arr = load_acquire (arr ! 0)"

definition leaf_index :: "nat \<Rightarrow> u16 \<Rightarrow> nat" where
  "leaf_index shift process_id = NUM_ARR_NODES shift - MINARR_MAX_NUM_PROCESSES shift + unat process_id"

definition set_leaf :: "nat \<Rightarrow> granularity \<Rightarrow> u16 \<Rightarrow> u64 \<Rightarrow> min_array \<Rightarrow> min_array" where
  "set_leaf shift g process_id set_to arr =
     arr[leaf_index shift process_id := store_release g (arr ! leaf_index shift process_id) set_to]"

definition get_leaf_tree_pos :: "nat \<Rightarrow> u16 \<Rightarrow> tree_pos" where
  "get_leaf_tree_pos shift process_id =
     \<lparr>tp_index = unat process_id + NUM_ARR_NODES shift - MINARR_MAX_NUM_PROCESSES shift + 1, tp_depth = shift + 1\<rparr>"

definition read_node :: "granularity \<Rightarrow> nat \<Rightarrow> min_array \<Rightarrow> u64 \<times> min_array" where
  "read_node g k arr = (case get_process_state g (arr ! (k - 1)) of (v, c) \<Rightarrow> (v, arr[k - 1 := c]))"

definition refresh :: "granularity \<Rightarrow> tree_pos \<Rightarrow> min_array \<Rightarrow> min_array" where
  "refresh g pos arr =
     (let left_child_pos = get_tree_left_child pos;
          right_child_pos = get_tree_right_child pos;
          (cur_val, arr) = read_node g (tp_index pos) arr;
          (left_child_val, arr) = read_node g (tp_index left_child_pos) arr;
          (right_child_val, arr) = read_node g (tp_index right_child_pos) arr;
          min_val = min left_child_val right_child_val;
          (_, _, c) = atomic_cmpxchg_process_state g (arr ! (tp_index pos - 1)) cur_val min_val
      in arr[tp_index pos - 1 := c])"

partial_function (option) refresh_ancestors :: "granularity \<Rightarrow> tree_pos \<Rightarrow> min_array \<Rightarrow> min_array option" where
  "refresh_ancestors g pos arr =
     (if tree_pos_is_root pos then Some arr
      else
        let pos = update_tree_parent pos
        in refresh_ancestors g pos (refresh g pos (refresh g pos arr)))"

declare refresh_ancestors.simps [code]

definition min_arr_update :: "nat \<Rightarrow> granularity \<Rightarrow> u16 \<Rightarrow> u64 \<Rightarrow> min_array \<Rightarrow> min_array option" where
  "min_arr_update shift g process_id state arr =
     (if unat process_id < MINARR_MAX_NUM_PROCESSES shift then
        refresh_ancestors g (get_leaf_tree_pos shift process_id) (set_leaf shift g process_id state arr)
      else None)"

primrec init_loop :: "nat \<Rightarrow> granularity \<Rightarrow> nat list \<Rightarrow> min_array \<Rightarrow> min_array option" where
  "init_loop shift g [] arr = Some arr"
| "init_loop shift g (i # is) arr =
     (case min_arr_update shift g (word_of_nat i) (default_process_state (word_of_nat i)) arr of
        None \<Rightarrow> None
      | Some arr \<Rightarrow> init_loop shift g is arr)"

definition init_min_array :: "nat \<Rightarrow> granularity \<Rightarrow> min_array \<Rightarrow> min_array option" where
  "init_min_array shift g arr = init_loop shift g [0..<MINARR_MAX_NUM_PROCESSES shift mod 2 ^ 16] arr"

subsection \<open>Values of nodes\<close>

definition node :: "granularity \<Rightarrow> min_array \<Rightarrow> nat \<Rightarrow> u64" where
  "node g arr k = pvalue g (arr ! (k - 1))"

definition node_ok :: "granularity \<Rightarrow> min_array \<Rightarrow> nat \<Rightarrow> bool" where
  "node_ok g arr k \<longleftrightarrow> node g arr k = min (node g arr (2 * k)) (node g arr (2 * k + 1))"

definition leaf :: "nat \<Rightarrow> granularity \<Rightarrow> min_array \<Rightarrow> u16 \<Rightarrow> u64" where
  "leaf shift g arr p = node g arr (2 ^ shift + unat p)"

definition min_arr_ok :: "nat \<Rightarrow> granularity \<Rightarrow> min_array \<Rightarrow> bool" where
  "min_arr_ok shift g arr \<longleftrightarrow> length arr = NUM_ARR_NODES shift \<and> (\<forall>k\<in>{1..<2 ^ shift}. node_ok g arr k)"

lemma fits_pvalue [simp]: "fits g (pvalue g c)"
  by (cases g) (simp_all add: fits_def pvalue_def pcas_read_noflush_def)

lemma fits_min [simp]: "fits g a \<Longrightarrow> fits g b \<Longrightarrow> fits g (min a b)"
  by (simp add: min_def)

lemma div_power_Suc: "(k :: nat) div 2 ^ Suc n = k div 2 ^ n div 2"
  by (metis div_mult2_eq power_Suc2)

lemma node_update:
  assumes "0 < k" "0 < j" "k \<le> length arr"
  shows "node g (arr[k - Suc 0 := c]) j = (if j = k then pvalue g c else node g arr j)"
  using assms by (auto simp: node_def nth_list_update)

lemma read_node_value:
  assumes "read_node g k arr = (v, arr')" "0 < k" "k \<le> length arr"
  shows "v = node g arr k" "length arr' = length arr" "0 < j \<Longrightarrow> node g arr' j = node g arr j"
proof -
  obtain w c where c: "pcas_read g (arr ! (k - 1)) = (w, c)" by (cases "pcas_read g (arr ! (k - 1))")
  with pcas_read_value [of g "arr ! (k - 1)"] have "w = node g arr k" "pvalue g c = node g arr k"
    by (simp_all add: node_def)
  then show "v = node g arr k" "length arr' = length arr" "0 < j \<Longrightarrow> node g arr' j = node g arr j"
    using assms c by (auto simp: read_node_def get_process_state_def pcas_read_uint64_def node_update)
qed

lemma refresh_value:
  assumes "0 < tp_index pos" "2 * tp_index pos + 1 \<le> length arr"
  shows "length (refresh g pos arr) = length arr"
    and "0 < j \<Longrightarrow> node g (refresh g pos arr) j =
      (if j = tp_index pos then min (node g arr (2 * j)) (node g arr (2 * j + 1)) else node g arr j)"
proof -
  let ?k = "tp_index pos"
  obtain v1 a1 where 1: "read_node g ?k arr = (v1, a1)" by (cases "read_node g ?k arr")
  obtain v2 a2 where 2: "read_node g (?k * 2) a1 = (v2, a2)" by (cases "read_node g (?k * 2) a1")
  obtain v3 a3 where 3: "read_node g (?k * 2 + 1) a2 = (v3, a3)" by (cases "read_node g (?k * 2 + 1) a2")
  obtain ok ex c where k: "persist_cas g (a3 ! (?k - 1)) v1 (min v2 v3) = (ok, ex, c)"
    by (cases "persist_cas g (a3 ! (?k - 1)) v1 (min v2 v3)") auto
  note r1 = read_node_value [OF 1] note r2 = read_node_value [OF 2] note r3 = read_node_value [OF 3]
  have l: "length a1 = length arr" "length a2 = length arr" "length a3 = length arr"
    using r1(2) r2(2) r3(2) assms by simp_all
  have n: "node g a1 j = node g arr j" "node g a2 j = node g arr j" "node g a3 j = node g arr j" if "0 < j" for j
    using r1(3) r2(3) r3(3) assms l that by simp_all
  have v: "v1 = node g arr ?k" "v2 = node g arr (?k * 2)" "v3 = node g arr (?k * 2 + 1)"
    using r1(1) r2(1) r3(1) assms l n by simp_all
  have f: "fits g (node g arr i)" for i by (simp add: node_def)
  have "pvalue g c = min v2 v3"
    using persist_cas_value(2) [of g v1 "min v2 v3" "a3 ! (?k - 1)"] k v f n(3) [OF assms(1)] by (simp add: node_def)
  moreover have "refresh g pos arr = a3[?k - 1 := c]"
    using 1 2 3 k by (simp add: refresh_def get_tree_left_child_def get_tree_right_child_def atomic_cmpxchg_process_state_def
        persist_cas_uint64_def Let_def)
  ultimately show "length (refresh g pos arr) = length arr"
    and "0 < j \<Longrightarrow> node g (refresh g pos arr) j =
      (if j = ?k then min (node g arr (2 * j)) (node g arr (2 * j + 1)) else node g arr j)"
    using assms l n v by (auto simp: node_update mult.commute)
qed

subsection \<open>Climbing\<close>

lemma refresh_ancestors_correct:
  assumes "2 ^ (d - 1) \<le> k" "k < 2 ^ d" "d \<le> shift + 1" "length arr = NUM_ARR_NODES shift"
  obtains arr' where "refresh_ancestors g \<lparr>tp_index = k, tp_depth = d\<rparr> arr = Some arr'" "length arr' = NUM_ARR_NODES shift"
    "\<And>j. 0 < j \<Longrightarrow> (\<And>n. 0 < n \<Longrightarrow> j \<noteq> k div 2 ^ n) \<Longrightarrow> node g arr' j = node g arr j"
    "\<And>j n. j = k div 2 ^ n \<Longrightarrow> 0 < n \<Longrightarrow> 0 < j \<Longrightarrow> node_ok g arr' j"
  using assms
proof (induction d arbitrary: k arr thesis)
  case 0
  then show ?case by simp
next
  case (Suc d)
  show ?case
  proof (cases "d = 0")
    case True
    with Suc.prems(2,3) have k: "k = 1" by simp
    show ?thesis
    proof (rule Suc.prems(1))
      show "refresh_ancestors g \<lparr>tp_index = k, tp_depth = Suc d\<rparr> arr = Some arr"
        using True k by (simp add: refresh_ancestors.simps tree_pos_is_root_def)
      show "node_ok g arr j" if "j = k div 2 ^ n" "0 < n" "0 < j" for j n
      proof -
        have "(2::nat) ^ 1 \<le> 2 ^ n" using that(2) by (intro power_increasing) auto
        with that k show ?thesis by simp
      qed
    qed (use Suc.prems(5) in auto)
  next
    case False
    then obtain e where d: "d = Suc e" by (cases d) auto
    let ?p = "k div 2" and ?pos = "\<lparr>tp_index = k div 2, tp_depth = d\<rparr>"
    define a2 where "a2 = refresh g ?pos (refresh g ?pos arr)"
    have p: "2 ^ (d - 1) \<le> ?p" "?p < 2 ^ d" using Suc.prems(2,3) by (auto simp: d)
    then have p0: "0 < ?p" using zero_less_power [of "2::nat" "d - 1"] by linarith
    have "(2::nat) ^ (d + 1) \<le> 2 ^ (shift + 1)" using Suc.prems(4) by (intro power_increasing) auto
    moreover have "2 * ?p + 2 \<le> 2 ^ (d + 1)" using p(2) by simp
    ultimately have len: "2 * ?p + 1 \<le> length arr" unfolding Suc.prems(5) NUM_ARR_NODES_def by linarith
    note r1 = refresh_value [of ?pos arr, simplified, OF p0 [simplified] len [simplified]]
    have l1: "2 * ?p + 1 \<le> length (refresh g ?pos arr)" using r1(1) len by simp
    note r2 = refresh_value [of ?pos "refresh g ?pos arr", simplified, OF p0 [simplified] l1 [simplified]]
    have a2: "length a2 = length arr" "0 < j \<Longrightarrow> node g a2 j = (if j = ?p then min (node g arr (2 * j)) (node g arr (2 * j + 1)) else node g arr j)" for j
      using r1 r2 p0 by (auto simp: a2_def)
    have "k \<noteq> 1" using p0 by auto
    then have step: "refresh_ancestors g \<lparr>tp_index = k, tp_depth = Suc d\<rparr> arr = refresh_ancestors g ?pos a2"
      by (subst refresh_ancestors.simps) (simp add: tree_pos_is_root_def update_tree_parent_def a2_def Let_def)
    obtain a3 where a3: "refresh_ancestors g ?pos a2 = Some a3" "length a3 = NUM_ARR_NODES shift"
      "\<And>j. 0 < j \<Longrightarrow> (\<And>n. 0 < n \<Longrightarrow> j \<noteq> ?p div 2 ^ n) \<Longrightarrow> node g a3 j = node g a2 j"
      "\<And>j n. j = ?p div 2 ^ n \<Longrightarrow> 0 < n \<Longrightarrow> 0 < j \<Longrightarrow> node_ok g a3 j"
      by (rule Suc.IH [OF _ p, of a2]) (use Suc.prems(4,5) a2(1) in auto)
    have up: "?p div 2 ^ n = k div 2 ^ Suc n" for n by (simp add: div_mult2_eq)
    have below: "node g a3 j = node g a2 j" if "?p \<le> j" for j
    proof (rule a3(3))
      show "0 < j" using p0 that by simp
      show "j \<noteq> ?p div 2 ^ n" if "0 < n" for n
      proof -
        have "(2::nat) ^ 1 \<le> 2 ^ n" using that by (intro power_increasing) auto
        then have "?p div 2 ^ n \<le> ?p div 2" by (intro div_le_mono2) simp_all
        with p0 \<open>?p \<le> j\<close> show ?thesis by linarith
      qed
    qed
    show ?thesis
    proof (rule Suc.prems(1))
      show "refresh_ancestors g \<lparr>tp_index = k, tp_depth = Suc d\<rparr> arr = Some a3" using step a3(1) by simp
      show "length a3 = NUM_ARR_NODES shift" by (rule a3(2))
      show "node g a3 j = node g arr j" if "0 < j" "\<And>n. 0 < n \<Longrightarrow> j \<noteq> k div 2 ^ n" for j
        using a3(3) [OF that(1)] a2(2) [OF that(1)] that(2) [of 1] that(2) [of "Suc _"] up by simp
      show "node_ok g a3 j" if "j = k div 2 ^ n" "0 < n" "0 < j" for j n
      proof (cases "n = 1")
        case True
        with that have "j = ?p" by simp
        with below [of j] below [of "2 * j"] below [of "2 * j + 1"] a2(2) [of j] a2(2) [of "2 * j"] a2(2) [of "2 * j + 1"] p0
        show ?thesis by (auto simp: node_ok_def)
      next
        case False
        with that obtain i where "n = Suc i" "0 < i" by (cases n) auto
        with that a3(4) [of j i] up show ?thesis by simp
      qed
    qed
  qed
qed

lemma leaf_position:
  assumes "unat p < 2 ^ shift"
  shows "leaf_index shift p = 2 ^ shift + unat p - 1"
    and "get_leaf_tree_pos shift p = \<lparr>tp_index = 2 ^ shift + unat p, tp_depth = shift + 1\<rparr>"
proof -
  have "(1::nat) \<le> 2 ^ shift" by simp
  then show "leaf_index shift p = 2 ^ shift + unat p - 1"
    "get_leaf_tree_pos shift p = \<lparr>tp_index = 2 ^ shift + unat p, tp_depth = shift + 1\<rparr>"
    by (simp_all add: leaf_index_def get_leaf_tree_pos_def NUM_ARR_NODES_def MINARR_MAX_NUM_PROCESSES_def)
qed

lemma store_release_value: "fits g v \<Longrightarrow> pvalue g (store_release g c v) = v"
  by (cases g) (auto simp: pcas_defs fits_def)

text \<open>An update writes its leaf and makes all ancestors consistent; consistent nodes stay so.\<close>

lemma min_arr_update_correct:
  assumes "unat p < 2 ^ shift" "length arr = NUM_ARR_NODES shift" "fits g st"
  obtains arr' where "min_arr_update shift g p st arr = Some arr'" "length arr' = NUM_ARR_NODES shift"
    "\<And>q. unat q < 2 ^ shift \<Longrightarrow> leaf shift g arr' q = (if q = p then st else leaf shift g arr q)"
    "\<And>j. 0 < j \<Longrightarrow> j < 2 ^ shift \<Longrightarrow> node_ok g arr j \<or> (\<exists>n>0. j = (2 ^ shift + unat p) div 2 ^ n) \<Longrightarrow> node_ok g arr' j"
proof -
  let ?k = "2 ^ shift + unat p"
  define a1 where "a1 = set_leaf shift g p st arr"
  have k: "0 < ?k" "?k \<le> length arr" using assms(1,2) by (simp_all add: NUM_ARR_NODES_def)
  have a1: "length a1 = NUM_ARR_NODES shift" "0 < j \<Longrightarrow> node g a1 j = (if j = ?k then st else node g arr j)" for j
    using node_update [OF k(1) _ k(2), of j g] assms
    by (simp_all add: a1_def set_leaf_def leaf_position store_release_value)
  obtain a2 where a2: "refresh_ancestors g \<lparr>tp_index = ?k, tp_depth = shift + 1\<rparr> a1 = Some a2" "length a2 = NUM_ARR_NODES shift"
    "\<And>j. 0 < j \<Longrightarrow> (\<And>n. 0 < n \<Longrightarrow> j \<noteq> ?k div 2 ^ n) \<Longrightarrow> node g a2 j = node g a1 j"
    "\<And>j n. j = ?k div 2 ^ n \<Longrightarrow> 0 < n \<Longrightarrow> 0 < j \<Longrightarrow> node_ok g a2 j"
    by (rule refresh_ancestors_correct [of "shift + 1" ?k shift a1]) (use assms(1) a1(1) in auto)
  have anc: "?k div 2 ^ n < 2 ^ shift" if "0 < n" for n
  proof -
    have "(2::nat) ^ 1 \<le> 2 ^ n" using that by (intro power_increasing) auto
    then have "?k div 2 ^ n \<le> ?k div 2" by (intro div_le_mono2) simp_all
    with assms(1) show ?thesis by simp
  qed
  show ?thesis
  proof (rule that)
    show "min_arr_update shift g p st arr = Some a2"
      using assms(1) a2(1) by (simp add: min_arr_update_def MINARR_MAX_NUM_PROCESSES_def leaf_position a1_def)
    show "length a2 = NUM_ARR_NODES shift" by (rule a2(2))
    show "leaf shift g a2 q = (if q = p then st else leaf shift g arr q)" if "unat q < 2 ^ shift" for q
    proof -
      have "node g a2 (2 ^ shift + unat q) = node g a1 (2 ^ shift + unat q)"
      proof (rule a2(3))
        show "2 ^ shift + unat q \<noteq> ?k div 2 ^ n" if "0 < n" for n using anc [OF that] by linarith
      qed simp
      then show ?thesis by (auto simp: leaf_def a1(2) dest: unsigned_word_eqI)
    qed
    show "node_ok g a2 j" if j: "0 < j" "j < 2 ^ shift" "node_ok g arr j \<or> (\<exists>n>0. j = ?k div 2 ^ n)" for j
    proof (cases "\<exists>n>0. j = ?k div 2 ^ n")
      case True
      with a2(4) j(1) show ?thesis by blast
    next
      case False
      have child: "node g a2 i = node g arr i" if "i div 2 = j \<or> i = j" for i
      proof -
        have i: "i \<noteq> ?k div 2 ^ n" if "0 < n" for n
        proof
          assume "i = ?k div 2 ^ n"
          then have "i div 2 = ?k div 2 ^ Suc n" by (simp only: div_power_Suc)
          with False that \<open>i = _\<close> \<open>i div 2 = j \<or> i = j\<close> show False by (metis zero_less_Suc)
        qed
        have "i \<noteq> ?k" using False \<open>i div 2 = j \<or> i = j\<close> j(2) by (metis add_lessD1 less_irrefl power_one_right zero_less_one)
        with a2(3) [of i] a1(2) [of i] i j(1) that show ?thesis by auto
      qed
      have "node_ok g arr j" using False j(3) by blast
      with child [of j] child [of "2 * j"] child [of "2 * j + 1"] show ?thesis by (simp add: node_ok_def)
    qed
  qed
qed

subsection \<open>The minimum\<close>

lemma node_le_leaf:
  assumes "min_arr_ok shift g arr" "2 ^ shift \<le> j" "j < 2 ^ (shift + 1)" "n \<le> shift"
  shows "node g arr (j div 2 ^ n) \<le> node g arr j"
  using assms(4)
proof (induction n)
  case (Suc n)
  let ?p = "j div 2 ^ Suc n"
  have up: "?p = j div 2 ^ n div 2" by (rule div_power_Suc)
  have "j div 2 ^ Suc n \<ge> 2 ^ shift div 2 ^ Suc n" using assms(2) by (rule div_le_mono)
  moreover have "(2::nat) ^ shift div 2 ^ Suc n = 2 ^ (shift - Suc n)" using Suc.prems by (simp add: power_diff)
  ultimately have "0 < ?p" using zero_less_power [of "2::nat" "shift - Suc n"] by linarith
  moreover have "?p < 2 ^ shift"
  proof -
    have "(2::nat) ^ 1 \<le> 2 ^ Suc n" by (intro power_increasing) auto
    then have "?p \<le> j div 2" by (intro div_le_mono2) simp_all
    with assms(3) show ?thesis by simp
  qed
  ultimately have "node_ok g arr ?p" using assms(1) by (simp add: min_arr_ok_def)
  moreover have "j div 2 ^ n = 2 * ?p \<or> j div 2 ^ n = 2 * ?p + 1" unfolding up by linarith
  ultimately have "node g arr ?p \<le> node g arr (j div 2 ^ n)" by (auto simp: node_ok_def)
  with Suc show ?case by simp
qed simp

lemma node_is_leaf:
  assumes "min_arr_ok shift g arr" "n \<le> shift" "2 ^ (shift - n) \<le> k" "k < 2 ^ (shift - n + 1)"
  shows "\<exists>j. 2 ^ shift \<le> j \<and> j < 2 ^ (shift + 1) \<and> node g arr k = node g arr j"
  using assms(2-4)
proof (induction n arbitrary: k)
  case (Suc n)
  have e: "shift - n = Suc (shift - Suc n)" using Suc.prems(1) by simp
  have "k < 2 ^ (shift - Suc n + 1)" by (rule Suc.prems(3))
  also have "\<dots> \<le> 2 ^ shift" using Suc.prems(1) by (intro power_increasing) auto
  finally have "k < 2 ^ shift" .
  moreover have "0 < k" using Suc.prems(2) zero_less_power [of "2::nat" "shift - Suc n"] by linarith
  ultimately have k: "0 < k" "k < 2 ^ shift" by simp_all
  then have "node g arr k = node g arr (2 * k) \<or> node g arr k = node g arr (2 * k + 1)"
    using assms(1) by (auto simp: min_arr_ok_def node_ok_def min_def)
  moreover have "2 ^ (shift - n) \<le> 2 * k" "2 * k + 1 < 2 ^ (shift - n + 1)" using Suc.prems(2,3) by (simp_all add: e)
  ultimately show ?case using Suc.IH [of "2 * k"] Suc.IH [of "2 * k + 1"] Suc.prems(1) by fastforce
qed auto

lemma find_min_value: "pvalue g (arr ! 0) = node g arr 1"
  by (simp add: node_def)

lemma root_is_min:
  assumes "min_arr_ok shift g arr" "shift \<le> 16"
  shows "unat p < 2 ^ shift \<Longrightarrow> node g arr 1 \<le> leaf shift g arr p"
    and "\<exists>p. unat p < 2 ^ shift \<and> node g arr 1 = leaf shift g arr p"
proof -
  show "node g arr 1 \<le> leaf shift g arr p" if "unat p < 2 ^ shift"
  proof -
    have "(2 ^ shift + unat p) div 2 ^ shift = 1" using that by (intro div_nat_eqI) simp_all
    with node_le_leaf [OF assms(1), of "2 ^ shift + unat p" shift] that show ?thesis by (simp add: leaf_def)
  qed
  obtain j where j: "2 ^ shift \<le> j" "j < 2 ^ (shift + 1)" "node g arr 1 = node g arr j"
    using node_is_leaf [OF assms(1), of shift 1] by auto
  have "(2::nat) ^ shift \<le> 2 ^ 16" using assms(2) by (intro power_increasing) auto
  moreover have "n < 2 ^ 16 \<Longrightarrow> unat (word_of_nat n :: u16) = n" for n by (simp add: unsigned_of_nat take_bit_nat_eq_self)
  moreover have "j - 2 ^ shift < 2 ^ shift" using j(1,2) by simp
  ultimately have u: "unat (word_of_nat (j - 2 ^ shift) :: u16) = j - 2 ^ shift" by (meson less_le_trans)
  show "\<exists>p. unat p < 2 ^ shift \<and> node g arr 1 = leaf shift g arr p"
    by (rule exI [of _ "word_of_nat (j - 2 ^ shift)"]) (use j u in \<open>simp add: leaf_def\<close>)
qed

lemma bit_COUNTER_MASK: "bit COUNTER_MASK n \<longleftrightarrow> 16 \<le> n \<and> n < 63"
proof -
  have M: "COUNTER_MASK = push_bit 16 (mask 47)" by (simp add: COUNTER_MASK_def mask_eq_exp_minus_1)
  show ?thesis unfolding M by (simp only: bit_push_bit_iff bit_mask_iff) auto
qed

lemma default_fits [simp]: "fits g (default_process_state p)"
proof -
  have "\<not> bit p 63" using bit_imp_le_length [of p 63] by auto
  then show ?thesis by (simp add: fits_def plain_bit default_process_state_def bit_simps bit_COUNTER_MASK)
qed

lemma init_loop_correct:
  assumes "length arr = NUM_ARR_NODES shift" "shift \<le> 16" "\<And>i. i \<in> set is \<Longrightarrow> i < 2 ^ shift"
  obtains arr' where "init_loop shift g is arr = Some arr'" "length arr' = NUM_ARR_NODES shift"
    "\<And>q. unat q < 2 ^ shift \<Longrightarrow> leaf shift g arr' q = (if unat q \<in> set is then default_process_state q else leaf shift g arr q)"
    "\<And>j. 0 < j \<Longrightarrow> j < 2 ^ shift \<Longrightarrow> node_ok g arr j \<or> (\<exists>i\<in>set is. \<exists>n>0. j = (2 ^ shift + i) div 2 ^ n) \<Longrightarrow> node_ok g arr' j"
  using assms(1,3)
proof (induction "is" arbitrary: arr thesis)
  case Nil
  then show ?case by simp
next
  case (Cons i "is")
  have "(2::nat) ^ shift \<le> 2 ^ 16" using assms(2) by (intro power_increasing) auto
  then have u: "unat (word_of_nat i :: u16) = i" using Cons.prems(3) [of i] by (simp add: unsigned_of_nat take_bit_nat_eq_self)
  have i: "unat (word_of_nat i :: u16) < 2 ^ shift" using Cons.prems(3) [of i] u by simp
  obtain a1 where a1: "min_arr_update shift g (word_of_nat i) (default_process_state (word_of_nat i)) arr = Some a1"
    "length a1 = NUM_ARR_NODES shift"
    "\<And>q. unat q < 2 ^ shift \<Longrightarrow> leaf shift g a1 q = (if q = word_of_nat i then default_process_state (word_of_nat i) else leaf shift g arr q)"
    "\<And>j. 0 < j \<Longrightarrow> j < 2 ^ shift \<Longrightarrow> node_ok g arr j \<or> (\<exists>n>0. j = (2 ^ shift + i) div 2 ^ n) \<Longrightarrow> node_ok g a1 j"
    by (rule min_arr_update_correct [OF i Cons.prems(2) default_fits, unfolded u]; (assumption | blast))
  obtain a2 where a2: "init_loop shift g is a1 = Some a2" "length a2 = NUM_ARR_NODES shift"
    "\<And>q. unat q < 2 ^ shift \<Longrightarrow> leaf shift g a2 q = (if unat q \<in> set is then default_process_state q else leaf shift g a1 q)"
    "\<And>j. 0 < j \<Longrightarrow> j < 2 ^ shift \<Longrightarrow> node_ok g a1 j \<or> (\<exists>i\<in>set is. \<exists>n>0. j = (2 ^ shift + i) div 2 ^ n) \<Longrightarrow> node_ok g a2 j"
    by (rule Cons.IH [OF _ a1(2)]; (use Cons.prems(3) in auto)?)
  show ?case
  proof (rule Cons.prems(1))
    show "init_loop shift g (i # is) arr = Some a2" using a1(1) a2(1) by simp
    show "leaf shift g a2 q = (if unat q \<in> set (i # is) then default_process_state q else leaf shift g arr q)"
      if q: "unat q < 2 ^ shift" for q
    proof -
      have "q = word_of_nat i \<longleftrightarrow> unat q = i" using u by auto
      with a1(3) [OF q] a2(3) [OF q] show ?thesis by auto
    qed
    show "node_ok g a2 j" if "0 < j" "j < 2 ^ shift"
      "node_ok g arr j \<or> (\<exists>i\<in>set (i # is). \<exists>n>0. j = (2 ^ shift + i) div 2 ^ n)" for j
      using that(3) a1(4) [OF that(1,2)] a2(4) [OF that(1,2)] by auto
  qed (rule a2(2))
qed

text \<open>Initialisation works on any contents: all leaves get their default state and every node becomes the
  minimum of its children.\<close>

lemma leaf_ancestors:
  fixes j :: nat
  assumes "0 < j" "j < 2 ^ shift"
  obtains i n where "i < 2 ^ shift" "0 < n" "j = (2 ^ shift + i) div 2 ^ n"
proof -
  obtain d where d: "2 ^ d \<le> j" "j < 2 ^ Suc d" using ex_power_ivl1 [of 2 j] assms(1) by auto
  have ds: "d < shift" using d(1) assms(2) power_less_imp_less_exp [of 2 d shift] by (meson le_less_trans one_less_numeral_iff semiring_norm(76))
  let ?n = "shift - d"
  have e: "(2::nat) ^ shift = 2 ^ d * 2 ^ ?n" using ds by (simp add: power_add [symmetric])
  have lo: "2 ^ shift \<le> j * 2 ^ ?n" unfolding e using d(1) by simp
  have "j * 2 ^ ?n < 2 ^ Suc d * 2 ^ ?n" using d(2) by simp
  also have "\<dots> = 2 * 2 ^ shift" by (simp add: e)
  finally have "j * 2 ^ ?n - 2 ^ shift < 2 ^ shift" using lo by linarith
  with that [of "j * 2 ^ ?n - 2 ^ shift" ?n] lo ds show ?thesis by simp
qed

lemma init_min_array_correct:
  assumes "length arr = NUM_ARR_NODES shift" "shift < 16"
  obtains arr' where "init_min_array shift g arr = Some arr'" "min_arr_ok shift g arr'"
    "\<And>q. unat q < 2 ^ shift \<Longrightarrow> leaf shift g arr' q = default_process_state q"
proof -
  have "(2::nat) ^ shift < 2 ^ 16" using assms(2) by (intro power_strict_increasing) auto
  then have n: "MINARR_MAX_NUM_PROCESSES shift mod 2 ^ 16 = 2 ^ shift" by (simp add: MINARR_MAX_NUM_PROCESSES_def)
  obtain arr' where a: "init_loop shift g [0..<2 ^ shift] arr = Some arr'" "length arr' = NUM_ARR_NODES shift"
    "\<And>q. unat q < 2 ^ shift \<Longrightarrow> leaf shift g arr' q = (if unat q \<in> set [0..<2 ^ shift] then default_process_state q else leaf shift g arr q)"
    "\<And>j. 0 < j \<Longrightarrow> j < 2 ^ shift \<Longrightarrow> node_ok g arr j \<or> (\<exists>i\<in>set [0..<2 ^ shift]. \<exists>n>0. j = (2 ^ shift + i) div 2 ^ n) \<Longrightarrow> node_ok g arr' j"
    by (rule init_loop_correct [OF assms(1), of "[0..<2 ^ shift]" g]) (use assms(2) in auto)
  have "node_ok g arr' j" if "0 < j" "j < 2 ^ shift" for j
    using leaf_ancestors [OF that] a(4) [OF that] by (metis atLeastLessThan_iff le0 set_upt)
  with a(2) have "min_arr_ok shift g arr'" by (simp add: min_arr_ok_def)
  moreover have "leaf shift g arr' q = default_process_state q" if "unat q < 2 ^ shift" for q using a(3) [OF that] that by simp
  ultimately show ?thesis using a(1) that by (simp only: init_min_array_def n)
qed

subsection \<open>Fields of a state\<close>

lemma bit_PROCESS_ID_MASK: "bit PROCESS_ID_MASK n \<longleftrightarrow> n < 16"
proof -
  have M: "PROCESS_ID_MASK = mask 16" by (simp add: PROCESS_ID_MASK_def mask_eq_exp_minus_1)
  show ?thesis unfolding M by (simp only: bit_mask_iff) auto
qed

lemma state_fields [codec_simps]:
  "get_process_id (default_process_state p) = p" "get_counter (default_process_state p) = COUNTER_INF"
  "get_process_id (compose_process_state t p) = p" "t \<le> COUNTER_INF \<Longrightarrow> get_counter (compose_process_state t p) = t"
proof -
  have p: "bit p n \<Longrightarrow> n < 16" for n using bit_imp_le_length [of p n] by simp
  have I: "COUNTER_INF = mask 47" by (simp add: COUNTER_INF_def mask_eq_exp_minus_1)
  show "get_process_id (default_process_state p) = p" "get_process_id (compose_process_state t p) = p"
    by (rule bit_word_eqI, force simp: get_process_id_def default_process_state_def compose_process_state_def bit_simps
        bit_PROCESS_ID_MASK bit_COUNTER_MASK dest: p)+
  show "get_counter (default_process_state p) = COUNTER_INF"
    unfolding I by (rule bit_word_eqI) (auto simp: get_counter_def default_process_state_def bit_simps bit_COUNTER_MASK dest: p simp del: mask_Suc_exp)
  show "get_counter (compose_process_state t p) = t" if "t \<le> COUNTER_INF"
  proof -
    have "unat t < 2 ^ 47" using that by (simp add: word_le_nat_alt COUNTER_INF_def)
    then have "unat (take_bit 47 t) = unat t" by (simp add: unsigned_take_bit_eq take_bit_nat_eq_self)
    then have "take_bit 47 t = t" by (rule unsigned_word_eqI)
    then have t: "bit t n \<Longrightarrow> n < 47" for n by (metis bit_take_bit_iff)
    show ?thesis
      by (intro bit_word_eqI) (auto simp: get_counter_def compose_process_state_def bit_simps bit_COUNTER_MASK dest: p t)
  qed
qed

lemma find_min_fields:
  "get_counter (find_min arr) = get_counter (node g arr 1)" "get_process_id (find_min arr) = get_process_id (node g arr 1)"
proof -
  have "find_min arr AND COUNTER_MASK = node g arr 1 AND COUNTER_MASK"
    "find_min arr AND PROCESS_ID_MASK = node g arr 1 AND PROCESS_ID_MASK"
    by (rule bit_word_eqI, force simp: find_min_def node_def pvalue_def pcas_read_noflush_def load_acquire_def bit_simps
        bit_COUNTER_MASK bit_PROCESS_ID_MASK bit_CLEAR Let_def)+
  then show "get_counter (find_min arr) = get_counter (node g arr 1)" "get_process_id (find_min arr) = get_process_id (node g arr 1)"
    by (simp_all add: get_counter_def get_process_id_def)
qed

lemma get_counter_take_bit: "get_counter v = take_bit 47 (drop_bit 16 v)"
  by (rule bit_word_eqI) (auto simp: get_counter_def bit_simps bit_COUNTER_MASK)

lemma unat_get_counter: "plain v \<Longrightarrow> unat (get_counter v) = unat v div 2 ^ 16"
proof -
  assume p: "plain v"
  have "take_bit 63 v = v"
  proof (rule bit_word_eqI)
    fix n assume "n < LENGTH(64)"
    then have "n < 63 \<or> n = 63" by auto
    then show "bit (take_bit 63 v) n = bit v n" using p by (auto simp: plain_bit bit_simps)
  qed
  moreover have "unat (take_bit 63 v) < 2 ^ 63" by (simp only: unsigned_take_bit_eq take_bit_nat_less_exp)
  ultimately have "unat v < 2 ^ 63" by simp
  then have "unat v div 2 ^ 16 < 2 ^ 47" by (simp add: less_mult_imp_div_less)
  then show ?thesis
    unfolding get_counter_take_bit unsigned_take_bit_eq unat_drop_bit_eq by (simp only: drop_bit_eq_div take_bit_nat_eq_self)
qed

lemma get_counter_mono: "plain v \<Longrightarrow> plain w \<Longrightarrow> v \<le> w \<Longrightarrow> get_counter v \<le> get_counter w"
  by (simp add: word_le_nat_alt unat_get_counter div_le_mono)

lemma get_counter_le: "get_counter v \<le> COUNTER_INF"
proof -
  have "unat (take_bit 47 (drop_bit 16 v)) < 2 ^ 47" by (simp only: unsigned_take_bit_eq take_bit_nat_less_exp)
  moreover have "unat COUNTER_INF = 2 ^ 47 - 1" by (simp add: COUNTER_INF_def)
  ultimately show ?thesis by (simp add: get_counter_take_bit word_le_nat_alt)
qed

subsection \<open>Properties\<close>

text \<open>A sequence of updates, and the state of a process after it.\<close>

fun min_arr_updates :: "nat \<Rightarrow> granularity \<Rightarrow> (u16 \<times> u64) list \<Rightarrow> min_array \<Rightarrow> min_array option" where
  "min_arr_updates shift g [] arr = Some arr"
| "min_arr_updates shift g ((p, st) # us) arr =
     (case min_arr_update shift g p st arr of None \<Rightarrow> None | Some arr \<Rightarrow> min_arr_updates shift g us arr)"

fun state_after :: "(u16 \<times> u64) list \<Rightarrow> (u16 \<Rightarrow> u64) \<Rightarrow> u16 \<Rightarrow> u64" where
  "state_after [] f = f"
| "state_after ((p, st) # us) f = state_after us (f(p := st))"

lemma state_after_cong: "(\<And>q. unat q < n \<Longrightarrow> f q = h q) \<Longrightarrow> unat q < n \<Longrightarrow> state_after us f q = state_after us h q"
proof (induction us arbitrary: f h)
  case (Cons u us)
  obtain p st where u: "u = (p, st)" by (cases u)
  show ?case unfolding u state_after.simps by (rule Cons.IH) (use Cons.prems in auto)
qed simp

lemma min_arr_updates_correct:
  assumes "min_arr_ok shift g arr" "\<And>p st. (p, st) \<in> set us \<Longrightarrow> unat p < 2 ^ shift \<and> fits g st"
  obtains arr' where "min_arr_updates shift g us arr = Some arr'" "min_arr_ok shift g arr'"
    "\<And>q. unat q < 2 ^ shift \<Longrightarrow> leaf shift g arr' q = state_after us (leaf shift g arr) q"
  using assms
proof (induction us arbitrary: arr thesis)
  case Nil
  then show ?case by simp
next
  case (Cons u us)
  obtain p st where u: "u = (p, st)" by (cases u)
  with Cons.prems(3) [of p st] have p: "unat p < 2 ^ shift" "fits g st" by simp_all
  have len: "length arr = NUM_ARR_NODES shift" using Cons.prems(2) by (simp add: min_arr_ok_def)
  obtain a1 where a1: "min_arr_update shift g p st arr = Some a1" "length a1 = NUM_ARR_NODES shift"
    "\<And>q. unat q < 2 ^ shift \<Longrightarrow> leaf shift g a1 q = (if q = p then st else leaf shift g arr q)"
    "\<And>j. 0 < j \<Longrightarrow> j < 2 ^ shift \<Longrightarrow> node_ok g arr j \<or> (\<exists>n>0. j = (2 ^ shift + unat p) div 2 ^ n) \<Longrightarrow> node_ok g a1 j"
    by (rule min_arr_update_correct [OF p(1) len p(2)]) blast
  have ok: "min_arr_ok shift g a1" using Cons.prems(2) a1(2,4) by (simp add: min_arr_ok_def)
  obtain a2 where a2: "min_arr_updates shift g us a1 = Some a2" "min_arr_ok shift g a2"
    "\<And>q. unat q < 2 ^ shift \<Longrightarrow> leaf shift g a2 q = state_after us (leaf shift g a1) q"
    by (rule Cons.IH [OF _ ok]) (use Cons.prems(3) in auto)
  show ?case
  proof (rule Cons.prems(1) [OF _ a2(2)])
    show "min_arr_updates shift g (u # us) arr = Some a2" using a1(1) a2(1) by (simp add: u)
    show "leaf shift g a2 q = state_after (u # us) (leaf shift g arr) q" if q: "unat q < 2 ^ shift" for q
      using a2(3) [OF q] state_after_cong [of "2 ^ shift" "leaf shift g a1" "(leaf shift g arr)(p := st)" q us] a1(3) q
      by (simp add: u)
  qed
qed

text \<open>C29: The root of the array is the minimum. Initialising an array of arbitrary contents and then updating
  any processes of the array in any order always returns (the climb to the root ends), and then the root holds
  the state of one of the processes, at most the state of every process; a process never updated has its
  default state.\<close>

theorem find_min_is_minimum:
  assumes "length arr = NUM_ARR_NODES shift" "shift < 16"
    and "\<And>p st. (p, st) \<in> set us \<Longrightarrow> unat p < 2 ^ shift \<and> plain st"
  shows "\<exists>arr0 arr'. init_min_array shift g arr = Some arr0 \<and> min_arr_updates shift g us arr0 = Some arr' \<and>
    (\<exists>p. unat p < 2 ^ shift \<and> get_counter (find_min arr') = get_counter (state_after us default_process_state p) \<and>
       get_process_id (find_min arr') = get_process_id (state_after us default_process_state p) \<and>
       (\<forall>q. unat q < 2 ^ shift \<longrightarrow> state_after us default_process_state p \<le> state_after us default_process_state q))"
proof -
  obtain a0 where a0: "init_min_array shift g arr = Some a0" "min_arr_ok shift g a0"
    "\<And>q. unat q < 2 ^ shift \<Longrightarrow> leaf shift g a0 q = default_process_state q"
    by (rule init_min_array_correct [OF assms(1,2)]) blast
  obtain a1 where a1: "min_arr_updates shift g us a0 = Some a1" "min_arr_ok shift g a1"
    "\<And>q. unat q < 2 ^ shift \<Longrightarrow> leaf shift g a1 q = state_after us (leaf shift g a0) q"
    by (rule min_arr_updates_correct [OF a0(2), of us]) (use assms(3) in \<open>auto simp: fits_def\<close>)
  have lf: "leaf shift g a1 q = state_after us default_process_state q" if "unat q < 2 ^ shift" for q
    using a1(3) [OF that] state_after_cong [OF a0(3) that] by simp
  note m = root_is_min [OF a1(2) less_imp_le [OF assms(2)]]
  obtain p where p: "unat p < 2 ^ shift" "node g a1 1 = leaf shift g a1 p" using m(2) by blast
  have "state_after us default_process_state p \<le> state_after us default_process_state q" if "unat q < 2 ^ shift" for q
    using m(1) [OF that] p lf [OF p(1)] lf [OF that] by simp
  moreover have "get_counter (find_min a1) = get_counter (state_after us default_process_state p)"
    "get_process_id (find_min a1) = get_process_id (state_after us default_process_state p)"
    using find_min_fields [of a1 g] p lf [OF p(1)] by simp_all
  ultimately show ?thesis using a0(1) a1(1) p(1) by blast
qed

theorem find_min_is_minimum_witness:
  "\<exists>arr0 arr'. init_min_array 2 CACHELINE_GRANULAR (replicate 7 \<lparr>cached = 0, media = 0\<rparr>) = Some arr0 \<and>
     min_arr_updates 2 CACHELINE_GRANULAR [(1, 0x50001), (3, 0x40003), (3, default_process_state 3)] arr0 = Some arr' \<and>
     get_process_id (find_min arr') = 1"
proof -
  let ?us = "[(1, 0x50001), (3, 0x40003), (3, default_process_state 3)] :: (u16 \<times> u64) list"
  have us: "(p, st) \<in> set ?us \<Longrightarrow> unat p < 2 ^ 2 \<and> plain st" for p st
    using default_fits [of CACHELINE_GRANULAR 3] by (auto simp: fits_def plain_def DIRTY_def)
  obtain arr0 arr' p where a: "init_min_array 2 CACHELINE_GRANULAR (replicate 7 \<lparr>cached = 0, media = 0\<rparr>) = Some arr0"
    "min_arr_updates 2 CACHELINE_GRANULAR ?us arr0 = Some arr'" "unat p < 2 ^ 2"
    "get_process_id (find_min arr') = get_process_id (state_after ?us default_process_state p)"
    "\<forall>q. unat q < 2 ^ 2 \<longrightarrow> state_after ?us default_process_state p \<le> state_after ?us default_process_state q"
    using find_min_is_minimum [of "replicate 7 \<lparr>cached = 0, media = 0\<rparr>" 2 ?us CACHELINE_GRANULAR] us
    by (auto simp: NUM_ARR_NODES_def)
  have "p = 1"
  proof (rule ccontr)
    assume "p \<noteq> 1"
    then have "state_after ?us default_process_state p = default_process_state p" by simp
    moreover have "state_after ?us default_process_state 1 = 0x50001" by simp
    ultimately have "default_process_state p \<le> 0x50001" using a(5) [rule_format, of 1] by simp
    moreover have "plain (0x50001 :: u64)" "plain (default_process_state p)"
      using default_fits [of CACHELINE_GRANULAR p] by (simp_all add: fits_def plain_def DIRTY_def)
    ultimately have "COUNTER_INF \<le> get_counter 0x50001" using get_counter_mono by (metis state_fields(2))
    then show False by (simp add: word_le_nat_alt get_counter_def COUNTER_MASK_def COUNTER_INF_def)
  qed
  with a show ?thesis by (auto simp: get_process_id_def PROCESS_ID_MASK_def)
qed

end
