(* ===== verification/Abortable_Spec.thy ===== *)
theory Abortable_Spec
  imports Lock_Spec
begin

text \<open>
  Processes that compete for an abortable recoverable lock. Both such locks of the program
  (\<^verbatim>\<open>jj_abortable_spin.h\<close>, \<^verbatim>\<open>jj_ab_wport_spin.h\<close>) are driven by the same pattern of accesses to one status word;
  they differ in the contents of the word and in how waiting processes are recorded. The step relation
  has one step for each access to the word, so that the accesses of different processes interleave in
  any order; what records the waiting processes may change at any time, by any process, and a promotion
  may choose any process. The contract is what the accesses must do to the owner the word names; mutual
  exclusion follows.
\<close>

subsection \<open>Steps\<close>

text \<open>Where a process is: the pending parts of an operation. After a promotion it goes on with the check of
  \<open>tryenter\<close>, the check of \<open>abort\<close> (on recovery, \<open>True\<close>, its result is ignored) or returns. A pending exchange
  remembers the status read before, a pending release what the exit has read.\<close>

datatype ab_goal = To_Check | To_Abort_Check bool | To_Out

datatype ('c, 'p) ab_pc = Out | Register | Promote bool ab_goal | Swap 'c 'p ab_goal | Check | Wait | Final
  | Withdraw bool | Abort_Check bool | In_Section | Leave 'c | Dead

record ('l, 'c, 'p) ab_sys =
  ab_lock :: 'l
  ab_pc :: "'p \<Rightarrow> ('c, 'p) ab_pc"

primrec after_goal :: "ab_goal \<Rightarrow> ('c, 'p) ab_pc" where
  "after_goal To_Check = Check"
| "after_goal (To_Abort_Check r) = Abort_Check r"
| "after_goal To_Out = Out"

definition ab_goto :: "('l, 'c, 'p) ab_sys \<Rightarrow> 'p \<Rightarrow> ('c, 'p) ab_pc \<Rightarrow> 'l \<Rightarrow> ('l, 'c, 'p) ab_sys" where
  "ab_goto s p pc lock = s \<lparr>ab_lock := lock, ab_pc := (ab_pc s)(p := pc)\<rparr>"

text \<open>The accesses of a lock: the read of the status word, whether a status names a process, whether it is
  free, the exchange from a free status to a process, what an exit reads first, its write, and what may
  change without touching the word.\<close>

inductive ab_step ::
  "('l \<Rightarrow> 'c \<times> 'l) \<Rightarrow> ('c \<Rightarrow> 'p \<Rightarrow> bool) \<Rightarrow> ('c \<Rightarrow> bool) \<Rightarrow> ('c \<Rightarrow> 'p \<Rightarrow> 'l \<Rightarrow> 'l) \<Rightarrow> ('l \<Rightarrow> 'c \<times> 'l) \<Rightarrow> ('c \<Rightarrow> 'l \<Rightarrow> 'l) \<Rightarrow>
   ('l \<Rightarrow> 'l \<Rightarrow> bool) \<Rightarrow> ('l, 'c, 'p) ab_sys \<Rightarrow> ('l, 'c, 'p) ab_sys \<Rightarrow> bool"
  for read owned free swap leave release other where
  other: "other (ab_lock s) lock \<Longrightarrow> ab_step read owned free swap leave release other s (s \<lparr>ab_lock := lock\<rparr>)"
| recover: "ab_pc s p = Out \<Longrightarrow> read (ab_lock s) = (c, lock) \<Longrightarrow>
    ab_step read owned free swap leave release other s (ab_goto s p (if owned c p then Withdraw True else Out) lock)"
| call: "ab_pc s p = Out \<Longrightarrow> read (ab_lock s) = (c, lock) \<Longrightarrow>
    ab_step read owned free swap leave release other s (ab_goto s p (if owned c p then In_Section else Register) lock)"
| register: "ab_pc s p = Register \<Longrightarrow>
    ab_step read owned free swap leave release other s (ab_goto s p (Promote False To_Check) (ab_lock s))"
| promote: "ab_pc s p = Promote flag goal \<Longrightarrow> read (ab_lock s) = (c, lock) \<Longrightarrow>
    pc = after_goal goal \<or> free c \<and> (\<exists>peer. pc = Swap c peer goal) \<Longrightarrow>
    ab_step read owned free swap leave release other s (ab_goto s p pc lock)"
| swap: "ab_pc s p = Swap c peer goal \<Longrightarrow>
    ab_step read owned free swap leave release other s (ab_goto s p (after_goal goal) (swap c peer (ab_lock s)))"
| check: "ab_pc s p = Check \<Longrightarrow> read (ab_lock s) = (c, lock) \<Longrightarrow> pc \<in> {Wait, Out} \<Longrightarrow>
    ab_step read owned free swap leave release other s (ab_goto s p (if owned c p then In_Section else pc) lock)"
| wait: "ab_pc s p = Wait \<Longrightarrow> read (ab_lock s) = (c, lock) \<Longrightarrow> pc \<in> {Wait, Final} \<Longrightarrow>
    ab_step read owned free swap leave release other s (ab_goto s p (if owned c p then Final else pc) lock)"
| final: "ab_pc s p = Final \<Longrightarrow> read (ab_lock s) = (c, lock) \<Longrightarrow>
    ab_step read owned free swap leave release other s (ab_goto s p (if owned c p then In_Section else Withdraw False) lock)"
| withdraw: "ab_pc s p = Withdraw r \<Longrightarrow>
    ab_step read owned free swap leave release other s (ab_goto s p (Promote True (To_Abort_Check r)) (ab_lock s))"
| abort_check: "ab_pc s p = Abort_Check r \<Longrightarrow> read (ab_lock s) = (c, lock) \<Longrightarrow>
    ab_step read owned free swap leave release other s (ab_goto s p (if owned c p \<and> \<not> r then In_Section else Out) lock)"
| leave: "ab_pc s p = In_Section \<Longrightarrow> leave (ab_lock s) = (c, lock) \<Longrightarrow>
    ab_step read owned free swap leave release other s (ab_goto s p (Leave c) lock)"
| release: "ab_pc s p = Leave c \<Longrightarrow>
    ab_step read owned free swap leave release other s (ab_goto s p (Promote False To_Out) (release c (ab_lock s)))"
| crash: "ab_step read owned free swap leave release other s (ab_goto s p Dead (ab_lock s))"
| restart: "ab_pc s p = Dead \<Longrightarrow> ab_step read owned free swap leave release other s (ab_goto s p Out (ab_lock s))"

definition ab_start :: "('l \<Rightarrow> bool) \<Rightarrow> ('l, 'c, 'p) ab_sys \<Rightarrow> bool" where
  "ab_start init s \<longleftrightarrow> init (ab_lock s) \<and> (\<forall>p. ab_pc s p = Out)"

text \<open>In the critical section, up to the write that releases the lock.\<close>

fun section_pc :: "('c, 'p) ab_pc \<Rightarrow> bool" where
  "section_pc In_Section = True"
| "section_pc (Leave c) = True"
| "section_pc _ = False"

definition ab_inside :: "('l, 'c, 'p) ab_sys \<Rightarrow> 'p \<Rightarrow> bool" where
  "ab_inside s p \<longleftrightarrow> section_pc (ab_pc s p)"

definition ab_inv :: "('l \<Rightarrow> 'p \<Rightarrow> bool) \<Rightarrow> ('l, 'c, 'p) ab_sys \<Rightarrow> bool" where
  "ab_inv owner s \<longleftrightarrow> (\<forall>p. ab_inside s p \<longrightarrow> owner (ab_lock s) p)"

lemma ab_goto_sel [simp]: "ab_lock (ab_goto s p pc l) = l" "ab_pc (ab_goto s p pc l) = (ab_pc s)(p := pc)"
  by (simp_all add: ab_goto_def)

lemma after_goal_outside [simp]: "\<not> section_pc (after_goal goal)"
  by (cases goal; simp)

text \<open>A step of \<open>p\<close> that keeps the owner, and lets \<open>p\<close> inside only when the word names it.\<close>

lemma ab_inv_goto:
  assumes "ab_inv owner s" "owner l = owner (ab_lock s)" "section_pc pc \<Longrightarrow> owner (ab_lock s) p"
  shows "ab_inv owner (ab_goto s p pc l)"
  using assms by (simp add: ab_inv_def ab_inside_def)

subsection \<open>The contract\<close>

locale abortable_lock =
  fixes init :: "'l \<Rightarrow> bool"
    and read :: "'l \<Rightarrow> 'c \<times> 'l" and owned :: "'c \<Rightarrow> 'p \<Rightarrow> bool" and free :: "'c \<Rightarrow> bool"
    and swap :: "'c \<Rightarrow> 'p \<Rightarrow> 'l \<Rightarrow> 'l" and leave :: "'l \<Rightarrow> 'c \<times> 'l" and release :: "'c \<Rightarrow> 'l \<Rightarrow> 'l"
    and other :: "'l \<Rightarrow> 'l \<Rightarrow> bool" and owner :: "'l \<Rightarrow> 'p \<Rightarrow> bool"
  assumes owner_unique: "owner l p \<Longrightarrow> owner l q \<Longrightarrow> p = q"
    and read_owner: "read l = (c, l') \<Longrightarrow> owner l' = owner l"
    and read_owned: "read l = (c, l') \<Longrightarrow> owned c p \<longleftrightarrow> owner l p"
    and other_owner: "other l l' \<Longrightarrow> owner l' = owner l"
    and swap_taken: "owner l q \<Longrightarrow> owner (swap c p l) = owner l"
    and leave_owner: "leave l = (c, l') \<Longrightarrow> owner l' = owner l"
begin

lemma ab_step_inv:
  assumes "ab_step read owned free swap leave release other s t" "ab_inv owner s"
  shows "ab_inv owner t"
  using assms
proof (induction rule: ab_step.induct)
  case (other s lock)
  then show ?case using other_owner [OF other(1)] by (simp add: ab_inv_def ab_inside_def)
next
  case (recover s p c lock)
  show ?case by (rule ab_inv_goto [OF recover(3) read_owner [OF recover(2)]]) (simp split: if_splits)
next
  case (call s p c lock)
  show ?case
    by (rule ab_inv_goto [OF call(3) read_owner [OF call(2)]]) (simp add: read_owned [OF call(2)] split: if_splits)
next
  case (register s p)
  show ?case by (rule ab_inv_goto [OF register(2) refl]) simp
next
  case (promote s p flag goal c lock pc)
  have "\<not> section_pc pc" using promote(3) by auto
  then show ?case by (intro ab_inv_goto [OF promote(4) read_owner [OF promote(2)]]) blast
next
  case (swap s p c peer goal)
  show ?case
  proof (cases "\<exists>q. owner (ab_lock s) q")
    case True
    then obtain q where "owner (ab_lock s) q" ..
    from swap_taken [OF this] show ?thesis by (intro ab_inv_goto [OF swap(2)]) simp_all
  next
    case False
    then have "\<not> ab_inside s q" for q using swap(2) by (auto simp: ab_inv_def)
    then show ?thesis by (simp add: ab_inv_def ab_inside_def)
  qed
next
  case (check s p c lock pc)
  show ?case
    by (rule ab_inv_goto [OF check(4) read_owner [OF check(2)]])
      (use check(3) in \<open>auto simp: read_owned [OF check(2)] split: if_splits\<close>)
next
  case (wait s p c lock pc)
  show ?case by (rule ab_inv_goto [OF wait(4) read_owner [OF wait(2)]]) (use wait(3) in \<open>auto split: if_splits\<close>)
next
  case (final s p c lock)
  show ?case
    by (rule ab_inv_goto [OF final(3) read_owner [OF final(2)]]) (simp add: read_owned [OF final(2)] split: if_splits)
next
  case (withdraw s p r)
  show ?case by (rule ab_inv_goto [OF withdraw(2) refl]) simp
next
  case (abort_check s p r c lock)
  show ?case
    by (rule ab_inv_goto [OF abort_check(3) read_owner [OF abort_check(2)]])
      (simp add: read_owned [OF abort_check(2)] split: if_splits)
next
  case (leave s p c lock)
  have "owner (ab_lock s) p" using leave(1,3) by (simp add: ab_inv_def ab_inside_def)
  then show ?case by (intro ab_inv_goto [OF leave(3) leave_owner [OF leave(2)]])
next
  case (release s p c)
  then have own: "ab_inside s q \<Longrightarrow> owner (ab_lock s) q" for q by (simp add: ab_inv_def)
  have "ab_inside s p" using release(1) by (simp add: ab_inside_def)
  with own have "\<not> ab_inside s q" if "q \<noteq> p" for q using owner_unique that by blast
  then show ?case by (simp add: ab_inv_def ab_inside_def)
next
  case (crash s p)
  show ?case by (rule ab_inv_goto [OF crash refl]) simp
next
  case (restart s p)
  show ?case by (rule ab_inv_goto [OF restart(2) refl]) simp
qed

end

sublocale abortable_lock \<subseteq> owned_lock "ab_start init" "ab_step read owned free swap leave release other" "ab_inv owner"
  ab_inside "\<lambda>s. owner (ab_lock s)"
proof unfold_locales
  show "ab_start init s \<Longrightarrow> ab_inv owner s" for s by (simp add: ab_start_def ab_inv_def ab_inside_def)
  show "ab_inv owner s \<Longrightarrow> ab_step read owned free swap leave release other s t \<Longrightarrow> ab_inv owner t" for s t by (rule ab_step_inv)
  show "ab_inv owner s \<Longrightarrow> ab_inside s p \<Longrightarrow> owner (ab_lock s) p" for s p by (simp add: ab_inv_def)
  show "owner (ab_lock s) p \<Longrightarrow> owner (ab_lock s) q \<Longrightarrow> p = q" for s p q by (rule owner_unique)
qed

text \<open>A process that finds a fresh lock free enters it.\<close>

context abortable_lock
begin

lemma ab_enters:
  assumes "init l" "\<not> owner l p" "read l = (c1, l1)" "read l1 = (c2, l2)" "free c2" "owner (swap c2 p l2) p"
  shows "\<exists>s. reach (ab_start init) (ab_step read owned free swap leave release other) s \<and> ab_inside s p"
proof -
  let ?step = "ab_step read owned free swap leave release other" and ?reach = "reach (ab_start init) (ab_step read owned free swap leave release other)"
  define s0 :: "('l, 'c, 'p) ab_sys" where "s0 = \<lparr>ab_lock = l, ab_pc = \<lambda>_. Out\<rparr>"
  define s1 where "s1 = ab_goto s0 p Register l1"
  define s2 where "s2 = ab_goto s1 p (Promote False To_Check) l1"
  define s3 where "s3 = ab_goto s2 p (Swap c2 p To_Check) l2"
  define s4 where "s4 = ab_goto s3 p Check (swap c2 p l2)"
  obtain c5 l5 where r5: "read (swap c2 p l2) = (c5, l5)" by (cases "read (swap c2 p l2)")
  have "?reach s0" using assms(1) by (intro start) (simp add: ab_start_def s0_def)
  moreover have "?step s0 s1"
    using ab_step.call [of s0 p read c1 l1 owned free swap leave release other] assms(2,3) read_owned [OF assms(3), of p]
    by (simp add: s0_def s1_def)
  ultimately have "?reach s1" by (rule reach.step)
  moreover have "?step s1 s2"
    using ab_step.register [of s1 p read owned free swap leave release other] by (simp add: s1_def s2_def)
  ultimately have "?reach s2" by (rule reach.step)
  moreover have "?step s2 s3"
    unfolding s3_def by (rule ab_step.promote [where goal = To_Check and flag = False]) (use assms(4,5) in \<open>auto simp: s2_def\<close>)
  ultimately have "?reach s3" by (rule reach.step)
  moreover have "?step s3 s4"
    using ab_step.swap [of s3 p c2 p To_Check read owned free swap leave release other] by (simp add: s3_def s4_def)
  ultimately have "?reach s4" by (rule reach.step)
  moreover have "?step s4 (ab_goto s4 p In_Section l5)"
    using ab_step.check [of s4 p read c5 l5 Out owned free swap leave release other] r5 read_owned [OF r5, of p] assms(6)
    by (simp add: s4_def)
  ultimately have "?reach (ab_goto s4 p In_Section l5)" by (rule reach.step)
  then show ?thesis by (intro exI conjI) (assumption, simp add: ab_inside_def)
qed

end

end
