(* ===== verification/JJ_Lock.thy ===== *)
theory JJ_Lock
  imports TTAS_Lock Min_Array Abortable_Spec
begin

text \<open>
  The abortable recoverable lock of \<^verbatim>\<open>src/src/common/jj_ab_spin/jj_abortable_spin.h\<close>, its user-space and
  kernel entry points. The word \<open>cs_status\<close> is either free with a sequence number or taken by a
  process; a process that wants to enter draws a token, registers it in the array with minimum and
  promotes: whoever finds the word free gives it to the registered process with the least token.

  The variant with a \<open>go\<close> array (\<^verbatim>\<open>ORIG_JJ_LOCK\<close>) is not compiled in. \<open>None\<close> is a process number outside
  the array. Interference between the accesses of one operation is modelled by the step relation
  further down; the operations themselves run alone, except for the spinning loop of \<open>jj_spinlock_enter\<close>,
  which takes the changes other processes make between its reads.
\<close>

unbundle bit_operations_syntax

subsection \<open>Operations\<close>

record jj_spinlock =
  jj_cs_status :: "u64 pcell"
  jj_token :: "u64 pcell"
  jj_seq :: "u64 pcell"
  jj_min_arr :: min_array

definition jj_read_status :: "granularity \<Rightarrow> jj_spinlock \<Rightarrow> cs_status \<times> jj_spinlock" where
  "jj_read_status g lock =
     (case read_decompose_cs_status g (jj_cs_status lock) of (cs, c) \<Rightarrow> (cs, lock \<lparr>jj_cs_status := c\<rparr>))"

definition owned_by :: "cs_status \<Rightarrow> u16 \<Rightarrow> bool" where
  "owned_by cs process_id \<longleftrightarrow> cs_b cs \<noteq> 0 \<and> cs_s cs = ucast process_id"

text \<open>The second component is what is stored through \<open>peer_out\<close>, nothing when the word is taken.\<close>

definition jj_spinlock_promote ::
  "granularity \<Rightarrow> u16 \<Rightarrow> bool \<Rightarrow> jj_spinlock \<Rightarrow> bool \<times> u64 option \<times> jj_spinlock" where
  "jj_spinlock_promote g process_id flag lock =
     (let (cs_status, lock) = jj_read_status g lock
      in if cs_b cs_status = 0 then
           let m = find_min (jj_min_arr lock);
               token = get_counter m;
               peer = get_process_id m
           in if token = COUNTER_INF \<and> \<not> flag then (False, Some 0, lock)
              else
                let peer = (if token = COUNTER_INF then process_id else peer);
                    exp_cs_status = compose_cs_status False (cs_s cs_status);
                    desire_cs_status = compose_cs_status True (ucast peer);
                    (ok, _, c) = atomic_cmpxchg_cs_status g (jj_cs_status lock) exp_cs_status desire_cs_status;
                    lock = lock \<lparr>jj_cs_status := c\<rparr>
                in if \<not> ok then (False, Some 0, lock) else (True, Some (ucast peer), lock)
         else (False, None, lock))"

definition jj_register :: "nat \<Rightarrow> granularity \<Rightarrow> u16 \<Rightarrow> u64 \<Rightarrow> jj_spinlock \<Rightarrow> jj_spinlock option" where
  "jj_register shift g process_id state lock =
     map_option (\<lambda>arr. lock \<lparr>jj_min_arr := arr\<rparr>) (min_arr_update shift g process_id state (jj_min_arr lock))"

definition jj_spinlock_abort :: "nat \<Rightarrow> granularity \<Rightarrow> u16 \<Rightarrow> jj_spinlock \<Rightarrow> (bool \<times> jj_spinlock) option" where
  "jj_spinlock_abort shift g process_id lock =
     (case jj_register shift g process_id (default_process_state process_id) lock of
        None \<Rightarrow> None
      | Some lock \<Rightarrow>
          let (_, _, lock) = jj_spinlock_promote g process_id True lock;
              (cs, lock) = jj_read_status g lock
          in Some (\<not> owned_by cs process_id, lock))"

definition jj_draw_token :: "granularity \<Rightarrow> jj_spinlock \<Rightarrow> u64 \<times> jj_spinlock" where
  "jj_draw_token g lock =
     (let (token, c) = pcas_read_uint64 g (jj_token lock);
          (_, _, c) = persist_cas_uint64 g c token (token + 1)
      in (token, lock \<lparr>jj_token := c\<rparr>))"

definition jj_spinlock_tryenter :: "nat \<Rightarrow> granularity \<Rightarrow> u16 \<Rightarrow> jj_spinlock \<Rightarrow> (bool \<times> jj_spinlock) option" where
  "jj_spinlock_tryenter shift g process_id lock =
     (let (cs_status, lock) = jj_read_status g lock
      in if owned_by cs_status process_id then Some (True, lock)
         else
           let (token, lock) = jj_draw_token g lock
           in case jj_register shift g process_id (compose_process_state token process_id) lock of
                None \<Rightarrow> None
              | Some lock \<Rightarrow>
                  let (_, _, lock) = jj_spinlock_promote g process_id False lock;
                      (cs_status, lock) = jj_read_status g lock
                  in Some (owned_by cs_status process_id, lock))"

definition jj_spinlock_recover :: "nat \<Rightarrow> granularity \<Rightarrow> u16 \<Rightarrow> jj_spinlock \<Rightarrow> jj_spinlock option" where
  "jj_spinlock_recover shift g process_id lock =
     (let (cs_status, lock) = jj_read_status g lock
      in if owned_by cs_status process_id then map_option snd (jj_spinlock_abort shift g process_id lock) else Some lock)"

text \<open>The loop returns the changes it has not used.\<close>

type_synonym jj_env = "(jj_spinlock \<Rightarrow> jj_spinlock) list"

fun jj_wait_loop :: "granularity \<Rightarrow> u16 \<Rightarrow> (u32 \<Rightarrow> bool) \<Rightarrow> u32 \<Rightarrow> jj_env \<Rightarrow> jj_spinlock \<Rightarrow> (jj_env \<times> jj_spinlock) outcome" where
  "jj_wait_loop g process_id abort_signal counter [] lock = Blocked"
| "jj_wait_loop g process_id abort_signal counter (e # es) lock =
     (let (cs_st, lock) = jj_read_status g (e lock)
      in if owned_by cs_st process_id then Done (es, lock)
         else if abort_signal counter then Done (es, lock)
         else jj_wait_loop g process_id abort_signal (counter + 1) es lock)"

definition jj_spinlock_enter ::
  "nat \<Rightarrow> granularity \<Rightarrow> u16 \<Rightarrow> (u32 \<Rightarrow> bool) \<Rightarrow> jj_env \<Rightarrow> jj_spinlock \<Rightarrow> (bool \<times> jj_spinlock) outcome" where
  "jj_spinlock_enter shift g process_id abort_signal es lock =
     (case jj_spinlock_tryenter shift g process_id lock of
        None \<Rightarrow> Bug
      | Some (got_lock, lock) \<Rightarrow>
          bind_outcome (if \<not> got_lock then jj_wait_loop g process_id abort_signal 0 es lock else Done (es, lock)) (\<lambda>(es, lock).
            let (cs_st, lock) = jj_read_status g (case es of [] \<Rightarrow> lock | e # _ \<Rightarrow> e lock)
            in if owned_by cs_st process_id then Done (True, lock)
               else case jj_spinlock_abort shift g process_id lock of
                      None \<Rightarrow> Bug
                    | Some (aborted, lock) \<Rightarrow> Done (\<not> aborted, lock)))"

text \<open>The two writes of a release, and the release.\<close>

definition jj_release :: "granularity \<Rightarrow> jj_spinlock \<Rightarrow> jj_spinlock" where
  "jj_release g lock =
     (let (s, c) = pcas_read_uint64 g (jj_seq lock);
          c = persist_atomic_write_uint64 g c (s + 1)
      in lock \<lparr>jj_seq := c, jj_cs_status := write_cs_status g (jj_cs_status lock) (compose_cs_status False (s + 1))\<rparr>)"

definition jj_spinlock_exit ::
  "nat \<Rightarrow> granularity \<Rightarrow> u16 \<Rightarrow> jj_spinlock \<Rightarrow> (bool \<times> u64 option \<times> jj_spinlock) option" where
  "jj_spinlock_exit shift g process_id lock =
     (case jj_register shift g process_id (default_process_state process_id) lock of
        None \<Rightarrow> None
      | Some lock \<Rightarrow> Some (jj_spinlock_promote g process_id False (jj_release g lock)))"

definition jj_spinlock_init :: "nat \<Rightarrow> granularity \<Rightarrow> jj_spinlock \<Rightarrow> jj_spinlock option" where
  "jj_spinlock_init shift g lock =
     map_option (\<lambda>arr.
        \<lparr>jj_cs_status = shmem_output_cacheline g (store_release g (jj_cs_status lock) (compose_cs_status False 1)),
         jj_token = shmem_output_cacheline g (store_release g (jj_token lock) 1),
         jj_seq = shmem_output_cacheline g (store_release g (jj_seq lock) 1),
         jj_min_arr = map (shmem_output_cacheline g) arr\<rparr>)
       (init_min_array shift g (jj_min_arr lock))"

subsection \<open>Entry points\<close>

definition jj_spin_lock :: "nat \<Rightarrow> granularity \<Rightarrow> u16 \<Rightarrow> jj_env \<Rightarrow> jj_spinlock \<Rightarrow> jj_spinlock outcome" where
  "jj_spin_lock shift g process_id es lock =
     (case jj_spinlock_recover shift g process_id lock of
        None \<Rightarrow> Bug
      | Some lock \<Rightarrow>
          bind_outcome (jj_spinlock_enter shift g process_id spin_no_abort es lock)
            (\<lambda>(ret, lock). if ret then Done lock else Bug))"

definition jj_spin_unlock :: "nat \<Rightarrow> granularity \<Rightarrow> u16 \<Rightarrow> jj_spinlock \<Rightarrow> jj_spinlock option" where
  "jj_spin_unlock shift g process_id lock = map_option (\<lambda>(_, _, lock). lock) (jj_spinlock_exit shift g process_id lock)"

definition jj_spin_trylock :: "nat \<Rightarrow> granularity \<Rightarrow> u16 \<Rightarrow> jj_spinlock \<Rightarrow> (bool \<times> jj_spinlock) option" where
  "jj_spin_trylock shift g process_id lock =
     (case jj_spinlock_recover shift g process_id lock of
        None \<Rightarrow> None
      | Some lock \<Rightarrow> jj_spinlock_tryenter shift g process_id lock)"

definition jj_slock_kern :: "nat \<Rightarrow> granularity \<Rightarrow> cpu \<Rightarrow> u16 \<Rightarrow> jj_env \<Rightarrow> jj_spinlock \<Rightarrow> jj_spinlock outcome" where
  "jj_slock_kern shift g k machine_id es lock =
     (case kernel_process k machine_id of
        None \<Rightarrow> Bug
      | Some process_id \<Rightarrow>
          (case jj_spinlock_recover shift g process_id lock of
             None \<Rightarrow> Bug
           | Some lock \<Rightarrow>
               bind_outcome (jj_spinlock_enter shift g process_id spin_no_abort es lock)
                 (\<lambda>(ret, lock). if ret then Done lock else Bug)))"

definition jj_sunlock_kern :: "nat \<Rightarrow> granularity \<Rightarrow> cpu \<Rightarrow> u16 \<Rightarrow> jj_spinlock \<Rightarrow> jj_spinlock outcome" where
  "jj_sunlock_kern shift g k machine_id lock =
     (case kernel_process k machine_id of
        None \<Rightarrow> Bug
      | Some process_id \<Rightarrow>
          (case jj_spinlock_exit shift g process_id lock of
             None \<Rightarrow> Bug
           | Some (_, _, lock) \<Rightarrow> Done lock))"

subsection \<open>The status word\<close>

lemma cs_status_fields [codec_simps]:
  "cs_b (decompose_cs_status (compose_cs_status True (ucast (p :: u16)))) \<noteq> 0"
  "cs_s (decompose_cs_status (compose_cs_status True (ucast p))) = ucast p"
  "cs_b (decompose_cs_status (compose_cs_status False s)) = 0"
  "cs_s (decompose_cs_status (compose_cs_status False s)) = CSST_S_MASK AND s"
proof -
  have p: "bit p n \<Longrightarrow> n < 16" for n using bit_imp_le_length [of p n] by simp
  have "bit (cs_b (decompose_cs_status (compose_cs_status True (ucast p)))) 62"
    by (simp add: decompose_cs_status_def compose_cs_status_def bit_simps bit_B_MASK)
  then show "cs_b (decompose_cs_status (compose_cs_status True (ucast p))) \<noteq> 0" by auto
  show "cs_s (decompose_cs_status (compose_cs_status True (ucast p))) = ucast p"
    by (rule bit_word_eqI) (auto simp: decompose_cs_status_def compose_cs_status_def bit_simps bit_B_MASK bit_S_MASK dest: p)
  show "cs_b (decompose_cs_status (compose_cs_status False s)) = 0"
    by (rule bit_word_eqI) (auto simp: decompose_cs_status_def compose_cs_status_def bit_simps bit_B_MASK bit_S_MASK)
  show "cs_s (decompose_cs_status (compose_cs_status False s)) = CSST_S_MASK AND s"
    by (rule bit_word_eqI) (auto simp: decompose_cs_status_def compose_cs_status_def bit_simps bit_B_MASK bit_S_MASK)
qed

lemma compose_fits [simp]: "fits g (compose_cs_status False s)" "fits g (compose_cs_status True (ucast (p :: u16)))"
proof -
  have "\<not> bit p 63" using bit_imp_le_length [of p 63] by auto
  then show "fits g (compose_cs_status False s)" "fits g (compose_cs_status True (ucast p))"
    by (simp_all add: fits_def plain_bit compose_cs_status_def bit_simps bit_B_MASK bit_S_MASK)
qed

lemma ucast16_inject [simp]: "(ucast (p :: u16) :: u64) = ucast q \<longleftrightarrow> p = q"
proof
  have u: "unat (ucast x :: u64) = unat x" for x :: u16
  proof -
    have "unat x < 2 ^ LENGTH(16)" by (rule unsigned_less)
    then show ?thesis by (simp add: unsigned_ucast_eq take_bit_nat_eq_self)
  qed
  assume "(ucast p :: u64) = ucast q"
  then have "unat p = unat q" using u [of p] u [of q] by simp
  then show "p = q" by (rule unsigned_word_eqI)
qed simp

text \<open>The owner of the lock, if any.\<close>

definition jj_word :: "granularity \<Rightarrow> jj_spinlock \<Rightarrow> u64" where
  "jj_word g lock = pvalue g (jj_cs_status lock)"

definition jj_owner :: "granularity \<Rightarrow> jj_spinlock \<Rightarrow> u16 \<Rightarrow> bool" where
  "jj_owner g lock p \<longleftrightarrow> owned_by (decompose_cs_status (jj_word g lock)) p"

lemma read_status:
  assumes "jj_read_status g lock = (cs, lock')"
  shows "cs = decompose_cs_status (jj_word g lock)" "jj_word g lock' = jj_word g lock"
    "jj_min_arr lock' = jj_min_arr lock" "jj_seq lock' = jj_seq lock" "jj_token lock' = jj_token lock"
proof -
  obtain v c where r: "pcas_read_uint64 g (jj_cs_status lock) = (v, c)" by (cases "pcas_read_uint64 g (jj_cs_status lock)")
  from pcas64_read(3) [OF r] assms r
  show "cs = decompose_cs_status (jj_word g lock)" "jj_word g lock' = jj_word g lock"
    "jj_min_arr lock' = jj_min_arr lock" "jj_seq lock' = jj_seq lock" "jj_token lock' = jj_token lock"
    by (auto simp: jj_read_status_def read_decompose_cs_status_def read_cs_status_def jj_word_def)
qed

lemma owner_compose [simp]:
  "jj_word g lock = compose_cs_status True (ucast p) \<Longrightarrow> jj_owner g lock q \<longleftrightarrow> q = p"
  "jj_word g lock = compose_cs_status False s \<Longrightarrow> \<not> jj_owner g lock q"
  by (auto simp: jj_owner_def owned_by_def codec_simps)

text \<open>A status word is free with a sequence number or names a process.\<close>

definition status_word :: "u64 \<Rightarrow> bool" where
  "status_word w \<longleftrightarrow> (\<exists>s. w = compose_cs_status False s) \<or> (\<exists>p :: u16. w = compose_cs_status True (ucast p))"

lemma free_word:
  assumes "status_word w" "cs_b (decompose_cs_status w) = 0"
  shows "compose_cs_status False (cs_s (decompose_cs_status w)) = w"
proof -
  from assms obtain s where w: "w = compose_cs_status False s" by (auto simp: status_word_def codec_simps)
  have "CSST_S_MASK AND (CSST_S_MASK AND s) = CSST_S_MASK AND s" by (simp flip: and.assoc)
  then show ?thesis unfolding w codec_simps by (simp add: compose_cs_status_def)
qed

definition jj_wf :: "nat \<Rightarrow> granularity \<Rightarrow> jj_spinlock \<Rightarrow> bool" where
  "jj_wf shift g lock \<longleftrightarrow> shift < 16 \<and> min_arr_ok shift g (jj_min_arr lock) \<and> status_word (jj_word g lock) \<and>
     (\<forall>p. unat p < 2 ^ shift \<longrightarrow> get_process_id (leaf shift g (jj_min_arr lock) p) = p \<and> plain (leaf shift g (jj_min_arr lock) p))"

text \<open>The process a promotion chooses.\<close>

definition jj_candidate :: "granularity \<Rightarrow> u16 \<Rightarrow> bool \<Rightarrow> jj_spinlock \<Rightarrow> u16 option" where
  "jj_candidate g p flag lock =
     (let m = node g (jj_min_arr lock) 1
      in if get_counter m \<noteq> COUNTER_INF then Some (get_process_id m) else if flag then Some p else None)"

lemma promote_value:
  assumes "jj_spinlock_promote g p flag lock = (ok, peer, lock')" "status_word (jj_word g lock)"
  shows "jj_min_arr lock' = jj_min_arr lock" "jj_seq lock' = jj_seq lock" "jj_token lock' = jj_token lock"
    and "cs_b (decompose_cs_status (jj_word g lock)) \<noteq> 0 \<Longrightarrow> jj_word g lock' = jj_word g lock \<and> \<not> ok \<and> peer = None"
    and "cs_b (decompose_cs_status (jj_word g lock)) = 0 \<Longrightarrow>
      (case jj_candidate g p flag lock of
         None \<Rightarrow> jj_word g lock' = jj_word g lock \<and> \<not> ok
       | Some q \<Rightarrow> jj_word g lock' = compose_cs_status True (ucast q) \<and> ok \<and> peer = Some (ucast q))"
proof -
  obtain cs l1 where r: "jj_read_status g lock = (cs, l1)" by (cases "jj_read_status g lock")
  note rs = read_status [OF r]
  define q where "q = (if get_counter (node g (jj_min_arr lock) 1) = COUNTER_INF then p else get_process_id (node g (jj_min_arr lock) 1))"
  obtain k ex c where k: "persist_cas_uint64 g (jj_cs_status l1) (compose_cs_status False (cs_s cs)) (compose_cs_status True (ucast q)) = (k, ex, c)"
    by (cases "persist_cas_uint64 g (jj_cs_status l1) (compose_cs_status False (cs_s cs)) (compose_cs_status True (ucast q))") auto
  note kv = pcas64_cas [OF k compose_fits]
  let ?inf = "get_counter (node g (jj_min_arr lock) 1) = COUNTER_INF"
  have eq: "(ok, peer, lock') = (if cs_b cs \<noteq> 0 then (False, None, l1) else if ?inf \<and> \<not> flag then (False, Some 0, l1)
      else (k, if k then Some (ucast q) else Some 0, l1 \<lparr>jj_cs_status := c\<rparr>))"
    unfolding assms(1) [symmetric]
    by (cases ?inf) (use k q_def rs(3) in \<open>simp_all add: jj_spinlock_promote_def r find_min_fields [where g = g]
        atomic_cmpxchg_cs_status_def Let_def\<close>)
  show "jj_min_arr lock' = jj_min_arr lock" "jj_seq lock' = jj_seq lock" "jj_token lock' = jj_token lock"
    using eq rs(3-5) by (simp_all split: if_splits)
  show "jj_word g lock' = jj_word g lock \<and> \<not> ok \<and> peer = None" if "cs_b (decompose_cs_status (jj_word g lock)) \<noteq> 0"
    using eq rs(1,2) that by simp
  show "case jj_candidate g p flag lock of
         None \<Rightarrow> jj_word g lock' = jj_word g lock \<and> \<not> ok
       | Some q \<Rightarrow> jj_word g lock' = compose_cs_status True (ucast q) \<and> ok \<and> peer = Some (ucast q)"
    if b: "cs_b (decompose_cs_status (jj_word g lock)) = 0"
  proof -
    have "k" "pvalue g c = compose_cs_status True (ucast q)"
      using kv free_word [OF assms(2) b] rs(1,2) by (simp_all add: jj_word_def)
    with eq rs(1,2) b show ?thesis by (auto simp: q_def jj_candidate_def jj_word_def Let_def split: if_splits)
  qed
qed

subsection \<open>Processes competing for the lock\<close>

lemma owner_unique: "jj_owner g l p \<Longrightarrow> jj_owner g l q \<Longrightarrow> p = q"
  by (auto simp: jj_owner_def owned_by_def)

lemma owner_word: "jj_word g l' = jj_word g l \<Longrightarrow> jj_owner g l' = jj_owner g l"
  by (simp add: jj_owner_def fun_eq_iff)

lemma read_status_owner:
  assumes "jj_read_status g l = (cs, l')"
  shows "jj_owner g l' = jj_owner g l" "owned_by cs p \<longleftrightarrow> jj_owner g l p"
  using read_status [OF assms] by (simp_all add: jj_owner_def fun_eq_iff)

text \<open>The exchange of a promotion: from the free word with the sequence number read to \<open>peer\<close>.\<close>

definition jj_swap :: "granularity \<Rightarrow> cs_status \<Rightarrow> u16 \<Rightarrow> jj_spinlock \<Rightarrow> jj_spinlock" where
  "jj_swap g cs peer lock =
     (case atomic_cmpxchg_cs_status g (jj_cs_status lock) (compose_cs_status False (cs_s cs)) (compose_cs_status True (ucast peer))
      of (_, _, c) \<Rightarrow> lock \<lparr>jj_cs_status := c\<rparr>)"

lemma swap_word:
  "jj_word g (jj_swap g cs peer lock) =
     (if jj_word g lock = compose_cs_status False (cs_s cs) then compose_cs_status True (ucast peer) else jj_word g lock)"
proof -
  obtain ok ex c where k: "atomic_cmpxchg_cs_status g (jj_cs_status lock) (compose_cs_status False (cs_s cs))
      (compose_cs_status True (ucast peer)) = (ok, ex, c)"
    by (cases "atomic_cmpxchg_cs_status g (jj_cs_status lock) (compose_cs_status False (cs_s cs)) (compose_cs_status True (ucast peer))") auto
  from pcas64_cas(2) [OF k [unfolded atomic_cmpxchg_cs_status_def] compose_fits] k
  show ?thesis by (simp add: jj_swap_def jj_word_def)
qed

text \<open>The accesses to the status word. Everything else may change at any time; an exit reads nothing of the word.\<close>

definition jj_step ::
  "granularity \<Rightarrow> (jj_spinlock, cs_status, u16) ab_sys \<Rightarrow> (jj_spinlock, cs_status, u16) ab_sys \<Rightarrow> bool" where
  "jj_step g = ab_step (jj_read_status g) owned_by (\<lambda>cs. cs_b cs = 0) (jj_swap g) (\<lambda>lock. (decompose_cs_status 0, lock))
     (\<lambda>_. jj_release g) (\<lambda>lock lock'. jj_cs_status lock' = jj_cs_status lock)"

definition jj_start :: "nat \<Rightarrow> granularity \<Rightarrow> (jj_spinlock, cs_status, u16) ab_sys \<Rightarrow> bool" where
  "jj_start shift g = ab_start (\<lambda>lock. \<exists>l. jj_spinlock_init shift g l = Some lock)"

interpretation jj: abortable_lock "\<lambda>lock. \<exists>l. jj_spinlock_init shift g l = Some lock" "jj_read_status g" owned_by "\<lambda>cs. cs_b cs = 0"
  "jj_swap g" "\<lambda>lock. (decompose_cs_status 0, lock)" "\<lambda>_. jj_release g" "\<lambda>lock lock'. jj_cs_status lock' = jj_cs_status lock" "jj_owner g" for shift g
proof unfold_locales
  show "p = q" if "jj_owner g l p" "jj_owner g l q" for l p q by (rule owner_unique [OF that])
  show "jj_owner g l' = jj_owner g l" if "jj_read_status g l = (c, l')" for l c l' by (rule read_status_owner [OF that])
  show "owned_by c p \<longleftrightarrow> jj_owner g l p" if "jj_read_status g l = (c, l')" for l c l' p by (rule read_status_owner [OF that])
  show "jj_owner g l' = jj_owner g l" if "jj_cs_status l' = jj_cs_status l" for l l'
    using that by (intro owner_word) (simp add: jj_word_def)
  show "jj_owner g (jj_swap g c p l) = jj_owner g l" if "jj_owner g l q" for l q c p
    using that owner_compose(2) [of g l "cs_s c" q] by (intro owner_word) (auto simp: swap_word)
  show "jj_owner g l' = jj_owner g l" if "(decompose_cs_status 0, l) = (c, l')" for l c l' using that by simp
qed

subsection \<open>Registration and order\<close>

definition jj_leaf :: "nat \<Rightarrow> granularity \<Rightarrow> jj_spinlock \<Rightarrow> u16 \<Rightarrow> u64" where
  "jj_leaf shift g lock p = leaf shift g (jj_min_arr lock) p"

definition registered :: "nat \<Rightarrow> granularity \<Rightarrow> jj_spinlock \<Rightarrow> u16 \<Rightarrow> bool" where
  "registered shift g lock p \<longleftrightarrow> unat p < 2 ^ shift \<and> get_counter (jj_leaf shift g lock p) \<noteq> COUNTER_INF"

lemma jj_register_ok:
  assumes "jj_wf shift g lock" "unat p < 2 ^ shift" "plain st" "get_process_id st = p"
  obtains lock' where "jj_register shift g p st lock = Some lock'" "jj_wf shift g lock'"
    "jj_cs_status lock' = jj_cs_status lock" "jj_token lock' = jj_token lock"
    "\<And>q. unat q < 2 ^ shift \<Longrightarrow> jj_leaf shift g lock' q = (if q = p then st else jj_leaf shift g lock q)"
proof -
  from assms(1) have len: "length (jj_min_arr lock) = NUM_ARR_NODES shift" by (simp add: jj_wf_def min_arr_ok_def)
  have f: "fits g st" using assms(3) by (simp add: fits_def)
  obtain arr where arr: "min_arr_update shift g p st (jj_min_arr lock) = Some arr" "length arr = NUM_ARR_NODES shift"
    "\<And>q. unat q < 2 ^ shift \<Longrightarrow> leaf shift g arr q = (if q = p then st else leaf shift g (jj_min_arr lock) q)"
    "\<And>j. 0 < j \<Longrightarrow> j < 2 ^ shift \<Longrightarrow> node_ok g (jj_min_arr lock) j \<or> (\<exists>n>0. j = (2 ^ shift + unat p) div 2 ^ n) \<Longrightarrow> node_ok g arr j"
    by (rule min_arr_update_correct [OF assms(2) len f]) blast
  show ?thesis
  proof (rule that)
    show "jj_register shift g p st lock = Some (lock \<lparr>jj_min_arr := arr\<rparr>)" by (simp add: jj_register_def arr(1))
    show "jj_wf shift g (lock \<lparr>jj_min_arr := arr\<rparr>)"
      using assms arr(2-4) by (auto simp: jj_wf_def min_arr_ok_def jj_word_def)
  qed (simp_all add: jj_leaf_def arr(3))
qed

text \<open>The process chosen has the least token of the registered ones.\<close>

lemma candidate_least:
  assumes "jj_wf shift g lock"
  shows "jj_candidate g p False lock = None \<Longrightarrow> \<not> registered shift g lock q"
    and "jj_candidate g p False lock = Some q \<Longrightarrow> registered shift g lock q"
    and "jj_candidate g p False lock = Some q \<Longrightarrow> registered shift g lock r \<Longrightarrow>
      get_counter (jj_leaf shift g lock q) \<le> get_counter (jj_leaf shift g lock r)"
proof -
  let ?m = "node g (jj_min_arr lock) 1"
  from assms have ok: "min_arr_ok shift g (jj_min_arr lock)" and s: "shift \<le> 16"
    and l: "\<And>p. unat p < 2 ^ shift \<Longrightarrow> get_process_id (jj_leaf shift g lock p) = p \<and> plain (jj_leaf shift g lock p)"
    by (simp_all add: jj_wf_def jj_leaf_def)
  obtain x where x: "unat x < 2 ^ shift" "?m = jj_leaf shift g lock x" using root_is_min(2) [OF ok s] by (auto simp: jj_leaf_def)
  have le: "get_counter ?m \<le> get_counter (jj_leaf shift g lock r)" if "unat r < 2 ^ shift" for r
    using root_is_min(1) [OF ok s that] l [OF x(1)] l [OF that] x(2) by (intro get_counter_mono) (simp_all add: jj_leaf_def)
  have x': "get_process_id ?m = x" using l [OF x(1)] x(2) by simp
  show "\<not> registered shift g lock q" if "jj_candidate g p False lock = None"
    using that le [of q] get_counter_le [of "jj_leaf shift g lock q"]
    by (auto simp: jj_candidate_def registered_def Let_def split: if_splits)
  show "registered shift g lock q" if "jj_candidate g p False lock = Some q"
    using that x x' by (auto simp: jj_candidate_def registered_def Let_def split: if_splits)
  show "get_counter (jj_leaf shift g lock q) \<le> get_counter (jj_leaf shift g lock r)"
    if "jj_candidate g p False lock = Some q" "registered shift g lock r"
    using that le [of r] x x' by (auto simp: jj_candidate_def registered_def Let_def split: if_splits)
qed

lemma promote_wf:
  assumes "jj_spinlock_promote g p flag lock = (ok, peer, lock')" "jj_wf shift g lock"
  shows "jj_wf shift g lock'" "jj_leaf shift g lock' q = jj_leaf shift g lock q"
proof -
  from assms(2) have w: "status_word (jj_word g lock)" by (simp add: jj_wf_def)
  note pv = promote_value [OF assms(1) w]
  have "status_word (jj_word g lock')"
  proof (cases "cs_b (decompose_cs_status (jj_word g lock)) = 0")
    case True
    from pv(5) [OF this] w show ?thesis by (auto simp: status_word_def split: option.splits)
  next
    case False
    with pv(4) w show ?thesis by simp
  qed
  then show "jj_wf shift g lock'" "jj_leaf shift g lock' q = jj_leaf shift g lock q"
    using assms(2) pv(1) by (simp_all add: jj_wf_def jj_leaf_def)
qed

lemma release_free:
  "jj_word g (jj_release g lock) = compose_cs_status False (pvalue g (jj_seq lock) + 1)"
  "jj_min_arr (jj_release g lock) = jj_min_arr lock"
proof -
  obtain s c where r: "pcas_read_uint64 g (jj_seq lock) = (s, c)" by (cases "pcas_read_uint64 g (jj_seq lock)")
  then have "s = pvalue g (jj_seq lock)" using pcas64_read(1) [of g "jj_seq lock"] by simp
  with r show "jj_word g (jj_release g lock) = compose_cs_status False (pvalue g (jj_seq lock) + 1)"
    "jj_min_arr (jj_release g lock) = jj_min_arr lock"
    by (simp_all add: jj_release_def jj_word_def write_cs_status_def persist_atomic_write_uint64_def persist_write_value)
qed

lemma release_wf: "jj_wf shift g lock \<Longrightarrow> jj_wf shift g (jj_release g lock)"
  by (auto simp: jj_wf_def release_free status_word_def)

text \<open>An exit: the choice among the registered processes other than the caller.\<close>

lemma jj_exit_cases:
  assumes "jj_wf shift g lock" "unat p < 2 ^ shift"
  obtains ok peer lock' where "jj_spinlock_exit shift g p lock = Some (ok, peer, lock')" "jj_wf shift g lock'"
    "\<And>q. unat q < 2 ^ shift \<Longrightarrow> jj_leaf shift g lock' q = (if q = p then default_process_state p else jj_leaf shift g lock q)"
    "(\<forall>q. \<not> registered shift g lock' q) \<and> (\<forall>q. \<not> jj_owner g lock' q) \<or>
     (\<exists>q. registered shift g lock' q \<and> jj_owner g lock' q \<and>
        (\<forall>r. registered shift g lock' r \<longrightarrow> get_counter (jj_leaf shift g lock' q) \<le> get_counter (jj_leaf shift g lock' r)))"
proof -
  have d: "plain (default_process_state p)" using default_fits [of CACHELINE_GRANULAR p] by (simp add: fits_def)
  obtain l1 where l1: "jj_register shift g p (default_process_state p) lock = Some l1" "jj_wf shift g l1"
    "\<And>q. unat q < 2 ^ shift \<Longrightarrow> jj_leaf shift g l1 q = (if q = p then default_process_state p else jj_leaf shift g lock q)"
    by (rule jj_register_ok [OF assms d]) (simp_all add: state_fields)
  define l2 where "l2 = jj_release g l1"
  have w2: "jj_wf shift g l2" unfolding l2_def by (rule release_wf [OF l1(2)])
  obtain ok peer l3 where l3: "jj_spinlock_promote g p False l2 = (ok, peer, l3)"
    by (cases "jj_spinlock_promote g p False l2") auto
  have w3: "jj_wf shift g l3" "\<And>q. jj_leaf shift g l3 q = jj_leaf shift g l2 q" using promote_wf [OF l3 w2] by simp_all
  have leaf: "jj_leaf shift g l2 q = jj_leaf shift g l1 q" for q by (simp add: l2_def jj_leaf_def release_free)
  have reg: "registered shift g l3 q = registered shift g l2 q" for q by (simp add: registered_def w3(2))
  have free: "cs_b (decompose_cs_status (jj_word g l2)) = 0" by (simp add: l2_def release_free codec_simps)
  have word: "jj_word g l2 = compose_cs_status False (pvalue g (jj_seq l1) + 1)" by (simp add: l2_def release_free)
  from w2 have "status_word (jj_word g l2)" by (simp add: jj_wf_def)
  note pv = promote_value(5) [OF l3 this free]
  note cand = candidate_least [OF w2, of p]
  have choice: "(\<forall>q. \<not> registered shift g l3 q) \<and> (\<forall>q. \<not> jj_owner g l3 q) \<or>
     (\<exists>q. registered shift g l3 q \<and> jj_owner g l3 q \<and>
        (\<forall>r. registered shift g l3 r \<longrightarrow> get_counter (jj_leaf shift g l3 q) \<le> get_counter (jj_leaf shift g l3 r)))"
  proof (cases "jj_candidate g p False l2")
    case None
    with pv word have "jj_word g l3 = compose_cs_status False (pvalue g (jj_seq l1) + 1)" by simp
    then have "\<not> jj_owner g l3 q" for q by (rule owner_compose(2))
    with cand(1) [OF None] reg show ?thesis by blast
  next
    case (Some q)
    with pv have "jj_word g l3 = compose_cs_status True (ucast q)" by simp
    then have "jj_owner g l3 q" by (simp add: owner_compose(1))
    with cand(2,3) [OF Some] reg w3(2) show ?thesis by auto
  qed
  show ?thesis
  proof (rule that [OF _ w3(1) _ choice])
    show "jj_spinlock_exit shift g p lock = Some (ok, peer, l3)" using l1(1) l3 by (simp add: jj_spinlock_exit_def l2_def)
  qed (simp add: w3(2) leaf l1(3))
qed

text \<open>Drawing a token and entering.\<close>

lemma draw_token_value:
  assumes "jj_draw_token g lock = (t, lock')"
  shows "t = pvalue g (jj_token lock)" "jj_cs_status lock' = jj_cs_status lock" "jj_min_arr lock' = jj_min_arr lock"
  using assms pcas64_read(1) [of g "jj_token lock"] by (auto simp: jj_draw_token_def Let_def split: prod.splits)

lemma compose_state_plain: "t < COUNTER_INF \<Longrightarrow> plain (compose_process_state t p)"
proof -
  assume "t < COUNTER_INF"
  then have "unat t < 2 ^ 47" by (simp add: word_less_nat_alt COUNTER_INF_def)
  then have "unat (take_bit 47 t) = unat t" by (simp add: unsigned_take_bit_eq take_bit_nat_eq_self)
  then have "take_bit 47 t = t" by (rule unsigned_word_eqI)
  then have t: "\<not> bit t 47" by (metis bit_take_bit_iff less_irrefl)
  have p: "\<not> bit p 63" using bit_imp_le_length [of p 63] by auto
  show ?thesis using t p by (simp add: plain_bit compose_process_state_def bit_simps)
qed

lemma jj_tryenter_cases:
  assumes "jj_wf shift g lock" "unat p < 2 ^ shift" "pvalue g (jj_token lock) < COUNTER_INF" "\<not> jj_owner g lock p"
  obtains r lock' where "jj_spinlock_tryenter shift g p lock = Some (r, lock')" "jj_wf shift g lock'" "r \<longleftrightarrow> jj_owner g lock' p"
    "\<And>q. unat q < 2 ^ shift \<Longrightarrow> jj_leaf shift g lock' q = (if q = p then compose_process_state (pvalue g (jj_token lock)) p else jj_leaf shift g lock q)"
    "\<And>q. jj_owner g lock q \<Longrightarrow> jj_owner g lock' q"
proof -
  obtain cs l1 where r1: "jj_read_status g lock = (cs, l1)" by (cases "jj_read_status g lock")
  note rs1 = read_status [OF r1]
  have no: "\<not> owned_by cs p" using assms(4) rs1(1) by (simp add: jj_owner_def)
  obtain t l2 where t: "jj_draw_token g l1 = (t, l2)" by (cases "jj_draw_token g l1")
  note tv = draw_token_value [OF t]
  have tok: "t = pvalue g (jj_token lock)" using tv(1) rs1(5) by simp
  have w2: "jj_wf shift g l2" "jj_word g l2 = jj_word g lock" "jj_min_arr l2 = jj_min_arr lock"
    using assms(1) tv(2,3) rs1(2,3) by (simp_all add: jj_wf_def jj_word_def)
  let ?st = "compose_process_state t p"
  have pl: "plain ?st" using compose_state_plain assms(3) tok by simp
  obtain l3 where l3: "jj_register shift g p ?st l2 = Some l3" "jj_wf shift g l3" "jj_cs_status l3 = jj_cs_status l2"
    "\<And>q. unat q < 2 ^ shift \<Longrightarrow> jj_leaf shift g l3 q = (if q = p then ?st else jj_leaf shift g l2 q)"
    by (rule jj_register_ok [OF w2(1) assms(2) pl]) (simp_all add: state_fields)
  obtain ok peer l4 where l4: "jj_spinlock_promote g p False l3 = (ok, peer, l4)"
    by (cases "jj_spinlock_promote g p False l3") auto
  note w4 = promote_wf [OF l4 l3(2)]
  obtain cs' l5 where r5: "jj_read_status g l4 = (cs', l5)" by (cases "jj_read_status g l4")
  note rs5 = read_status [OF r5]
  show ?thesis
  proof (rule that)
    show "jj_spinlock_tryenter shift g p lock = Some (owned_by cs' p, l5)"
      using r1 no t l3(1) l4 r5 by (simp add: jj_spinlock_tryenter_def)
    show "jj_wf shift g l5" using w4(1) rs5(2,3) by (simp add: jj_wf_def)
    show "owned_by cs' p \<longleftrightarrow> jj_owner g l5 p" using rs5(1,2) by (simp add: jj_owner_def)
    show "jj_leaf shift g l5 q = (if q = p then compose_process_state (pvalue g (jj_token lock)) p else jj_leaf shift g lock q)"
      if "unat q < 2 ^ shift" for q
      using w4(2) [of q] l3(4) [OF that] rs5(3) w2(3) tok by (simp add: jj_leaf_def)
    show "jj_owner g l5 q" if q: "jj_owner g lock q" for q
    proof -
      have w3: "jj_word g l3 = jj_word g lock" using l3(3) w2(2) by (simp add: jj_word_def)
      have "cs_b (decompose_cs_status (jj_word g l3)) \<noteq> 0" using q by (simp add: jj_owner_def owned_by_def w3)
      with promote_value(4) [OF l4] l3(2) w3 have "jj_word g l4 = jj_word g lock" by (simp add: jj_wf_def)
      with q rs5(2) show ?thesis by (simp add: jj_owner_def)
    qed
  qed
qed

text \<open>A fresh lock: free, nobody registered, the first token is 1.\<close>

lemma output_cacheline_value [simp]: "pvalue g (shmem_output_cacheline g c) = pvalue g c"
  by (simp add: shmem_output_cacheline_def pvalue_def pcas_read_noflush_def load_acquire_def)

lemma node_output [simp]: "0 < k \<Longrightarrow> k \<le> length arr \<Longrightarrow> node g (map (shmem_output_cacheline g) arr) k = node g arr k"
  by (simp add: node_def)

lemma jj_init_wf:
  assumes "length (jj_min_arr l) = NUM_ARR_NODES shift" "shift < 16"
  obtains lock where "jj_spinlock_init shift g l = Some lock" "jj_wf shift g lock" "jj_word g lock = compose_cs_status False 1"
    "pvalue g (jj_token lock) = 1" "\<And>q. unat q < 2 ^ shift \<Longrightarrow> jj_leaf shift g lock q = default_process_state q"
proof -
  obtain arr where a: "init_min_array shift g (jj_min_arr l) = Some arr" "min_arr_ok shift g arr"
    "\<And>q. unat q < 2 ^ shift \<Longrightarrow> leaf shift g arr q = default_process_state q"
    by (rule init_min_array_correct [OF assms]) blast
  let ?arr = "map (shmem_output_cacheline g) arr"
  have len: "length arr = 2 ^ (shift + 1) - 1" using a(2) by (simp add: min_arr_ok_def NUM_ARR_NODES_def)
  have n: "node g ?arr k = node g arr k" if "0 < k" "k < 2 ^ (shift + 1)" for k using that len by (intro node_output) simp_all
  have ok: "min_arr_ok shift g ?arr"
    unfolding min_arr_ok_def
  proof (intro conjI ballI)
    show "node_ok g ?arr k" if k: "k \<in> {1..<2 ^ shift}" for k
    proof -
      from k have "0 < k" "k < 2 ^ (shift + 1)" "2 * k < 2 ^ (shift + 1)" "2 * k + 1 < 2 ^ (shift + 1)" by auto
      moreover have "node_ok g arr k" using a(2) k by (simp add: min_arr_ok_def)
      ultimately show ?thesis by (simp add: node_ok_def n del: map_map)
    qed
  qed (use a(2) in \<open>simp add: min_arr_ok_def\<close>)
  have lf: "leaf shift g ?arr q = default_process_state q" if "unat q < 2 ^ shift" for q
    using a(3) [OF that] n [of "2 ^ shift + unat q"] that by (simp add: leaf_def)
  have pl: "plain (default_process_state q)" for q using default_fits [of CACHELINE_GRANULAR q] by (simp add: fits_def)
  define lock where "lock = \<lparr>jj_cs_status = shmem_output_cacheline g (store_release g (jj_cs_status l) (compose_cs_status False 1)),
         jj_token = shmem_output_cacheline g (store_release g (jj_token l) 1),
         jj_seq = shmem_output_cacheline g (store_release g (jj_seq l) 1), jj_min_arr = ?arr\<rparr>"
  have word: "jj_word g lock = compose_cs_status False 1" by (simp add: lock_def jj_word_def store_release_value)
  show ?thesis
  proof (rule that)
    show "jj_spinlock_init shift g l = Some lock" by (simp add: jj_spinlock_init_def a(1) lock_def)
    show "jj_wf shift g lock" using assms(2) ok lf pl word by (auto simp: jj_wf_def status_word_def state_fields lock_def)
    show "pvalue g (jj_token lock) = 1" by (simp add: lock_def store_release_value fits_def plain_bit bit_simps)
  qed (use word lf in \<open>simp_all add: jj_leaf_def lock_def\<close>)
qed

definition ex_jj_memory :: jj_spinlock where
  "ex_jj_memory = \<lparr>jj_cs_status = \<lparr>cached = 0, media = 0\<rparr>, jj_token = \<lparr>cached = 0, media = 0\<rparr>,
     jj_seq = \<lparr>cached = 0, media = 0\<rparr>, jj_min_arr = replicate 31 \<lparr>cached = 0, media = 0\<rparr>\<rparr>"

lemma ex_jj_init:
  obtains lock where "jj_spinlock_init 4 g ex_jj_memory = Some lock" "jj_wf 4 g lock" "jj_word g lock = compose_cs_status False 1"
    "pvalue g (jj_token lock) = 1" "\<And>q. unat q < 16 \<Longrightarrow> jj_leaf 4 g lock q = default_process_state q"
  by (rule jj_init_wf [of ex_jj_memory 4 g]) (simp_all add: ex_jj_memory_def NUM_ARR_NODES_def)

subsection \<open>Properties\<close>

text \<open>C27: Mutual exclusion of the abortable lock. In every state reachable from an initialised lock, with any
  number of processes entering, trying, aborting, exiting, recovering, crashing and restarting, and the
  array, the token and the sequence number changing arbitrarily between their accesses to the status
  word, at most one process is between entering and releasing.\<close>

theorem jj_mutual_exclusion:
  assumes "reach (jj_start shift g) (jj_step g) s" "ab_inside s p" "ab_inside s q"
  shows "p = q"
  using assms unfolding jj_start_def jj_step_def by (rule jj.mutual_exclusion)

lemma ex_jj_inside: "\<exists>s. reach (jj_start 4 g) (jj_step g) s \<and> ab_inside s 3"
proof -
  obtain lock where l: "jj_spinlock_init 4 g ex_jj_memory = Some lock" "jj_word g lock = compose_cs_status False 1"
    by (rule ex_jj_init)
  obtain c1 l1 where r1: "jj_read_status g lock = (c1, l1)" by (cases "jj_read_status g lock")
  obtain c2 l2 where r2: "jj_read_status g l1 = (c2, l2)" by (cases "jj_read_status g l1")
  have w: "jj_word g l2 = compose_cs_status False 1" "c2 = decompose_cs_status (compose_cs_status False 1)"
    using read_status(1,2) [OF r2] read_status(2) [OF r1] l(2) by simp_all
  have free: "cs_b c2 = 0" using w(2) by (simp add: codec_simps)
  have "compose_cs_status False (cs_s c2) = compose_cs_status False 1"
    unfolding w(2) by (rule free_word) (auto simp: status_word_def codec_simps)
  then have w3: "jj_word g (jj_swap g c2 3 l2) = compose_cs_status True (ucast (3 :: u16))" by (simp add: swap_word w(1))
  have "jj_owner g (jj_swap g c2 3 l2) 3" using owner_compose(1) [OF w3] by simp
  moreover have "\<not> jj_owner g lock 3" using owner_compose(2) [OF l(2)] .
  ultimately show ?thesis
    unfolding jj_start_def jj_step_def using jj.ab_enters [OF exI [of _ ex_jj_memory], OF l(1) _ r1 r2 free] by blast
qed

theorem jj_mutual_exclusion_witness:
  "\<exists>s. reach (jj_start 4 CACHELINE_GRANULAR) (jj_step CACHELINE_GRANULAR) s \<and> ab_inside s 3 \<and> (\<forall>q. ab_inside s q \<longrightarrow> 3 = q)"
proof -
  from ex_jj_inside obtain s where s: "reach (jj_start 4 CACHELINE_GRANULAR) (jj_step CACHELINE_GRANULAR) s" "ab_inside s 3" by blast
  with jj_mutual_exclusion [OF s] show ?thesis by blast
qed

text \<open>C28: Leaving the abortable lock hands it over in token order: on a well-formed lock \<open>jj_spinlock_exit\<close>
  returns, withdraws the caller, and either nobody else is registered and the lock is free, or it belongs
  to a registered process whose token is least among the registered ones. The lock stays well formed.\<close>

theorem jj_exit_hands_over:
  assumes "jj_wf shift g lock" "unat p < 2 ^ shift"
  shows "\<exists>ok peer lock'. jj_spinlock_exit shift g p lock = Some (ok, peer, lock') \<and> jj_wf shift g lock' \<and>
    \<not> registered shift g lock' p \<and>
    ((\<forall>q. \<not> registered shift g lock' q) \<and> (\<forall>q. \<not> jj_owner g lock' q) \<or>
     (\<exists>q. registered shift g lock' q \<and> jj_owner g lock' q \<and>
        (\<forall>r. registered shift g lock' r \<longrightarrow> get_counter (jj_leaf shift g lock' q) \<le> get_counter (jj_leaf shift g lock' r))))"
proof -
  obtain ok peer lock' where e: "jj_spinlock_exit shift g p lock = Some (ok, peer, lock')" "jj_wf shift g lock'"
    "\<And>q. unat q < 2 ^ shift \<Longrightarrow> jj_leaf shift g lock' q = (if q = p then default_process_state p else jj_leaf shift g lock q)"
    "(\<forall>q. \<not> registered shift g lock' q) \<and> (\<forall>q. \<not> jj_owner g lock' q) \<or>
     (\<exists>q. registered shift g lock' q \<and> jj_owner g lock' q \<and>
        (\<forall>r. registered shift g lock' r \<longrightarrow> get_counter (jj_leaf shift g lock' q) \<le> get_counter (jj_leaf shift g lock' r)))"
    by (rule jj_exit_cases [OF assms]) (rule that)
  have "\<not> registered shift g lock' p" by (simp add: registered_def e(3) state_fields)
  with e show ?thesis by blast
qed

theorem jj_exit_hands_over_witness:
  "\<exists>lock ok peer lock'. jj_spinlock_init 4 CACHELINE_GRANULAR ex_jj_memory = Some lock \<and>
     jj_spinlock_exit 4 CACHELINE_GRANULAR 3 lock = Some (ok, peer, lock') \<and> jj_wf 4 CACHELINE_GRANULAR lock'"
proof -
  obtain lock where l: "jj_spinlock_init 4 CACHELINE_GRANULAR ex_jj_memory = Some lock" "jj_wf 4 CACHELINE_GRANULAR lock"
    by (rule ex_jj_init)
  have "unat (3 :: u16) < 2 ^ 4" by simp
  from jj_exit_hands_over [OF l(2) this] l(1) show ?thesis by blast
qed

text \<open>C30: A failed attempt leaves its registration behind: when \<open>h\<close> owns the lock and nobody else is registered,
  \<open>jj_spin_trylock\<close> of another process \<open>p\<close> reports failure, but the next exit of \<open>h\<close> makes \<open>p\<close> the
  owner, although \<open>p\<close> was told that it does not have the lock.\<close>

theorem jj_trylock_keeps_registration:
  assumes "jj_wf shift g lock" "unat p < 2 ^ shift" "unat h < 2 ^ shift" "h \<noteq> p" "jj_owner g lock h"
    and "\<And>q. registered shift g lock q \<Longrightarrow> q = h" "pvalue g (jj_token lock) < COUNTER_INF"
  shows "\<exists>lock1 ok peer lock2. jj_spin_trylock shift g p lock = Some (False, lock1) \<and>
    jj_spinlock_exit shift g h lock1 = Some (ok, peer, lock2) \<and> jj_owner g lock2 p"
proof -
  obtain cs l0 where r: "jj_read_status g lock = (cs, l0)" by (cases "jj_read_status g lock")
  note rs = read_status [OF r]
  have no: "\<not> jj_owner g lock p" using owner_unique [OF assms(5)] assms(4) by blast
  then have "jj_spinlock_recover shift g p lock = Some l0" using r rs(1) by (simp add: jj_spinlock_recover_def jj_owner_def)
  then have attempt: "jj_spin_trylock shift g p lock = jj_spinlock_tryenter shift g p l0" by (simp add: jj_spin_trylock_def)
  have l0: "jj_wf shift g l0" "\<not> jj_owner g l0 p" "jj_owner g l0 h" "pvalue g (jj_token l0) < COUNTER_INF"
    using assms(1,5,7) no rs(2-5) by (simp_all add: jj_wf_def jj_owner_def)
  obtain res l1 where l1: "jj_spinlock_tryenter shift g p l0 = Some (res, l1)" "jj_wf shift g l1" "res \<longleftrightarrow> jj_owner g l1 p"
    "\<And>q. unat q < 2 ^ shift \<Longrightarrow> jj_leaf shift g l1 q = (if q = p then compose_process_state (pvalue g (jj_token l0)) p else jj_leaf shift g l0 q)"
    "\<And>q. jj_owner g l0 q \<Longrightarrow> jj_owner g l1 q"
    by (rule jj_tryenter_cases [OF l0(1) assms(2) l0(4,2)]) blast
  have "\<not> res" using l1(3) l1(5) [OF l0(3)] owner_unique assms(4) by blast
  obtain ok peer l2 where l2: "jj_spinlock_exit shift g h l1 = Some (ok, peer, l2)"
    "\<And>q. unat q < 2 ^ shift \<Longrightarrow> jj_leaf shift g l2 q = (if q = h then default_process_state h else jj_leaf shift g l1 q)"
    "(\<forall>q. \<not> registered shift g l2 q) \<and> (\<forall>q. \<not> jj_owner g l2 q) \<or> (\<exists>q. registered shift g l2 q \<and> jj_owner g l2 q)"
    by (rule jj_exit_cases [OF l1(2) assms(3)]) blast
  have reg: "registered shift g l2 q \<longleftrightarrow> q = p" for q
  proof
    assume q: "registered shift g l2 q"
    then have u: "unat q < 2 ^ shift" by (simp add: registered_def)
    have "q \<noteq> h" using q l2(2) [OF u] by (auto simp: registered_def state_fields)
    moreover have "q \<noteq> p \<Longrightarrow> registered shift g lock q"
      using q l2(2) [OF u] l1(4) [OF u] rs(3) \<open>q \<noteq> h\<close> by (simp add: registered_def jj_leaf_def)
    ultimately show "q = p" using assms(6) by blast
  next
    show "q = p \<Longrightarrow> registered shift g l2 q"
      using l2(2) [OF assms(2)] l1(4) [OF assms(2)] l0(4) assms(2,4) by (auto simp: registered_def state_fields)
  qed
  then have "jj_owner g l2 p" using l2(3) by simp
  with attempt l1(1) \<open>\<not> res\<close> l2(1) show ?thesis by auto
qed

theorem jj_trylock_keeps_registration_witness:
  "\<exists>lock lock1 ok peer lock2. jj_wf 4 DRAM lock \<and> jj_owner DRAM lock 3 \<and> jj_spin_trylock 4 DRAM 5 lock = Some (False, lock1) \<and>
    jj_spinlock_exit 4 DRAM 3 lock1 = Some (ok, peer, lock2) \<and> jj_owner DRAM lock2 5"
proof -
  obtain l where l: "jj_spinlock_init 4 DRAM ex_jj_memory = Some l" "jj_wf 4 DRAM l" "jj_word DRAM l = compose_cs_status False 1"
    "pvalue DRAM (jj_token l) = 1" "\<And>q. unat q < 16 \<Longrightarrow> jj_leaf 4 DRAM l q = default_process_state q"
    by (rule ex_jj_init) blast
  define lock where "lock = l \<lparr>jj_cs_status := \<lparr>cached = compose_cs_status True (ucast (3 :: u16)), media = 0\<rparr>\<rparr>"
  have w: "jj_word DRAM lock = compose_cs_status True (ucast (3 :: u16))"
    by (simp add: lock_def jj_word_def pvalue_def pcas_read_noflush_def load_acquire_def)
  have "status_word (jj_word DRAM lock)" unfolding w status_word_def by blast
  then have wf: "jj_wf 4 DRAM lock" using l(2) by (simp add: jj_wf_def lock_def)
  have own: "jj_owner DRAM lock 3" using owner_compose(1) [OF w] by simp
  have reg: "\<not> registered 4 DRAM lock q" for q using l(5) [of q] by (auto simp: registered_def jj_leaf_def lock_def state_fields)
  have tok: "pvalue DRAM (jj_token lock) < COUNTER_INF" using l(4) by (simp add: lock_def COUNTER_INF_def word_less_nat_alt)
  have "\<exists>lock1 ok peer lock2. jj_spin_trylock 4 DRAM 5 lock = Some (False, lock1) \<and>
    jj_spinlock_exit 4 DRAM 3 lock1 = Some (ok, peer, lock2) \<and> jj_owner DRAM lock2 5"
    by (rule jj_trylock_keeps_registration [OF wf _ _ _ own _ tok]) (use reg in simp_all)
  with wf own show ?thesis by blast
qed

end
