(* ===== verification/Atomic_Bits.thy ===== *)
theory Atomic_Bits
  imports Persist_Cas
begin

text \<open>
  The bit sets of waiting processes of \<^verbatim>\<open>src/src/common/atomic_bitset.h\<close> and the flushing loads of
  \<^verbatim>\<open>load_and_flush.h\<close>. The C macros select the function by the width of the word; here the operations are
  polymorphic in the width and the functions of the headers are their instances at 8, 16, 32 and 64 bits.
  A search that never ends is \<open>None\<close>.
\<close>

unbundle bit_operations_syntax

subsection \<open>Operations\<close>

definition load_and_flush :: "granularity \<Rightarrow> 'w word pcell \<Rightarrow> 'w::len word \<times> 'w word pcell" where
  "load_and_flush g addr = (load_acquire addr, shmem_output_cacheline g addr)"

definition atomic_fetch_add :: "granularity \<Rightarrow> 'w word pcell \<Rightarrow> 'w::len word \<Rightarrow> 'w word pcell" where
  "atomic_fetch_add g c v = store_release g c (cached c + v)"

definition atomic_fetch_sub :: "granularity \<Rightarrow> 'w word pcell \<Rightarrow> 'w::len word \<Rightarrow> 'w word pcell" where
  "atomic_fetch_sub g c v = store_release g c (cached c - v)"

definition unset_active :: "granularity \<Rightarrow> u8 \<Rightarrow> 'w word pcell \<Rightarrow> 'w::len word pcell" where
  "unset_active g k active =
     (let mask = push_bit (unat k) 1
      in if load_acquire active AND mask \<noteq> 0 then
           shmem_output_cacheline g (atomic_fetch_sub g (shmem_output_cacheline g active) mask)
         else active)"

definition set_active :: "granularity \<Rightarrow> u8 \<Rightarrow> 'w word pcell \<Rightarrow> 'w::len word pcell" where
  "set_active g k active =
     (let mask = push_bit (unat k) 1
      in if load_acquire active AND mask = 0 then
           shmem_output_cacheline g (atomic_fetch_add g (shmem_output_cacheline g active) mask)
         else active)"

partial_function (option) next_bit_loop :: "'w::len word \<Rightarrow> nat \<Rightarrow> nat option" where
  "next_bit_loop active pos =
     (if active AND push_bit pos 1 \<noteq> 0 then Some pos else next_bit_loop active ((pos + 1) mod LENGTH('w)))"

definition next_bit :: "'w::len word \<Rightarrow> u8 \<Rightarrow> u8 option" where
  "next_bit active k = map_option word_of_nat (next_bit_loop active ((unat k + 1) mod LENGTH('w)))"

declare next_bit_loop.simps [code]

definition load_and_flush_uint8 :: "granularity \<Rightarrow> u8 pcell \<Rightarrow> u8 \<times> u8 pcell" where "load_and_flush_uint8 = load_and_flush"
definition load_and_flush_uint16 :: "granularity \<Rightarrow> u16 pcell \<Rightarrow> u16 \<times> u16 pcell" where "load_and_flush_uint16 = load_and_flush"
definition load_and_flush_uint32 :: "granularity \<Rightarrow> u32 pcell \<Rightarrow> u32 \<times> u32 pcell" where "load_and_flush_uint32 = load_and_flush"
definition load_and_flush_uint64 :: "granularity \<Rightarrow> u64 pcell \<Rightarrow> u64 \<times> u64 pcell" where "load_and_flush_uint64 = load_and_flush"

definition unset_bit_uint8 :: "granularity \<Rightarrow> u8 \<Rightarrow> u8 pcell \<Rightarrow> u8 pcell" where "unset_bit_uint8 = unset_active"
definition unset_bit_uint16 :: "granularity \<Rightarrow> u8 \<Rightarrow> u16 pcell \<Rightarrow> u16 pcell" where "unset_bit_uint16 = unset_active"
definition unset_bit_uint32 :: "granularity \<Rightarrow> u8 \<Rightarrow> u32 pcell \<Rightarrow> u32 pcell" where "unset_bit_uint32 = unset_active"
definition unset_bit_uint64 :: "granularity \<Rightarrow> u8 \<Rightarrow> u64 pcell \<Rightarrow> u64 pcell" where "unset_bit_uint64 = unset_active"

definition set_bit_uint8 :: "granularity \<Rightarrow> u8 \<Rightarrow> u8 pcell \<Rightarrow> u8 pcell" where "set_bit_uint8 = set_active"
definition set_bit_uint16 :: "granularity \<Rightarrow> u8 \<Rightarrow> u16 pcell \<Rightarrow> u16 pcell" where "set_bit_uint16 = set_active"
definition set_bit_uint32 :: "granularity \<Rightarrow> u8 \<Rightarrow> u32 pcell \<Rightarrow> u32 pcell" where "set_bit_uint32 = set_active"
definition set_bit_uint64 :: "granularity \<Rightarrow> u8 \<Rightarrow> u64 pcell \<Rightarrow> u64 pcell" where "set_bit_uint64 = set_active"

subsection \<open>Effects\<close>

lemma and_exp: "(x :: 'w::len word) AND 2 ^ n = 0 \<longleftrightarrow> \<not> bit x n"
proof
  assume "x AND 2 ^ n = 0"
  then have "\<not> bit (x AND 2 ^ n) n" by simp
  then show "\<not> bit x n" by (auto simp: bit_simps dest: bit_imp_le_length)
next
  assume "\<not> bit x n"
  then show "x AND 2 ^ n = 0" by (intro bit_word_eqI) (auto simp: bit_simps)
qed

lemma cached_output [simp]: "cached (shmem_output_cacheline g c) = cached c"
  by (simp add: shmem_output_cacheline_def)

lemma cached_store [simp]: "cached (store_release g c v) = v"
  by (simp add: store_release_def)

lemma unset_active_value: "cached (unset_active g k c) = unset_bit (unat k) (cached c)"
  by (auto simp: unset_active_def load_acquire_def atomic_fetch_sub_def and_exp unset_bit_eq Let_def)

lemma set_active_value: "cached (set_active g k c) = set_bit (unat k) (cached c)"
  by (auto simp: set_active_def load_acquire_def atomic_fetch_add_def and_exp set_bit_eq Let_def)

text \<open>The search finds the first set bit after a position, in cyclic order. The number of positions strictly
  between \<open>a\<close> and \<open>b\<close> in cyclic order is \<open>ports_between n a b\<close>.\<close>

definition ports_between :: "nat \<Rightarrow> nat \<Rightarrow> nat \<Rightarrow> nat" where
  "ports_between n a b = (b + n - (a + 1) mod n) mod n"

lemma ports_between_eq:
  assumes "x < n" "((a + 1) mod n + x) mod n = b"
  shows "ports_between n a b = x"
proof -
  let ?m = "(a + 1) mod n"
  have m: "?m < n" using assms(1) by simp
  show ?thesis
  proof (cases "?m + x < n")
    case True
    then have "b = ?m + x" using assms(2) by simp
    then show ?thesis using assms(1) by (simp add: ports_between_def)
  next
    case False
    then have "(?m + x) mod n = (?m + x - n) mod n" by (intro le_mod_geq) simp
    also have "\<dots> = ?m + x - n" using assms(1) m by (intro mod_less) linarith
    finally have "b = ?m + x - n" using assms(2) by simp
    then show ?thesis using assms(1) False m by (simp add: ports_between_def)
  qed
qed

lemma ports_between_reaches: "b < n \<Longrightarrow> ((a + 1) mod n + ports_between n a b) mod n = b"
proof -
  assume b: "b < n"
  then have m: "(a + 1) mod n < n" by simp
  have "((a + 1) mod n + ports_between n a b) mod n = ((a + 1) mod n + (b + n - (a + 1) mod n)) mod n"
    by (simp add: ports_between_def mod_simps)
  also have "(a + 1) mod n + (b + n - (a + 1) mod n) = b + n" using m by simp
  finally show ?thesis using b by simp
qed

lemma next_bit_loop_finds:
  fixes x :: "'w::len word"
  assumes "bit x ((pos + d) mod LENGTH('w))" "pos < LENGTH('w)"
  obtains e where "e \<le> d" "next_bit_loop x pos = Some ((pos + e) mod LENGTH('w))" "bit x ((pos + e) mod LENGTH('w))"
  using assms
proof (induction d arbitrary: pos thesis)
  case 0
  then have "bit x pos" by simp
  then have "next_bit_loop x pos = Some pos" by (subst next_bit_loop.simps) (simp add: and_exp)
  with 0 show ?case by simp
next
  case (Suc d)
  show ?case
  proof (cases "bit x pos")
    case True
    then have "next_bit_loop x pos = Some pos" by (subst next_bit_loop.simps) (simp add: and_exp)
    with True Suc.prems(1) [of 0] Suc.prems(3) show ?thesis by simp
  next
    case False
    let ?p = "(pos + 1) mod LENGTH('w)"
    have step: "next_bit_loop x pos = next_bit_loop x ?p" using False by (subst next_bit_loop.simps) (simp add: and_exp)
    have m: "(?p + i) mod LENGTH('w) = (pos + Suc i) mod LENGTH('w)" for i by (simp add: mod_simps)
    obtain e where e: "e \<le> d" "next_bit_loop x ?p = Some ((?p + e) mod LENGTH('w))" "bit x ((?p + e) mod LENGTH('w))"
      by (rule Suc.IH [of ?p]) (use Suc.prems(2) m [of d] in auto)
    show ?thesis by (rule Suc.prems(1) [of "Suc e"]) (use e m [of e] step in auto)
  qed
qed

lemma next_bit_finds:
  fixes x :: "'w::len word"
  assumes "bit x p" "LENGTH('w) \<le> 256"
  obtains r where "next_bit x k = Some r" "bit x (unat r)"
    "unat r = p \<or> ports_between (LENGTH('w)) (unat r) p < ports_between (LENGTH('w)) (unat k) p"
proof -
  let ?n = "LENGTH('w)" and ?pos = "(unat k + 1) mod LENGTH('w)"
  let ?d = "ports_between ?n (unat k) p"
  have p: "p < ?n" using assms(1) by (rule bit_imp_le_length)
  have d: "(?pos + ?d) mod ?n = p" by (rule ports_between_reaches [OF p])
  then obtain e where e: "e \<le> ?d" "next_bit_loop x ?pos = Some ((?pos + e) mod ?n)" "bit x ((?pos + e) mod ?n)"
    using next_bit_loop_finds [of x ?pos ?d] assms(1) by auto
  let ?r = "(?pos + e) mod ?n"
  have u: "unat (word_of_nat ?r :: u8) = ?r"
  proof -
    have "?r < ?n" by simp
    with assms(2) have "?r < 256" by linarith
    then show ?thesis by (simp add: unsigned_of_nat take_bit_nat_eq_self)
  qed
  have "?r = p \<or> ports_between ?n ?r p < ?d"
  proof (cases "e = ?d")
    case True
    with d show ?thesis by simp
  next
    case False
    with e(1) have lt: "e < ?d" by simp
    have "?d < ?n" by (simp add: ports_between_def)
    then have "?d - e - 1 < ?n" by simp
    moreover have "((?r + 1) mod ?n + (?d - e - 1)) mod ?n = p"
    proof -
      have "(((i + e) mod ?n + 1) mod ?n + j) mod ?n = (i + e + 1 + j) mod ?n" for i j by (simp only: mod_simps)
      then have "((?r + 1) mod ?n + (?d - e - 1)) mod ?n = (?pos + e + 1 + (?d - e - 1)) mod ?n" by this
      also have "?pos + e + 1 + (?d - e - 1) = ?pos + ?d" using lt by simp
      finally show ?thesis using d by simp
    qed
    ultimately have "ports_between ?n ?r p = ?d - e - 1" by (rule ports_between_eq)
    with lt show ?thesis by simp
  qed
  with e u show ?thesis using that [of "word_of_nat ?r"] by (simp add: next_bit_def)
qed

end
