(* ===== verification/Wport_Lock.thy ===== *)
theory Wport_Lock
  imports TTAS_Lock Atomic_Bits Abortable_Spec
begin

text \<open>
  The abortable recoverable lock for a bounded number of ports of
  \<^verbatim>\<open>src/src/common/jj_ab_spin/jj_ab_wport_spin.h\<close>, its status word and its entry points. The waiting ports are a
  bit set; a free status word remembers the last owner, and a promotion takes the next waiting port in
  cyclic order. The width of the bit set (8 to 64) is a type. Each operation runs alone here; their
  interleaving is the step relation of \<open>Abortable_Spec\<close>.
\<close>

unbundle bit_operations_syntax

subsection \<open>The status word\<close>

record wport_csst =
  csst_b :: bool
  csst_owner :: u8
  csst_s :: u64

definition WPORT_CSST_B_SHIFT :: nat where "WPORT_CSST_B_SHIFT = 62"
definition WPORT_CSST_B_MASK :: u64 where "WPORT_CSST_B_MASK = push_bit WPORT_CSST_B_SHIFT 1"
definition WPORT_CSST_PORTID_SHIFT :: nat where "WPORT_CSST_PORTID_SHIFT = 56"
definition WPORT_CSST_PORTID_MASK :: u64 where "WPORT_CSST_PORTID_MASK = push_bit WPORT_CSST_PORTID_SHIFT 0x3f"
definition WPORT_CSST_S_SHIFT :: nat where "WPORT_CSST_S_SHIFT = 0"
definition WPORT_CSST_S_MASK :: u64 where "WPORT_CSST_S_MASK = push_bit WPORT_CSST_PORTID_SHIFT 1 - 1"
definition WPORT_CSST_S_MAX :: u64 where "WPORT_CSST_S_MAX = WPORT_CSST_S_MASK"

text \<open>\<open>None\<close> is the failed assertion on the port number.\<close>

definition compose_wport_csst :: "bool \<Rightarrow> u64 \<Rightarrow> u8 \<Rightarrow> u64 option" where
  "compose_wport_csst b s port =
     (if port > 63 then None
      else
        let s = (if s > WPORT_CSST_S_MAX then 0 else s);
            taken = (if b then WPORT_CSST_B_MASK else 0)
        in Some (taken OR push_bit WPORT_CSST_S_SHIFT s OR push_bit WPORT_CSST_PORTID_SHIFT (ucast port)))"

definition decompose_wport_csst :: "u64 \<Rightarrow> wport_csst" where
  "decompose_wport_csst csst =
     \<lparr>csst_b = (csst AND WPORT_CSST_B_MASK > 0),
      csst_owner = ucast (drop_bit WPORT_CSST_PORTID_SHIFT (csst AND WPORT_CSST_PORTID_MASK)),
      csst_s = drop_bit WPORT_CSST_S_SHIFT (csst AND WPORT_CSST_S_MASK)\<rparr>"

definition read_decompose_wport_csst :: "granularity \<Rightarrow> u64 pcell \<Rightarrow> wport_csst \<times> u64 pcell" where
  "read_decompose_wport_csst g csst = (case pcas_read_uint64 g csst of (v, c) \<Rightarrow> (decompose_wport_csst v, c))"

subsection \<open>Operations\<close>

record 'a jj_wport_spin =
  wp_csst :: "u64 pcell"
  wp_seq :: "u64 pcell"
  wp_active :: "'a pcell"

definition wport_read :: "granularity \<Rightarrow> 'w::len word jj_wport_spin \<Rightarrow> wport_csst \<times> 'w word jj_wport_spin" where
  "wport_read g lock = (case read_decompose_wport_csst g (wp_csst lock) of (cs, c) \<Rightarrow> (cs, lock \<lparr>wp_csst := c\<rparr>))"

definition port_owns :: "wport_csst \<Rightarrow> u8 \<Rightarrow> bool" where
  "port_owns cs process_id \<longleftrightarrow> csst_b cs \<and> csst_s cs = ucast process_id"

text \<open>The exchange of a promotion.\<close>

definition wport_exchange :: "granularity \<Rightarrow> wport_csst \<Rightarrow> u64 \<Rightarrow> 'w::len word jj_wport_spin \<Rightarrow> 'w word jj_wport_spin outcome" where
  "wport_exchange g css_status peer lock =
     (case compose_wport_csst False (csst_s css_status) (csst_owner css_status) of
        None \<Rightarrow> Bug
      | Some exp_css_status \<Rightarrow>
          (case compose_wport_csst True peer (ucast peer) of
             None \<Rightarrow> Bug
           | Some desire_css_status \<Rightarrow>
               let (_, _, c) = persist_cas_uint64 g (wp_csst lock) exp_css_status desire_css_status
               in Done (lock \<lparr>wp_csst := c\<rparr>)))"

definition jj_wport_spin_promote ::
  "granularity \<Rightarrow> u8 \<Rightarrow> bool \<Rightarrow> 'w::len word jj_wport_spin \<Rightarrow> 'w word jj_wport_spin outcome" where
  "jj_wport_spin_promote g process_id flag lock =
     (let (css_status, lock) = wport_read g lock
      in if \<not> csst_b css_status then
           let (active, c) = load_and_flush g (wp_active lock);
               lock = lock \<lparr>wp_active := c\<rparr>
           in if active \<noteq> 0 then
                (case next_bit active (csst_owner css_status) of
                   None \<Rightarrow> Blocked
                 | Some peer \<Rightarrow> wport_exchange g css_status (ucast peer) lock)
              else if \<not> flag then Done lock
              else wport_exchange g css_status (ucast process_id) lock
         else Done lock)"

definition jj_wport_spin_abort :: "granularity \<Rightarrow> u8 \<Rightarrow> 'w::len word jj_wport_spin \<Rightarrow> (bool \<times> 'w word jj_wport_spin) outcome" where
  "jj_wport_spin_abort g process_id lock =
     (let lock = lock \<lparr>wp_active := unset_active g process_id (wp_active lock)\<rparr>
      in bind_outcome (jj_wport_spin_promote g process_id True lock) (\<lambda>lock.
           let (cs, lock) = wport_read g lock
           in Done (\<not> port_owns cs process_id, lock)))"

definition jj_wport_spin_tryenter :: "granularity \<Rightarrow> u8 \<Rightarrow> 'w::len word jj_wport_spin \<Rightarrow> (bool \<times> 'w word jj_wport_spin) outcome" where
  "jj_wport_spin_tryenter g process_id lock =
     (let (css_status, lock) = wport_read g lock
      in if port_owns css_status process_id then Done (True, lock)
         else
           let lock = lock \<lparr>wp_active := set_active g process_id (wp_active lock)\<rparr>
           in bind_outcome (jj_wport_spin_promote g process_id False lock) (\<lambda>lock.
                let (css_status, lock) = wport_read g lock
                in Done (port_owns css_status process_id, lock)))"

definition jj_wport_spin_recover :: "granularity \<Rightarrow> u8 \<Rightarrow> 'w::len word jj_wport_spin \<Rightarrow> 'w word jj_wport_spin outcome" where
  "jj_wport_spin_recover g process_id lock =
     (let (csst, lock) = wport_read g lock
      in if port_owns csst process_id
         then bind_outcome (jj_wport_spin_abort g process_id lock) (\<lambda>(_, lock). Done lock)
         else Done lock)"

text \<open>The spinning loop takes the changes that other processes make between its reads, and returns those it has
  not used.\<close>

fun wport_wait_loop ::
  "granularity \<Rightarrow> u8 \<Rightarrow> (u32 \<Rightarrow> bool) \<Rightarrow> u32 \<Rightarrow> ('w word jj_wport_spin \<Rightarrow> 'w word jj_wport_spin) list \<Rightarrow> 'w::len word jj_wport_spin \<Rightarrow>
    (('w word jj_wport_spin \<Rightarrow> 'w word jj_wport_spin) list \<times> 'w word jj_wport_spin) outcome" where
  "wport_wait_loop g process_id abort_signal counter [] lock = Blocked"
| "wport_wait_loop g process_id abort_signal counter (e # es) lock =
     (let (cs_st, lock) = wport_read g (e lock)
      in if port_owns cs_st process_id \<or> abort_signal counter then Done (es, lock)
         else wport_wait_loop g process_id abort_signal (counter + 1) es lock)"

definition jj_wport_spin_enter ::
  "granularity \<Rightarrow> u8 \<Rightarrow> (u32 \<Rightarrow> bool) \<Rightarrow> ('w word jj_wport_spin \<Rightarrow> 'w word jj_wport_spin) list \<Rightarrow> 'w::len word jj_wport_spin \<Rightarrow>
    (bool \<times> 'w word jj_wport_spin) outcome" where
  "jj_wport_spin_enter g process_id abort_signal es lock =
     bind_outcome (jj_wport_spin_tryenter g process_id lock) (\<lambda>(got_lock, lock).
       bind_outcome (if \<not> got_lock then wport_wait_loop g process_id abort_signal 0 es lock else Done (es, lock)) (\<lambda>(es, lock).
         let (cs_st, lock) = wport_read g (case es of [] \<Rightarrow> lock | e # _ \<Rightarrow> e lock)
         in if port_owns cs_st process_id then Done (True, lock)
            else bind_outcome (jj_wport_spin_abort g process_id lock) (\<lambda>(aborted, lock). Done (\<not> aborted, lock))))"

text \<open>The writes of an exit: the sequence number and the free status word.\<close>

definition wport_release :: "granularity \<Rightarrow> wport_csst \<Rightarrow> 'w::len word jj_wport_spin \<Rightarrow> 'w word jj_wport_spin outcome" where
  "wport_release g css lock =
     (let (s, c) = pcas_read_uint64 g (wp_seq lock);
          lock = lock \<lparr>wp_seq := persist_atomic_write_uint64 g c (s + 1)\<rparr>
      in case compose_wport_csst False (s + 1) (csst_owner css) of
           None \<Rightarrow> Bug
         | Some w \<Rightarrow> Done (lock \<lparr>wp_csst := persist_atomic_write_uint64 g (wp_csst lock) w\<rparr>))"

definition jj_wport_spin_exit :: "granularity \<Rightarrow> u8 \<Rightarrow> 'w::len word jj_wport_spin \<Rightarrow> 'w word jj_wport_spin outcome" where
  "jj_wport_spin_exit g process_id lock =
     (let (css, lock) = wport_read g lock;
          lock = lock \<lparr>wp_active := unset_active g process_id (wp_active lock)\<rparr>
      in bind_outcome (wport_release g css lock) (jj_wport_spin_promote g process_id False))"

definition jj_wport_spin_init :: "granularity \<Rightarrow> 'w::len word jj_wport_spin \<Rightarrow> 'w word jj_wport_spin outcome" where
  "jj_wport_spin_init g lock =
     (case compose_wport_csst False 1 0 of
        None \<Rightarrow> Bug
      | Some w \<Rightarrow>
          Done \<lparr>wp_csst = shmem_output_cacheline g (store_release g (wp_csst lock) w),
                wp_seq = shmem_output_cacheline g (store_release g (wp_seq lock) 1),
                wp_active = shmem_output_cacheline g (store_release g (wp_active lock) 0)\<rparr>)"

subsection \<open>Entry points\<close>

definition jj_wport_spin_lock ::
  "granularity \<Rightarrow> u16 \<Rightarrow> ('w word jj_wport_spin \<Rightarrow> 'w word jj_wport_spin) list \<Rightarrow> 'w::len word jj_wport_spin \<Rightarrow> 'w word jj_wport_spin outcome" where
  "jj_wport_spin_lock g process_id es lock =
     bind_outcome (jj_wport_spin_recover g (ucast process_id) lock) (\<lambda>lock.
       bind_outcome (jj_wport_spin_enter g (ucast process_id) spin_no_abort es lock) (\<lambda>(ret, lock).
         if ret then Done lock else Bug))"

definition jj_wport_spin_unlock :: "granularity \<Rightarrow> u16 \<Rightarrow> 'w::len word jj_wport_spin \<Rightarrow> 'w word jj_wport_spin outcome" where
  "jj_wport_spin_unlock g process_id lock = jj_wport_spin_exit g (ucast process_id) lock"

definition wport_slock_kern ::
  "granularity \<Rightarrow> cpu \<Rightarrow> u16 \<Rightarrow> ('w word jj_wport_spin \<Rightarrow> 'w word jj_wport_spin) list \<Rightarrow> 'w::len word jj_wport_spin \<Rightarrow> 'w word jj_wport_spin outcome" where
  "wport_slock_kern g k machine_id es lock =
     (case kernel_process k machine_id of
        None \<Rightarrow> Bug
      | Some process_id \<Rightarrow>
          if unat process_id \<ge> LENGTH('w) then Bug
          else bind_outcome (jj_wport_spin_recover g (ucast process_id) lock) (\<lambda>lock.
                 bind_outcome (jj_wport_spin_enter g (ucast process_id) spin_no_abort es lock) (\<lambda>(ret, lock).
                   if ret then Done lock else Bug)))"

definition wport_sunlock_kern :: "granularity \<Rightarrow> cpu \<Rightarrow> u16 \<Rightarrow> 'w::len word jj_wport_spin \<Rightarrow> 'w word jj_wport_spin outcome" where
  "wport_sunlock_kern g k machine_id lock =
     (case kernel_process k machine_id of
        None \<Rightarrow> Bug
      | Some process_id \<Rightarrow>
          if unat process_id \<ge> LENGTH('w) then Bug else jj_wport_spin_exit g (ucast process_id) lock)"

subsection \<open>Fields of the status word\<close>

lemma bit_wport_masks:
  "bit WPORT_CSST_B_MASK n \<longleftrightarrow> n = 62"
  "bit WPORT_CSST_PORTID_MASK n \<longleftrightarrow> 56 \<le> n \<and> n < 62"
  "bit WPORT_CSST_S_MASK n \<longleftrightarrow> n < 56"
proof -
  show "bit WPORT_CSST_B_MASK n \<longleftrightarrow> n = 62" 
    by (simp only: WPORT_CSST_B_MASK_def WPORT_CSST_B_SHIFT_def bit_push_bit_iff bit_1_iff) auto
  have P: "WPORT_CSST_PORTID_MASK = push_bit 56 (mask 6)"
    by (simp add: WPORT_CSST_PORTID_MASK_def WPORT_CSST_PORTID_SHIFT_def mask_eq_exp_minus_1)
  show "bit WPORT_CSST_PORTID_MASK n \<longleftrightarrow> 56 \<le> n \<and> n < 62" unfolding P by (simp only: bit_push_bit_iff bit_mask_iff) auto
  have S: "WPORT_CSST_S_MASK = mask 56" by (simp add: WPORT_CSST_S_MASK_def WPORT_CSST_PORTID_SHIFT_def mask_eq_exp_minus_1)
  show "bit WPORT_CSST_S_MASK n \<longleftrightarrow> n < 56" unfolding S by (simp only: bit_mask_iff) auto
qed

lemma bit_below:
  assumes "unat (x :: 'w::len word) < 2 ^ m" "bit x n"
  shows "n < m"
proof -
  have "unat (take_bit m x) = unat x" using assms(1) by (simp only: unsigned_take_bit_eq take_bit_nat_eq_self)
  then have "take_bit m x = x" by (rule unsigned_word_eqI)
  then have "bit (take_bit m x) n" using assms(2) by simp
  then show ?thesis by (simp add: bit_take_bit_iff)
qed

lemma compose_wport:
  assumes "compose_wport_csst b s port = Some w"
  shows "decompose_wport_csst w = \<lparr>csst_b = b, csst_owner = port, csst_s = (if s > WPORT_CSST_S_MAX then 0 else s)\<rparr>"
    and "plain w" "port \<le> 63"
proof -
  define s' where "s' = (if s > WPORT_CSST_S_MAX then 0 else s)"
  from assms show p: "port \<le> 63" by (simp add: compose_wport_csst_def Let_def not_less split: if_splits)
  then have w: "w = (if b then WPORT_CSST_B_MASK else 0) OR s' OR push_bit 56 (ucast port)"
    using assms
    by (cases b; cases "s > WPORT_CSST_S_MAX")
      (simp_all add: s'_def compose_wport_csst_def Let_def WPORT_CSST_S_SHIFT_def WPORT_CSST_PORTID_SHIFT_def leD split: if_splits)
  have "unat port < 2 ^ 6" using p by (simp add: word_le_nat_alt)
  then have pb: "bit port n \<Longrightarrow> n < 6" for n by (rule bit_below)
  have "s' \<le> mask 56" by (simp add: s'_def WPORT_CSST_S_MAX_def WPORT_CSST_S_MASK_def WPORT_CSST_PORTID_SHIFT_def mask_eq_exp_minus_1 not_less)
  then have "unat s' < 2 ^ 56" by (simp add: word_le_nat_alt mask_eq_exp_minus_1)
  then have sb: "bit s' n \<Longrightarrow> n < 56" for n by (rule bit_below)
  have wb: "bit w n \<longleftrightarrow> b \<and> n = 62 \<or> bit s' n \<or> 56 \<le> n \<and> n < 62 \<and> bit port (n - 56)" for n
    unfolding w using pb [of "n - 56"] by (auto simp: bit_simps bit_wport_masks)
  have "w AND WPORT_CSST_B_MASK = (if b then WPORT_CSST_B_MASK else 0)"
    by (rule bit_word_eqI) (auto simp: bit_simps bit_wport_masks wb dest: sb)
  moreover have "(0 :: u64) < WPORT_CSST_B_MASK" by (simp add: WPORT_CSST_B_MASK_def WPORT_CSST_B_SHIFT_def word_less_nat_alt)
  moreover have "ucast (drop_bit 56 (w AND WPORT_CSST_PORTID_MASK)) = port"
    by (rule bit_word_eqI) (auto simp: bit_simps bit_wport_masks wb dest: sb pb)
  moreover have "w AND WPORT_CSST_S_MASK = s'"
    by (rule bit_word_eqI) (auto simp: bit_and_iff bit_wport_masks wb dest: sb)
  ultimately show "decompose_wport_csst w = \<lparr>csst_b = b, csst_owner = port, csst_s = (if s > WPORT_CSST_S_MAX then 0 else s)\<rparr>"
    by (simp add: s'_def [symmetric] decompose_wport_csst_def WPORT_CSST_S_SHIFT_def WPORT_CSST_PORTID_SHIFT_def)
  show "plain w" using sb [of 63] by (auto simp: plain_bit wb)
qed

lemma compose_wport_Some: "port \<le> 63 \<Longrightarrow> \<exists>w. compose_wport_csst b s port = Some w"
  by (simp add: compose_wport_csst_def Let_def not_less)

definition wport_word :: "granularity \<Rightarrow> 'w::len word jj_wport_spin \<Rightarrow> u64" where
  "wport_word g lock = pvalue g (wp_csst lock)"

definition wport_owner :: "granularity \<Rightarrow> 'w::len word jj_wport_spin \<Rightarrow> u8 \<Rightarrow> bool" where
  "wport_owner g lock p \<longleftrightarrow> port_owns (decompose_wport_csst (wport_word g lock)) p"

text \<open>A status word of the lock: free with a sequence number and the last owner, or taken by a port.\<close>

definition wport_status :: "u64 \<Rightarrow> bool" where
  "wport_status w \<longleftrightarrow> (\<exists>s port. compose_wport_csst False s port = Some w) \<or> (\<exists>p. compose_wport_csst True (ucast p) p = Some w)"

definition wport_wf :: "granularity \<Rightarrow> 'w::len word jj_wport_spin \<Rightarrow> bool" where
  "wport_wf g lock \<longleftrightarrow> LENGTH('w) \<le> 64 \<and> wport_status (wport_word g lock)"

lemma ucast8_inject [simp]: "(ucast (p :: u8) :: u64) = ucast q \<longleftrightarrow> p = q"
proof
  have u: "unat (ucast x :: u64) = unat x" for x :: u8
  proof -
    have "unat x < 2 ^ LENGTH(8)" by (rule unsigned_less)
    then show ?thesis by (simp add: unsigned_ucast_eq take_bit_nat_eq_self)
  qed
  assume "(ucast p :: u64) = ucast q"
  then have "unat p = unat q" using u [of p] u [of q] by simp
  then show "p = q" by (rule unsigned_word_eqI)
qed simp

lemma port_in_range: "\<not> (ucast (p :: u8) :: u64) > WPORT_CSST_S_MAX"
proof -
  have "unat p < 2 ^ LENGTH(8)" by (rule unsigned_less)
  then have "unat (ucast p :: u64) \<le> 255" by (simp add: unsigned_ucast_eq take_bit_nat_eq_self)
  moreover have "unat WPORT_CSST_S_MAX = 2 ^ 56 - 1"
    by (simp add: WPORT_CSST_S_MAX_def WPORT_CSST_S_MASK_def WPORT_CSST_PORTID_SHIFT_def)
  ultimately show ?thesis by (simp add: not_less word_le_nat_alt)
qed

lemma taken_word:
  assumes "compose_wport_csst True (ucast p) port = Some w" "wport_word g lock = w"
  shows "wport_owner g lock q \<longleftrightarrow> q = p"
  using compose_wport(1) [OF assms(1)] port_in_range [of p] assms(2) by (auto simp: wport_owner_def port_owns_def)

lemma free_wport_word:
  assumes "compose_wport_csst False s port = Some w" "wport_word g lock = w"
  shows "\<not> wport_owner g lock q"
  using compose_wport(1) [OF assms(1)] assms(2) by (simp add: wport_owner_def port_owns_def)

lemma recompose:
  assumes "wport_status w" "\<not> csst_b (decompose_wport_csst w)"
  shows "compose_wport_csst False (csst_s (decompose_wport_csst w)) (csst_owner (decompose_wport_csst w)) = Some w"
proof -
  from assms obtain s port where w: "compose_wport_csst False s port = Some w"
    by (auto simp: wport_status_def dest: compose_wport(1))
  have "compose_wport_csst False (if s > WPORT_CSST_S_MAX then 0 else s) port = compose_wport_csst False s port"
    by (simp add: compose_wport_csst_def Let_def)
  then show ?thesis using compose_wport(1) [OF w] w by simp
qed

lemma wport_read_value:
  assumes "wport_read g lock = (cs, lock')"
  shows "cs = decompose_wport_csst (wport_word g lock)" "wport_word g lock' = wport_word g lock"
    "wp_active lock' = wp_active lock" "wp_seq lock' = wp_seq lock" "wport_owner g lock' = wport_owner g lock"
proof -
  obtain v c where r: "pcas_read_uint64 g (wp_csst lock) = (v, c)" by (cases "pcas_read_uint64 g (wp_csst lock)")
  from pcas64_read(3) [OF r] assms r
  show "cs = decompose_wport_csst (wport_word g lock)" "wport_word g lock' = wport_word g lock"
    "wp_active lock' = wp_active lock" "wp_seq lock' = wp_seq lock" "wport_owner g lock' = wport_owner g lock"
    by (auto simp: wport_read_def read_decompose_wport_csst_def wport_word_def wport_owner_def fun_eq_iff)
qed

lemma wport_exchange_value:
  assumes "wport_exchange g cs (ucast (p :: u8)) lock = Done lock'"
  obtains e d where "compose_wport_csst False (csst_s cs) (csst_owner cs) = Some e" "compose_wport_csst True (ucast p) p = Some d"
    "wport_word g lock' = (if wport_word g lock = e then d else wport_word g lock)" "wp_active lock' = wp_active lock"
proof -
  have pp: "(ucast (ucast p :: u64) :: u8) = p"
    by (rule bit_word_eqI) (auto simp: bit_simps)
  from assms obtain e d where e: "compose_wport_csst False (csst_s cs) (csst_owner cs) = Some e"
    and d: "compose_wport_csst True (ucast p) p = Some d"
    by (auto simp: wport_exchange_def pp split: option.splits)
  obtain ok ex c where k: "persist_cas_uint64 g (wp_csst lock) e d = (ok, ex, c)"
    by (cases "persist_cas_uint64 g (wp_csst lock) e d") auto
  have "fits g e" "fits g d" using compose_wport(2) [OF e] compose_wport(2) [OF d] by (simp_all add: fits_def)
  from pcas64_cas(2) [OF k this] have "wport_word g lock' = (if wport_word g lock = e then d else wport_word g lock)"
    "wp_active lock' = wp_active lock"
    using assms e d k by (auto simp: wport_exchange_def pp wport_word_def)
  with e d show ?thesis by (rule that)
qed

subsection \<open>Ports competing for the lock\<close>

text \<open>A port that fails an assertion stops and leaves the lock as it is.\<close>

definition wport_swap :: "granularity \<Rightarrow> wport_csst \<Rightarrow> u8 \<Rightarrow> 'w::len word jj_wport_spin \<Rightarrow> 'w word jj_wport_spin" where
  "wport_swap g cs peer lock = (case wport_exchange g cs (ucast peer) lock of Done lock' \<Rightarrow> lock' | _ \<Rightarrow> lock)"

definition wport_free_write :: "granularity \<Rightarrow> wport_csst \<Rightarrow> 'w::len word jj_wport_spin \<Rightarrow> 'w word jj_wport_spin" where
  "wport_free_write g cs lock = (case wport_release g cs lock of Done lock' \<Rightarrow> lock' | _ \<Rightarrow> lock)"

definition wport_step ::
  "granularity \<Rightarrow> ('w::len word jj_wport_spin, wport_csst, u8) ab_sys \<Rightarrow> ('w word jj_wport_spin, wport_csst, u8) ab_sys \<Rightarrow> bool" where
  "wport_step g = ab_step (wport_read g) port_owns (\<lambda>cs. \<not> csst_b cs) (wport_swap g) (wport_read g) (wport_free_write g)
     (\<lambda>lock lock'. wp_csst lock' = wp_csst lock)"

definition wport_start :: "granularity \<Rightarrow> ('w::len word jj_wport_spin, wport_csst, u8) ab_sys \<Rightarrow> bool" where
  "wport_start g = ab_start (\<lambda>lock. \<exists>l. jj_wport_spin_init g l = Done lock)"

lemma wport_swap_taken:
  assumes "wport_owner g l q"
  shows "wport_owner g (wport_swap g cs p l) = wport_owner g l"
proof (cases "wport_exchange g cs (ucast p) l")
  case (Done l')
  obtain e d where e: "compose_wport_csst False (csst_s cs) (csst_owner cs) = Some e"
    "wport_word g l' = (if wport_word g l = e then d else wport_word g l)"
    by (rule wport_exchange_value [OF Done])
  have "wport_word g l \<noteq> e" using free_wport_word [OF e(1), of g l q] assms by blast
  with e(2) have "wport_word g l' = wport_word g l" by simp
  with Done show ?thesis by (simp add: wport_swap_def wport_owner_def fun_eq_iff)
qed (simp_all add: wport_swap_def)

interpretation wport: abortable_lock "\<lambda>lock. \<exists>l. jj_wport_spin_init g l = Done lock" "wport_read g" port_owns "\<lambda>cs. \<not> csst_b cs"
  "wport_swap g" "wport_read g" "wport_free_write g" "\<lambda>lock lock'. wp_csst lock' = wp_csst lock" "wport_owner g" for g
proof unfold_locales
  show "p = q" if "wport_owner g l p" "wport_owner g l q" for l :: "'a word jj_wport_spin" and p q
    using that by (auto simp: wport_owner_def port_owns_def)
  show "wport_owner g l' = wport_owner g l" if "wport_read g l = (c, l')" for l c and l' :: "'a word jj_wport_spin"
    by (rule wport_read_value(5) [OF that])
  show "port_owns c p \<longleftrightarrow> wport_owner g l p" if "wport_read g l = (c, l')" for l c p and l' :: "'a word jj_wport_spin"
    using wport_read_value(1) [OF that] by (simp add: wport_owner_def)
  show "wport_owner g l' = wport_owner g l" if "wp_csst l' = wp_csst l" for l and l' :: "'a word jj_wport_spin"
    using that by (simp add: wport_owner_def wport_word_def fun_eq_iff)
  show "wport_owner g (wport_swap g c p l) = wport_owner g l" if "wport_owner g l q" for l :: "'a word jj_wport_spin" and q c p
    by (rule wport_swap_taken [OF that])
qed

subsection \<open>Handing over\<close>

lemma wport_release_value:
  assumes "csst_owner css \<le> 63"
  obtains l' s w where "wport_release g css lock = Done l'" "compose_wport_csst False s (csst_owner css) = Some w"
    "wport_word g l' = w" "wp_active l' = wp_active lock"
proof -
  obtain s c where r: "pcas_read_uint64 g (wp_seq lock) = (s, c)" by (cases "pcas_read_uint64 g (wp_seq lock)")
  obtain w where w: "compose_wport_csst False (s + 1) (csst_owner css) = Some w" using compose_wport_Some [OF assms] by blast
  have "fits g w" using compose_wport(2) [OF w] by (simp add: fits_def)
  then show ?thesis
    using that [OF _ w] r w
    by (simp add: wport_release_def wport_word_def persist_atomic_write_uint64_def persist_write_value)
qed

text \<open>A promotion on a free word with a waiting port.\<close>

lemma wport_promote_waiting:
  fixes lock :: "'w::len word jj_wport_spin"
  assumes "compose_wport_csst False s k = Some w" "wport_word g lock = w" "LENGTH('w) \<le> 64" "bit (cached (wp_active lock)) p"
  obtains l' r where "jj_wport_spin_promote g q flag lock = Done l'" "wport_wf g l'" "wport_owner g l' r"
    "bit (cached (wp_active lock)) (unat r)" "cached (wp_active l') = cached (wp_active lock)"
    "unat r = p \<or> ports_between LENGTH('w) (unat r) p < ports_between LENGTH('w) (unat k) p"
proof -
  obtain cs l1 where r1: "wport_read g lock = (cs, l1)" by (cases "wport_read g lock")
  note rv = wport_read_value [OF r1]
  have cs: "\<not> csst_b cs" "csst_owner cs = k" using rv(1) assms(2) compose_wport(1) [OF assms(1)] by simp_all
  let ?a = "cached (wp_active lock)"
  have a0: "?a \<noteq> 0" using assms(4) by auto
  obtain r where r: "next_bit ?a k = Some r" "bit ?a (unat r)"
    "unat r = p \<or> ports_between LENGTH('w) (unat r) p < ports_between LENGTH('w) (unat k) p"
    by (rule next_bit_finds [OF assms(4), of k]) (use assms(3) in auto)
  define l2 where "l2 = l1 \<lparr>wp_active := shmem_output_cacheline g (wp_active l1)\<rparr>"
  have l2: "wport_word g l2 = w" "cached (wp_active l2) = ?a" using rv(2,3) assms(2) by (simp_all add: l2_def wport_word_def)
  have "unat r < 64" using bit_imp_le_length [OF r(2)] assms(3) by simp
  then have "r \<le> 63" by (simp add: word_le_nat_alt)
  then obtain d where d: "compose_wport_csst True (ucast r) r = Some d" using compose_wport_Some by blast
  have e: "compose_wport_csst False (csst_s cs) (csst_owner cs) = Some w"
    using recompose [of w] assms(1,2) rv(1) cs(1) by (auto simp: wport_status_def)
  have pp: "(ucast (ucast r :: u64) :: u8) = r" by (rule bit_word_eqI) (auto simp: bit_simps)
  obtain l3 where l3: "wport_exchange g cs (ucast r) l2 = Done l3"
    by (cases "persist_cas_uint64 g (wp_csst l2) w d") (auto simp: wport_exchange_def e d pp)
  obtain e' d' where x: "compose_wport_csst False (csst_s cs) (csst_owner cs) = Some e'" "compose_wport_csst True (ucast r) r = Some d'"
    "wport_word g l3 = (if wport_word g l2 = e' then d' else wport_word g l2)" "wp_active l3 = wp_active l2"
    by (rule wport_exchange_value [OF l3])
  have w3: "wport_word g l3 = d" using x e d l2(1) by simp
  show ?thesis
  proof (rule that [OF _ _ _ r(2) _ r(3)])
    show "jj_wport_spin_promote g q flag lock = Done l3"
      using r1 cs r(1) a0 l3 rv(3)
      by (simp add: jj_wport_spin_promote_def load_and_flush_def load_acquire_def l2_def)
    show "wport_wf g l3" using assms(3) d w3 by (auto simp: wport_wf_def wport_status_def)
    show "wport_owner g l3 r" using taken_word [OF d w3] by simp
    show "cached (wp_active l3) = ?a" using x(4) l2(2) by simp
  qed
qed

lemma wport_exit_next:
  fixes lock :: "'w::len word jj_wport_spin"
  assumes "wport_wf g lock" "wport_owner g lock q" "bit (cached (wp_active lock)) (unat p)" "p \<noteq> q"
  obtains l' r where "jj_wport_spin_exit g q lock = Done l'" "wport_wf g l'" "wport_owner g l' r" "r \<noteq> q"
    "bit (cached (wp_active lock)) (unat r)" "cached (wp_active l') = unset_bit (unat q) (cached (wp_active lock))"
    "r = p \<or> ports_between LENGTH('w) (unat r) (unat p) < ports_between LENGTH('w) (unat q) (unat p)"
proof -
  obtain css l1 where r1: "wport_read g lock = (css, l1)" by (cases "wport_read g lock")
  note rv = wport_read_value [OF r1]
  have word: "compose_wport_csst True (ucast q) q = Some (wport_word g lock)"
  proof -
    from assms(1) consider s port where "compose_wport_csst False s port = Some (wport_word g lock)"
      | x where "compose_wport_csst True (ucast x) x = Some (wport_word g lock)" by (auto simp: wport_wf_def wport_status_def)
    then show ?thesis
    proof cases
      case 1
      from free_wport_word [OF 1 refl] assms(2) show ?thesis by blast
    next
      case 2
      from taken_word [OF 2 refl] assms(2) have "q = x" by blast
      with 2 show ?thesis by simp
    qed
  qed
  have own: "csst_owner css = q" using rv(1) compose_wport(1) [OF word] by simp
  have q63: "csst_owner css \<le> 63" using compose_wport(3) [OF word] own by simp
  define l2 where "l2 = l1 \<lparr>wp_active := unset_active g q (wp_active l1)\<rparr>"
  have a2: "cached (wp_active l2) = unset_bit (unat q) (cached (wp_active lock))"
    by (simp add: l2_def unset_active_value rv(3))
  obtain l3 s w where l3: "wport_release g css l2 = Done l3" "compose_wport_csst False s (csst_owner css) = Some w"
    "wport_word g l3 = w" "wp_active l3 = wp_active l2"
    by (rule wport_release_value [OF q63])
  have "unat p \<noteq> unat q" using assms(4) by (metis unsigned_word_eqI)
  then have wait: "bit (cached (wp_active l3)) (unat p)" using assms(3) a2 l3(4) by (simp add: bit_unset_bit_iff)
  have len: "LENGTH('w) \<le> 64" using assms(1) by (simp add: wport_wf_def)
  obtain l4 r where l4: "jj_wport_spin_promote g q False l3 = Done l4" "wport_wf g l4" "wport_owner g l4 r"
    "bit (cached (wp_active l3)) (unat r)" "cached (wp_active l4) = cached (wp_active l3)"
    "unat r = unat p \<or> ports_between LENGTH('w) (unat r) (unat p) < ports_between LENGTH('w) (unat (csst_owner css)) (unat p)"
    by (rule wport_promote_waiting [OF l3(2,3) len wait])
  show ?thesis
  proof (rule that)
    show "jj_wport_spin_exit g q lock = Done l4" using r1 l3(1) l4(1) by (simp add: jj_wport_spin_exit_def l2_def)
    show "r \<noteq> q" "bit (cached (wp_active lock)) (unat r)" using l4(4) l3(4) a2 by (auto simp: bit_unset_bit_iff)
    show "r = p \<or> ports_between LENGTH('w) (unat r) (unat p) < ports_between LENGTH('w) (unat q) (unat p)"
      using l4(6) own by (auto dest: unsigned_word_eqI)
  qed (use l4 l3(4) a2 in simp_all)
qed

subsection \<open>Properties\<close>

text \<open>C32: Mutual exclusion of the port lock. In every state reachable from an initialised lock, with any ports
  entering, trying, aborting, exiting, recovering, crashing and restarting, their accesses to the status
  word interleaved in any order and the set of waiting ports and the sequence number changing arbitrarily,
  at most one port is between entering and releasing.\<close>

theorem wport_mutual_exclusion:
  fixes s :: "('w::len word jj_wport_spin, wport_csst, u8) ab_sys"
  assumes "reach (wport_start g) (wport_step g) s" "ab_inside s p" "ab_inside s q"
  shows "p = q"
  using assms unfolding wport_start_def wport_step_def by (rule wport.mutual_exclusion)

definition ex_wport_memory :: "u16 jj_wport_spin" where
  "ex_wport_memory = \<lparr>wp_csst = \<lparr>cached = 0, media = 0\<rparr>, wp_seq = \<lparr>cached = 0, media = 0\<rparr>, wp_active = \<lparr>cached = 7, media = 0\<rparr>\<rparr>"

lemma ex_wport_inside: "\<exists>s. reach (wport_start g) (wport_step g) (s :: (u16 jj_wport_spin, wport_csst, u8) ab_sys) \<and> ab_inside s 3"
proof -
  obtain w where w: "compose_wport_csst False 1 0 = Some w" using compose_wport_Some [of 0 False 1] by auto
  then obtain lock where l: "jj_wport_spin_init g ex_wport_memory = Done lock" by (simp add: jj_wport_spin_init_def)
  have word: "wport_word g lock = w"
    using l w compose_wport(2) [OF w]
    by (auto simp: jj_wport_spin_init_def wport_word_def pvalue_def pcas_read_noflush_def load_acquire_def fits_def)
  obtain c1 l1 where r1: "wport_read g lock = (c1, l1)" by (cases "wport_read g lock")
  obtain c2 l2 where r2: "wport_read g l1 = (c2, l2)" by (cases "wport_read g l1")
  have w2: "wport_word g l2 = w" "c2 = decompose_wport_csst w"
    using wport_read_value(1,2) [OF r2] wport_read_value(2) [OF r1] word by simp_all
  have free: "\<not> csst_b c2" using w2(2) compose_wport(1) [OF w] by simp
  obtain d where d: "compose_wport_csst True (ucast (3 :: u8)) (3 :: u8) = Some d" using compose_wport_Some [of 3 True "ucast (3 :: u8)"] by auto
  have e: "compose_wport_csst False (csst_s c2) (csst_owner c2) = Some w"
    using recompose [of w] w w2(2) free by (auto simp: wport_status_def)
  obtain l3 where l3: "wport_exchange g c2 (ucast (3 :: u8)) l2 = Done l3"
    by (cases "persist_cas_uint64 g (wp_csst l2) w d") (use d in \<open>auto simp: wport_exchange_def e\<close>)
  obtain e' d' where x: "compose_wport_csst False (csst_s c2) (csst_owner c2) = Some e'" "compose_wport_csst True (ucast (3 :: u8)) 3 = Some d'"
    "wport_word g l3 = (if wport_word g l2 = e' then d' else wport_word g l2)"
    by (rule wport_exchange_value [OF l3])
  have "wport_word g l3 = d'" using x e w2(1) by simp
  from taken_word [OF x(2) this] have "wport_owner g (wport_swap g c2 3 l2) 3" using l3 by (simp add: wport_swap_def)
  moreover have "\<not> wport_owner g lock 3" by (rule free_wport_word [OF w word])
  ultimately show ?thesis
    unfolding wport_start_def wport_step_def using wport.ab_enters [OF exI [of _ ex_wport_memory], OF l _ r1 r2 free] by blast
qed

theorem wport_mutual_exclusion_witness:
  "\<exists>s :: (u16 jj_wport_spin, wport_csst, u8) ab_sys.
     reach (wport_start CACHELINE_GRANULAR) (wport_step CACHELINE_GRANULAR) s \<and> ab_inside s 3 \<and> (\<forall>q. ab_inside s q \<longrightarrow> 3 = q)"
proof -
  from ex_wport_inside obtain s :: "(u16 jj_wport_spin, wport_csst, u8) ab_sys"
    where s: "reach (wport_start CACHELINE_GRANULAR) (wport_step CACHELINE_GRANULAR) s" "ab_inside s 3" by blast
  with wport_mutual_exclusion [OF s] show ?thesis by blast
qed

text \<open>Successive owners leave the lock; between two exits other ports may register or withdraw.\<close>

fun wport_rounds ::
  "granularity \<Rightarrow> ('w word jj_wport_spin \<Rightarrow> 'w word jj_wport_spin) list \<Rightarrow> 'w::len word jj_wport_spin \<Rightarrow> 'w word jj_wport_spin outcome" where
  "wport_rounds g [] lock = Done lock"
| "wport_rounds g (e # es) lock =
     bind_outcome (jj_wport_spin_exit g (csst_owner (decompose_wport_csst (wport_word g lock))) lock)
       (\<lambda>lock. wport_rounds g es (e lock))"

text \<open>C31: No port is overtaken for ever. If the port \<open>q\<close> owns the lock and \<open>p\<close> waits, then however the other ports
  register and withdraw between the exits, \<open>p\<close> owns the lock after at most as many exits as there are ports
  from \<open>q\<close> to \<open>p\<close> in cyclic order; every one of these exits returns.\<close>

theorem wport_bounded_waiting:
  fixes lock :: "'w::len word jj_wport_spin"
  assumes "wport_wf g lock" "wport_owner g lock q" "bit (cached (wp_active lock)) (unat p)" "p \<noteq> q"
    and "\<And>e l. e \<in> set es \<Longrightarrow> wp_csst (e l) = wp_csst l \<and> (bit (cached (wp_active l)) (unat p) \<longrightarrow> bit (cached (wp_active (e l))) (unat p))"
    and "ports_between LENGTH('w) (unat q) (unat p) < length es"
  shows "\<exists>k lock'. k \<le> ports_between LENGTH('w) (unat q) (unat p) + 1 \<and> wport_rounds g (take k es) lock = Done lock' \<and>
    wport_owner g lock' p"
  using assms
proof (induction es arbitrary: lock q)
  case (Cons e es)
  let ?n = "LENGTH('w)"
  have own: "csst_owner (decompose_wport_csst (wport_word g lock)) = q"
  proof -
    have "wport_status (wport_word g lock)" using Cons.prems(1) by (simp add: wport_wf_def)
    then obtain x where "compose_wport_csst True (ucast x) x = Some (wport_word g lock)"
      using free_wport_word [OF _ refl, of _ _ g lock q] Cons.prems(2) by (auto simp: wport_status_def)
    moreover from taken_word [OF this refl] Cons.prems(2) have "q = x" by blast
    ultimately show ?thesis using compose_wport(1) by simp
  qed
  obtain l' r where l': "jj_wport_spin_exit g q lock = Done l'" "wport_wf g l'" "wport_owner g l' r" "r \<noteq> q"
    "cached (wp_active l') = unset_bit (unat q) (cached (wp_active lock))"
    "r = p \<or> ports_between ?n (unat r) (unat p) < ports_between ?n (unat q) (unat p)"
    by (rule wport_exit_next [OF Cons.prems(1-4)])
  have e: "wp_csst (e l') = wp_csst l'" using Cons.prems(5) [of e l'] by simp
  then have w: "wport_word g (e l') = wport_word g l'" by (simp add: wport_word_def)
  have wf: "wport_wf g (e l')" "wport_owner g (e l') r" using l'(2,3) w by (simp_all add: wport_wf_def wport_owner_def)
  have "unat p \<noteq> unat q" using Cons.prems(4) by (metis unsigned_word_eqI)
  then have "bit (cached (wp_active l')) (unat p)" using Cons.prems(3) l'(5) by (simp add: bit_unset_bit_iff)
  then have wait: "bit (cached (wp_active (e l'))) (unat p)" using Cons.prems(5) [of e l'] by simp
  show ?case
  proof (cases "r = p")
    case True
    then show ?thesis using l'(1) wf(2) own by (intro exI [of _ 1] exI [of _ "e l'"]) simp
  next
    case False
    then have less: "ports_between ?n (unat r) (unat p) < ports_between ?n (unat q) (unat p)" using l'(6) by simp
    obtain k lock' where k: "k \<le> ports_between ?n (unat r) (unat p) + 1" "wport_rounds g (take k es) (e l') = Done lock'" "wport_owner g lock' p"
      using Cons.IH [OF wf wait] False Cons.prems(5,6) less by auto
    then show ?thesis using l'(1) own less by (intro exI [of _ "Suc k"] exI [of _ lock']) simp
  qed
qed simp

theorem wport_bounded_waiting_witness:
  "\<exists>(lock :: u16 jj_wport_spin) k lock'. wport_owner DRAM lock 2 \<and> k \<le> 3 \<and> wport_rounds DRAM (take k (replicate 4 (\<lambda>l. l))) lock = Done lock' \<and>
     wport_owner DRAM lock' 5"
proof -
  obtain d where d: "compose_wport_csst True (ucast (2 :: u8)) (2 :: u8) = Some d"
    using compose_wport_Some [of 2 True "ucast (2 :: u8)"] by auto
  define lock :: "u16 jj_wport_spin" where
    "lock = \<lparr>wp_csst = \<lparr>cached = d, media = d\<rparr>, wp_seq = \<lparr>cached = 1, media = 1\<rparr>, wp_active = \<lparr>cached = 0x24, media = 0x24\<rparr>\<rparr>"
  have w: "wport_word DRAM lock = d" by (simp add: lock_def wport_word_def pvalue_def pcas_read_noflush_def load_acquire_def)
  have "wport_status (wport_word DRAM lock)" unfolding w wport_status_def using d by blast
  then have wf: "wport_wf DRAM lock" by (simp add: wport_wf_def)
  have own: "wport_owner DRAM lock 2" using taken_word [OF d w] by simp
  have n: "ports_between LENGTH(16) (unat (2 :: u8)) (unat (5 :: u8)) = 2" by (simp add: ports_between_def)
  have "\<exists>k lock'. k \<le> ports_between LENGTH(16) (unat (2 :: u8)) (unat (5 :: u8)) + 1 \<and>
    wport_rounds DRAM (take k (replicate 4 (\<lambda>l. l))) lock = Done lock' \<and> wport_owner DRAM lock' 5"
    by (rule wport_bounded_waiting [OF wf own]) (simp_all add: lock_def ports_between_def)
  with own show ?thesis unfolding n by auto
qed

end
