(* ===== verification/Mpsc_Queue.thy ===== *)
theory Mpsc_Queue
  imports Atomic_Bits Lock_Spec
begin

text \<open>
  The queue with many producers and one consumer of \<^verbatim>\<open>src/driver/src/mpsc_queue.c\<close>: a ring of 32 words in
  which \<open>-1\<close> marks a free cell. A producer reserves room by counting up, draws a ticket and stores its
  value in the cell of its ticket; the consumer empties the cell at the tail. The operations are composed
  of their atomic accesses, so that the step relation can interleave the accesses of any number of
  producers with those of the consumer.

  A remainder of a negative ticket is negative in C and the cell lies before the buffer; such accesses
  are \<open>None\<close>.
\<close>

unbundle bit_operations_syntax

subsection \<open>Operations\<close>

definition MPSC_QUEUE_SIZE :: nat where "MPSC_QUEUE_SIZE = 32"

record mpscq =
  mq_buffer :: "u64 pcell list"
  mq_count :: "u64 pcell"
  mq_head :: "u64 pcell"
  mq_tail :: "u64 pcell"

definition init_mpscq :: "granularity \<Rightarrow> mpscq \<Rightarrow> mpscq" where
  "init_mpscq g q =
     (let zero = (\<lambda>c. shmem_output_cacheline g (store_release g c 0))
      in \<lparr>mq_buffer = map (\<lambda>c. shmem_output_cacheline g (store_release g c (- 1))) (mq_buffer q),
          mq_count = zero (mq_count q), mq_head = zero (mq_head q), mq_tail = zero (mq_tail q)\<rparr>)"

definition mpscq_reserve :: "granularity \<Rightarrow> mpscq \<Rightarrow> u64 \<times> mpscq" where
  "mpscq_reserve g q =
     (cached (mq_count q), q \<lparr>mq_count := shmem_output_cacheline g (atomic_fetch_add g (mq_count q) 1)\<rparr>)"

definition mpscq_unreserve :: "granularity \<Rightarrow> mpscq \<Rightarrow> mpscq" where
  "mpscq_unreserve g q = q \<lparr>mq_count := shmem_output_cacheline g (atomic_fetch_sub g (mq_count q) 1)\<rparr>"

definition mpscq_ticket :: "granularity \<Rightarrow> mpscq \<Rightarrow> u64 \<times> mpscq" where
  "mpscq_ticket g q =
     (cached (mq_head q), q \<lparr>mq_head := shmem_output_cacheline g (atomic_fetch_add g (mq_head q) 1)\<rparr>)"

definition mpscq_index :: "u64 \<Rightarrow> nat option" where
  "mpscq_index head =
     (if 0 \<le> sint head then Some (nat (sint head) mod MPSC_QUEUE_SIZE)
      else if nat (- sint head) mod MPSC_QUEUE_SIZE = 0 then Some 0 else None)"

definition mpscq_store :: "granularity \<Rightarrow> nat \<Rightarrow> u64 \<Rightarrow> mpscq \<Rightarrow> mpscq" where
  "mpscq_store g i data q =
     q \<lparr>mq_buffer := (mq_buffer q)[i := shmem_output_cacheline g (store_release g (mq_buffer q ! i) data)]\<rparr>"

definition mpscq_enqueue :: "granularity \<Rightarrow> mpscq \<Rightarrow> u64 \<Rightarrow> (bool \<times> mpscq) option" where
  "mpscq_enqueue g q data =
     (let (count, q) = mpscq_reserve g q
      in if sint count \<ge> int MPSC_QUEUE_SIZE then Some (False, mpscq_unreserve g q)
         else
           let (head, q) = mpscq_ticket g q
           in case mpscq_index head of
                None \<Rightarrow> None
              | Some i \<Rightarrow> Some (True, mpscq_store g i data q))"

definition mpscq_take :: "granularity \<Rightarrow> mpscq \<Rightarrow> (u64 \<times> mpscq) option" where
  "mpscq_take g q =
     (let tail = unat (cached (mq_tail q))
      in if tail < MPSC_QUEUE_SIZE then Some (cached (mq_buffer q ! tail), mpscq_store g tail (- 1) q) else None)"

definition mpscq_advance :: "granularity \<Rightarrow> mpscq \<Rightarrow> mpscq" where
  "mpscq_advance g q =
     (let q = q \<lparr>mq_tail := store_release g (mq_tail q) (cached (mq_tail q) + 1)\<rparr>
      in if unat (cached (mq_tail q)) \<ge> MPSC_QUEUE_SIZE
         then q \<lparr>mq_tail := shmem_output_cacheline g (store_release g (mq_tail q) 0)\<rparr>
         else q)"

definition mpscq_dequeue :: "granularity \<Rightarrow> mpscq \<Rightarrow> (u64 \<times> mpscq) option" where
  "mpscq_dequeue g q =
     (case mpscq_take g q of
        None \<Rightarrow> None
      | Some (ret, q) \<Rightarrow>
          if ret = - 1 then Some (- 1, q) else Some (ret, mpscq_unreserve g (mpscq_advance g q)))"

definition mpscq_count :: "mpscq \<Rightarrow> u64" where
  "mpscq_count q = load_acquire (mq_count q)"

definition mpscq_capacity :: "mpscq \<Rightarrow> nat" where
  "mpscq_capacity q = MPSC_QUEUE_SIZE"

subsection \<open>Producers and the consumer\<close>

text \<open>The values by ticket (\<open>mp_hist\<close>) and the values taken out (\<open>mp_out\<close>) are recorded along the way. A ticket is
  drawn while the counter of tickets is not negative.\<close>

datatype prod_pc = Idle | Backing_Off | Reserved u64 | Ticket u64 u64

datatype cons_pc = Ready | Taken | Advanced

record mp_sys =
  mp_q :: mpscq
  mp_prod :: "u16 \<Rightarrow> prod_pc"
  mp_cons :: cons_pc
  mp_hist :: "u64 list"
  mp_out :: "u64 list"

inductive mp_step :: "granularity \<Rightarrow> mp_sys \<Rightarrow> mp_sys \<Rightarrow> bool" for g where
  refuse: "mp_prod s p = Idle \<Longrightarrow> mpscq_reserve g (mp_q s) = (count, q) \<Longrightarrow> sint count \<ge> int MPSC_QUEUE_SIZE \<Longrightarrow>
    mp_step g s (s \<lparr>mp_q := q, mp_prod := (mp_prod s)(p := Backing_Off)\<rparr>)"
| reserve: "mp_prod s p = Idle \<Longrightarrow> data \<noteq> - 1 \<Longrightarrow> mpscq_reserve g (mp_q s) = (count, q) \<Longrightarrow> \<not> sint count \<ge> int MPSC_QUEUE_SIZE \<Longrightarrow>
    mp_step g s (s \<lparr>mp_q := q, mp_prod := (mp_prod s)(p := Reserved data)\<rparr>)"
| back_off: "mp_prod s p = Backing_Off \<Longrightarrow>
    mp_step g s (s \<lparr>mp_q := mpscq_unreserve g (mp_q s), mp_prod := (mp_prod s)(p := Idle)\<rparr>)"
| ticket: "mp_prod s p = Reserved data \<Longrightarrow> mpscq_ticket g (mp_q s) = (head, q) \<Longrightarrow> 0 \<le> sint head \<Longrightarrow>
    mp_step g s (s \<lparr>mp_q := q, mp_prod := (mp_prod s)(p := Ticket head data), mp_hist := mp_hist s @ [data]\<rparr>)"
| store: "mp_prod s p = Ticket head data \<Longrightarrow> mpscq_index head = Some i \<Longrightarrow>
    mp_step g s (s \<lparr>mp_q := mpscq_store g i data (mp_q s), mp_prod := (mp_prod s)(p := Idle)\<rparr>)"
| empty: "mp_cons s = Ready \<Longrightarrow> mpscq_take g (mp_q s) = Some (- 1, q) \<Longrightarrow> mp_step g s (s \<lparr>mp_q := q\<rparr>)"
| take: "mp_cons s = Ready \<Longrightarrow> mpscq_take g (mp_q s) = Some (ret, q) \<Longrightarrow> ret \<noteq> - 1 \<Longrightarrow>
    mp_step g s (s \<lparr>mp_q := q, mp_cons := Taken, mp_out := mp_out s @ [ret]\<rparr>)"
| advance: "mp_cons s = Taken \<Longrightarrow> mp_step g s (s \<lparr>mp_q := mpscq_advance g (mp_q s), mp_cons := Advanced\<rparr>)"
| finish: "mp_cons s = Advanced \<Longrightarrow> mp_step g s (s \<lparr>mp_q := mpscq_unreserve g (mp_q s), mp_cons := Ready\<rparr>)"

definition mp_start :: "granularity \<Rightarrow> mp_sys \<Rightarrow> bool" where
  "mp_start g s \<longleftrightarrow> (\<exists>q. length (mq_buffer q) = MPSC_QUEUE_SIZE \<and> mp_q s = init_mpscq g q) \<and> (\<forall>p. mp_prod s p = Idle) \<and>
     mp_cons s = Ready \<and> mp_hist s = [] \<and> mp_out s = []"

subsection \<open>Invariant\<close>

definition cell :: "mpscq \<Rightarrow> nat \<Rightarrow> u64" where
  "cell q i = cached (mq_buffer q ! (i mod MPSC_QUEUE_SIZE))"

definition reserved_by :: "(u16 \<Rightarrow> prod_pc) \<Rightarrow> u16 set" where
  "reserved_by f = {p. \<exists>d. f p = Reserved d}"

definition backing_off :: "(u16 \<Rightarrow> prod_pc) \<Rightarrow> u16 set" where
  "backing_off f = {p. f p = Backing_Off}"

text \<open>The room taken: producers with a reservation and no ticket, tickets not yet taken out, and the value the
  consumer is handling.\<close>

definition room_taken :: "mp_sys \<Rightarrow> nat" where
  "room_taken s = card (reserved_by (mp_prod s)) + (length (mp_hist s) - length (mp_out s)) + (if mp_cons s = Ready then 0 else 1)"

definition mp_counters :: "mp_sys \<Rightarrow> bool" where
  "mp_counters s \<longleftrightarrow> length (mq_buffer (mp_q s)) = MPSC_QUEUE_SIZE \<and>
     unat (cached (mq_count (mp_q s))) = room_taken s + card (backing_off (mp_prod s)) \<and> room_taken s \<le> MPSC_QUEUE_SIZE \<and>
     unat (cached (mq_head (mp_q s))) = length (mp_hist s) \<and> length (mp_hist s) \<le> 2 ^ 63 \<and>
     unat (cached (mq_tail (mp_q s))) = (length (mp_out s) - (if mp_cons s = Taken then 1 else 0)) mod MPSC_QUEUE_SIZE \<and>
     (mp_cons s = Taken \<longrightarrow> mp_out s \<noteq> [])"

text \<open>A ticket is pending until its value is stored.\<close>

definition pending :: "(u16 \<Rightarrow> prod_pc) \<Rightarrow> nat \<Rightarrow> bool" where
  "pending f i \<longleftrightarrow> (\<exists>p h d. f p = Ticket h d \<and> unat h = i)"

definition mp_values :: "mp_sys \<Rightarrow> bool" where
  "mp_values s \<longleftrightarrow> length (mp_out s) \<le> length (mp_hist s) \<and> mp_out s = take (length (mp_out s)) (mp_hist s) \<and>
     - 1 \<notin> set (mp_hist s) \<and> (\<forall>p. mp_prod s p \<noteq> Reserved (- 1)) \<and>
     (\<forall>p h d. mp_prod s p = Ticket h d \<longrightarrow> length (mp_out s) \<le> unat h \<and> unat h < length (mp_hist s) \<and> d = mp_hist s ! unat h) \<and>
     (\<forall>p q h d e. mp_prod s p = Ticket h d \<longrightarrow> mp_prod s q = Ticket h e \<longrightarrow> p = q) \<and>
     (\<forall>i. length (mp_out s) \<le> i \<longrightarrow> i < length (mp_out s) + MPSC_QUEUE_SIZE \<longrightarrow>
        cell (mp_q s) i = (if i < length (mp_hist s) \<and> \<not> pending (mp_prod s) i then mp_hist s ! i else - 1))"

definition mp_inv :: "mp_sys \<Rightarrow> bool" where
  "mp_inv s \<longleftrightarrow> mp_counters s \<and> mp_values s"

lemma op_values [simp]:
  "fst (mpscq_reserve g q) = cached (mq_count q)" "cached (mq_count (snd (mpscq_reserve g q))) = cached (mq_count q) + 1"
  "cached (mq_count (mpscq_unreserve g q)) = cached (mq_count q) - 1"
  "fst (mpscq_ticket g q) = cached (mq_head q)" "cached (mq_head (snd (mpscq_ticket g q))) = cached (mq_head q) + 1"
  "mq_buffer (snd (mpscq_reserve g q)) = mq_buffer q" "mq_head (snd (mpscq_reserve g q)) = mq_head q" "mq_tail (snd (mpscq_reserve g q)) = mq_tail q"
  "mq_buffer (mpscq_unreserve g q) = mq_buffer q" "mq_head (mpscq_unreserve g q) = mq_head q" "mq_tail (mpscq_unreserve g q) = mq_tail q"
  "mq_buffer (snd (mpscq_ticket g q)) = mq_buffer q" "mq_count (snd (mpscq_ticket g q)) = mq_count q" "mq_tail (snd (mpscq_ticket g q)) = mq_tail q"
  "mq_count (mpscq_store g i d q) = mq_count q" "mq_head (mpscq_store g i d q) = mq_head q" "mq_tail (mpscq_store g i d q) = mq_tail q"
  "length (mq_buffer (mpscq_store g i d q)) = length (mq_buffer q)"
  "mq_buffer (mpscq_advance g q) = mq_buffer q" "mq_count (mpscq_advance g q) = mq_count q" "mq_head (mpscq_advance g q) = mq_head q"
  by (simp_all add: mpscq_reserve_def mpscq_unreserve_def mpscq_ticket_def mpscq_store_def mpscq_advance_def atomic_fetch_add_def
      atomic_fetch_sub_def Let_def)

lemma cell_store:
  "length (mq_buffer q) = MPSC_QUEUE_SIZE \<Longrightarrow> i < MPSC_QUEUE_SIZE \<Longrightarrow>
   cell (mpscq_store g i d q) j = (if j mod MPSC_QUEUE_SIZE = i then d else cell q j)"
  by (auto simp: cell_def mpscq_store_def nth_list_update)

lemma unat_next: "unat (x :: u64) + 1 < 2 ^ 64 \<Longrightarrow> unat (x + 1) = unat x + 1"
  by (simp add: unat_plus_if')

lemma unat_prev: "0 < unat (x :: u64) \<Longrightarrow> unat (x - 1) = unat x - 1"
  by (intro unat_minus_one) auto

lemma advance_tail:
  "unat (cached (mq_tail q)) < MPSC_QUEUE_SIZE \<Longrightarrow>
   unat (cached (mq_tail (mpscq_advance g q))) = (unat (cached (mq_tail q)) + 1) mod MPSC_QUEUE_SIZE"
proof -
  assume t: "unat (cached (mq_tail q)) < MPSC_QUEUE_SIZE"
  then have "unat (cached (mq_tail q) + 1) = unat (cached (mq_tail q)) + 1" by (intro unat_next) (simp add: MPSC_QUEUE_SIZE_def)
  moreover from t have "unat (cached (mq_tail q)) = 31 \<or> unat (cached (mq_tail q)) < 31" by (auto simp: MPSC_QUEUE_SIZE_def)
  ultimately show ?thesis by (elim disjE) (simp_all add: mpscq_advance_def MPSC_QUEUE_SIZE_def Let_def)
qed

lemma producers_update [simp]:
  "reserved_by (f(p := Reserved d)) = insert p (reserved_by f)" "reserved_by (f(p := Idle)) = reserved_by f - {p}"
  "reserved_by (f(p := Backing_Off)) = reserved_by f - {p}" "reserved_by (f(p := Ticket h d)) = reserved_by f - {p}"
  "backing_off (f(p := Backing_Off)) = insert p (backing_off f)" "backing_off (f(p := Idle)) = backing_off f - {p}"
  "backing_off (f(p := Reserved d)) = backing_off f - {p}" "backing_off (f(p := Ticket h d)) = backing_off f - {p}"
  by (auto simp: reserved_by_def backing_off_def)

lemma producers_member [simp]:
  "p \<in> reserved_by f \<longleftrightarrow> (\<exists>d. f p = Reserved d)" "p \<in> backing_off f \<longleftrightarrow> f p = Backing_Off"
  by (simp_all add: reserved_by_def backing_off_def)

lemma sint_nonneg: "0 \<le> sint (x :: u64) \<longleftrightarrow> unat x < 2 ^ 63" "0 \<le> sint x \<Longrightarrow> nat (sint x) = unat x"
proof -
  define n where "n = unat x"
  have r: "- (2 ^ 63) \<le> sint x" "sint x < 2 ^ 63" using sint_ge [of x] sint_lt [of x] by simp_all
  have u: "int n = sint x mod 2 ^ 64" using uint_sint [of x] by (simp add: take_bit_eq_mod n_def)
  have pos: "int n = sint x" if "0 \<le> sint x" using u r that by simp
  have neg: "int n = sint x + 2 ^ 64" if "sint x < 0"
  proof -
    have "sint x mod 2 ^ 64 = (sint x + 2 ^ 64) mod 2 ^ 64" by simp
    also have "\<dots> = sint x + 2 ^ 64" using r that by (intro mod_pos_pos_trivial) simp_all
    finally show ?thesis using u by simp
  qed
  show "0 \<le> sint x \<longleftrightarrow> unat x < 2 ^ 63"
  proof (cases "0 \<le> sint x")
    case True
    then have "int n < 2 ^ 63" using pos [OF True] r by simp
    with True show ?thesis by (simp add: n_def [symmetric])
  next
    case False
    then have "int n = sint x + 2 ^ 64" using neg by simp
    then have "2 ^ 63 \<le> int n" using r by simp
    with False show ?thesis by (simp add: n_def [symmetric])
  qed
  show "nat (sint x) = unat x" if "0 \<le> sint x" using pos [OF that] by (simp add: n_def [symmetric] flip: of_nat_eq_iff)
qed

lemma count_bound:
  assumes "mp_counters s"
  shows "unat (cached (mq_count (mp_q s))) \<le> 32 + 2 ^ 16" "sint (cached (mq_count (mp_q s))) = int (unat (cached (mq_count (mp_q s))))"
proof -
  have "card (backing_off (mp_prod s)) \<le> CARD(u16)" by (intro card_mono) simp_all
  also have "CARD(u16) = 2 ^ 16" by (simp add: card_word)
  finally show b: "unat (cached (mq_count (mp_q s))) \<le> 32 + 2 ^ 16" using assms by (simp add: mp_counters_def MPSC_QUEUE_SIZE_def)
  then have "0 \<le> sint (cached (mq_count (mp_q s)))" by (simp add: sint_nonneg(1))
  then show "sint (cached (mq_count (mp_q s))) = int (unat (cached (mq_count (mp_q s))))"
    using sint_nonneg(2) by (metis int_nat_eq)
qed

text \<open>What the consumer takes out.\<close>

lemma taken_value:
  assumes "mp_counters s" "mp_values s" "mp_cons s = Ready" "mpscq_take g (mp_q s) = Some (ret, q)"
  shows "q = mpscq_store g (length (mp_out s) mod MPSC_QUEUE_SIZE) (- 1) (mp_q s)" "ret = cell (mp_q s) (length (mp_out s))"
    and "ret \<noteq> - 1 \<Longrightarrow> length (mp_out s) < length (mp_hist s)" "ret \<noteq> - 1 \<Longrightarrow> ret = mp_hist s ! length (mp_out s)"
    and "ret \<noteq> - 1 \<Longrightarrow> \<not> pending (mp_prod s) (length (mp_out s))"
proof -
  let ?D = "length (mp_out s)"
  have "unat (cached (mq_tail (mp_q s))) = ?D mod MPSC_QUEUE_SIZE" using assms(1,3) by (simp add: mp_counters_def)
  with assms(4) show q: "q = mpscq_store g (?D mod MPSC_QUEUE_SIZE) (- 1) (mp_q s)" and r: "ret = cell (mp_q s) ?D"
    by (simp_all add: mpscq_take_def cell_def Let_def split: if_splits)
  have "cell (mp_q s) ?D = (if ?D < length (mp_hist s) \<and> \<not> pending (mp_prod s) ?D then mp_hist s ! ?D else - 1)"
    using assms(2) by (simp add: mp_values_def MPSC_QUEUE_SIZE_def)
  with r show "ret \<noteq> - 1 \<Longrightarrow> ?D < length (mp_hist s)" "ret \<noteq> - 1 \<Longrightarrow> ret = mp_hist s ! ?D" "ret \<noteq> - 1 \<Longrightarrow> \<not> pending (mp_prod s) ?D"
    by (simp_all split: if_splits)
qed

lemma mp_counters_step:
  assumes "mp_step g s t" "mp_counters s" "mp_values s"
  shows "mp_counters t"
  using assms
proof (induction rule: mp_step.induct)
  case (refuse s p count q)
  note b = count_bound(1) [OF refuse(4)]
  have q: "q = snd (mpscq_reserve g (mp_q s))" using refuse(2) by simp
  have "p \<notin> backing_off (mp_prod s)" "p \<notin> reserved_by (mp_prod s)" using refuse(1) by simp_all
  with refuse(4) b show ?case by (simp add: mp_counters_def room_taken_def q unat_next)
next
  case (reserve s p data count q)
  note b = count_bound [OF reserve(5)]
  have q: "q = snd (mpscq_reserve g (mp_q s))" "count = cached (mq_count (mp_q s))"
    using reserve(3) op_values(1) [of g "mp_q s"] by simp_all
  have "p \<notin> backing_off (mp_prod s)" "p \<notin> reserved_by (mp_prod s)" using reserve(1) by simp_all
  moreover have "unat (cached (mq_count (mp_q s))) < MPSC_QUEUE_SIZE" using reserve(4) unfolding b(2) q(2) by linarith
  ultimately show ?case using reserve(5) b(1) by (simp add: mp_counters_def room_taken_def q(1) unat_next)
next
  case (back_off s p)
  have p: "p \<in> backing_off (mp_prod s)" "p \<notin> reserved_by (mp_prod s)" using back_off(1) by simp_all
  then have "0 < card (backing_off (mp_prod s))" by (metis card_gt_0_iff empty_iff finite)
  with p back_off(2) show ?case by (simp add: mp_counters_def room_taken_def unat_prev card_Diff_singleton)
next
  case (ticket s p data head q)
  have q: "q = snd (mpscq_ticket g (mp_q s))" "head = cached (mq_head (mp_q s))"
    using ticket(2) op_values(4) [of g "mp_q s"] by simp_all
  have p: "p \<notin> backing_off (mp_prod s)" "p \<in> reserved_by (mp_prod s)" using ticket(1) by simp_all
  then have "0 < card (reserved_by (mp_prod s))" by (metis card_gt_0_iff empty_iff finite)
  then obtain n where n: "card (reserved_by (mp_prod s)) = Suc n" by (cases "card (reserved_by (mp_prod s))") auto
  have "unat head < 2 ^ 63" using ticket(3) sint_nonneg(1) by simp
  moreover have "length (mp_out s) \<le> length (mp_hist s)" using ticket(5) by (simp add: mp_values_def)
  moreover have "card (reserved_by (mp_prod s) - {p}) = n" using p(2) n by (simp add: card_Diff_singleton)
  moreover have "backing_off (mp_prod s) - {p} = backing_off (mp_prod s)" using p(1) by simp
  ultimately show ?case using n ticket(4) by (simp add: mp_counters_def room_taken_def q unat_next Suc_diff_le)
next
  case (store s p head data i)
  have "p \<notin> backing_off (mp_prod s)" "p \<notin> reserved_by (mp_prod s)" using store(1) by simp_all
  with store(3) show ?case by (simp add: mp_counters_def room_taken_def)
next
  case (empty s q)
  then show ?case by (auto simp: mp_counters_def room_taken_def mpscq_take_def Let_def split: if_splits)
next
  case (take s ret q)
  note v = taken_value [OF take(4,5,1,2)]
  obtain m where "length (mp_hist s) = length (mp_out s) + Suc m"
    using less_imp_Suc_add [OF v(3) [OF take(3)]] by auto
  with take(1,4) show ?case by (simp add: mp_counters_def room_taken_def v(1))
next
  case (advance s)
  have t: "unat (cached (mq_tail (mp_q s))) = (length (mp_out s) - 1) mod MPSC_QUEUE_SIZE" "mp_out s \<noteq> []"
    using advance(1,2) by (simp_all add: mp_counters_def)
  then have "unat (cached (mq_tail (mp_q s))) < MPSC_QUEUE_SIZE" by (simp add: MPSC_QUEUE_SIZE_def)
  from advance_tail [OF this, of g] t have "unat (cached (mq_tail (mpscq_advance g (mp_q s)))) = length (mp_out s) mod MPSC_QUEUE_SIZE"
    by (simp add: mod_simps)
  with advance(1,2) show ?case by (simp add: mp_counters_def room_taken_def)
next
  case (finish s)
  then have c: "unat (cached (mq_count (mp_q s))) = Suc (card (reserved_by (mp_prod s)) + (length (mp_hist s) - length (mp_out s)) + card (backing_off (mp_prod s)))"
    "mp_cons s = Advanced" by (simp_all add: mp_counters_def room_taken_def)
  then have "unat (cached (mq_count (mp_q s)) - 1) = unat (cached (mq_count (mp_q s))) - 1" by (intro unat_prev) simp
  with c finish(2) show ?case by (simp add: mp_counters_def room_taken_def)
qed

lemma cell_congr: "mq_buffer q = mq_buffer q' \<Longrightarrow> cell q = cell q'"
  by (simp add: cell_def fun_eq_iff)

lemma pending_update [simp]:
  "pending (f(p := Ticket h d)) i \<longleftrightarrow> unat h = i \<or> pending (f(p := Idle)) i"
  "pending (f(p := Reserved e)) i \<longleftrightarrow> pending (f(p := Idle)) i" "pending (f(p := Backing_Off)) i \<longleftrightarrow> pending (f(p := Idle)) i"
  by (auto simp: pending_def)

lemma pending_same: "(\<And>h d. f p \<noteq> Ticket h d) \<Longrightarrow> pending (f(p := Idle)) i \<longleftrightarrow> pending f i"
  by (simp add: pending_def) metis

lemma pending_done:
  assumes "f p = Ticket h d" "\<And>q e. f q = Ticket h e \<Longrightarrow> q = p"
  shows "pending (f(p := Idle)) i \<longleftrightarrow> pending f i \<and> i \<noteq> unat h"
proof -
  have other: "q = p" if "f q = Ticket h' e" "unat h' = unat h" for q h' e
    using unsigned_word_eqI [OF that(2)] that(1) assms(2) by blast
  show ?thesis
  proof
    assume "pending (f(p := Idle)) i"
    then obtain q h' e where "q \<noteq> p" "f q = Ticket h' e" "unat h' = i" by (auto simp: pending_def split: if_splits)
    with other show "pending f i \<and> i \<noteq> unat h" by (auto simp: pending_def)
  next
    assume "pending f i \<and> i \<noteq> unat h"
    then obtain q h' e where q: "f q = Ticket h' e" "unat h' = i" "i \<noteq> unat h" by (auto simp: pending_def)
    then have "q \<noteq> p" using assms(1) by auto
    with q show "pending (f(p := Idle)) i" unfolding pending_def by (intro exI [of _ q] exI [of _ h'] exI [of _ e]) simp
  qed
qed

lemma window_distinct:
  assumes "D \<le> i" "i < D + MPSC_QUEUE_SIZE" "D \<le> j" "j < D + MPSC_QUEUE_SIZE" "i mod MPSC_QUEUE_SIZE = j mod MPSC_QUEUE_SIZE"
  shows "i = j"
proof (rule ccontr)
  assume "i \<noteq> j"
  then consider "i < j" | "j < i" by linarith
  then show False
  proof cases
    case 1
    then have "MPSC_QUEUE_SIZE dvd j - i" using assms(5) by (metis mod_eq_dvd_iff_nat less_imp_le)
    then have "MPSC_QUEUE_SIZE \<le> j - i" using 1 by (intro dvd_imp_le) simp_all
    with assms show False by linarith
  next
    case 2
    then have "MPSC_QUEUE_SIZE dvd i - j" using assms(5) by (metis mod_eq_dvd_iff_nat less_imp_le)
    then have "MPSC_QUEUE_SIZE \<le> i - j" using 2 by (intro dvd_imp_le) simp_all
    with assms show False by linarith
  qed
qed

lemma outstanding_window:
  assumes "mp_counters s" "mp_values s"
  shows "length (mp_hist s) \<le> length (mp_out s) + MPSC_QUEUE_SIZE"
    and "mp_prod s p = Reserved d \<Longrightarrow> length (mp_hist s) < length (mp_out s) + MPSC_QUEUE_SIZE"
proof -
  show "length (mp_hist s) \<le> length (mp_out s) + MPSC_QUEUE_SIZE" using assms(1) unfolding mp_counters_def room_taken_def by linarith
  show "length (mp_hist s) < length (mp_out s) + MPSC_QUEUE_SIZE" if "mp_prod s p = Reserved d"
  proof -
    have "p \<in> reserved_by (mp_prod s)" using that by simp
    then have "0 < card (reserved_by (mp_prod s))" by (metis card_gt_0_iff empty_iff finite)
    then show ?thesis using assms(1) unfolding mp_counters_def room_taken_def by linarith
  qed
qed

lemma mp_values_step:
  assumes "mp_step g s t" "mp_counters s" "mp_values s"
  shows "mp_values t"
  using assms
proof (induction rule: mp_step.induct)
  case (refuse s p count q)
  have "cell q = cell (mp_q s)" using refuse(2) by (intro cell_congr) (auto simp: mpscq_reserve_def)
  then show ?case using refuse(1,5) by (auto simp: mp_values_def pending_same)
next
  case (reserve s p data count q)
  have "cell q = cell (mp_q s)" using reserve(3) by (intro cell_congr) (auto simp: mpscq_reserve_def)
  then show ?case using reserve(1,2,6) by (auto simp: mp_values_def pending_same)
next
  case (back_off s p)
  have "cell (mpscq_unreserve g (mp_q s)) = cell (mp_q s)" by (intro cell_congr) simp
  then show ?case using back_off(1,3) by (auto simp: mp_values_def pending_same)
next
  case (ticket s p data head q)
  have q: "q = snd (mpscq_ticket g (mp_q s))" "head = cached (mq_head (mp_q s))"
    using ticket(2) op_values(4) [of g "mp_q s"] by simp_all
  have h: "unat head = length (mp_hist s)" using ticket(4) q(2) by (simp add: mp_counters_def)
  have c: "cell q = cell (mp_q s)" using q(1) by (intro cell_congr) simp
  have "data \<noteq> - 1" using ticket(1,5) by (auto simp: mp_values_def)
  moreover have "mp_prod s p' \<noteq> Ticket head d'" for p' d' using ticket(5) h by (fastforce simp: mp_values_def)
  moreover have "mp_prod s p' = Ticket h' d' \<Longrightarrow> unat h' < length (mp_hist s)" for p' h' d' using ticket(5) by (simp add: mp_values_def)
  ultimately show ?case
    using ticket(1,5) h c by (auto simp: mp_values_def pending_same nth_append intro: less_SucI)
next
  case (store s p head data i)
  let ?D = "length (mp_out s)" and ?H = "length (mp_hist s)"
  have len: "length (mq_buffer (mp_q s)) = MPSC_QUEUE_SIZE" using store(3) by (simp add: mp_counters_def)
  have k: "?D \<le> unat head" "unat head < ?H" "data = mp_hist s ! unat head" using store(1,4) by (simp_all add: mp_values_def)
  have HD: "?H \<le> ?D + MPSC_QUEUE_SIZE" by (rule outstanding_window(1) [OF store(3,4)])
  have "?H \<le> 2 ^ 63" using store(3) by (simp add: mp_counters_def)
  then have "0 \<le> sint head" using k(2) by (simp add: sint_nonneg(1))
  then have i: "i = unat head mod MPSC_QUEUE_SIZE" using store(2) sint_nonneg(2) by (simp add: mpscq_index_def)
  have one: "mp_prod s q = Ticket head e \<Longrightarrow> q = p" for q e using store(1,4) unfolding mp_values_def by blast
  have pend: "pending ((mp_prod s)(p := Idle)) j \<longleftrightarrow> pending (mp_prod s) j \<and> j \<noteq> unat head" for j
    by (rule pending_done [of "mp_prod s" p head data, OF store(1) one])
  have "pending (mp_prod s) (unat head)" using store(1) by (auto simp: pending_def)
  have cells: "cell (mpscq_store g i data (mp_q s)) j =
      (if j < ?H \<and> \<not> pending ((mp_prod s)(p := Idle)) j then mp_hist s ! j else - 1)" if "?D \<le> j" "j < ?D + MPSC_QUEUE_SIZE" for j
  proof -
    have "j mod MPSC_QUEUE_SIZE = i \<longleftrightarrow> j = unat head"
      using window_distinct [OF that, of "unat head"] k HD i by auto
    moreover have "cell (mp_q s) j = (if j < ?H \<and> \<not> pending (mp_prod s) j then mp_hist s ! j else - 1)"
      using store(4) that by (simp add: mp_values_def)
    moreover have "i < MPSC_QUEUE_SIZE" using i by (simp add: MPSC_QUEUE_SIZE_def)
    ultimately show ?thesis using k(2,3) by (simp add: cell_store [OF len] pend)
  qed
  show ?case using store(1,4) cells by (auto simp: mp_values_def split: if_splits)
next
  case (empty s q)
  have len: "length (mq_buffer (mp_q s)) = MPSC_QUEUE_SIZE" using empty(3) by (simp add: mp_counters_def)
  note v = taken_value [OF empty(3,4,1,2)]
  have "length (mp_out s) mod MPSC_QUEUE_SIZE < MPSC_QUEUE_SIZE" by (simp add: MPSC_QUEUE_SIZE_def)
  moreover have "cell (mp_q s) j = - 1" if "j mod MPSC_QUEUE_SIZE = length (mp_out s) mod MPSC_QUEUE_SIZE" for j
    using v(2) that by (simp add: cell_def)
  ultimately have "cell q j = cell (mp_q s) j" for j using v(1) by (simp add: cell_store [OF len])
  with empty(4) show ?case by (simp add: mp_values_def)
next
  case (take s ret q)
  let ?D = "length (mp_out s)" and ?H = "length (mp_hist s)"
  have len: "length (mq_buffer (mp_q s)) = MPSC_QUEUE_SIZE" using take(4) by (simp add: mp_counters_def)
  note v = taken_value [OF take(4,5,1,2)]
  note lt = v(3) [OF take(3)] and hist = v(4) [OF take(3)] and free = v(5) [OF take(3)]
  have HD: "?H \<le> ?D + MPSC_QUEUE_SIZE" by (rule outstanding_window(1) [OF take(4,5)])
  have out: "mp_out s @ [ret] = List.take (Suc ?D) (mp_hist s)"
    using take(5) lt hist by (simp add: take_Suc_conv_app_nth mp_values_def)
  have tick: "Suc ?D \<le> unat h" if "mp_prod s p = Ticket h d" for p h d
  proof -
    have "?D \<le> unat h" using take(5) that by (simp add: mp_values_def)
    moreover have "unat h \<noteq> ?D" using free that by (auto simp: pending_def)
    ultimately show ?thesis by simp
  qed
  have cells: "cell q j = (if j < ?H \<and> \<not> pending (mp_prod s) j then mp_hist s ! j else - 1)"
    if j: "Suc ?D \<le> j" "j < Suc ?D + MPSC_QUEUE_SIZE" for j
  proof (cases "j = ?D + MPSC_QUEUE_SIZE")
    case True
    then show ?thesis using v(1) HD by (simp add: cell_store [OF len] MPSC_QUEUE_SIZE_def)
  next
    case False
    then have b: "?D \<le> j" "j < ?D + MPSC_QUEUE_SIZE" "j \<noteq> ?D" using j by simp_all
    have "j mod MPSC_QUEUE_SIZE \<noteq> ?D mod MPSC_QUEUE_SIZE"
      using window_distinct [OF b(1,2), of ?D] b(3) by (auto simp: MPSC_QUEUE_SIZE_def)
    moreover have "?D mod MPSC_QUEUE_SIZE < MPSC_QUEUE_SIZE" by (simp add: MPSC_QUEUE_SIZE_def)
    moreover have "cell (mp_q s) j = (if j < ?H \<and> \<not> pending (mp_prod s) j then mp_hist s ! j else - 1)"
      using take(5) b(1,2) by (simp add: mp_values_def)
    ultimately show ?thesis using v(1) by (simp add: cell_store [OF len])
  qed
  show ?case using take(5) lt out tick cells by (simp add: mp_values_def)
next
  case (advance s)
  have "cell (mpscq_advance g (mp_q s)) = cell (mp_q s)" by (intro cell_congr) simp
  with advance(3) show ?case by (simp add: mp_values_def)
next
  case (finish s)
  have "cell (mpscq_unreserve g (mp_q s)) = cell (mp_q s)" by (intro cell_congr) simp
  with finish(3) show ?case by (simp add: mp_values_def)
qed

lemma mp_start_inv: "mp_start g s \<Longrightarrow> mp_inv s"
  by (auto simp: mp_start_def mp_inv_def mp_counters_def mp_values_def room_taken_def reserved_by_def backing_off_def init_mpscq_def
      cell_def pending_def MPSC_QUEUE_SIZE_def Let_def)

interpretation mp: transition_invariant "mp_start g" "mp_step g" mp_inv for g
proof unfold_locales
  show "mp_start g s \<Longrightarrow> mp_inv s" for s by (rule mp_start_inv)
  show "mp_inv s \<Longrightarrow> mp_step g s t \<Longrightarrow> mp_inv t" for s t
    unfolding mp_inv_def using mp_counters_step mp_values_step by blast
qed

subsection \<open>Properties\<close>


definition ex_mpscq :: mpscq where
  "ex_mpscq = \<lparr>mq_buffer = replicate 32 \<lparr>cached = 0, media = 0\<rparr>, mq_count = \<lparr>cached = 0, media = 0\<rparr>,
     mq_head = \<lparr>cached = 0, media = 0\<rparr>, mq_tail = \<lparr>cached = 0, media = 0\<rparr>\<rparr>"

definition ex_mp_start :: mp_sys where
  "ex_mp_start = \<lparr>mp_q = init_mpscq DRAM ex_mpscq, mp_prod = \<lambda>_. Idle, mp_cons = Ready, mp_hist = [], mp_out = []\<rparr>"

lemma ex_mp_reach:
  "\<exists>s. reach (mp_start DRAM) (mp_step DRAM) s \<and> mp_hist s = [7] \<and> mp_out s = [] \<and> mp_cons s = Ready \<and> (\<forall>p. mp_prod s p = Idle)"
proof -
  let ?R = "reach (mp_start DRAM) (mp_step DRAM)"
  have 0: "?R ex_mp_start"
    by (rule reach.start) (use exI [of _ ex_mpscq] in \<open>auto simp: mp_start_def ex_mp_start_def ex_mpscq_def MPSC_QUEUE_SIZE_def\<close>)
  define s1 where "s1 = ex_mp_start \<lparr>mp_q := snd (mpscq_reserve DRAM (mp_q ex_mp_start)), mp_prod := (mp_prod ex_mp_start)(1 := Reserved 7)\<rparr>"
  have "mp_step DRAM ex_mp_start s1"
    unfolding s1_def by (rule mp_step.reserve [where count = 0])
      (simp_all add: ex_mp_start_def init_mpscq_def mpscq_reserve_def MPSC_QUEUE_SIZE_def Let_def)
  with 0 have 1: "?R s1" by (rule reach.step)
  define s2 where "s2 = s1 \<lparr>mp_q := snd (mpscq_ticket DRAM (mp_q s1)), mp_prod := (mp_prod s1)(1 := Ticket 0 7), mp_hist := mp_hist s1 @ [7]\<rparr>"
  have "mp_step DRAM s1 s2"
    unfolding s2_def by (rule mp_step.ticket)
      (simp_all add: s1_def ex_mp_start_def init_mpscq_def mpscq_ticket_def mpscq_reserve_def Let_def)
  with 1 have 2: "?R s2" by (rule reach.step)
  define s3 where "s3 = s2 \<lparr>mp_q := mpscq_store DRAM 0 7 (mp_q s2), mp_prod := (mp_prod s2)(1 := Idle)\<rparr>"
  have "mp_step DRAM s2 s3"
    unfolding s3_def by (rule mp_step.store [where head = 0]) (simp_all add: s2_def mpscq_index_def)
  with 2 have "?R s3" by (rule reach.step)
  moreover have "mp_hist s3 = [7]" "mp_out s3 = []" "mp_cons s3 = Ready" "\<forall>p. mp_prod s3 p = Idle"
    by (simp_all add: s3_def s2_def s1_def ex_mp_start_def)
  ultimately show ?thesis by blast
qed


end
