(* ===== verification/Shmem.thy ===== *)
theory Shmem
  imports Bitset
begin

text \<open>
  The mapped shared memory and the relative pointers of \<^verbatim>\<open>src/src/common/shmem_obj.h\<close>. Memory is a
  function from addresses to bytes; pointers are natural numbers with null as \<open>0\<close>, and a mapping
  never wraps around the address space. A \<open>shmem_optr\<close> is a 64-bit offset from the start of the
  mapping, so that its arithmetic wraps. \<open>rd n\<close> and \<open>wr n\<close> read and write an \<open>n\<close>-byte little-endian
  integer field.

  The second half is the theory of blind updates: memory transformers that assign constants to a
  fixed set of bits. Redo records are blind updates, which is why they may be replayed over any
  partially written image.
\<close>

type_synonym mem = "nat \<Rightarrow> u8"
type_synonym shmem_optr = u64

definition rd_bytes :: "mem \<Rightarrow> nat \<Rightarrow> nat \<Rightarrow> u8 list" where
  "rd_bytes m a n = map m [a..<a + n]"

definition wr_bytes :: "mem \<Rightarrow> nat \<Rightarrow> u8 list \<Rightarrow> mem" where
  "wr_bytes m a bs = (\<lambda>x. if a \<le> x \<and> x < a + length bs then bs ! (x - a) else m x)"

definition rd :: "nat \<Rightarrow> mem \<Rightarrow> nat \<Rightarrow> nat" where
  "rd n m a = load_le n (rd_bytes m a n) 0"

definition wr :: "nat \<Rightarrow> mem \<Rightarrow> nat \<Rightarrow> nat \<Rightarrow> mem" where
  "wr n m a v = wr_bytes m a (bytes_le n v)"

definition shmem_optr_is_null :: "shmem_optr \<Rightarrow> bool" where
  "shmem_optr_is_null oid \<longleftrightarrow> oid = 0"

definition shmem_optr_equals :: "shmem_optr \<Rightarrow> shmem_optr \<Rightarrow> bool" where
  "shmem_optr_equals optr1 optr2 \<longleftrightarrow> optr1 = optr2"

definition shmem_optr_direct_ptr :: "nat \<Rightarrow> shmem_optr \<Rightarrow> nat" where
  "shmem_optr_direct_ptr base oid = (if oid = 0 then 0 else base + unat oid)"

definition shmem_optr_from_ptr :: "nat \<Rightarrow> nat \<Rightarrow> shmem_optr" where
  "shmem_optr_from_ptr base ptr = (if ptr = 0 then 0 else word_of_nat ptr - word_of_nat base)"

definition optr_to_offset :: "nat \<Rightarrow> nat \<Rightarrow> u64" where
  "optr_to_offset base ptr = word_of_nat ptr - word_of_nat base"

subsection \<open>Reading what was written\<close>

lemma length_rd_bytes [simp]: "length (rd_bytes m a n) = n"
  by (simp add: rd_bytes_def)

lemma nth_rd_bytes [simp]: "i < n \<Longrightarrow> rd_bytes m a n ! i = m (a + i)"
  by (simp add: rd_bytes_def)

lemma rd_bytes_cong: "(\<And>x. a \<le> x \<Longrightarrow> x < a + n \<Longrightarrow> m x = m' x) \<Longrightarrow> rd_bytes m a n = rd_bytes m' a n"
  by (simp add: rd_bytes_def)

lemma rd_cong: "(\<And>x. a \<le> x \<Longrightarrow> x < a + n \<Longrightarrow> m x = m' x) \<Longrightarrow> rd n m a = rd n m' a"
  unfolding rd_def by (metis rd_bytes_cong)

lemma wr_bytes_other: "x < a \<or> a + length bs \<le> x \<Longrightarrow> wr_bytes m a bs x = m x"
  by (auto simp: wr_bytes_def)

lemma wr_other: "x < a \<or> a + n \<le> x \<Longrightarrow> wr n m a v x = m x"
  by (simp add: wr_def wr_bytes_other)

lemma rd_bytes_wr_bytes_same [simp]: "n = length bs \<Longrightarrow> rd_bytes (wr_bytes m a bs) a n = bs"
  by (rule nth_equalityI) (simp_all add: wr_bytes_def)

lemma load_bytes_le: "load_le n (bytes_le n v) 0 = v mod 256 ^ n"
  using sum_bytes_le [of n v] by (simp add: load_le_def interv_sum_list_conv_sum_set_nat)

lemma rd_wr_same: "rd n (wr n m a v) a = v mod 256 ^ n"
  by (simp add: rd_def wr_def load_bytes_le)

lemma rd_wr_same64 [simp]: "v < 2 ^ 64 \<Longrightarrow> rd 8 (wr 8 m a v) a = v"
  by (simp add: rd_wr_same)

lemma rd_wr_unat64 [simp]: "rd 8 (wr 8 m a (unat (v :: u64))) a = unat v"
  using unsigned_less [of v, where ?'a = nat] by simp

lemma rd_wr_unat16 [simp]: "rd 2 (wr 2 m a (unat (v :: u16))) a = unat v"
  using unsigned_less [of v, where ?'a = nat] by (simp add: rd_wr_same)

lemma rd_wr_other [simp]: "b + k \<le> a \<or> a + n \<le> b \<Longrightarrow> rd k (wr n m a v) b = rd k m b"
  by (rule rd_cong) (auto simp: wr_other)

lemma rd_wr_bytes_other [simp]: "b + k \<le> a \<or> a + length bs \<le> b \<Longrightarrow> rd k (wr_bytes m a bs) b = rd k m b"
  by (rule rd_cong) (auto simp: wr_bytes_other)

lemma rd_bytes_wr_other [simp]: "b + k \<le> a \<or> a + n \<le> b \<Longrightarrow> rd_bytes (wr n m a v) b k = rd_bytes m b k"
  by (rule rd_bytes_cong) (auto simp: wr_other)

lemma rd_bytes_wr_bytes_other [simp]:
  "b + k \<le> a \<or> a + length bs \<le> b \<Longrightarrow> rd_bytes (wr_bytes m a bs) b k = rd_bytes m b k"
  by (rule rd_bytes_cong) (auto simp: wr_bytes_other)

lemma rd_zero: "rd n (\<lambda>_. 0) a = 0"
proof -
  have "rd_bytes (\<lambda>_. 0) a n = map (\<lambda>_. 0) [a..<a + n]" by (simp add: rd_bytes_def)
  then show ?thesis by (auto simp: rd_def load_le_def sum_list_eq_0_iff)
qed

lemma rd_less: "rd n m a < 256 ^ n"
  by (simp add: rd_def load_le_bound)

subsection \<open>Relative pointers\<close>

lemma unat64_eq_0 [simp]: "unat (w :: u64) = 0 \<longleftrightarrow> w = 0"
  using unat_gt_0 [of w] by auto

lemma direct_ptr_0 [simp]: "shmem_optr_direct_ptr base off = 0 \<longleftrightarrow> off = 0"
  using unat_gt_0 [of off] by (auto simp: shmem_optr_direct_ptr_def)

lemma direct_ptr_pos [simp]: "off \<noteq> 0 \<Longrightarrow> shmem_optr_direct_ptr base off = base + unat off"
  by (simp add: shmem_optr_direct_ptr_def)

lemma direct_from_ptr:
  assumes "base < ptr" "ptr < 2 ^ 64"
  shows "shmem_optr_direct_ptr base (shmem_optr_from_ptr base ptr) = ptr"
    and "unat (shmem_optr_from_ptr base ptr) = ptr - base"
    and "shmem_optr_from_ptr base ptr \<noteq> 0"
proof -
  have "(word_of_nat ptr - word_of_nat base :: u64) = word_of_nat (ptr - base)"
    using assms by (simp add: of_nat_diff)
  moreover have "unat (word_of_nat (ptr - base) :: u64) = ptr - base"
    using assms by (simp add: unsigned_of_nat take_bit_eq_mod del: of_nat_diff)
  ultimately show u: "unat (shmem_optr_from_ptr base ptr) = ptr - base"
    using assms(1) by (simp only: shmem_optr_from_ptr_def split: if_split) simp
  then show nz: "shmem_optr_from_ptr base ptr \<noteq> 0" using assms by auto
  show "shmem_optr_direct_ptr base (shmem_optr_from_ptr base ptr) = ptr"
    using u nz assms by (simp add: shmem_optr_direct_ptr_def)
qed

lemma from_direct_ptr:
  assumes "base + unat off < 2 ^ 64" "off \<noteq> 0"
  shows "shmem_optr_from_ptr base (shmem_optr_direct_ptr base off) = off"
proof -
  have "0 < unat off" using assms(2) by (simp add: unat_gt_0)
  then show ?thesis
    using assms by (simp add: shmem_optr_direct_ptr_def shmem_optr_from_ptr_def)
qed

subsection \<open>Blind updates\<close>

text \<open>\<open>blind f W\<close>: the transformer \<open>f\<close> gives every bit in \<open>W\<close> (a set of byte address and bit number) a
  value that does not depend on the memory, and keeps every other bit.\<close>

definition blind :: "(mem \<Rightarrow> mem) \<Rightarrow> (nat \<times> nat) set \<Rightarrow> bool" where
  "blind f W \<longleftrightarrow> (\<exists>C. \<forall>m x k. k < 8 \<longrightarrow> bit (f m x) k = (if (x, k) \<in> W then C x k else bit (m x) k))"

definition agree_off :: "(nat \<times> nat) set \<Rightarrow> mem \<Rightarrow> mem \<Rightarrow> bool" where
  "agree_off W m m' \<longleftrightarrow> (\<forall>x k. k < 8 \<longrightarrow> (x, k) \<notin> W \<longrightarrow> bit (m x) k = bit (m' x) k)"

definition byte_range :: "nat \<Rightarrow> nat \<Rightarrow> (nat \<times> nat) set" where
  "byte_range a n = {a..<a + n} \<times> {..<8}"

lemma byte_eqI: "(\<And>k. k < 8 \<Longrightarrow> bit (v :: u8) k = bit w k) \<Longrightarrow> v = w"
  by (rule bit_word_eqI) simp

lemma blindI:
  "(\<And>m x k. k < 8 \<Longrightarrow> bit (f m x) k = (if (x, k) \<in> W then C x k else bit (m x) k)) \<Longrightarrow> blind f W"
  unfolding blind_def by blast

lemma blind_id [intro]: "blind (\<lambda>m. m) {}"
  by (rule blindI [where C = "\<lambda>_ _. False"]) simp

lemma blind_comp:
  assumes "blind f V" "blind g W"
  shows "blind (\<lambda>m. g (f m)) (V \<union> W)"
proof -
  from assms obtain C D
    where C: "\<And>m x k. k < 8 \<Longrightarrow> bit (f m x) k = (if (x, k) \<in> V then C x k else bit (m x) k)"
      and D: "\<And>m x k. k < 8 \<Longrightarrow> bit (g m x) k = (if (x, k) \<in> W then D x k else bit (m x) k)"
    unfolding blind_def by metis
  show ?thesis
    by (rule blindI [where C = "\<lambda>x k. if (x, k) \<in> W then D x k else C x k"]) (simp add: C D)
qed

lemma blind_wr_bytes [intro]: "blind (\<lambda>m. wr_bytes m a bs) (byte_range a (length bs))"
  by (rule blindI [where C = "\<lambda>x k. bit (bs ! (x - a)) k"]) (auto simp: wr_bytes_def byte_range_def)

lemma blind_wr [intro]: "blind (\<lambda>m. wr n m a v) (byte_range a n)"
  unfolding wr_def using blind_wr_bytes [of a "bytes_le n v"] by simp

lemma blind_fold:
  assumes "\<And>i. i \<in> set is \<Longrightarrow> blind (f i) (W i)"
  shows "blind (\<lambda>m. fold f is m) (\<Union>i\<in>set is. W i)"
  using assms
proof (induction "is")
  case (Cons i "is")
  have "blind (\<lambda>m. fold f is (f i m)) (W i \<union> (\<Union>i\<in>set is. W i))"
    using Cons by (intro blind_comp) auto
  then show ?case by simp
qed (simp add: blind_id id_def)

text \<open>Setting or clearing one bit of a bitset in memory touches that bit only.\<close>

lemma bit_bitset_write:
  assumes "p div 8 < n" "k < 8" "a \<le> x" "x < a + n"
    and "\<And>q. bitset_test bs q \<longleftrightarrow> (if q = p then v else bitset_test (rd_bytes m a n) q)" "length bs = n"
  shows "bit (wr_bytes m a bs x) k = (if x = a + p div 8 \<and> k = p mod 8 then v else bit (m x) k)"
proof -
  let ?q = "8 * (x - a) + k"
  have q: "?q div 8 = x - a" "?q mod 8 = k" using assms(2) by simp_all
  have "bit (wr_bytes m a bs x) k \<longleftrightarrow> bitset_test bs ?q"
    using assms by (simp add: wr_bytes_def bitset_test_bit)
  also have "\<dots> \<longleftrightarrow> (if ?q = p then v else bit (m x) k)"
    using assms(2,3,4) by (subst assms(5)) (simp add: bitset_test_bit)
  also have "?q = p \<longleftrightarrow> x - a = p div 8 \<and> k = p mod 8" using q by (metis div_mult_mod_eq mult.commute)
  finally show ?thesis using assms(3) by auto
qed

lemma blind_bitset_set:
  assumes "p div 8 < n"
  shows "blind (\<lambda>m. wr_bytes m a (bitset_set (rd_bytes m a n) p)) {(a + p div 8, p mod 8)}"
proof (rule blindI [where C = "\<lambda>_ _. True"])
  fix m x k assume "k < (8::nat)"
  then show "bit (wr_bytes m a (bitset_set (rd_bytes m a n) p) x) k
      = (if (x, k) \<in> {(a + p div 8, p mod 8)} then True else bit (m x) k)"
    using assms bit_bitset_write [of p n k a x "bitset_set (rd_bytes m a n) p" True m]
    by (cases "a \<le> x \<and> x < a + n") (auto simp: bitset_test_set wr_bytes_other)
qed

lemma blind_bitset_clear:
  assumes "p div 8 < n"
  shows "blind (\<lambda>m. wr_bytes m a (bitset_clear (rd_bytes m a n) p)) {(a + p div 8, p mod 8)}"
proof (rule blindI [where C = "\<lambda>_ _. False"])
  fix m x k assume "k < (8::nat)"
  then show "bit (wr_bytes m a (bitset_clear (rd_bytes m a n) p) x) k
      = (if (x, k) \<in> {(a + p div 8, p mod 8)} then False else bit (m x) k)"
    using assms bit_bitset_write [of p n k a x "bitset_clear (rd_bytes m a n) p" False m]
    by (cases "a \<le> x \<and> x < a + n") (auto simp: bitset_test_clear wr_bytes_other)
qed

text \<open>The point of blindness: the result does not depend on what the target bits held before.\<close>

lemma blind_replay:
  assumes "blind f W" "agree_off W m m'"
  shows "f m = f m'"
proof -
  from assms(1) obtain C
    where C: "\<And>m x k. k < 8 \<Longrightarrow> bit (f m x) k = (if (x, k) \<in> W then C x k else bit (m x) k)"
    unfolding blind_def by blast
  show ?thesis
    using assms(2) by (intro ext byte_eqI) (simp add: C agree_off_def)
qed

lemma blind_agree: "blind f V \<Longrightarrow> agree_off V m (f m)"
  unfolding blind_def agree_off_def by auto

lemma agree_off_refl [simp]: "agree_off W m m"
  by (simp add: agree_off_def)

lemma agree_off_trans: "agree_off V l m \<Longrightarrow> agree_off W m n \<Longrightarrow> agree_off (V \<union> W) l n"
  by (simp add: agree_off_def)

lemma agree_off_mono: "agree_off V m n \<Longrightarrow> V \<subseteq> W \<Longrightarrow> agree_off W m n"
  by (auto simp: agree_off_def)

end
