(* ===== verification/Obj_Records.thy ===== *)
theory Obj_Records
  imports Shmem
begin

text \<open>
  The object records of \<^verbatim>\<open>src/driver/src/obj_header.h\<close> and the list nodes of
  \<^verbatim>\<open>src/driver/src/list_queue.h\<close> in shared memory. Structures are addressed by the address of their
  first byte; a field is read and written at its offset, which the static assertions of the headers
  fix (an object header is 48 bytes, a page of records 16384).
\<close>

definition PROG_ID_SIZE :: nat where "PROG_ID_SIZE = 12"
definition NUM_OBJ_SLOTS :: nat where "NUM_OBJ_SLOTS = 340"
definition SIZEOF_OBJ_BITSET :: nat where "SIZEOF_OBJ_BITSET = 43"
definition OBJ_ALLOC_RECS_SIZE :: nat where "OBJ_ALLOC_RECS_SIZE = 16384"
definition OBJ_HEADER_SIZE :: nat where "OBJ_HEADER_SIZE = 48"

subsection \<open>List nodes and list heads\<close>

text \<open>\<open>struct list_queue\<close> is \<open>pe_first\<close> at offset 0 and \<open>pe_tail\<close> at 8; \<open>struct list_entry\<close> is \<open>pe_next\<close> at 0
  and \<open>pe_prev\<close> at 8.\<close>

definition LE_NEXT_OFF :: nat where "LE_NEXT_OFF = 0"
definition LE_PREV_OFF :: nat where "LE_PREV_OFF = 8"

definition lq_pe_first :: "mem \<Rightarrow> nat \<Rightarrow> shmem_optr" where
  "lq_pe_first m lq = word_of_nat (rd 8 m lq)"

definition lq_pe_tail :: "mem \<Rightarrow> nat \<Rightarrow> shmem_optr" where
  "lq_pe_tail m lq = word_of_nat (rd 8 m (lq + 8))"

definition le_pe_next :: "mem \<Rightarrow> nat \<Rightarrow> shmem_optr" where
  "le_pe_next m le = word_of_nat (rd 8 m (le + LE_NEXT_OFF))"

definition le_pe_prev :: "mem \<Rightarrow> nat \<Rightarrow> shmem_optr" where
  "le_pe_prev m le = word_of_nat (rd 8 m (le + LE_PREV_OFF))"

definition le_prev_optr :: "shmem_optr \<Rightarrow> shmem_optr" where
  "le_prev_optr le_optr = le_optr + word_of_nat LE_PREV_OFF"

definition le_next_optr :: "shmem_optr \<Rightarrow> shmem_optr" where
  "le_next_optr le_optr = le_optr + word_of_nat LE_NEXT_OFF"

subsection \<open>Object headers\<close>

definition hdr_machine_id :: "mem \<Rightarrow> nat \<Rightarrow> nat" where "hdr_machine_id m h = rd 2 m (h + 16)"
definition hdr_slot_id :: "mem \<Rightarrow> nat \<Rightarrow> nat" where "hdr_slot_id m h = rd 2 m (h + 18)"
definition hdr_prog_id :: "mem \<Rightarrow> nat \<Rightarrow> u8 list" where "hdr_prog_id m h = rd_bytes m (h + 20) PROG_ID_SIZE"
definition hdr_obj_optr :: "mem \<Rightarrow> nat \<Rightarrow> shmem_optr" where "hdr_obj_optr m h = word_of_nat (rd 8 m (h + 32))"
definition hdr_length :: "mem \<Rightarrow> nat \<Rightarrow> nat" where "hdr_length m h = rd 8 m (h + 40)"

subsection \<open>Pages of records\<close>

definition recs_bitset_at :: "nat \<Rightarrow> nat" where "recs_bitset_at r = r + 16"
definition recs_available_at :: "nat \<Rightarrow> nat" where "recs_available_at r = r + 60"
definition recs_header_at :: "nat \<Rightarrow> nat \<Rightarrow> nat" where "recs_header_at r slot = r + 64 + OBJ_HEADER_SIZE * slot"

definition recs_bitset :: "mem \<Rightarrow> nat \<Rightarrow> bitset" where
  "recs_bitset m r = rd_bytes m (recs_bitset_at r) SIZEOF_OBJ_BITSET"

definition recs_available :: "mem \<Rightarrow> nat \<Rightarrow> nat" where
  "recs_available m r = rd 2 m (recs_available_at r)"

definition init_obj_allocation_records :: "mem \<Rightarrow> nat \<Rightarrow> mem" where
  "init_obj_allocation_records m r =
     (let m = wr 8 m (r + LE_NEXT_OFF) 0;
          m = wr 8 m (r + LE_PREV_OFF) 0;
          m = wr_bytes m (recs_bitset_at r) (replicate SIZEOF_OBJ_BITSET 0);
          m = wr 2 m (recs_available_at r) NUM_OBJ_SLOTS
      in fold (\<lambda>i m. wr 2 m (recs_header_at r i + 18) i) [0..<NUM_OBJ_SLOTS] m)"

definition get_obj_allocation_records_offset :: "mem \<Rightarrow> nat \<Rightarrow> nat \<Rightarrow> u64" where
  "get_obj_allocation_records_offset m obj_hdr mem_start =
     (let obj_hdr_offset = (word_of_nat obj_hdr - word_of_nat mem_start :: u64);
          obj_headers_offset = obj_hdr_offset - word_of_nat (hdr_slot_id m obj_hdr * OBJ_HEADER_SIZE)
      in obj_headers_offset - 64)"

definition next_obj_header :: "mem \<Rightarrow> nat \<Rightarrow> nat \<Rightarrow> nat" where
  "next_obj_header m mem_start obj_hdr = shmem_optr_direct_ptr mem_start (le_pe_next m obj_hdr)"

definition next_obj_allocation_records :: "mem \<Rightarrow> nat \<Rightarrow> nat \<Rightarrow> nat" where
  "next_obj_allocation_records m mem_start recs = shmem_optr_direct_ptr mem_start (le_pe_next m recs)"

lemmas layout_defs = PROG_ID_SIZE_def NUM_OBJ_SLOTS_def SIZEOF_OBJ_BITSET_def OBJ_ALLOC_RECS_SIZE_def
  OBJ_HEADER_SIZE_def LE_NEXT_OFF_def LE_PREV_OFF_def recs_bitset_at_def recs_available_at_def recs_header_at_def

declare layout_defs [layout_simps]

subsection \<open>C strings\<close>

text \<open>The length of the string in a buffer; without a terminator the code would read past the
  buffer, which is undefined and modelled by \<open>None\<close>.\<close>

definition c_strlen :: "u8 list \<Rightarrow> nat option" where
  "c_strlen bs = (if 0 \<in> set bs then Some (length (takeWhile (\<lambda>b. b \<noteq> 0) bs)) else None)"

text \<open>\<^verbatim>\<open>strncmp(s, t, n) == 0\<close>: no difference in the first \<open>n\<close> characters up to a terminator.\<close>

fun strncmp_eq :: "u8 list \<Rightarrow> u8 list \<Rightarrow> nat \<Rightarrow> bool" where
  "strncmp_eq s t 0 = True"
| "strncmp_eq (a # s) (b # t) (Suc n) = (a = b \<and> (a = 0 \<or> strncmp_eq s t n))"
| "strncmp_eq s t (Suc n) = (s = t)"

definition c_string :: "u8 list \<Rightarrow> u8 list" where
  "c_string bs = takeWhile (\<lambda>b. b \<noteq> 0) bs"

lemma c_strlen_Some: "c_strlen bs = Some n \<Longrightarrow> n < length bs \<and> bs ! n = 0 \<and> n = length (c_string bs)"
proof (induction bs arbitrary: n)
  case (Cons b bs)
  then show ?case by (cases "b = 0") (auto simp: c_strlen_def c_string_def split: if_splits)
qed (simp add: c_strlen_def)

lemma c_string_append: "c_strlen bs = Some n \<Longrightarrow> c_string (take (n + 1) bs @ cs) = c_string bs"
proof (induction bs arbitrary: n)
  case (Cons b bs)
  then show ?case by (cases "b = 0") (auto simp: c_strlen_def c_string_def split: if_splits)
qed (simp add: c_strlen_def)

text \<open>Two terminated strings of equal length are equal exactly when \<open>strncmp\<close> over that length
  finds no difference, the comparison the object lookups use.\<close>

lemma strncmp_lengths:
  "length (c_string s) = n \<Longrightarrow> length (c_string t) = n \<Longrightarrow> 0 \<in> set s \<Longrightarrow> 0 \<in> set t \<Longrightarrow>
   strncmp_eq s t n \<longleftrightarrow> c_string s = c_string t"
proof (induction s t n rule: strncmp_eq.induct)
  case (1 s t)
  then show ?case by (simp add: c_string_def)
next
  case (2 a s b t n)
  then show ?case by (cases "a = 0"; cases "b = 0") (auto simp: c_string_def)
qed auto

subsection \<open>Initialisation\<close>

definition init_records_writes :: "nat \<Rightarrow> (nat \<times> nat) set" where
  "init_records_writes r =
     byte_range r 8 \<union> byte_range (r + 8) 8 \<union> byte_range (r + 16) 43 \<union> byte_range (r + 60) 2 \<union>
     (\<Union>i\<in>set [0..<NUM_OBJ_SLOTS]. byte_range (recs_header_at r i + 18) 2)"

lemma init_records_blind: "blind (\<lambda>m. init_obj_allocation_records m r) (init_records_writes r)"
proof -
  have bits: "blind (\<lambda>m. wr_bytes m (r + 16) (replicate 43 0)) (byte_range (r + 16) 43)"
    using blind_wr_bytes [of "r + 16" "replicate 43 0"] by simp
  have slots: "blind (\<lambda>m. fold (\<lambda>i m. wr 2 m (recs_header_at r i + 18) i) [0..<NUM_OBJ_SLOTS] m)
      (\<Union>i\<in>set [0..<NUM_OBJ_SLOTS]. byte_range (recs_header_at r i + 18) 2)"
    by (rule blind_fold) (rule blind_wr)
  note step = blind_comp [OF blind_comp [OF blind_comp [OF blind_comp [OF
      blind_wr [of 8 r 0] blind_wr [of 8 "r + 8" 0]] bits] blind_wr [of 2 "r + 60" NUM_OBJ_SLOTS]] slots]
  from step show ?thesis
    by (simp only: init_obj_allocation_records_def init_records_writes_def Let_def recs_bitset_at_def
        recs_available_at_def SIZEOF_OBJ_BITSET_def LE_NEXT_OFF_def LE_PREV_OFF_def add_0_right)
qed

lemma fold_wr_outside:
  assumes "\<And>i. i \<in> set is \<Longrightarrow> b + k \<le> f i \<or> f i + n \<le> b"
  shows "rd k (fold (\<lambda>i m. wr n m (f i) (g i)) is m) b = rd k m b"
  using assms by (induction "is" arbitrary: m) simp_all

lemma fold_wr_bytes_outside:
  assumes "\<And>i. i \<in> set is \<Longrightarrow> b + k \<le> f i \<or> f i + n \<le> b"
  shows "rd_bytes (fold (\<lambda>i m. wr n m (f i) (g i)) is m) b k = rd_bytes m b k"
  using assms by (induction "is" arbitrary: m) simp_all

lemma fold_wr_slots:
  assumes "j < n"
  shows "rd 2 (fold (\<lambda>i m. wr 2 m (recs_header_at r i + 18) i) [0..<n] m) (recs_header_at r j + 18) = j mod 65536"
  using assms
proof (induction n)
  case (Suc n)
  then show ?case by (cases "j = n") (simp_all add: rd_wr_same recs_header_at_def OBJ_HEADER_SIZE_def)
qed simp

text \<open>A fresh page: unlinked, every slot free and numbered.\<close>

lemma init_records_fields:
  defines "f m r \<equiv> init_obj_allocation_records m r"
  shows "le_pe_next (f m r) r = 0" "le_pe_prev (f m r) r = 0"
    and "recs_bitset (f m r) r = replicate SIZEOF_OBJ_BITSET 0"
    and "recs_available (f m r) r = NUM_OBJ_SLOTS"
    and "slot < NUM_OBJ_SLOTS \<Longrightarrow> hdr_slot_id (f m r) (recs_header_at r slot) = slot"
proof -
  let ?base = "wr 2 (wr_bytes (wr 8 (wr 8 m r 0) (r + 8) 0) (r + 16) (replicate SIZEOF_OBJ_BITSET 0)) (r + 60) NUM_OBJ_SLOTS"
  have f: "f m r = fold (\<lambda>i m. wr 2 m (recs_header_at r i + 18) i) [0..<NUM_OBJ_SLOTS] ?base"
    by (simp add: f_def init_obj_allocation_records_def Let_def LE_NEXT_OFF_def LE_PREV_OFF_def
        recs_bitset_at_def recs_available_at_def)
  have out: "b + k \<le> recs_header_at r i + 18 \<or> recs_header_at r i + 18 + 2 \<le> b" if "b + k \<le> r + 64" for b k i
    using that by (simp add: recs_header_at_def)
  have front: "rd k (f m r) b = rd k ?base b" if "b + k \<le> r + 64" for b k
    unfolding f by (rule fold_wr_outside) (rule out [OF that])
  have front_bytes: "rd_bytes (f m r) b k = rd_bytes ?base b k" if "b + k \<le> r + 64" for b k
    unfolding f by (rule fold_wr_bytes_outside) (rule out [OF that])
  show "le_pe_next (f m r) r = 0" by (simp add: le_pe_next_def LE_NEXT_OFF_def front rd_wr_same SIZEOF_OBJ_BITSET_def)
  show "le_pe_prev (f m r) r = 0" by (simp add: le_pe_prev_def LE_PREV_OFF_def front rd_wr_same SIZEOF_OBJ_BITSET_def)
  show "recs_available (f m r) r = NUM_OBJ_SLOTS"
    by (simp add: recs_available_def recs_available_at_def front rd_wr_same) (simp add: NUM_OBJ_SLOTS_def)
  show "recs_bitset (f m r) r = replicate SIZEOF_OBJ_BITSET 0"
    by (simp add: recs_bitset_def recs_bitset_at_def front_bytes SIZEOF_OBJ_BITSET_def)
  show "hdr_slot_id (f m r) (recs_header_at r slot) = slot" if "slot < NUM_OBJ_SLOTS"
    using that unfolding f hdr_slot_id_def by (simp add: fold_wr_slots) (simp add: NUM_OBJ_SLOTS_def)
qed

text \<open>The page of a header is found from the slot number stored in it.\<close>

lemma records_offset:
  assumes "hdr_slot_id m (recs_header_at r slot) = slot" "mem_start \<le> r"
  shows "get_obj_allocation_records_offset m (recs_header_at r slot) mem_start = word_of_nat (r - mem_start)"
  using assms unfolding get_obj_allocation_records_offset_def Let_def
  by (simp add: recs_header_at_def OBJ_HEADER_SIZE_def of_nat_diff algebra_simps)

end
