(* ===== verification/Checksum.thy ===== *)
theory Checksum
  imports Prelude
begin

text \<open>
  The Fletcher64-like checksum of \<^verbatim>\<open>src/src/common/util_checksum.c\<close>, on byte buffers. Pointers
  into the buffer are byte offsets from \<open>addr\<close>; \<open>csump\<close> is \<open>None\<close> for a null pointer or a pointer
  outside the buffer. The two 32-bit accumulators wrap. A length that is not a multiple of four is
  fatal in the code (\<^verbatim>\<open>BUG_ON\<close> or \<^verbatim>\<open>abort\<close>), here \<open>None\<close>.
\<close>

unbundle bit_operations_syntax

definition le32 :: "u8 list \<Rightarrow> nat \<Rightarrow> u32" where
  "le32 bs p = word_of_nat (load_le 4 bs p)"

function checksum_loop ::
  "u8 list \<Rightarrow> nat \<Rightarrow> nat option \<Rightarrow> nat \<Rightarrow> nat \<Rightarrow> u32 \<Rightarrow> u32 \<Rightarrow> u32 \<times> u32" where
  "checksum_loop bs len csump skip p lo hi =
     (if p < len then
        if csump = Some p \<or> skip \<le> p then
          checksum_loop bs len csump skip (p + 8) lo (hi + lo + lo)
        else
          let lo = lo + le32 bs p
          in checksum_loop bs len csump skip (p + 4) lo (hi + lo)
      else (lo, hi))"
  by auto
termination
  by (relation "measure (\<lambda>(bs, len, csump, skip, p, lo, hi). len - p)") auto

declare checksum_loop.simps [simp del]

definition checksum_join :: "u32 \<Rightarrow> u32 \<Rightarrow> u64" where
  "checksum_join lo hi = push_bit 32 (ucast hi) OR ucast lo"

definition util_checksum_compute :: "u8 list \<Rightarrow> nat \<Rightarrow> nat option \<Rightarrow> nat \<Rightarrow> u64 option" where
  "util_checksum_compute bs len csump skip_off =
     (if len mod 4 \<noteq> 0 then None
      else
        let skip = (if skip_off \<noteq> 0 then skip_off else len);
            (lo, hi) = checksum_loop bs len csump skip 0 0 0
        in Some (checksum_join lo hi))"

definition util_checksum :: "u8 list \<Rightarrow> nat \<Rightarrow> nat \<Rightarrow> bool \<Rightarrow> nat \<Rightarrow> (bool \<times> u8 list) option" where
  "util_checksum bs len csump ins skip_off =
     (case util_checksum_compute bs len (Some csump) skip_off of
        None \<Rightarrow> None
      | Some csum \<Rightarrow>
          if ins then Some (True, store64 bs csump (unat csum))
          else Some (load64 bs csump = unat csum, bs))"

function checksum_seq_loop :: "u8 list \<Rightarrow> nat \<Rightarrow> nat \<Rightarrow> u32 \<Rightarrow> u32 \<Rightarrow> u32 \<times> u32" where
  "checksum_seq_loop bs len p lo hi =
     (if p < len then
        let lo = lo + le32 bs p
        in checksum_seq_loop bs len (p + 4) lo (hi + lo)
      else (lo, hi))"
  by auto
termination
  by (relation "measure (\<lambda>(bs, len, p, lo, hi). len - p)") auto

declare checksum_seq_loop.simps [simp del]

definition util_checksum_seq :: "u8 list \<Rightarrow> nat \<Rightarrow> u64 \<Rightarrow> u64 option" where
  "util_checksum_seq bs len csum =
     (if len mod 4 \<noteq> 0 then None
      else
        let (lo, hi) = checksum_seq_loop bs len 0 (ucast csum) (ucast (drop_bit 32 csum))
        in Some (checksum_join lo hi))"

subsection \<open>The two halves of the checksum\<close>

lemma checksum_join_low: "ucast (checksum_join lo hi) = lo"
  unfolding checksum_join_def
  by (rule bit_word_eqI) (auto simp: bit_simps)

lemma checksum_join_high: "ucast (drop_bit 32 (checksum_join lo hi)) = hi"
  unfolding checksum_join_def
  by (rule bit_word_eqI) (auto simp: bit_simps dest: bit_imp_le_length)

lemma checksum_join_inject: "checksum_join lo hi = checksum_join lo' hi' \<longleftrightarrow> lo = lo' \<and> hi = hi'"
  by (metis checksum_join_low checksum_join_high)

subsection \<open>Locality of the loops\<close>

lemma le32_cong: "(\<And>k. p \<le> k \<Longrightarrow> k < p + 4 \<Longrightarrow> bs ! k = cs ! k) \<Longrightarrow> le32 bs p = le32 cs p"
  unfolding le32_def by (intro arg_cong [where f = word_of_nat] load_le_cong)

lemma checksum_loop_done: "len \<le> p \<Longrightarrow> checksum_loop bs len csump skip p lo hi = (lo, hi)"
  by (simp add: checksum_loop.simps)

lemma checksum_seq_loop_done: "len \<le> p \<Longrightarrow> checksum_seq_loop bs len p lo hi = (lo, hi)"
  by (simp add: checksum_seq_loop.simps)

lemma checksum_loop_skip:
  "p < len \<Longrightarrow> csump = Some p \<or> skip \<le> p \<Longrightarrow>
   checksum_loop bs len csump skip p lo hi = checksum_loop bs len csump skip (p + 8) lo (hi + lo + lo)"
  by (subst checksum_loop.simps) simp

lemma checksum_loop_add:
  "p < len \<Longrightarrow> csump \<noteq> Some p \<Longrightarrow> p < skip \<Longrightarrow>
   checksum_loop bs len csump skip p lo hi =
     checksum_loop bs len csump skip (p + 4) (lo + le32 bs p) (hi + (lo + le32 bs p))"
  by (subst checksum_loop.simps) (simp add: Let_def)

lemma checksum_seq_loop_add:
  "p < len \<Longrightarrow> checksum_seq_loop bs len p lo hi =
     checksum_seq_loop bs len (p + 4) (lo + le32 bs p) (hi + (lo + le32 bs p))"
  by (subst checksum_seq_loop.simps) (simp add: Let_def)

lemma checksum_loop_skipped:
  "skip \<le> p \<Longrightarrow> checksum_loop bs len csump skip p lo hi = checksum_loop cs len csump skip p lo hi"
proof (induction "len - p" arbitrary: p hi rule: less_induct)
  case less
  then show ?case
    by (cases "p < len") (simp_all add: checksum_loop_skip checksum_loop_done)
qed

text \<open>The loop never reads the eight bytes the checksum itself occupies.\<close>

lemma checksum_loop_ignores:
  assumes "c mod 4 = 0" "p mod 4 = 0" "p \<le> c \<or> c + 8 \<le> p" "len mod 4 = 0"
    and same: "\<And>k. k < len \<Longrightarrow> k < c \<or> c + 8 \<le> k \<Longrightarrow> bs ! k = cs ! k"
  shows "checksum_loop bs len (Some c) skip p lo hi = checksum_loop cs len (Some c) skip p lo hi"
  using assms(2,3)
proof (induction "len - p" arbitrary: p lo hi rule: less_induct)
  case less
  consider "len \<le> p" | "skip \<le> p" | "p < len" "p < skip" "c = p" | "p < len" "p < skip" "c \<noteq> p" by linarith
  then show ?case
  proof cases
    case 3
    then have "(p + 8) mod 4 = 0" using less.prems by presburger
    with 3 less.hyps [of "p + 8"] show ?thesis by (simp add: checksum_loop_skip)
  next
    case 4
    have "p + 4 \<le> len" using 4 less.prems(1) assms(4) by presburger
    moreover have *: "p + 4 \<le> c \<or> c + 8 \<le> p" using 4 less.prems assms(1) by presburger
    ultimately have "le32 bs p = le32 cs p" by (intro le32_cong same) auto
    moreover have "(p + 4) mod 4 = 0" using less.prems by presburger
    ultimately show ?thesis
      using 4 less.hyps [of "p + 4"] * by (auto simp: checksum_loop_add)
  qed (simp_all add: checksum_loop_done checksum_loop_skipped)
qed

lemma checksum_compute_ignores:
  assumes "c mod 4 = 0" and "\<And>k. k < len \<Longrightarrow> k < c \<or> c + 8 \<le> k \<Longrightarrow> bs ! k = cs ! k"
  shows "util_checksum_compute bs len (Some c) skip_off = util_checksum_compute cs len (Some c) skip_off"
  using checksum_loop_ignores [of c 0 len bs cs] assms
  unfolding util_checksum_compute_def by (auto simp: Let_def split: prod.splits)

subsection \<open>The plain checksum is the sequential one\<close>

lemma checksum_loop_plain:
  assumes "\<And>q. csump = Some q \<Longrightarrow> len \<le> q"
  shows "checksum_loop bs len csump len p lo hi = checksum_seq_loop bs len p lo hi"
proof (induction "len - p" arbitrary: p lo hi rule: less_induct)
  case less
  show ?case
  proof (cases "p < len")
    case True
    then have "csump \<noteq> Some p" using assms [of p] by auto
    with True less.hyps [of "p + 4"] show ?thesis by (simp add: checksum_loop_add checksum_seq_loop_add)
  qed (simp add: checksum_loop_done checksum_seq_loop_done)
qed

lemma checksum_compute_plain:
  assumes "len mod 4 = 0" "\<And>q. csump = Some q \<Longrightarrow> len \<le> q"
  shows "util_checksum_compute bs len csump 0 = util_checksum_seq bs len 0"
  using assms checksum_loop_plain [of csump len]
  by (simp add: util_checksum_compute_def util_checksum_seq_def)

lemma checksum_compute_none:
  "len mod 4 = 0 \<Longrightarrow> util_checksum_compute bs len None 0 = util_checksum_seq bs len 0"
  by (rule checksum_compute_plain) simp_all

subsection \<open>Closed form\<close>

text \<open>The words of a buffer and the two sums of Fletcher's checksum over them.\<close>

definition words32 :: "u8 list \<Rightarrow> nat \<Rightarrow> u32 list" where
  "words32 bs len = map (\<lambda>i. le32 bs (4 * i)) [0..<len div 4]"

primrec fletcher :: "u32 list \<Rightarrow> u32 \<Rightarrow> u32 \<Rightarrow> u32 \<times> u32" where
  "fletcher [] lo hi = (lo, hi)"
| "fletcher (w # ws) lo hi = fletcher ws (lo + w) (hi + (lo + w))"

lemma fletcher_low: "fst (fletcher ws lo hi) = lo + sum_list ws"
  by (induction ws arbitrary: lo hi) (simp_all add: add.assoc)

lemma fletcher_append: "fletcher (us @ vs) lo hi = (case fletcher us lo hi of (lo', hi') \<Rightarrow> fletcher vs lo' hi')"
  by (induction us arbitrary: lo hi) simp_all

lemma fletcher_high:
  "snd (fletcher ws lo hi) = hi + of_nat (length ws) * lo + (\<Sum>i<length ws. of_nat (length ws - i) * ws ! i)"
proof (induction ws arbitrary: lo hi)
  case (Cons w ws)
  have "(\<Sum>i<length (w # ws). of_nat (length (w # ws) - i) * (w # ws) ! i)
      = of_nat (Suc (length ws)) * w + (\<Sum>i<length ws. of_nat (length ws - i) * ws ! i)"
    by (simp only: length_Cons sum.lessThan_Suc_shift) simp
  with Cons [of "lo + w" "hi + (lo + w)"] show ?case by (simp add: algebra_simps)
qed simp

lemma checksum_seq_loop_words:
  assumes "len mod 4 = 0" "4 * i \<le> len"
  shows "checksum_seq_loop bs len (4 * i) lo hi = fletcher (drop i (words32 bs len)) lo hi"
  using assms(2)
proof (induction "len - 4 * i" arbitrary: i lo hi rule: less_induct)
  case less
  show ?case
  proof (cases "4 * i < len")
    case True
    then have i: "i < len div 4" "4 * Suc i \<le> len" using assms(1) by presburger+
    then have "drop i (words32 bs len) = le32 bs (4 * i) # drop (Suc i) (words32 bs len)"
      by (simp add: words32_def Cons_nth_drop_Suc [symmetric])
    with less.hyps [of "Suc i"] i True show ?thesis by (simp add: checksum_seq_loop_add add.commute)
  next
    case False
    with less.prems show ?thesis by (simp add: checksum_seq_loop_done words32_def)
  qed
qed

lemma checksum_seq_words:
  assumes "len mod 4 = 0"
  shows "util_checksum_seq bs len csum =
    Some (case fletcher (words32 bs len) (ucast csum) (ucast (drop_bit 32 csum)) of (lo, hi) \<Rightarrow> checksum_join lo hi)"
  using assms checksum_seq_loop_words [of len 0] by (simp add: util_checksum_seq_def split_def Let_def)

lemma words32_append:
  assumes "length as mod 4 = 0" "length as = la"
  shows "words32 (as @ bs) (la + lb) = words32 as la @ words32 bs lb"
proof -
  obtain k where k: "la = 4 * k" using assms by (auto simp: mod_eq_0_iff_dvd)
  have "le32 (as @ bs) (4 * i) = le32 as (4 * i)" if "i < k" for i
    using that assms k by (intro le32_cong) (auto simp: nth_append)
  moreover have "le32 (as @ bs) (4 * (i + k)) = le32 bs (4 * i)" for i
    using assms k unfolding le32_def load_le_def by (simp add: nth_append distrib_left add.commute)
  moreover have "[0..<(la + lb) div 4] = [0..<k] @ map (\<lambda>i. i + k) [0..<lb div 4]"
    using k by (simp add: map_add_upt upt_add_eq_append [of 0 k "lb div 4", simplified] add.commute)
  ultimately show ?thesis using k by (simp add: words32_def)
qed

lemma fst_fletcher_changed:
  assumes "us = xs @ u # ys" "vs = xs @ v # ys" "u \<noteq> v"
  shows "fst (fletcher us lo hi) \<noteq> fst (fletcher vs lo hi)"
  using assms by (simp add: fletcher_low)

subsection \<open>Properties\<close>

text \<open>Inserting the checksum into a buffer and verifying it afterwards succeeds. The insertion
  changes only the eight bytes at \<open>csump\<close>, and the verification reports a match and changes nothing,
  wherever the checksum field lies (on a four-byte boundary) and whatever part of the buffer is
  skipped.\<close>

lemma checksum_insert_verify:
  assumes "len mod 4 = 0" "csump mod 4 = 0" "csump + 8 \<le> length bs"
  shows "\<exists>bs'. util_checksum bs len csump True skip_off = Some (True, bs') \<and>
    util_checksum bs' len csump False skip_off = Some (True, bs') \<and>
    length bs' = length bs \<and> (\<forall>k. k < csump \<or> csump + 8 \<le> k \<longrightarrow> bs' ! k = bs ! k)"
proof -
  obtain csum where csum: "util_checksum_compute bs len (Some csump) skip_off = Some csum"
    using assms(1) unfolding util_checksum_compute_def Let_def split_def by simp
  let ?bs = "store64 bs csump (unat csum)"
  have "util_checksum_compute ?bs len (Some csump) skip_off = Some csum"
    using assms(3) csum by (subst checksum_compute_ignores [OF assms(2), of len ?bs bs]) (auto simp: nth_store64)
  moreover have "load64 ?bs csump = unat csum"
    using assms(3) unsigned_less [of csum, where ?'a = nat] by (intro load_store64_same) simp_all
  ultimately show ?thesis
    using csum assms(3) by (intro exI [of _ ?bs]) (auto simp: util_checksum_def nth_store64)
qed

text \<open>C14: Any corruption confined to one aligned 32-bit word is detected: if two buffers agree outside
  word \<open>i\<close> and differ in it, their checksums differ.\<close>

theorem checksum_detects_word:
  assumes "len mod 4 = 0" "i < len div 4"
    and "\<And>k. k < len \<Longrightarrow> k < 4 * i \<or> 4 * i + 4 \<le> k \<Longrightarrow> bs ! k = cs ! k"
    and "le32 bs (4 * i) \<noteq> le32 cs (4 * i)"
  shows "util_checksum_compute bs len None 0 \<noteq> util_checksum_compute cs len None 0"
proof -
  let ?ws = "words32 bs len" and ?vs = "words32 cs len"
  have same: "?ws ! j = ?vs ! j" if "j < len div 4" "j \<noteq> i" for j
  proof -
    have "4 * j + 4 \<le> len" "4 * j + 4 \<le> 4 * i \<or> 4 * i + 4 \<le> 4 * j" using that by linarith+
    then have "le32 bs (4 * j) = le32 cs (4 * j)" by (intro le32_cong assms(3)) auto
    with that show ?thesis by (simp add: words32_def)
  qed
  have len: "length ?ws = len div 4" "length ?vs = len div 4" by (simp_all add: words32_def)
  have "take i ?ws = take i ?vs" "drop (Suc i) ?ws = drop (Suc i) ?vs"
    using assms(2) by (auto intro!: nth_equalityI simp: len same)
  then have "?ws = take i ?ws @ ?ws ! i # drop (Suc i) ?ws" "?vs = take i ?ws @ ?vs ! i # drop (Suc i) ?ws"
    using assms(2) by (metis len id_take_nth_drop)+
  moreover have "?ws ! i \<noteq> ?vs ! i" using assms(2,4) by (simp add: words32_def)
  ultimately have "fst (fletcher ?ws 0 0) \<noteq> fst (fletcher ?vs 0 0)" by (rule fst_fletcher_changed)
  then show ?thesis
    using assms(1) by (simp add: checksum_compute_none checksum_seq_words checksum_join_inject split_def)
qed

theorem checksum_detects_word_witness:
  "util_checksum_compute [1, 0, 0, 0, 7, 0, 0, 0] 8 None 0 \<noteq> util_checksum_compute [1, 0, 0, 0, 9, 0, 0, 0] 8 None 0"
proof -
  have "le32 [1, 0, 0, 0, 7, 0, 0, 0] 4 \<noteq> le32 [1, 0, 0, 0, 9, 0, 0, 0] 4"
    by (simp add: le32_def load_le_def upt_rec)
  moreover have "[1, 0, 0, 0, 7, 0, 0, 0 :: u8] ! k = [1, 0, 0, 0, 9, 0, 0, 0] ! k" if "k < 4" for k
    using nth_take [OF that, of "[1, 0, 0, 0, 7, 0, 0, 0 :: u8]"] nth_take [OF that, of "[1, 0, 0, 0, 9, 0, 0, 0 :: u8]"]
    by simp
  ultimately show ?thesis
    by (intro checksum_detects_word [of 8 1]) auto
qed

text \<open>\<open>util_checksum_seq\<close> merges checksums: continuing from the checksum of a first buffer over a
  second one gives the checksum \<open>util_checksum_compute\<close> computes over their concatenation.\<close>

lemma checksum_seq_append:
  assumes "length as mod 4 = 0" "length bs mod 4 = 0"
  shows "util_checksum_compute (as @ bs) (length as + length bs) None 0 =
    util_checksum_seq bs (length bs) (the (util_checksum_compute as (length as) None 0))"
proof -
  have "(length as + length bs) mod 4 = 0" using assms by presburger
  then show ?thesis
    using assms by (simp add: checksum_compute_none checksum_seq_words words32_append fletcher_append
        checksum_join_low checksum_join_high split_def)
qed

end
