(* ===== verification/Redo_Log.thy ===== *)
theory Redo_Log
  imports Obj_Records Checksum Buddy_Alloc_Spec
begin

text \<open>
  The redo log of \<^verbatim>\<open>src/driver/src/log.h\<close> and \<^verbatim>\<open>log.c\<close>. A log is an array of ten records of 56 bytes;
  a record is kept as its bytes: the tag at offset 0 and the union from offset 8 on. The
  \<open>set_..._log_entry\<close> functions write the fields of the record at the current position, advance the
  position and clear the next record; a full log is fatal (\<^verbatim>\<open>BUG_ON\<close>, here \<open>None\<close>). \<open>execute_log\<close>
  applies records to the allocator, to the shared memory and to the volatile \<open>meta_dram\<close>.

  Cache flushes and the fault injection points do not change these values and are omitted; a crash
  is modelled by what it may leave in memory. The allocation tree and the log itself lie in the
  shared memory too; they are kept apart from the byte memory \<open>mem\<close>, as the layout of the metadata
  keeps their addresses apart from those of the object records and list nodes.
\<close>

subsection \<open>Records\<close>

definition REDOLOG_ENTRIES :: nat where "REDOLOG_ENTRIES = 10"
definition sizeof_log_entry :: nat where "sizeof_log_entry = 56"

type_synonym log_entry = "u8 list"
type_synonym redo_log = "log_entry list"

datatype entry_type = INVALID | BUDDY_ALLOC | BUDDY_FREE | VAL | STR_ENTRY | OBJ_HDR_ALLOC | OBJ_HDR_FREE
  | TWO_VAL_LOG | INIT_OBJ_ALLOC_RECS | COMMIT

primrec entry_code :: "entry_type \<Rightarrow> nat" where
  "entry_code INVALID = 0"
| "entry_code BUDDY_ALLOC = 1"
| "entry_code BUDDY_FREE = 2"
| "entry_code VAL = 3"
| "entry_code STR_ENTRY = 4"
| "entry_code OBJ_HDR_ALLOC = 5"
| "entry_code OBJ_HDR_FREE = 6"
| "entry_code TWO_VAL_LOG = 7"
| "entry_code INIT_OBJ_ALLOC_RECS = 8"
| "entry_code COMMIT = 9"

definition entry_types :: "entry_type list" where
  "entry_types = [INVALID, BUDDY_ALLOC, BUDDY_FREE, VAL, STR_ENTRY, OBJ_HDR_ALLOC, OBJ_HDR_FREE, TWO_VAL_LOG,
     INIT_OBJ_ALLOC_RECS, COMMIT]"

definition loge_tp :: "log_entry \<Rightarrow> entry_type option" where
  "loge_tp e = (let c = load_le 4 e 0 in if c < length entry_types then Some (entry_types ! c) else None)"

definition loge_u64 :: "log_entry \<Rightarrow> nat \<Rightarrow> u64" where
  "loge_u64 e off = word_of_nat (load_le 8 e off)"

definition EMPTY_LOG_ENTRY :: log_entry where
  "EMPTY_LOG_ENTRY = replicate sizeof_log_entry 0"

definition loge_set_tp :: "log_entry \<Rightarrow> entry_type \<Rightarrow> log_entry" where
  "loge_set_tp e tp = store_le 4 e 0 (entry_code tp)"

text \<open>The common frame of the \<open>set_..._log_entry\<close> functions: the bounds check, the assignment to the
  record at the position, the advance and the clearing of the next record.\<close>

definition set_log_entry :: "redo_log \<times> nat \<Rightarrow> (log_entry \<Rightarrow> log_entry) \<Rightarrow> (redo_log \<times> nat) option" where
  "set_log_entry lp f =
     (case lp of (log, pos) \<Rightarrow>
        if pos = REDOLOG_ENTRIES then None
        else
          let log = log[pos := f (log ! pos)];
              pos = pos + 1
          in Some (if pos < REDOLOG_ENTRIES then log[pos := EMPTY_LOG_ENTRY] else log, pos))"

definition buddyop_loge :: "entry_type \<Rightarrow> buddy_tree_pos \<Rightarrow> log_entry \<Rightarrow> log_entry" where
  "buddyop_loge tp pos e = store64 (store64 (loge_set_tp e tp) 8 (index pos)) 16 (depth pos)"

definition set_buddyop_log_entry :: "redo_log \<times> nat \<Rightarrow> entry_type \<Rightarrow> buddy_tree_pos \<Rightarrow> (redo_log \<times> nat) option" where
  "set_buddyop_log_entry lp tp pos = set_log_entry lp (buddyop_loge tp pos)"

definition val_loge :: "shmem_optr \<Rightarrow> u64 \<Rightarrow> log_entry \<Rightarrow> log_entry" where
  "val_loge off v e = store64 (store64 (loge_set_tp e VAL) 8 (unat off)) 16 (unat v)"

definition set_value_log_entry :: "redo_log \<times> nat \<Rightarrow> shmem_optr \<Rightarrow> u64 \<Rightarrow> (redo_log \<times> nat) option" where
  "set_value_log_entry lp off v = set_log_entry lp (val_loge off v)"

definition two_val_loge :: "shmem_optr \<Rightarrow> u64 \<Rightarrow> shmem_optr \<Rightarrow> u64 \<Rightarrow> log_entry \<Rightarrow> log_entry" where
  "two_val_loge off1 v1 off2 v2 e =
     (let e = loge_set_tp e TWO_VAL_LOG;
          e = store64 e 8 (unat off1);
          e = store64 e 16 (unat v1);
          e = store64 e 24 (unat off2)
      in store64 e 32 (unat v2))"

definition set_two_value_log_entry ::
  "redo_log \<times> nat \<Rightarrow> shmem_optr \<Rightarrow> u64 \<Rightarrow> shmem_optr \<Rightarrow> u64 \<Rightarrow> (redo_log \<times> nat) option" where
  "set_two_value_log_entry lp off1 v1 off2 v2 = set_log_entry lp (two_val_loge off1 v1 off2 v2)"

definition str_loge :: "shmem_optr \<Rightarrow> u8 list \<Rightarrow> log_entry \<Rightarrow> log_entry" where
  "str_loge off val_bytes e = store_bytes (store64 (loge_set_tp e STR_ENTRY) 8 (unat off)) 16 val_bytes"

definition set_str_log_entry :: "redo_log \<times> nat \<Rightarrow> shmem_optr \<Rightarrow> u8 list \<Rightarrow> (redo_log \<times> nat) option" where
  "set_str_log_entry lp off prog_id =
     (case c_strlen prog_id of
        None \<Rightarrow> None
      | Some n \<Rightarrow> set_log_entry lp (str_loge off (take (n + 1) prog_id)))"

definition obj_hdr_alloc_loge ::
  "shmem_optr \<Rightarrow> shmem_optr \<Rightarrow> u64 \<Rightarrow> u8 list \<Rightarrow> u16 \<Rightarrow> u16 \<Rightarrow> u16 \<Rightarrow> log_entry \<Rightarrow> log_entry" where
  "obj_hdr_alloc_loge alloc_rec_ptr obj_offset len prog_id_bytes slot machine_id available_slots e =
     (let e = loge_set_tp e OBJ_HDR_ALLOC;
          e = store64 e 8 (unat alloc_rec_ptr);
          e = store_le 2 e 32 (unat slot);
          e = store64 e 16 (unat obj_offset);
          e = store64 e 24 (unat len);
          e = store_le 2 e 34 (unat available_slots);
          e = store_le 1 e 50 (length prog_id_bytes);
          e = store_bytes e 36 prog_id_bytes
      in store_le 2 e 48 (unat machine_id))"

definition set_obj_hdr_alloc_log_entry ::
  "redo_log \<times> nat \<Rightarrow> shmem_optr \<Rightarrow> shmem_optr \<Rightarrow> u64 \<Rightarrow> u8 list \<Rightarrow> u16 \<Rightarrow> u16 \<Rightarrow> u16 \<Rightarrow> (redo_log \<times> nat) option" where
  "set_obj_hdr_alloc_log_entry lp alloc_rec_ptr obj_offset len prog_id slot machine_id available_slots =
     (case c_strlen prog_id of
        None \<Rightarrow> None
      | Some n \<Rightarrow>
          set_log_entry lp (obj_hdr_alloc_loge alloc_rec_ptr obj_offset len (take (n + 1) prog_id) slot
            machine_id available_slots))"

definition obj_hdr_free_loge :: "shmem_optr \<Rightarrow> u16 \<Rightarrow> u16 \<Rightarrow> log_entry \<Rightarrow> log_entry" where
  "obj_hdr_free_loge alloc_rec_ptr slot available_slots e =
     (let e = loge_set_tp e OBJ_HDR_FREE;
          e = store64 e 8 (unat alloc_rec_ptr);
          e = store_le 2 e 16 (unat slot)
      in store_le 2 e 18 (unat available_slots))"

definition set_obj_hdr_free_log_entry :: "redo_log \<times> nat \<Rightarrow> shmem_optr \<Rightarrow> u16 \<Rightarrow> u16 \<Rightarrow> (redo_log \<times> nat) option" where
  "set_obj_hdr_free_log_entry lp alloc_rec_ptr slot available_slots =
     set_log_entry lp (obj_hdr_free_loge alloc_rec_ptr slot available_slots)"

definition init_obj_alloc_loge :: "shmem_optr \<Rightarrow> log_entry \<Rightarrow> log_entry" where
  "init_obj_alloc_loge init_alloc_ptr e = store64 (loge_set_tp e INIT_OBJ_ALLOC_RECS) 8 (unat init_alloc_ptr)"

definition set_init_obj_allocs_log_entry :: "redo_log \<times> nat \<Rightarrow> shmem_optr \<Rightarrow> (redo_log \<times> nat) option" where
  "set_init_obj_allocs_log_entry lp init_alloc_ptr = set_log_entry lp (init_obj_alloc_loge init_alloc_ptr)"

definition commit_loge :: "u64 \<Rightarrow> log_entry \<Rightarrow> log_entry" where
  "commit_loge csum e = store64 (loge_set_tp e COMMIT) 8 (unat csum)"

text \<open>The checksum covers the records before the commit record.\<close>

definition log_checksum :: "redo_log \<Rightarrow> nat \<Rightarrow> u64 option" where
  "log_checksum log n = util_checksum_compute (concat log) (n * sizeof_log_entry) None 0"

definition set_commit_log_entry :: "redo_log \<times> nat \<Rightarrow> (redo_log \<times> nat) option" where
  "set_commit_log_entry lp =
     (case log_checksum (fst lp) (snd lp) of
        None \<Rightarrow> None
      | Some csum \<Rightarrow> set_log_entry lp (commit_loge csum))"

subsection \<open>Execution\<close>

record meta_dram =
  mem_start :: nat
  mem_length :: nat
  cur_obj_recs :: nat
  md_machine_id :: u16
  md_total_machines :: u8

type_synonym exec_state = "buddy \<times> meta_dram \<times> mem"

definition exec_buddy_pos :: "log_entry \<Rightarrow> buddy_tree_pos" where
  "exec_buddy_pos e = \<lparr>index = load_le 8 e 8, depth = load_le 8 e 16\<rparr>"

definition exec_val :: "log_entry \<Rightarrow> nat \<Rightarrow> mem \<Rightarrow> mem" where
  "exec_val e start m = wr 8 m (start + load_le 8 e 8) (load_le 8 e 16)"

definition exec_two_val :: "log_entry \<Rightarrow> nat \<Rightarrow> mem \<Rightarrow> mem option" where
  "exec_two_val e start m =
     (let dst = shmem_optr_direct_ptr start (loge_u64 e 8);
          dst2 = shmem_optr_direct_ptr start (loge_u64 e 24)
      in if dst = 0 then None
         else
           let m = wr 8 m dst (load_le 8 e 16)
           in if dst2 = 0 then None
              else Some (wr 8 m dst2 (load_le 8 e 32)))"

definition exec_str :: "log_entry \<Rightarrow> nat \<Rightarrow> mem \<Rightarrow> mem option" where
  "exec_str e start m =
     (case c_strlen (drop 16 e) of
        None \<Rightarrow> None
      | Some n \<Rightarrow> Some (wr_bytes m (start + load_le 8 e 8) (take (n + 1) (drop 16 e))))"

definition exec_obj_hdr_alloc :: "log_entry \<Rightarrow> nat \<Rightarrow> mem \<Rightarrow> mem option" where
  "exec_obj_hdr_alloc e start m =
     (let slot = load_le 2 e 32;
          recs = shmem_optr_direct_ptr start (loge_u64 e 8);
          hdr = recs_header_at recs slot
      in if recs = 0 then None
         else
           let m = wr_bytes m (recs_bitset_at recs) (bitset_set (recs_bitset m recs) slot);
               m = wr 2 m (recs_available_at recs) (load_le 2 e 34);
               m = wr 8 m (hdr + 32) (load_le 8 e 16);
               m = wr 8 m (hdr + 40) (load_le 8 e 24);
               m = wr 2 m (hdr + 16) (load_le 2 e 48);
               m = wr 2 m (hdr + 18) slot
           in Some (wr_bytes m (hdr + 20) (take (load_le 1 e 50) (drop 36 e))))"

definition exec_obj_hdr_free :: "log_entry \<Rightarrow> nat \<Rightarrow> mem \<Rightarrow> mem option" where
  "exec_obj_hdr_free e start m =
     (let slot = load_le 2 e 16;
          recs = shmem_optr_direct_ptr start (loge_u64 e 8)
      in if recs = 0 then None
         else
           let m = wr_bytes m (recs_bitset_at recs) (bitset_clear (recs_bitset m recs) slot)
           in Some (wr 2 m (recs_available_at recs) (load_le 2 e 18)))"

definition exec_init_recs :: "log_entry \<Rightarrow> nat \<Rightarrow> nat" where
  "exec_init_recs e start = shmem_optr_direct_ptr start (loge_u64 e 8)"

fun execute_entry :: "log_entry \<Rightarrow> exec_state \<Rightarrow> exec_state option" where
  "execute_entry e (b, md, m) =
     (case loge_tp e of
        Some BUDDY_ALLOC \<Rightarrow> Some (snd (buddy_malloc_apply b (exec_buddy_pos e)), md, m)
      | Some BUDDY_FREE \<Rightarrow> Some (buddy_free_apply b (exec_buddy_pos e), md, m)
      | Some VAL \<Rightarrow> Some (b, md, exec_val e (mem_start md) m)
      | Some TWO_VAL_LOG \<Rightarrow> map_option (\<lambda>m. (b, md, m)) (exec_two_val e (mem_start md) m)
      | Some STR_ENTRY \<Rightarrow> map_option (\<lambda>m. (b, md, m)) (exec_str e (mem_start md) m)
      | Some OBJ_HDR_ALLOC \<Rightarrow> map_option (\<lambda>m. (b, md, m)) (exec_obj_hdr_alloc e (mem_start md) m)
      | Some OBJ_HDR_FREE \<Rightarrow> map_option (\<lambda>m. (b, md, m)) (exec_obj_hdr_free e (mem_start md) m)
      | Some INIT_OBJ_ALLOC_RECS \<Rightarrow>
          let recs = exec_init_recs e (mem_start md)
          in if recs = 0 then None
             else Some (b, md \<lparr>cur_obj_recs := recs\<rparr>, init_obj_allocation_records m recs)
      | Some COMMIT \<Rightarrow> Some (b, md, m)
      | Some INVALID \<Rightarrow> Some (b, md, m)
      | None \<Rightarrow> Some (b, md, m))"

fun execute_entries :: "log_entry list \<Rightarrow> exec_state \<Rightarrow> exec_state option" where
  "execute_entries [] s = Some s"
| "execute_entries (e # es) s =
     (case execute_entry e s of None \<Rightarrow> None | Some s' \<Rightarrow> execute_entries es s')"

definition execute_log :: "redo_log \<Rightarrow> nat \<Rightarrow> exec_state \<Rightarrow> exec_state option" where
  "execute_log entries n s = execute_entries (take n entries) s"

declare execute_entry.simps [simp del]

subsection \<open>Reading back the fields of a record\<close>

lemma loge_tp_set [simp]: "4 \<le> length e \<Longrightarrow> loge_tp (loge_set_tp e tp) = Some tp"
  using load_store_same [of 0 4 e "entry_code tp"]
  by (cases tp) (simp_all add: loge_tp_def loge_set_tp_def entry_types_def Let_def)

lemma loge_tp_store [simp]: "4 \<le> a \<Longrightarrow> a + n \<le> length e \<Longrightarrow> loge_tp (store_le n e a v) = loge_tp e"
  by (simp add: loge_tp_def load_store_other)

lemma load_store_bytes_other:
  "a + length cs \<le> length e \<Longrightarrow> b + k \<le> a \<or> a + length cs \<le> b \<Longrightarrow> load_le k (store_bytes e a cs) b = load_le k e b"
  by (rule load_le_cong) (auto simp: nth_store_bytes)

lemma loge_tp_store_bytes [simp]:
  "4 \<le> a \<Longrightarrow> a + length cs \<le> length e \<Longrightarrow> loge_tp (store_bytes e a cs) = loge_tp e"
  by (simp add: loge_tp_def load_store_bytes_other)

lemma length_loge_set_tp [simp]: "4 \<le> length e \<Longrightarrow> length (loge_set_tp e tp) = length e"
  by (simp add: loge_set_tp_def)

lemma take_drop_store_bytes: "a + length cs \<le> length e \<Longrightarrow> n = length cs \<Longrightarrow> take n (drop a (store_bytes e a cs)) = cs"
  by (simp add: store_bytes_def)

lemma drop_store_le_other:
  "a + n \<le> length e \<Longrightarrow> b + k \<le> a \<or> a + n \<le> b \<Longrightarrow> take k (drop b (store_le n e a v)) = take k (drop b e)"
  by (rule nth_equalityI) (auto simp: nth_store_le)

lemma unat64 [simp]: "unat (v :: u64) < 18446744073709551616"
  using unsigned_less [of v, where ?'a = nat] by simp

lemma unat64_mod [simp]: "unat (v :: u64) mod 18446744073709551616 = unat v"
  by simp

lemma unat16_mod [simp]: "unat (v :: u16) mod 65536 = unat v"
  using unsigned_less [of v, where ?'a = nat] by simp

lemmas loge_simps = load_store_same load_store_other load_store_bytes_other Let_def

lemma length_loge [simp]:
  assumes "length e = 56"
  shows "length (buddyop_loge tp pos e) = 56" "length (val_loge off v e) = 56"
    "length (two_val_loge off1 v1 off2 v2 e) = 56"
    "length bs \<le> 40 \<Longrightarrow> length (str_loge off bs e) = 56"
    "length bs \<le> 20 \<Longrightarrow> length (obj_hdr_alloc_loge r ob len bs slot mid av e) = 56"
    "length (obj_hdr_free_loge r slot av e) = 56" "length (init_obj_alloc_loge r e) = 56"
    "length (commit_loge csum e) = 56"
  using assms by (simp_all add: buddyop_loge_def val_loge_def two_val_loge_def str_loge_def obj_hdr_alloc_loge_def
      obj_hdr_free_loge_def init_obj_alloc_loge_def commit_loge_def Let_def)

lemma loge_tp_loge [simp]:
  assumes "length e = 56"
  shows "loge_tp (buddyop_loge tp pos e) = Some tp" "loge_tp (val_loge off v e) = Some VAL"
    "loge_tp (two_val_loge off1 v1 off2 v2 e) = Some TWO_VAL_LOG"
    "length bs \<le> 12 \<Longrightarrow> loge_tp (obj_hdr_alloc_loge r ob len bs slot mid av e) = Some OBJ_HDR_ALLOC"
    "loge_tp (obj_hdr_free_loge r slot av e) = Some OBJ_HDR_FREE"
    "loge_tp (init_obj_alloc_loge r e) = Some INIT_OBJ_ALLOC_RECS"
    "loge_tp (commit_loge csum e) = Some COMMIT"
  using assms by (simp_all add: buddyop_loge_def val_loge_def two_val_loge_def obj_hdr_alloc_loge_def
      obj_hdr_free_loge_def init_obj_alloc_loge_def commit_loge_def Let_def)

text \<open>What executing a freshly written record does.\<close>

lemma exec_buddyop:
  assumes "length e = 56" "index pos < 2 ^ 64" "depth pos < 2 ^ 64"
  shows "exec_buddy_pos (buddyop_loge tp pos e) = pos"
  using assms by (simp add: exec_buddy_pos_def buddyop_loge_def loge_simps)

lemma exec_val_loge:
  assumes "length e = 56"
  shows "execute_entry (val_loge off v e) (b, md, m) = Some (b, md, wr 8 m (mem_start md + unat off) (unat v))"
  using assms by (simp add: execute_entry.simps exec_val_def) (simp add: val_loge_def loge_simps)

lemma exec_two_val_loge:
  assumes "length e = 56"
  shows "execute_entry (two_val_loge off1 v1 off2 v2 e) (b, md, m) =
    (if off1 = 0 \<or> off2 = 0 then None
     else Some (b, md, wr 8 (wr 8 m (mem_start md + unat off1) (unat v1)) (mem_start md + unat off2) (unat v2)))"
proof -
  let ?e = "two_val_loge off1 v1 off2 v2 e"
  have "load_le 8 ?e 8 = unat off1" "load_le 8 ?e 16 = unat v1" "load_le 8 ?e 24 = unat off2" "load_le 8 ?e 32 = unat v2"
    using assms by (simp_all add: two_val_loge_def loge_simps)
  then show ?thesis
    using assms by (simp add: execute_entry.simps exec_two_val_def loge_u64_def Let_def)
qed

lemma exec_init_loge:
  assumes "length e = 56"
  shows "execute_entry (init_obj_alloc_loge r e) (b, md, m) =
    (if r = 0 then None
     else Some (b, md \<lparr>cur_obj_recs := mem_start md + unat r\<rparr>, init_obj_allocation_records m (mem_start md + unat r)))"
proof -
  have "load_le 8 (init_obj_alloc_loge r e) 8 = unat r" using assms by (simp add: init_obj_alloc_loge_def loge_simps)
  then show ?thesis
    using assms by (simp add: execute_entry.simps exec_init_recs_def loge_u64_def Let_def)
qed

lemma obj_hdr_alloc_fields:
  assumes "length e = 56" "length bs \<le> 12" "e' = obj_hdr_alloc_loge r ob len bs slot mid av e"
  shows "load_le 8 e' 8 = unat r" "load_le 8 e' 16 = unat ob" "load_le 8 e' 24 = unat len"
    "load_le 2 e' 32 = unat slot" "load_le 2 e' 34 = unat av" "load_le 2 e' 48 = unat mid"
    "load_le 1 e' 50 = length bs" "take (length bs) (drop 36 e') = bs"
  using assms by (simp_all add: obj_hdr_alloc_loge_def loge_simps drop_store_le_other take_drop_store_bytes)

lemma obj_hdr_free_fields:
  assumes "length e = 56"
  shows "load_le 8 (obj_hdr_free_loge r slot av e) 8 = unat r" "load_le 2 (obj_hdr_free_loge r slot av e) 16 = unat slot"
    "load_le 2 (obj_hdr_free_loge r slot av e) 18 = unat av"
  using assms by (simp_all add: obj_hdr_free_loge_def loge_simps)

lemma commit_checksum:
  assumes "length e = 56"
  shows "load_le 8 (commit_loge csum e) 8 = unat csum"
  using assms by (simp add: commit_loge_def loge_simps)

end
