(* ===== verification/Buddy_Replay.thy ===== *)
theory Buddy_Replay
  imports Buddy_Alloc_Spec
begin

text \<open>
  Repeating tree operations. A redo log that is replayed after a crash marks and releases blocks
  that a first execution already marked or released; marking an allocated block and releasing a
  block twice change nothing, byte for byte.
\<close>

text \<open>Writing the value a slot already holds leaves the bytes as they are.\<close>

lemma write_same_value:
  assumes "tree_rep t st" "0 < i" "i < 2 ^ bt_order t"
  shows "fst (write_to_internal_position (bt_data t) (node_slot (bt_order t) i) (st i)) = bt_data t"
proof -
  let ?n = "bt_order t"
  let ?w = "node_width ?n i" and ?s = "slot_start ?n i"
  let ?d = "fst (write_to_internal_position (bt_data t) (node_slot ?n i) (st i))"
  note fit = node_slot_fits [OF tree_repD(1) [OF assms(1)] assms(2,3)]
  have w: "0 < ?w" using assms(3) by (rule node_width_pos)
  note v = tree_repD(2) [OF assms]
  have "bitset_test ?d q \<longleftrightarrow> bitset_test (bt_data t) q" for q
    using byte_bits.test_slot_write [OF w fit(2) v, of q] tree_repD(3) [OF assms, of "q - ?s"]
    by (auto simp: write_slot_eq split: if_splits)
  moreover have "length ?d = length (bt_data t)"
    using byte_bits.cap_slot_write [OF w fit(2) v] by (simp add: write_slot_eq)
  ultimately show ?thesis by (intro nth_equalityI byte_eq_of_tests) simp_all
qed

lemma mark_again:
  assumes "tree_ok t" "block_allocated t i"
  shows "buddy_tree_mark t (node_pos i) = t"
proof -
  let ?n = "bt_order t" and ?st = "node_status t"
  have inv: "tree_inv ?n ?st" and al: "is_alloc ?n ?st i"
    using assms by (simp_all add: tree_ok_def block_allocated_def)
  from al have i: "0 < i" "i < 2 ^ ?n" "?st i \<noteq> 0" by (simp_all add: is_alloc_def)
  note rep = tree_ok_rep [OF assms(1)]
  have full: "?st i = node_width ?n i" by (rule is_alloc_full [OF inv al])
  have "update_parent_chain t (node_pos i) (node_slot ?n i) (?st i) = t"
  proof (cases "1 < i")
    case True
    have "exact ?st (i div 2)"
      using used_ancestors [OF inv i(2,3), of "i div 2"] ancestors_step [OF True] by auto
    with update_parent_chain_node(1) [OF rep True i(2) refl refl] show ?thesis by (simp add: exact_def)
  next
    case False
    then show ?thesis using i(1) by (simp add: update_parent_chain.simps)
  qed
  then show ?thesis
    using internal_position_tree_node [OF tree_repD(1) [OF rep] i(1,2)] write_same_value [OF rep i(1,2)]
    by (simp add: buddy_tree_mark_def Let_def full)
qed

lemma release_again:
  assumes "tree_ok t" "block_allocated t i"
  shows "buddy_tree_release (buddy_tree_release t (node_pos i)) (node_pos i) = buddy_tree_release t (node_pos i)"
proof -
  let ?n = "bt_order t" and ?st = "node_status t" and ?t = "buddy_tree_release t (node_pos i)"
  have al: "is_alloc ?n ?st i" using assms by (simp add: block_allocated_def)
  then have i: "0 < i" "i < 2 ^ ?n" by (simp_all add: is_alloc_def)
  have full: "?st i = node_width ?n i" using is_alloc_full al assms(1) by (auto simp: tree_ok_def)
  have rep: "tree_rep ?t (st_chain (?st(i := 0)) i)"
    using release_rep [OF tree_ok_rep [OF assms(1)] i] full by simp
  have "i \<notin> set (ancestors i)" using ancestors_less by blast
  then have "st_chain (?st(i := 0)) i i = 0" by (simp add: st_chain_other)
  then have "read_from_internal_position (bt_data ?t) (node_slot ?n i) = 0"
    using read_slot [OF rep] i by simp
  moreover have "0 < node_width ?n i" using i(2) by (rule node_width_pos)
  ultimately show ?thesis
    using internal_position_tree_node [OF tree_repD(1) [OF rep]] i
    by (subst buddy_tree_release_def) (simp add: Let_def)
qed

subsection \<open>Sequences\<close>

text \<open>Blocks that can be allocated one after the other.\<close>

fun avail_seq :: "buddy_tree \<Rightarrow> nat list \<Rightarrow> bool" where
  "avail_seq t [] \<longleftrightarrow> True"
| "avail_seq t (i # is) \<longleftrightarrow> block_available t i \<and> avail_seq (buddy_tree_mark t (node_pos i)) is"

definition mark_all :: "nat list \<Rightarrow> buddy_tree \<Rightarrow> buddy_tree" where
  "mark_all is t = fold (\<lambda>i t. buddy_tree_mark t (node_pos i)) is t"

lemma mark_all_simps [simp]:
  "mark_all [] t = t" "mark_all (i # is) t = mark_all is (buddy_tree_mark t (node_pos i))"
  "mark_all (is @ js) t = mark_all js (mark_all is t)"
  by (simp_all add: mark_all_def)

lemma mark_all_correct:
  assumes "tree_ok t" "avail_seq t is"
  shows "tree_ok (mark_all is t)" "block_allocated (mark_all is t) j \<longleftrightarrow> j \<in> set is \<or> block_allocated t j"
proof -
  have "tree_ok (mark_all is t) \<and> (block_allocated (mark_all is t) j \<longleftrightarrow> j \<in> set is \<or> block_allocated t j)"
    using assms by (induction "is" arbitrary: t) (auto simp: mark_correct)
  then show "tree_ok (mark_all is t)" "block_allocated (mark_all is t) j \<longleftrightarrow> j \<in> set is \<or> block_allocated t j"
    by auto
qed

lemma mark_all_again:
  assumes "tree_ok t" "\<And>i. i \<in> set is \<Longrightarrow> block_allocated t i"
  shows "mark_all is t = t"
  using assms by (induction "is") (simp_all add: mark_again)

lemma avail_seq_append: "avail_seq t (is @ js) \<longleftrightarrow> avail_seq t is \<and> avail_seq (mark_all is t) js"
  by (induction "is" arbitrary: t) auto

lemma mark_all_replay:
  assumes "tree_ok t" "avail_seq t (is @ js)"
  shows "mark_all (is @ js) (mark_all is t) = mark_all (is @ js) t"
proof -
  have "avail_seq t is" using assms(2) by (simp add: avail_seq_append)
  note m = mark_all_correct [OF assms(1) this]
  have "mark_all is (mark_all is t) = mark_all is t" using m by (intro mark_all_again) auto
  then show ?thesis by simp
qed

end
