(* ===== verification/Redo_Replay.thy ===== *)
theory Redo_Replay
  imports Redo_Log Buddy_Replay
begin

text \<open>
  Executing a redo log again. The three effects of a record (on the allocation tree, on the volatile
  \<open>meta_dram\<close>, on the bytes of shared memory) are separated; the memory effect of every record is a
  blind update, and the tree effects of a transaction can be repeated. Together: a committed log may
  be replayed over any image a crash leaves.
\<close>

subsection \<open>The three effects of a record\<close>

definition entry_buddy :: "log_entry \<Rightarrow> buddy \<Rightarrow> buddy" where
  "entry_buddy e b =
     (case loge_tp e of
        Some BUDDY_ALLOC \<Rightarrow> snd (buddy_malloc_apply b (exec_buddy_pos e))
      | Some BUDDY_FREE \<Rightarrow> buddy_free_apply b (exec_buddy_pos e)
      | _ \<Rightarrow> b)"

definition entry_dram :: "log_entry \<Rightarrow> meta_dram \<Rightarrow> meta_dram" where
  "entry_dram e md =
     (if loge_tp e = Some INIT_OBJ_ALLOC_RECS then md \<lparr>cur_obj_recs := exec_init_recs e (mem_start md)\<rparr> else md)"

definition entry_mem :: "log_entry \<Rightarrow> nat \<Rightarrow> mem \<Rightarrow> mem option" where
  "entry_mem e start m =
     (case loge_tp e of
        Some VAL \<Rightarrow> Some (exec_val e start m)
      | Some TWO_VAL_LOG \<Rightarrow> exec_two_val e start m
      | Some STR_ENTRY \<Rightarrow> exec_str e start m
      | Some OBJ_HDR_ALLOC \<Rightarrow> exec_obj_hdr_alloc e start m
      | Some OBJ_HDR_FREE \<Rightarrow> exec_obj_hdr_free e start m
      | Some INIT_OBJ_ALLOC_RECS \<Rightarrow>
          if exec_init_recs e start = 0 then None
          else Some (init_obj_allocation_records m (exec_init_recs e start))
      | _ \<Rightarrow> Some m)"

lemma mem_start_entry_dram [simp]: "mem_start (entry_dram e md) = mem_start md"
  by (simp add: entry_dram_def)

lemma execute_entry_effects:
  "execute_entry e (b, md, m) =
    map_option (\<lambda>m'. (entry_buddy e b, entry_dram e md, m')) (entry_mem e (mem_start md) m)"
  by (auto simp: execute_entry.simps entry_buddy_def entry_dram_def entry_mem_def Let_def
      split: option.splits entry_type.splits)

fun entries_mem :: "log_entry list \<Rightarrow> nat \<Rightarrow> mem \<Rightarrow> mem option" where
  "entries_mem [] start m = Some m"
| "entries_mem (e # es) start m = (case entry_mem e start m of None \<Rightarrow> None | Some m' \<Rightarrow> entries_mem es start m')"

lemma mem_start_fold_dram [simp]: "mem_start (fold entry_dram es md) = mem_start md"
  by (induction es arbitrary: md) simp_all

lemma execute_entries_effects:
  "execute_entries es (b, md, m) =
    map_option (\<lambda>m'. (fold entry_buddy es b, fold entry_dram es md, m')) (entries_mem es (mem_start md) m)"
  by (induction es arbitrary: b md m) (simp_all add: execute_entry_effects split: option.split)

subsection \<open>Memory effects are blind\<close>

definition entry_writes :: "nat \<Rightarrow> log_entry \<Rightarrow> (nat \<times> nat) set" where
  "entry_writes start e =
     (case loge_tp e of
        Some VAL \<Rightarrow> byte_range (start + load_le 8 e 8) 8
      | Some TWO_VAL_LOG \<Rightarrow>
          byte_range (shmem_optr_direct_ptr start (loge_u64 e 8)) 8 \<union>
          byte_range (shmem_optr_direct_ptr start (loge_u64 e 24)) 8
      | Some STR_ENTRY \<Rightarrow>
          byte_range (start + load_le 8 e 8) (length (take (the (c_strlen (drop 16 e)) + 1) (drop 16 e)))
      | Some OBJ_HDR_ALLOC \<Rightarrow>
          let recs = shmem_optr_direct_ptr start (loge_u64 e 8);
              slot = load_le 2 e 32;
              hdr = recs_header_at recs slot
          in (if slot div 8 < SIZEOF_OBJ_BITSET then {(recs_bitset_at recs + slot div 8, slot mod 8)} else {}) \<union>
             byte_range (recs_available_at recs) 2 \<union> byte_range (hdr + 32) 8 \<union> byte_range (hdr + 40) 8 \<union>
             byte_range (hdr + 16) 2 \<union> byte_range (hdr + 18) 2 \<union>
             byte_range (hdr + 20) (length (take (load_le 1 e 50) (drop 36 e)))
      | Some OBJ_HDR_FREE \<Rightarrow>
          let recs = shmem_optr_direct_ptr start (loge_u64 e 8);
              slot = load_le 2 e 16
          in (if slot div 8 < SIZEOF_OBJ_BITSET then {(recs_bitset_at recs + slot div 8, slot mod 8)} else {}) \<union>
             byte_range (recs_available_at recs) 2
      | Some INIT_OBJ_ALLOC_RECS \<Rightarrow> init_records_writes (exec_init_recs e start)
      | _ \<Rightarrow> {})"

definition log_writes :: "nat \<Rightarrow> log_entry list \<Rightarrow> (nat \<times> nat) set" where
  "log_writes start es = (\<Union>e\<in>set es. entry_writes start e)"

text \<open>A partial transformer that is either undefined everywhere or a blind update.\<close>

definition blind_opt :: "(mem \<Rightarrow> mem option) \<Rightarrow> (nat \<times> nat) set \<Rightarrow> bool" where
  "blind_opt F W \<longleftrightarrow> (\<forall>m. F m = None) \<or> (\<exists>f. blind f W \<and> (\<forall>m. F m = Some (f m)))"

lemma blind_optI: "blind f W \<Longrightarrow> (\<And>m. F m = Some (f m)) \<Longrightarrow> blind_opt F W"
  unfolding blind_opt_def by blast

lemma blind_opt_None: "(\<And>m. F m = None) \<Longrightarrow> blind_opt F W"
  unfolding blind_opt_def by blast

lemma bitset_set_outside: "\<not> p div 8 < length bs \<Longrightarrow> bitset_set bs p = bs" "\<not> p div 8 < length bs \<Longrightarrow> bitset_clear bs p = bs"
  by (simp_all add: bitset_set_def bitset_clear_def CHAR_BIT_def Let_def list_update_beyond)

lemma wr_rd_bytes [simp]: "wr_bytes m a (rd_bytes m a n) = m"
  by (rule ext) (auto simp: wr_bytes_def)

lemma blind_recs_set:
  "blind (\<lambda>m. wr_bytes m (recs_bitset_at r) (bitset_set (recs_bitset m r) p))
    (if p div 8 < SIZEOF_OBJ_BITSET then {(recs_bitset_at r + p div 8, p mod 8)} else {})"
  by (auto simp: recs_bitset_def blind_bitset_set bitset_set_outside blind_id)

lemma blind_recs_clear:
  "blind (\<lambda>m. wr_bytes m (recs_bitset_at r) (bitset_clear (recs_bitset m r) p))
    (if p div 8 < SIZEOF_OBJ_BITSET then {(recs_bitset_at r + p div 8, p mod 8)} else {})"
  by (auto simp: recs_bitset_def blind_bitset_clear bitset_set_outside blind_id)

lemma blind_exec_val: "blind_opt (\<lambda>m. Some (exec_val e start m)) (byte_range (start + load_le 8 e 8) 8)"
  unfolding exec_val_def by (rule blind_optI [OF blind_wr]) simp

lemma blind_exec_two_val:
  "blind_opt (exec_two_val e start)
    (byte_range (shmem_optr_direct_ptr start (loge_u64 e 8)) 8 \<union> byte_range (shmem_optr_direct_ptr start (loge_u64 e 24)) 8)"
proof (cases "loge_u64 e 8 = 0 \<or> loge_u64 e 24 = 0")
  case True
  then show ?thesis by (intro blind_opt_None) (auto simp: exec_two_val_def Let_def)
next
  case False
  then show ?thesis
    by (intro blind_optI [OF blind_comp [OF blind_wr blind_wr]]) (auto simp: exec_two_val_def Let_def)
qed

lemma blind_exec_str:
  "blind_opt (exec_str e start)
    (byte_range (start + load_le 8 e 8) (length (take (the (c_strlen (drop 16 e)) + 1) (drop 16 e))))"
proof (cases "c_strlen (drop 16 e)")
  case None
  then show ?thesis by (intro blind_opt_None) (simp add: exec_str_def)
next
  case (Some n)
  then show ?thesis by (intro blind_optI [OF blind_wr_bytes]) (simp add: exec_str_def)
qed

lemma blind_exec_hdr_alloc:
  assumes "recs = shmem_optr_direct_ptr start (loge_u64 e 8)" "slot = load_le 2 e 32" "hdr = recs_header_at recs slot"
  shows "blind_opt (exec_obj_hdr_alloc e start)
    ((if slot div 8 < SIZEOF_OBJ_BITSET then {(recs_bitset_at recs + slot div 8, slot mod 8)} else {}) \<union>
     byte_range (recs_available_at recs) 2 \<union> byte_range (hdr + 32) 8 \<union> byte_range (hdr + 40) 8 \<union>
     byte_range (hdr + 16) 2 \<union> byte_range (hdr + 18) 2 \<union>
     byte_range (hdr + 20) (length (take (load_le 1 e 50) (drop 36 e))))"
proof (cases "recs = 0")
  case True
  with assms show ?thesis by (intro blind_opt_None) (simp add: exec_obj_hdr_alloc_def Let_def)
next
  case False
  note step = blind_comp [OF blind_comp [OF blind_comp [OF blind_comp [OF blind_comp [OF blind_comp [OF
    blind_recs_set [of recs slot] blind_wr [of 2 "recs_available_at recs" "load_le 2 e 34"]]
    blind_wr [of 8 "hdr + 32" "load_le 8 e 16"]] blind_wr [of 8 "hdr + 40" "load_le 8 e 24"]]
    blind_wr [of 2 "hdr + 16" "load_le 2 e 48"]] blind_wr [of 2 "hdr + 18" slot]]
    blind_wr_bytes [of "hdr + 20" "take (load_le 1 e 50) (drop 36 e)"]]
  from False show ?thesis
    by (intro blind_optI [OF step]) (simp add: exec_obj_hdr_alloc_def Let_def flip: assms)
qed

lemma blind_exec_hdr_free:
  assumes "recs = shmem_optr_direct_ptr start (loge_u64 e 8)" "slot = load_le 2 e 16"
  shows "blind_opt (exec_obj_hdr_free e start)
    ((if slot div 8 < SIZEOF_OBJ_BITSET then {(recs_bitset_at recs + slot div 8, slot mod 8)} else {}) \<union>
     byte_range (recs_available_at recs) 2)"
proof (cases "recs = 0")
  case True
  with assms show ?thesis by (intro blind_opt_None) (simp add: exec_obj_hdr_free_def Let_def)
next
  case False
  note step = blind_comp [OF blind_recs_clear [of recs slot] blind_wr [of 2 "recs_available_at recs" "load_le 2 e 18"]]
  from False show ?thesis
    by (intro blind_optI [OF step]) (simp add: exec_obj_hdr_free_def Let_def flip: assms)
qed

lemma blind_exec_init:
  "blind_opt (\<lambda>m. if r = 0 then None else Some (init_obj_allocation_records m r)) (init_records_writes r)"
  by (cases "r = 0") (auto intro: blind_opt_None blind_optI [OF init_records_blind])

lemma blind_opt_Some: "blind_opt Some {}"
  by (rule blind_optI [OF blind_id]) simp

lemma entry_mem_blind: "blind_opt (entry_mem e start) (entry_writes start e)"
proof (cases "loge_tp e")
  case None
  then have "entry_mem e start = Some" by (simp add: entry_mem_def fun_eq_iff)
  with None show ?thesis by (simp add: entry_writes_def blind_opt_Some)
next
  case (Some tp)
  note facts = blind_exec_val blind_exec_two_val blind_exec_str blind_exec_init blind_opt_Some
    blind_exec_hdr_alloc [OF refl refl refl] blind_exec_hdr_free [OF refl refl]
  have "blind_opt (\<lambda>m. entry_mem e start m) (entry_writes start e)"
    unfolding entry_mem_def entry_writes_def Some
    by (cases tp) (simp_all only: entry_type.case option.case Let_def eta_contract_eq facts)
  then show ?thesis by simp
qed

lemma blind_opt_comp:
  assumes "blind_opt F V" "blind_opt G W"
  shows "blind_opt (\<lambda>m. case F m of None \<Rightarrow> None | Some m' \<Rightarrow> G m') (V \<union> W)"
  using assms unfolding blind_opt_def by (force intro: blind_comp)

lemma entries_mem_blind: "blind_opt (entries_mem es start) (log_writes start es)"
proof (induction es)
  case (Cons e es)
  have "entries_mem (e # es) start = (\<lambda>m. case entry_mem e start m of None \<Rightarrow> None | Some m' \<Rightarrow> entries_mem es start m')"
    by (simp add: fun_eq_iff)
  with blind_opt_comp [OF entry_mem_blind Cons.IH] show ?case by (simp add: log_writes_def)
qed (simp add: blind_opt_Some log_writes_def)

text \<open>Executing the records over any image that differs only in bits they write.\<close>

lemma entries_mem_replay:
  assumes "agree_off (log_writes start es) m m'"
  shows "entries_mem es start m' = entries_mem es start m"
  using entries_mem_blind [of es start] blind_replay [OF _ assms] unfolding blind_opt_def by force

lemma entries_mem_prefix:
  assumes "entries_mem (take k es) start m = Some m'"
  shows "agree_off (log_writes start es) m m'"
proof -
  have "agree_off (log_writes start (take k es)) m m'"
    using entries_mem_blind [of "take k es" start] assms unfolding blind_opt_def by (auto simp: blind_agree)
  then show ?thesis by (rule agree_off_mono) (auto simp: log_writes_def dest: in_set_takeD)
qed

subsection \<open>Tree effects can be repeated\<close>

definition buddy_positions :: "log_entry list \<Rightarrow> (entry_type \<times> buddy_tree_pos) list" where
  "buddy_positions es =
     map (\<lambda>e. (the (loge_tp e), exec_buddy_pos e)) (filter (\<lambda>e. loge_tp e \<in> {Some BUDDY_ALLOC, Some BUDDY_FREE}) es)"

definition apply_position :: "entry_type \<times> buddy_tree_pos \<Rightarrow> buddy \<Rightarrow> buddy" where
  "apply_position tp b =
     b \<lparr>bd_tree := (if fst tp = BUDDY_ALLOC then buddy_tree_mark else buddy_tree_release) (bd_tree b) (snd tp)\<rparr>"

text \<open>The tree operations of one transaction: allocations of blocks that are available one after the
  other, or the release of one allocated block.\<close>

definition buddy_txn :: "buddy \<Rightarrow> log_entry list \<Rightarrow> bool" where
  "buddy_txn b es \<longleftrightarrow> tree_ok (bd_tree b) \<and>
     ((\<exists>is. buddy_positions es = map (\<lambda>i. (BUDDY_ALLOC, node_pos i)) is \<and> avail_seq (bd_tree b) is) \<or>
      (\<exists>i. buddy_positions es = [(BUDDY_FREE, node_pos i)] \<and> block_allocated (bd_tree b) i))"

lemma fold_entry_buddy: "fold entry_buddy es b = fold apply_position (buddy_positions es) b"
proof (induction es arbitrary: b)
  case (Cons e es)
  have "entry_buddy e b = fold apply_position (buddy_positions [e]) b"
    by (auto simp: entry_buddy_def buddy_positions_def apply_position_def buddy_malloc_apply_def
        buddy_free_apply_def Let_def split: option.splits entry_type.splits)
  moreover have "buddy_positions (e # es) = buddy_positions [e] @ buddy_positions es"
    by (simp add: buddy_positions_def)
  ultimately show ?case using Cons by simp
qed (simp add: buddy_positions_def)

lemma fold_apply_allocs:
  "fold apply_position (map (\<lambda>i. (BUDDY_ALLOC, node_pos i)) is) b = b \<lparr>bd_tree := mark_all is (bd_tree b)\<rparr>"
  by (induction "is" arbitrary: b) (simp_all add: apply_position_def)

lemma buddy_positions_take: "\<exists>j. buddy_positions (take k es) = take j (buddy_positions es)"
proof -
  have "buddy_positions es = buddy_positions (take k es) @ buddy_positions (drop k es)"
    unfolding buddy_positions_def by (metis append_take_drop_id filter_append map_append)
  then have "buddy_positions (take k es) = take (length (buddy_positions (take k es))) (buddy_positions es)"
    by (metis append_eq_conv_conj)
  then show ?thesis by blast
qed

lemma entry_buddy_replay:
  assumes "buddy_txn b es"
  shows "fold entry_buddy es (fold entry_buddy (take k es) b) = fold entry_buddy es b"
proof -
  obtain j where j: "buddy_positions (take k es) = take j (buddy_positions es)"
    using buddy_positions_take by blast
  from assms have ok: "tree_ok (bd_tree b)" by (simp add: buddy_txn_def)
  from assms consider (alloc) "is" where "buddy_positions es = map (\<lambda>i. (BUDDY_ALLOC, node_pos i)) is" "avail_seq (bd_tree b) is"
    | (free) i where "buddy_positions es = [(BUDDY_FREE, node_pos i)]" "block_allocated (bd_tree b) i"
    unfolding buddy_txn_def by blast
  then show ?thesis
  proof cases
    case alloc
    have "mark_all is (mark_all (take j is) (bd_tree b)) = mark_all is (bd_tree b)"
      using mark_all_replay [OF ok, of "take j is" "drop j is"] alloc(2) by simp
    then show ?thesis by (simp add: fold_entry_buddy j alloc(1) take_map fold_apply_allocs)
  next
    case free
    then show ?thesis
      using release_again [OF ok free(2)] by (cases j) (simp_all add: fold_entry_buddy j apply_position_def)
  qed
qed

subsection \<open>Replaying a transaction after a crash\<close>

lemma redo_replay:
  assumes "execute_entries es (b, md, m) = Some (b1, md1, m1)"
    and "buddy_txn b es" "agree_off (log_writes (mem_start md) es) m m'" "mem_start md' = mem_start md"
  shows "execute_entries es (fold entry_buddy (take k es) b, md', m') = Some (b1, fold entry_dram es md', m1)"
  using assms entries_mem_replay [OF assms(3)]
  by (auto simp: execute_entries_effects entry_buddy_replay)

end
