(* ===== verification/List_Queue.thy ===== *)
theory List_Queue
  imports Redo_Replay
begin

text \<open>
  The doubly linked lists of \<^verbatim>\<open>src/driver/src/list_queue.c\<close>. The operations do not change the list;
  they append to the redo log the writes that will. \<open>dll\<close> relates the memory to the list of node
  addresses, and executing the records of an append appends to that list.
\<close>

subsection \<open>Operations\<close>

definition record_list_queue_append ::
  "redo_log \<times> nat \<Rightarrow> mem \<Rightarrow> nat \<Rightarrow> nat \<Rightarrow> nat \<Rightarrow> (redo_log \<times> nat) option" where
  "record_list_queue_append lp m lq le start =
     (let le_optr = shmem_optr_from_ptr start le;
          prev_optr = le_prev_optr le_optr;
          next_optr = le_next_optr le_optr;
          step =
            (if shmem_optr_is_null (lq_pe_first m lq) then
               let pe_first_optr = shmem_optr_from_ptr start lq
               in set_two_value_log_entry lp prev_optr 0 pe_first_optr le_optr
             else
               let cur_tail_next_optr = le_next_optr (lq_pe_tail m lq)
               in set_two_value_log_entry lp prev_optr (lq_pe_tail m lq) cur_tail_next_optr le_optr)
      in case step of
           None \<Rightarrow> None
         | Some lp \<Rightarrow>
             let tail_optr = shmem_optr_from_ptr start (lq + 8)
             in set_two_value_log_entry lp next_optr 0 tail_optr le_optr)"

definition record_list_queue_remove ::
  "redo_log \<times> nat \<Rightarrow> mem \<Rightarrow> nat \<Rightarrow> nat \<Rightarrow> nat \<Rightarrow> (redo_log \<times> nat) option" where
  "record_list_queue_remove lp m lq le start =
     (if start = 0 \<or> lq = 0 \<or> le = 0 then None
      else
        let le_optr = shmem_optr_from_ptr start le
        in if shmem_optr_equals (lq_pe_first m lq) le_optr \<and> shmem_optr_is_null (le_pe_next m le) then
             set_value_log_entry lp (shmem_optr_from_ptr start lq) 0
           else
             let next_prev_optr = le_prev_optr (le_pe_next m le);
                 prev_next_optr = le_next_optr (le_pe_prev m le)
             in case set_two_value_log_entry lp next_prev_optr (le_pe_prev m le) prev_next_optr (le_pe_next m le) of
                  None \<Rightarrow> None
                | Some lp \<Rightarrow>
                    if shmem_optr_equals (lq_pe_first m lq) le_optr then
                      set_value_log_entry lp (shmem_optr_from_ptr start lq) (le_pe_next m le)
                    else Some lp)"

subsection \<open>Logs under construction\<close>

definition log_wf :: "redo_log \<Rightarrow> bool" where
  "log_wf log \<longleftrightarrow> length log = REDOLOG_ENTRIES \<and> list_all (\<lambda>e. length e = sizeof_log_entry) log"

definition log_prefix :: "redo_log \<times> nat \<Rightarrow> log_entry list \<Rightarrow> bool" where
  "log_prefix lp es \<longleftrightarrow> log_wf (fst lp) \<and> snd lp = length es \<and> length es \<le> REDOLOG_ENTRIES \<and>
     take (length es) (fst lp) = es"

lemma log_prefix_start: "log_wf log \<Longrightarrow> log_prefix (log, 0) []"
  by (simp add: log_prefix_def)

lemma length_log_prefix: "log_prefix lp es \<Longrightarrow> e \<in> set es \<Longrightarrow> length e = 56"
  unfolding log_prefix_def log_wf_def list_all_iff sizeof_log_entry_def by (metis in_set_takeD)

lemma set_log_entry_prefix:
  assumes "log_prefix lp es" "length es < REDOLOG_ENTRIES" "\<And>e. length e = 56 \<Longrightarrow> length (f e) = 56"
  obtains lp' e where "set_log_entry lp f = Some lp'" "length e = 56" "log_prefix lp' (es @ [f e])"
proof -
  obtain log pos where lp: "lp = (log, pos)" by (cases lp)
  have p: "pos = length es" "pos < 10" "length log = 10" "\<forall>e\<in>set log. length e = 56" "take pos log = es"
    using assms(1,2) by (auto simp: lp log_prefix_def log_wf_def REDOLOG_ENTRIES_def sizeof_log_entry_def list_all_iff)
  let ?log = "log[pos := f (log ! pos)]"
  let ?log' = "if pos + 1 < 10 then ?log[pos + 1 := EMPTY_LOG_ENTRY] else ?log"
  have e: "length (log ! pos) = 56" using p by simp
  have wf: "length ?log' = 10" "\<forall>e\<in>set ?log'. length e = 56"
    using p e assms(3) by (auto simp: EMPTY_LOG_ENTRY_def sizeof_log_entry_def dest!: set_update_subset_insert [THEN subsetD])
  have "take (pos + 1) ?log' = es @ [f (log ! pos)]"
    using p by (auto simp: take_Suc_conv_app_nth)
  with wf p have "log_prefix (?log', pos + 1) (es @ [f (log ! pos)])"
    by (simp add: log_prefix_def log_wf_def REDOLOG_ENTRIES_def sizeof_log_entry_def list_all_iff)
  moreover have "set_log_entry lp f = Some (?log', pos + 1)"
    using p by (simp add: lp set_log_entry_def REDOLOG_ENTRIES_def Let_def)
  ultimately show ?thesis using that e by blast
qed

text \<open>A full log is refused.\<close>

lemma set_log_entry_full: "snd lp = REDOLOG_ENTRIES \<Longrightarrow> set_log_entry lp f = None"
  by (cases lp) (simp add: set_log_entry_def)

lemma execute_entries_append:
  "execute_entries (es @ fs) s = (case execute_entries es s of None \<Rightarrow> None | Some s' \<Rightarrow> execute_entries fs s')"
  by (induction es arbitrary: s) (simp_all split: option.split)

subsection \<open>Lists in memory\<close>

text \<open>Nodes are given by their addresses above the start of the mapping; a node and the list head
  occupy 16 bytes each and do not overlap.\<close>

definition placed :: "nat \<Rightarrow> nat \<Rightarrow> bool" where
  "placed start x \<longleftrightarrow> start < x \<and> x + 16 < 2 ^ 64"

definition apart :: "nat \<Rightarrow> nat \<Rightarrow> bool" where
  "apart x y \<longleftrightarrow> x + 16 \<le> y \<or> y + 16 \<le> x"

definition linked :: "mem \<Rightarrow> nat \<Rightarrow> nat list \<Rightarrow> bool" where
  "linked m start xs \<longleftrightarrow> list_all (\<lambda>i.
     le_pe_prev m (xs ! i) = (if i = 0 then 0 else shmem_optr_from_ptr start (xs ! (i - 1))) \<and>
     le_pe_next m (xs ! i) = (if i + 1 = length xs then 0 else shmem_optr_from_ptr start (xs ! (i + 1)))) [0..<length xs]"

definition dll :: "mem \<Rightarrow> nat \<Rightarrow> nat \<Rightarrow> nat list \<Rightarrow> bool" where
  "dll m start lq xs \<longleftrightarrow>
     list_all (placed start) (lq # xs) \<and> list_all (apart lq) xs \<and> sorted_wrt apart xs \<and>
     lq_pe_first m lq = (if xs = [] then 0 else shmem_optr_from_ptr start (hd xs)) \<and>
     (xs \<noteq> [] \<longrightarrow> lq_pe_tail m lq = shmem_optr_from_ptr start (last xs)) \<and>
     linked m start xs"

lemmas node_field_defs = lq_pe_first_def lq_pe_tail_def le_pe_next_def le_pe_prev_def LE_NEXT_OFF_def LE_PREV_OFF_def

lemma apart_sym: "apart x y \<longleftrightarrow> apart y x"
  by (auto simp: apart_def)

lemma placed_optr:
  assumes "placed start x"
  shows "start + unat (shmem_optr_from_ptr start x) = x" "shmem_optr_from_ptr start x \<noteq> 0"
    "start + unat (le_prev_optr (shmem_optr_from_ptr start x)) = x + 8" "le_prev_optr (shmem_optr_from_ptr start x) \<noteq> 0"
    "le_next_optr (shmem_optr_from_ptr start x) = shmem_optr_from_ptr start x"
    "start + unat (shmem_optr_from_ptr start (x + 8)) = x + 8" "shmem_optr_from_ptr start (x + 8) \<noteq> 0"
proof -
  have x: "start < x" "x < 2 ^ 64" "x + 8 < 2 ^ 64" using assms by (auto simp: placed_def)
  note a = direct_from_ptr [OF x(1,2)] and b = direct_from_ptr [of start "x + 8"]
  show "start + unat (shmem_optr_from_ptr start x) = x" "shmem_optr_from_ptr start x \<noteq> 0" using a x by auto
  show "start + unat (shmem_optr_from_ptr start (x + 8)) = x + 8" "shmem_optr_from_ptr start (x + 8) \<noteq> 0"
    using b x by auto
  have "le_prev_optr (shmem_optr_from_ptr start x) = shmem_optr_from_ptr start (x + 8)"
    using x by (simp add: le_prev_optr_def LE_PREV_OFF_def shmem_optr_from_ptr_def)
  with b x show "start + unat (le_prev_optr (shmem_optr_from_ptr start x)) = x + 8"
    "le_prev_optr (shmem_optr_from_ptr start x) \<noteq> 0" by auto
  show "le_next_optr (shmem_optr_from_ptr start x) = shmem_optr_from_ptr start x"
    by (simp add: le_next_optr_def LE_NEXT_OFF_def)
qed

lemma linkedD:
  assumes "linked m start xs" "i < length xs"
  shows "le_pe_prev m (xs ! i) = (if i = 0 then 0 else shmem_optr_from_ptr start (xs ! (i - 1)))"
    "le_pe_next m (xs ! i) = (if i + 1 = length xs then 0 else shmem_optr_from_ptr start (xs ! (i + 1)))"
  using assms by (auto simp: linked_def list_all_iff)

lemma linkedI:
  assumes "\<And>i. i < length xs \<Longrightarrow>
    le_pe_prev m (xs ! i) = (if i = 0 then 0 else shmem_optr_from_ptr start (xs ! (i - 1))) \<and>
    le_pe_next m (xs ! i) = (if i + 1 = length xs then 0 else shmem_optr_from_ptr start (xs ! (i + 1)))"
  shows "linked m start xs"
  using assms by (auto simp: linked_def list_all_iff)

lemma dll_cong:
  assumes "dll m start lq xs" "\<And>x. x \<in> set (lq # xs) \<Longrightarrow> rd 8 m' x = rd 8 m x \<and> rd 8 m' (x + 8) = rd 8 m (x + 8)"
  shows "dll m' start lq xs"
proof -
  have "linked m' start xs" using assms by (auto simp: dll_def linked_def list_all_iff node_field_defs)
  with assms show ?thesis by (auto simp: dll_def node_field_defs)
qed

subsection \<open>Appending\<close>

text \<open>The four writes of an append.\<close>

definition append_writes :: "mem \<Rightarrow> nat \<Rightarrow> nat \<Rightarrow> nat \<Rightarrow> mem \<Rightarrow> mem" where
  "append_writes m0 start lq le m =
     (let off = unat (shmem_optr_from_ptr start le);
          m = (if lq_pe_first m0 lq = 0 then wr 8 (wr 8 m (le + 8) 0) lq off
               else wr 8 (wr 8 m (le + 8) (unat (lq_pe_tail m0 lq))) (start + unat (lq_pe_tail m0 lq)) off)
      in wr 8 (wr 8 m le 0) (lq + 8) off)"

lemma record_append_entries:
  assumes "log_prefix lp es" "length es + 2 \<le> REDOLOG_ENTRIES" "placed start le" "placed start lq"
    and tail: "lq_pe_first m lq \<noteq> 0 \<Longrightarrow> lq_pe_tail m lq \<noteq> 0"
  obtains lp' e1 e2 where "record_list_queue_append lp m lq le start = Some lp'" "log_prefix lp' (es @ [e1, e2])"
    "\<And>b md m0. mem_start md = start \<Longrightarrow>
       execute_entries [e1, e2] (b, md, m0) = Some (b, md, append_writes m start lq le m0)"
    "loge_tp e1 = Some TWO_VAL_LOG" "loge_tp e2 = Some TWO_VAL_LOG"
proof -
  let ?le = "shmem_optr_from_ptr start le" and ?lq = "shmem_optr_from_ptr start lq"
    and ?tl = "shmem_optr_from_ptr start (lq + 8)"
  define f where "f = (if lq_pe_first m lq = 0 then two_val_loge (le_prev_optr ?le) 0 ?lq ?le
    else two_val_loge (le_prev_optr ?le) (lq_pe_tail m lq) (le_next_optr (lq_pe_tail m lq)) ?le)"
  define g where "g = two_val_loge (le_next_optr ?le) 0 ?tl ?le"
  have len: "length es < REDOLOG_ENTRIES" "length (es @ [f e]) < REDOLOG_ENTRIES" for e
    using assms(2) by (simp_all add: REDOLOG_ENTRIES_def)
  have lf: "length (f e) = 56" "length (g e) = 56" if "length e = 56" for e using that by (simp_all add: f_def g_def)
  obtain lp1 e1 where 1: "set_log_entry lp f = Some lp1" "length e1 = 56" "log_prefix lp1 (es @ [f e1])"
    using set_log_entry_prefix [OF assms(1) len(1), of f] lf(1) by blast
  obtain lp2 e2 where 2: "set_log_entry lp1 g = Some lp2" "length e2 = 56" "log_prefix lp2 ((es @ [f e1]) @ [g e2])"
    using set_log_entry_prefix [OF 1(3) len(2), of g] lf(2) by blast
  have "record_list_queue_append lp m lq le start = Some lp2"
    using 1(1) 2(1) by (simp add: record_list_queue_append_def Let_def shmem_optr_is_null_def
        set_two_value_log_entry_def f_def g_def split: if_splits)
  moreover have "execute_entries [f e1, g e2] (b, md, m0) = Some (b, md, append_writes m start lq le m0)"
    if "mem_start md = start" for b md m0
  proof -
    note p = placed_optr [OF assms(3)] placed_optr [OF assms(4)]
    have n: "le_next_optr (lq_pe_tail m lq) = lq_pe_tail m lq" by (simp add: le_next_optr_def LE_NEXT_OFF_def)
    show ?thesis
      using that p tail 1(2) 2(2) by (cases "lq_pe_first m lq = 0")
        (simp_all add: f_def g_def exec_two_val_loge append_writes_def Let_def n)
  qed
  moreover have "loge_tp (f e1) = Some TWO_VAL_LOG" "loge_tp (g e2) = Some TWO_VAL_LOG"
    using 1(2) 2(2) by (simp_all add: f_def g_def)
  ultimately show ?thesis using that [of lp2 "f e1" "g e2"] 2(3) by simp
qed

lemma append_writes_dll:
  assumes "dll m start lq xs" "placed start le" "apart lq le" "list_all (apart le) xs"
  shows "dll (append_writes m start lq le m) start lq (xs @ [le])"
proof -
  let ?off = "shmem_optr_from_ptr start" and ?m = "append_writes m start lq le m"
  have pl: "placed start lq" "list_all (placed start) xs" "list_all (apart lq) xs" "sorted_wrt apart xs"
    and fst: "lq_pe_first m lq = (if xs = [] then 0 else ?off (hd xs))"
    and tl: "xs \<noteq> [] \<Longrightarrow> lq_pe_tail m lq = ?off (last xs)" and lk: "linked m start xs"
    using assms(1) by (auto simp: dll_def)
  have ap: "lq + 16 \<le> le \<or> le + 16 \<le> lq" using assms(3) by (simp add: apart_def)
  have nz: "?off x \<noteq> 0" "start + unat (?off x) = x" if "x \<in> set xs" for x
    using that pl(2) placed_optr [of start x] by (auto simp: list_all_iff)
  define t where "t = (if xs = [] then lq else last xs)"
  have m: "?m = wr 8 (wr 8 (wr 8 (wr 8 m (le + 8) (unat (if xs = [] then 0 else ?off (last xs)))) t (unat (?off le)))
      le 0) (lq + 8) (unat (?off le))"
    using fst tl nz(1) [of "hd xs"] nz(2) [of "last xs"] by (auto simp: append_writes_def t_def Let_def)
  have sep: "x + 16 \<le> le \<or> le + 16 \<le> x" "x + 16 \<le> lq \<or> lq + 16 \<le> x" if "x \<in> set xs" for x
    using that assms(4) pl(3) by (auto simp: list_all_iff apart_def)
  have sep_t: "x = t \<or> x + 16 \<le> t \<or> t + 16 \<le> x" if "i < length xs" "x = xs ! i" for i x
  proof (cases "i = length xs - 1")
    case False
    with that have "apart (xs ! i) (xs ! (length xs - 1))"
      using pl(4) by (intro sorted_wrt_nth_less [of apart]) auto
    moreover have "xs \<noteq> []" using that by auto
    ultimately show ?thesis using that by (simp add: t_def last_conv_nth apart_def)
  qed (use that in \<open>auto simp: t_def last_conv_nth\<close>)
  have t_le: "t + 16 \<le> le \<or> le + 16 \<le> t" using ap sep(1) [of "last xs"] by (auto simp: t_def)
  have old_prev: "le_pe_prev ?m (xs ! i) = le_pe_prev m (xs ! i)" if "i < length xs" for i
    using sep [of "xs ! i"] sep_t [OF that refl] that unfolding m node_field_defs
    by (auto simp: rd_wr_other)
  have old_next: "le_pe_next ?m (xs ! i) = (if xs ! i = t then ?off le else le_pe_next m (xs ! i))" if "i < length xs" for i
    using sep [of "xs ! i"] sep_t [OF that refl] that t_le unfolding m node_field_defs
    by (auto simp: rd_wr_other)
  have new: "le_pe_prev ?m le = (if xs = [] then 0 else ?off (last xs))" "le_pe_next ?m le = 0"
    "lq_pe_tail ?m lq = ?off le"
    using ap t_le unfolding m node_field_defs by (auto simp: rd_wr_other rd_wr_same)
  have "lq_pe_first ?m lq = (if xs = [] then ?off le else ?off (hd xs))"
    using ap fst sep(2) [of "last xs"] unfolding m node_field_defs by (auto simp: rd_wr_other t_def)
  moreover have "linked ?m start (xs @ [le])"
  proof (rule linkedI)
    fix i assume i: "i < length (xs @ [le])"
    have dist: "xs ! i = t \<longleftrightarrow> i = length xs - 1" if "i < length xs"
    proof -
      have "i < length xs - 1 \<or> i = length xs - 1" using that by linarith
      then show ?thesis
        using that pl(4) sorted_wrt_nth_less [of apart xs i "length xs - 1"]
        by (auto simp: t_def last_conv_nth apart_def)
    qed
    show "le_pe_prev ?m ((xs @ [le]) ! i) = (if i = 0 then 0 else ?off ((xs @ [le]) ! (i - 1))) \<and>
        le_pe_next ?m ((xs @ [le]) ! i) = (if i + 1 = length (xs @ [le]) then 0 else ?off ((xs @ [le]) ! (i + 1)))"
    proof (cases "i < length xs")
      case True
      with linkedD [OF lk True] show ?thesis
        by (auto simp: nth_append old_prev old_next dist)
    next
      case False
      with i have "i = length xs" by simp
      then show ?thesis by (auto simp: nth_append new last_conv_nth)
    qed
  qed
  ultimately show ?thesis
    using pl assms new by (auto simp: dll_def sorted_wrt_append list_all_iff apart_sym [of le])
qed

text \<open>An append touches the new node, the list head and the old tail only.\<close>

lemma append_writes_other:
  assumes "dll m start lq xs"
    and "x < le \<or> le + 16 \<le> x" "x < lq \<or> lq + 16 \<le> x" "xs \<noteq> [] \<Longrightarrow> x < last xs \<or> last xs + 8 \<le> x"
  shows "append_writes m start lq le m0 x = m0 x"
proof -
  have "start + unat (lq_pe_tail m lq) = last xs" if "xs \<noteq> []"
    using that assms(1) placed_optr(1) [of start "last xs"] by (auto simp: dll_def list_all_iff)
  moreover have "lq_pe_first m lq = 0 \<longleftrightarrow> xs = []"
    using assms(1) placed_optr(2) [of start "hd xs"] by (auto simp: dll_def list_all_iff)
  ultimately show ?thesis
    using assms(2-4) by (cases "xs = []") (auto simp: append_writes_def Let_def wr_other)
qed

subsection \<open>Removing\<close>

text \<open>The link writes of a removal from the middle.\<close>

lemma dll_node:
  assumes "dll m start lq xs" "i < length xs"
  shows "placed start (xs ! i)" "apart lq (xs ! i)"
    and "j < length xs \<Longrightarrow> i \<noteq> j \<Longrightarrow> apart (xs ! i) (xs ! j)"
proof -
  show "placed start (xs ! i)" "apart lq (xs ! i)" using assms by (auto simp: dll_def list_all_iff)
  assume j: "j < length xs" "i \<noteq> j"
  then consider "i < j" | "j < i" by linarith
  then show "apart (xs ! i) (xs ! j)"
    using assms j sorted_wrt_nth_less [of apart xs i j] sorted_wrt_nth_less [of apart xs j i]
    by cases (auto simp: dll_def apart_sym)
qed

lemma remove_middle_dll:
  assumes d: "dll m start lq (us @ x # vs)" and ne: "us \<noteq> []" "vs \<noteq> []"
  shows "dll (wr 8 (wr 8 m (hd vs + 8) (unat (shmem_optr_from_ptr start (last us)))) (last us)
      (unat (shmem_optr_from_ptr start (hd vs)))) start lq (us @ vs)" (is "dll ?m _ _ _")
proof -
  let ?off = "shmem_optr_from_ptr start" and ?xs = "us @ x # vs" and ?k = "length us"
  note nd = dll_node [OF d] and lk = linkedD [of m start ?xs]
  have len: "0 < ?k" "0 < length vs" using ne by auto
  have lu: "last us = ?xs ! (?k - 1)" using ne by (simp add: last_conv_nth nth_append)
  have hv: "hd vs = ?xs ! (?k + 1)" using ne by (simp add: hd_conv_nth nth_append)
  have lnk: "linked m start ?xs" using d by (simp add: dll_def)
  have at: "(us @ vs) ! i = ?xs ! (if i < ?k then i else i + 1)" for i by (simp add: nth_append)
  have pn: "last us + 16 \<le> hd vs \<or> hd vs + 16 \<le> last us"
    using nd(3) [of "?k - 1" "?k + 1"] len unfolding lu hv apart_def by auto
  have op: "y + 16 \<le> last us \<or> last us + 16 \<le> y" if "i < length ?xs" "i \<noteq> ?k - 1" "y = ?xs ! i" for i y
    using nd(3) [OF that(1), of "?k - 1"] len that(2) unfolding lu that(3) apart_def by auto
  have on: "y + 16 \<le> hd vs \<or> hd vs + 16 \<le> y" if "i < length ?xs" "i \<noteq> ?k + 1" "y = ?xs ! i" for i y
    using nd(3) [OF that(1), of "?k + 1"] len that(2) unfolding hv that(3) apart_def by auto
  have prv: "le_pe_prev ?m (?xs ! i) = (if i = ?k + 1 then ?off (last us) else le_pe_prev m (?xs ! i))"
    if "i < length ?xs" for i
  proof (cases "i = ?k + 1")
    case True
    then have "?xs ! i = hd vs" using hv by simp
    then show ?thesis using pn True unfolding node_field_defs by auto
  next
    case False
    show ?thesis
      using on [OF that False refl] op [OF that _ refl] False len lu
      by (cases "i = ?k - 1") (auto simp: node_field_defs)
  qed
  have nxt: "le_pe_next ?m (?xs ! i) = (if i = ?k - 1 then ?off (hd vs) else le_pe_next m (?xs ! i))"
    if "i < length ?xs" for i
  proof (cases "i = ?k - 1")
    case True
    then have "?xs ! i = last us" using lu by simp
    then show ?thesis using True unfolding node_field_defs by auto
  next
    case False
    show ?thesis
      using op [OF that False refl] on [OF that _ refl] False hv
      by (cases "i = ?k + 1") (auto simp: node_field_defs)
  qed
  have "linked ?m start (us @ vs)"
  proof (rule linkedI)
    fix i assume i: "i < length (us @ vs)"
    let ?i = "if i < ?k then i else i + 1"
    have i': "?i < length ?xs" using i by auto
    have p: "le_pe_prev ?m (?xs ! ?i) = (if i = 0 then 0 else ?off ((us @ vs) ! (i - 1)))"
      using prv [OF i'] lk(1) [OF lnk i'] len
      by (cases "i < ?k"; cases "i = ?k") (auto simp: at lu)
    have n: "le_pe_next ?m (?xs ! ?i) = (if i + 1 = length (us @ vs) then 0 else ?off ((us @ vs) ! (i + 1)))"
      using nxt [OF i'] lk(2) [OF lnk i'] len
      by (cases "i + 1 < ?k"; cases "i + 1 = ?k") (auto simp: at hv)
    show "le_pe_prev ?m ((us @ vs) ! i) = (if i = 0 then 0 else ?off ((us @ vs) ! (i - 1))) \<and>
        le_pe_next ?m ((us @ vs) ! i) = (if i + 1 = length (us @ vs) then 0 else ?off ((us @ vs) ! (i + 1)))"
      using p n by (simp only: at [of i])
  qed
  moreover have "apart lq (last us)" "apart lq (hd vs)" using d ne by (auto simp: dll_def list_all_iff)
  then have "lq_pe_first ?m lq = lq_pe_first m lq" "lq_pe_tail ?m lq = lq_pe_tail m lq"
    unfolding node_field_defs by (auto simp: apart_def)
  ultimately show ?thesis
    using d ne by (auto simp: dll_def sorted_wrt_append list_all_iff hd_append)
qed

lemma dll_links:
  assumes "dll m start lq (us @ x # vs)"
  shows "le_pe_next m x = (if vs = [] then 0 else shmem_optr_from_ptr start (hd vs))"
    "le_pe_prev m x = (if us = [] then 0 else shmem_optr_from_ptr start (last us))"
    "lq_pe_first m lq = shmem_optr_from_ptr start x \<longleftrightarrow> us = []"
    "lq_pe_tail m lq = shmem_optr_from_ptr start (last (x # vs))"
proof -
  let ?xs = "us @ x # vs" and ?k = "length us"
  have lnk: "linked m start ?xs" using assms by (simp add: dll_def)
  note l = linkedD [OF lnk, of ?k]
  show "le_pe_next m x = (if vs = [] then 0 else shmem_optr_from_ptr start (hd vs))"
    using l(2) by (auto simp: nth_append hd_conv_nth)
  show "le_pe_prev m x = (if us = [] then 0 else shmem_optr_from_ptr start (last us))"
    using l(1) by (auto simp: nth_append last_conv_nth)
  show "lq_pe_tail m lq = shmem_optr_from_ptr start (last (x # vs))" using assms by (simp add: dll_def)
  have "us = []" if "shmem_optr_from_ptr start (hd ?xs) = shmem_optr_from_ptr start x"
  proof (rule ccontr)
    assume "us \<noteq> []"
    then have "apart (?xs ! 0) (?xs ! ?k)" "placed start (?xs ! 0)" "placed start (?xs ! ?k)"
      using dll_node(1) [OF assms, of 0] dll_node(1) [OF assms, of ?k] dll_node(3) [OF assms, of 0 ?k]
      by (simp_all del: nth_append_length)
    moreover have "hd ?xs = ?xs ! 0" "?xs ! ?k = x" by (simp_all add: hd_conv_nth nth_append)
    ultimately show False
      using that placed_optr(1) [of start "hd ?xs"] placed_optr(1) [of start x] by (auto simp: apart_def)
  qed
  then show "lq_pe_first m lq = shmem_optr_from_ptr start x \<longleftrightarrow> us = []" using assms by (auto simp: dll_def)
qed

lemma record_remove_middle:
  assumes "log_prefix lp es" "length es < REDOLOG_ENTRIES" "dll m start lq (us @ x # vs)" "us \<noteq> []" "0 < start"
  obtains lp' e where "record_list_queue_remove lp m lq x start = Some lp'" "length e = 56"
    "log_prefix lp' (es @ [two_val_loge (le_prev_optr (le_pe_next m x)) (le_pe_prev m x)
       (le_next_optr (le_pe_prev m x)) (le_pe_next m x) e])"
proof -
  let ?f = "two_val_loge (le_prev_optr (le_pe_next m x)) (le_pe_prev m x) (le_next_optr (le_pe_prev m x)) (le_pe_next m x)"
  obtain lp' e where 1: "set_log_entry lp ?f = Some lp'" "length e = 56" "log_prefix lp' (es @ [?f e])"
    using set_log_entry_prefix [OF assms(1,2), of ?f] by auto
  have "x \<noteq> 0" "lq \<noteq> 0" using dll_node(1) [OF assms(3), of "length us"] assms(3)
    by (auto simp: placed_def dll_def nth_append)
  then have "record_list_queue_remove lp m lq x start = Some lp'"
    using 1(1) dll_links(3) [OF assms(3)] assms(4,5)
    by (simp add: record_list_queue_remove_def shmem_optr_equals_def set_two_value_log_entry_def Let_def)
  with 1 that show ?thesis by blast
qed

subsection \<open>An example list\<close>

definition ex_m0 :: mem where "ex_m0 = (\<lambda>_. 0)"
definition ex_m1 :: mem where "ex_m1 = append_writes ex_m0 4096 8192 12288 ex_m0"
definition ex_m2 :: mem where "ex_m2 = append_writes ex_m1 4096 8192 12352 ex_m1"
definition ex_m3 :: mem where "ex_m3 = append_writes ex_m2 4096 8192 12416 ex_m2"
definition ex_log :: redo_log where "ex_log = replicate REDOLOG_ENTRIES EMPTY_LOG_ENTRY"

lemma ex_log_prefix: "log_prefix (ex_log, 0) []"
  by (rule log_prefix_start) (simp add: ex_log_def log_wf_def EMPTY_LOG_ENTRY_def list_all_iff)

lemma ex_dll:
  "dll ex_m0 4096 8192 []" "dll ex_m1 4096 8192 [12288]" "dll ex_m2 4096 8192 [12288, 12352]"
  "dll ex_m3 4096 8192 [12288, 12352, 12416]"
proof -
  show 0: "dll ex_m0 4096 8192 []"
    by (simp add: dll_def linked_def placed_def lq_pe_first_def ex_m0_def rd_zero)
  have 1: "dll ex_m1 4096 8192 ([] @ [12288])"
    unfolding ex_m1_def by (rule append_writes_dll [OF 0]) (simp_all add: placed_def apart_def)
  then show "dll ex_m1 4096 8192 [12288]" by simp
  have 2: "dll ex_m2 4096 8192 ([12288] @ [12352])"
    unfolding ex_m2_def by (rule append_writes_dll [OF 1 [simplified]]) (simp_all add: placed_def apart_def)
  then show "dll ex_m2 4096 8192 [12288, 12352]" by simp
  have "dll ex_m3 4096 8192 ([12288, 12352] @ [12416])"
    unfolding ex_m3_def by (rule append_writes_dll [OF 2 [simplified]]) (simp_all add: placed_def apart_def)
  then show "dll ex_m3 4096 8192 [12288, 12352, 12416]" by simp
qed

subsection \<open>Properties\<close>

text \<open>C15: Appending to a list is crash-safe bookkeeping for the abstract append: with room for two more
  records in the log, \<open>record_list_queue_append\<close> succeeds, adds exactly two records, and executing them
  on the memory turns the list of nodes \<open>xs\<close> into \<open>xs\<close> followed by the new node; the allocator and the
  volatile state are untouched.\<close>

theorem list_append_refines:
  assumes "log_prefix lp es" "length es + 2 \<le> REDOLOG_ENTRIES"
    and "dll m start lq xs" "placed start le" "apart lq le" "list_all (apart le) xs"
  shows "\<exists>lp' new m'. record_list_queue_append lp m lq le start = Some lp' \<and> log_prefix lp' (es @ new) \<and>
    length new = 2 \<and> dll m' start lq (xs @ [le]) \<and>
    (\<forall>b md. mem_start md = start \<longrightarrow> execute_entries new (b, md, m) = Some (b, md, m'))"
proof -
  have lq: "placed start lq" using assms(3) by (simp add: dll_def)
  have "lq_pe_first m lq \<noteq> 0 \<Longrightarrow> lq_pe_tail m lq \<noteq> 0"
    using assms(3) placed_optr(2) [of start "last xs"] by (auto simp: dll_def list_all_iff split: if_splits)
  then obtain lp' e1 e2 where "record_list_queue_append lp m lq le start = Some lp'" "log_prefix lp' (es @ [e1, e2])"
    "\<And>b md. mem_start md = start \<Longrightarrow> execute_entries [e1, e2] (b, md, m) = Some (b, md, append_writes m start lq le m)"
    using record_append_entries [OF assms(1,2,4) lq] by metis
  with append_writes_dll [OF assms(3-6)] show ?thesis
    by (intro exI [of _ lp'] exI [of _ "[e1, e2]"] exI [of _ "append_writes m start lq le m"]) simp
qed

theorem list_append_refines_witness:
  "\<exists>lp' new m'. record_list_queue_append (ex_log, 0) ex_m1 8192 12352 4096 = Some lp' \<and> log_prefix lp' new \<and>
    length new = 2 \<and> dll m' 4096 8192 [12288, 12352]"
proof -
  have "\<exists>lp' new m'. record_list_queue_append (ex_log, 0) ex_m1 8192 12352 4096 = Some lp' \<and> log_prefix lp' ([] @ new) \<and>
    length new = 2 \<and> dll m' 4096 8192 ([12288] @ [12352]) \<and>
    (\<forall>b md. mem_start md = 4096 \<longrightarrow> execute_entries new (b, md, ex_m1) = Some (b, md, m'))"
    by (rule list_append_refines [OF ex_log_prefix _ ex_dll(2)]) (simp_all add: REDOLOG_ENTRIES_def placed_def apart_def)
  then show ?thesis by auto
qed

text \<open>C16: Removing a node that has both neighbours, or the only node of a list, works: the records added
  by \<open>record_list_queue_remove\<close> turn the list into the list without that node.\<close>

theorem list_remove_refines:
  assumes "log_prefix lp es" "length es < REDOLOG_ENTRIES" "dll m start lq (us @ x # vs)" "0 < start"
    and "us = [] \<longleftrightarrow> vs = []"
  shows "\<exists>lp' new m'. record_list_queue_remove lp m lq x start = Some lp' \<and> log_prefix lp' (es @ new) \<and>
    dll m' start lq (us @ vs) \<and>
    (\<forall>b md. mem_start md = start \<longrightarrow> execute_entries new (b, md, m) = Some (b, md, m'))"
proof (cases "us = []")
  case True
  let ?f = "val_loge (shmem_optr_from_ptr start lq) 0"
  have vs: "vs = []" using True assms(5) by simp
  have lq: "placed start lq" "placed start x" "apart lq x" using assms(3) True by (auto simp: dll_def)
  obtain lp' e where 1: "set_log_entry lp ?f = Some lp'" "length e = 56" "log_prefix lp' (es @ [?f e])"
    using set_log_entry_prefix [OF assms(1,2), of ?f] by auto
  have "record_list_queue_remove lp m lq x start = Some lp'"
    using 1(1) dll_links(1,3) [OF assms(3)] True vs lq assms(4)
    by (simp add: record_list_queue_remove_def shmem_optr_equals_def shmem_optr_is_null_def set_value_log_entry_def
        placed_def Let_def)
  moreover have "dll (wr 8 m lq 0) start lq []"
    using lq by (simp add: dll_def linked_def lq_pe_first_def rd_wr_same)
  moreover have "execute_entries [?f e] (b, md, m) = Some (b, md, wr 8 m lq 0)" if "mem_start md = start" for b md
    using that 1(2) placed_optr(1) [OF lq(1)] by (simp add: exec_val_loge)
  ultimately show ?thesis using 1(3) True vs by (intro exI [of _ lp'] exI [of _ "[?f e]"] exI [of _ "wr 8 m lq 0"]) simp
next
  case False
  then have vs: "vs \<noteq> []" using assms(5) by simp
  let ?m = "wr 8 (wr 8 m (hd vs + 8) (unat (shmem_optr_from_ptr start (last us)))) (last us)
      (unat (shmem_optr_from_ptr start (hd vs)))"
  obtain lp' e where 1: "record_list_queue_remove lp m lq x start = Some lp'" "length e = 56"
    "log_prefix lp' (es @ [two_val_loge (le_prev_optr (le_pe_next m x)) (le_pe_prev m x)
       (le_next_optr (le_pe_prev m x)) (le_pe_next m x) e])"
    using record_remove_middle [OF assms(1-3) False assms(4)] by metis
  have pl: "placed start (last us)" "placed start (hd vs)"
    using assms(3) False vs by (auto simp: dll_def list_all_iff)
  have "execute_entries [two_val_loge (le_prev_optr (le_pe_next m x)) (le_pe_prev m x)
       (le_next_optr (le_pe_prev m x)) (le_pe_next m x) e] (b, md, m) = Some (b, md, ?m)" if "mem_start md = start" for b md
    using that 1(2) dll_links(1,2) [OF assms(3)] False vs placed_optr [OF pl(1)] placed_optr [OF pl(2)]
    by (simp add: exec_two_val_loge)
  with remove_middle_dll [OF assms(3) False vs] 1 show ?thesis by blast
qed

theorem list_remove_refines_witness:
  "\<exists>lp' new m'. record_list_queue_remove (ex_log, 0) ex_m3 8192 12352 4096 = Some lp' \<and> log_prefix lp' new \<and>
    dll m' 4096 8192 [12288, 12416]"
proof -
  have "\<exists>lp' new m'. record_list_queue_remove (ex_log, 0) ex_m3 8192 12352 4096 = Some lp' \<and> log_prefix lp' ([] @ new) \<and>
    dll m' 4096 8192 ([12288] @ [12416]) \<and>
    (\<forall>b md. mem_start md = 4096 \<longrightarrow> execute_entries new (b, md, ex_m3) = Some (b, md, m'))"
    by (rule list_remove_refines [OF ex_log_prefix]) (use ex_dll(4) in \<open>simp_all add: REDOLOG_ENTRIES_def\<close>)
  then show ?thesis by auto
qed

text \<open>Removing the first node of a list with more than one node is fatal: the record built for it
  has a null second target (the first node has no predecessor whose \<open>pe_next\<close> could be updated), so
  executing the log runs into the \<open>BUG_ON(dst2 == NULL)\<close> of \<open>execute_log\<close>.\<close>

lemma list_remove_head_fatal:
  assumes "log_prefix lp es" "length es + 2 \<le> REDOLOG_ENTRIES" "dll m start lq (x # y # ys)" "0 < start"
  shows "\<exists>lp' new. record_list_queue_remove lp m lq x start = Some lp' \<and> log_prefix lp' (es @ new) \<and>
    (\<forall>b md. execute_entries new (b, md, m) = None)"
proof -
  note l = dll_links [of m start lq "[]" x "y # ys", simplified, OF assms(3)]
  let ?f = "two_val_loge (le_prev_optr (le_pe_next m x)) (le_pe_prev m x) (le_next_optr (le_pe_prev m x)) (le_pe_next m x)"
    and ?g = "val_loge (shmem_optr_from_ptr start lq) (le_pe_next m x)"
  have len: "length es < REDOLOG_ENTRIES" "length (es @ [e]) < REDOLOG_ENTRIES" for e :: log_entry
    using assms(2) by simp_all
  obtain lp1 e1 where 1: "set_log_entry lp ?f = Some lp1" "length e1 = 56" "log_prefix lp1 (es @ [?f e1])"
    using set_log_entry_prefix [OF assms(1) len(1), of ?f] by auto
  obtain lp2 e2 where 2: "set_log_entry lp1 ?g = Some lp2" "log_prefix lp2 ((es @ [?f e1]) @ [?g e2])"
    by (rule set_log_entry_prefix [OF 1(3) len(2), of ?g]) (erule length_loge(2), rule that)
  have pl: "placed start lq" "placed start x" "placed start y" using assms(3) by (auto simp: dll_def)
  have "record_list_queue_remove lp m lq x start = Some lp2"
    using 1(1) 2(1) l pl assms(4) placed_optr(2) [OF pl(3)]
    by (simp add: record_list_queue_remove_def shmem_optr_equals_def shmem_optr_is_null_def placed_def
        set_two_value_log_entry_def set_value_log_entry_def Let_def)
  moreover have "execute_entries [?f e1, ?g e2] (b, md, m) = None" for b md
    using 1(2) l by (simp add: exec_two_val_loge le_next_optr_def LE_NEXT_OFF_def)
  ultimately show ?thesis using 2(2) by (intro exI [of _ lp2] exI [of _ "[?f e1, ?g e2]"]) simp
qed

text \<open>Removing the last node of a list with more than one node corrupts memory: executing the record
  leaves \<open>pe_tail\<close> pointing to the removed node, so that a later append links behind it, and writes the
  offset of the new last node to offset 8 of the shared memory, which belongs to the first machine's
  futex queue.\<close>

lemma list_remove_tail_corrupts:
  assumes "log_prefix lp es" "length es < REDOLOG_ENTRIES" "dll m start lq (us @ [x])" "us \<noteq> []" "0 < start"
    and "start + 16 \<le> lq" "start + 16 \<le> last us"
  shows "\<exists>lp' new m'. record_list_queue_remove lp m lq x start = Some lp' \<and> log_prefix lp' (es @ new) \<and>
    (\<forall>b md. mem_start md = start \<longrightarrow> execute_entries new (b, md, m) = Some (b, md, m')) \<and>
    lq_pe_tail m' lq = shmem_optr_from_ptr start x \<and>
    rd 8 m' (start + 8) = unat (shmem_optr_from_ptr start (last us))"
proof -
  note l = dll_links [OF assms(3)]
  obtain lp' e where 1: "record_list_queue_remove lp m lq x start = Some lp'" "length e = 56"
    "log_prefix lp' (es @ [two_val_loge (le_prev_optr (le_pe_next m x)) (le_pe_prev m x)
       (le_next_optr (le_pe_prev m x)) (le_pe_next m x) e])" (is "log_prefix _ (_ @ [?e])")
    using record_remove_middle [OF assms(1-5)] by metis
  let ?m = "wr 8 (wr 8 m (start + 8) (unat (shmem_optr_from_ptr start (last us)))) (last us) 0"
  have pl: "placed start (last us)" "apart lq (last us)" using assms(3,4) by (auto simp: dll_def list_all_iff)
  have "execute_entries [?e] (b, md, m) = Some (b, md, ?m)" if "mem_start md = start" for b md
    using that 1(2) l assms(4) placed_optr [OF pl(1)]
    by (simp add: exec_two_val_loge le_prev_optr_def LE_PREV_OFF_def)
  moreover have "lq_pe_tail ?m lq = shmem_optr_from_ptr start x"
    using l(4) assms(6) pl(2) unfolding lq_pe_tail_def by (auto simp: apart_def)
  moreover have "rd 8 ?m (start + 8) = unat (shmem_optr_from_ptr start (last us))"
    using assms(7) by simp
  ultimately show ?thesis using 1 by blast
qed

end
