(* ===== verification/Obj_Header.thy ===== *)
theory Obj_Header
  imports List_Queue
begin

text \<open>
  Recording the allocation and the release of an object header in the redo log,
  \<^verbatim>\<open>src/driver/src/obj_header.c\<close>, and \<open>alloc_and_log_lockheld\<close> of \<^verbatim>\<open>src/driver/src/buddy_alloc.c\<close>, which
  records the allocation of a block. Headers live in pages of 340; the page in use is
  \<open>cur_obj_recs\<close> and a full page is replaced by a new one taken from the buddy allocator.

  \<open>None\<close> is a fatal stop: a full log, a null page, or a program identifier without terminating zero.
\<close>

definition ENOMEM :: int where "ENOMEM = 12"
definition EFAULT :: int where "EFAULT = 14"

text \<open>The result is the return value and, on success, the block; the search looks at the tree as it is,
  without the records already in the log.\<close>

definition alloc_and_log_lockheld ::
  "redo_log \<times> nat \<Rightarrow> buddy \<Rightarrow> meta_dram \<Rightarrow> nat \<Rightarrow> (int \<times> nat option \<times> (redo_log \<times> nat)) option" where
  "alloc_and_log_lockheld lp b md len =
     (let pos = buddy_malloc_find_pos (Some b) len
      in if \<not> buddy_tree_valid (bd_tree b) pos then Some (- ENOMEM, None, lp)
         else
           case set_buddyop_log_entry lp BUDDY_ALLOC pos of
             None \<Rightarrow> None
           | Some lp \<Rightarrow>
               let obj = address_for_position b pos
               in if obj = 0 then Some (- ENOMEM, None, lp)
                  else if obj < mem_start md \<or> mem_start md + mem_length md < obj then Some (- EFAULT, None, lp)
                  else Some (0, Some obj, lp))"

text \<open>The first free slot of a page; the variable \<open>slot\<close> keeps its initial 0 when every bit is set.\<close>

definition first_free_slot :: "bitset \<Rightarrow> nat" where
  "first_free_slot bs = (case List.find (\<lambda>i. \<not> bitset_test bs i) [0..<NUM_OBJ_SLOTS] of None \<Rightarrow> 0 | Some i \<Rightarrow> i)"

text \<open>The new header, 0 when no page could be allocated, and the extended log.\<close>

definition record_obj_hdr_alloc ::
  "redo_log \<times> nat \<Rightarrow> buddy \<Rightarrow> mem \<Rightarrow> nat \<Rightarrow> meta_dram \<Rightarrow> shmem_optr \<Rightarrow> u64 \<Rightarrow> u8 list \<Rightarrow>
    (nat \<times> (redo_log \<times> nat)) option" where
  "record_obj_hdr_alloc lp b m obj_allocs md obj_ptr len prog_id =
     (let start = mem_start md;
          recs = cur_obj_recs md
      in if recs = 0 then None
         else if 0 < recs_available m recs then
           let slot = first_free_slot (recs_bitset m recs)
           in map_option (\<lambda>lp. (recs_header_at recs slot, lp))
                (set_obj_hdr_alloc_log_entry lp (shmem_optr_from_ptr start recs) obj_ptr len prog_id (word_of_nat slot)
                  (md_machine_id md) (word_of_nat (recs_available m recs) - 1))
         else
           case alloc_and_log_lockheld lp b md OBJ_ALLOC_RECS_SIZE of
             None \<Rightarrow> None
           | Some (ret, None, lp) \<Rightarrow> Some (0, lp)
           | Some (ret, Some obj, lp) \<Rightarrow>
               (case record_list_queue_append lp m obj_allocs obj start of
                  None \<Rightarrow> None
                | Some lp \<Rightarrow>
                    (case set_init_obj_allocs_log_entry lp (shmem_optr_from_ptr start obj) of
                       None \<Rightarrow> None
                     | Some lp \<Rightarrow>
                         map_option (\<lambda>lp. (recs_header_at obj 0, lp))
                           (set_obj_hdr_alloc_log_entry lp (shmem_optr_from_ptr start obj) obj_ptr len prog_id 0
                             (md_machine_id md) (word_of_nat (NUM_OBJ_SLOTS - 1))))))"

definition record_obj_hdr_free ::
  "redo_log \<times> nat \<Rightarrow> mem \<Rightarrow> meta_dram \<Rightarrow> nat \<Rightarrow> (redo_log \<times> nat) option" where
  "record_obj_hdr_free lp m md obj_hdr =
     (let alloc_recs_optr = get_obj_allocation_records_offset m obj_hdr (mem_start md);
          alloc_recs = shmem_optr_direct_ptr (mem_start md) alloc_recs_optr
      in if alloc_recs = 0 then None
         else set_obj_hdr_free_log_entry lp alloc_recs_optr (word_of_nat (hdr_slot_id m obj_hdr))
           (word_of_nat (recs_available m alloc_recs) + 1))"

subsection \<open>Recording the allocation of a block\<close>

definition arena_in_region :: "meta_dram \<Rightarrow> buddy \<Rightarrow> bool" where
  "arena_in_region md b \<longleftrightarrow>
     0 < mem_start md \<and> mem_start md < buddy_main b \<and>
     buddy_main b + bd_memory_size b \<le> mem_start md + mem_length md \<and> mem_start md + mem_length md < 2 ^ 64"

lemma available_node:
  assumes "bd_ok b" "block_available (bd_tree b) i"
  shows "0 < i" "i < 2 ^ bt_order (bd_tree b)" "index (node_pos i) < 2 ^ 64" "depth (node_pos i) < 2 ^ 64"
    "buddy_tree_valid (bd_tree b) (node_pos i)" "node_pos i \<noteq> INVALID_POS"
    "address_for_position b (node_pos i) = block_addr b i"
    "buddy_main b \<le> block_addr b i" "block_addr b i + block_size b i \<le> buddy_main b + bd_memory_size b" "0 < block_size b i"
proof -
  let ?n = "bt_order (bd_tree b)"
  show i: "0 < i" "i < 2 ^ ?n" using assms(2) by (simp_all add: block_available_def is_available_def)
  note g = bd_wf_geometry [OF bd_okD(1) [OF assms(1)]]
  have "(2::nat) ^ ?n \<le> 2 ^ 32" using g(6) by (intro power_increasing) auto
  with i(2) show "index (node_pos i) < 2 ^ 64" by (simp add: node_pos_def)
  show "depth (node_pos i) < 2 ^ 64" using node_depth [OF i] g(6) by (simp add: node_pos_def)
  show "buddy_tree_valid (bd_tree b) (node_pos i)" by (rule valid_node [OF bd_okD(1) [OF assms(1)] i])
  then show "node_pos i \<noteq> INVALID_POS" by auto
  show "address_for_position b (node_pos i) = block_addr b i" by (rule address_for_node [OF bd_okD(1) [OF assms(1)] i])
  have "bd_alignment b * (block_first ?n i + block_count ?n i) \<le> bd_alignment b * bd_units b"
    using available_in_arena [OF assms] by (rule mult_le_mono2)
  then show "block_addr b i + block_size b i \<le> buddy_main b + bd_memory_size b"
    using g(2) by (simp add: block_addr_def block_size_def distrib_left)
  show "buddy_main b \<le> block_addr b i" by (simp add: block_addr_def)
  show "0 < block_size b i" using g(1) block_count_pos by (simp add: block_size_def)
qed

lemma alloc_and_log_cases:
  assumes "bd_ok b" "arena_in_region md b" "log_prefix lp es" "length es < REDOLOG_ENTRIES"
  obtains (full) "alloc_and_log_lockheld lp b md len = Some (- ENOMEM, None, lp)"
      "buddy_malloc_find_pos (Some b) len = INVALID_POS"
    | (block) i lp' e where "alloc_and_log_lockheld lp b md len = Some (0, Some (block_addr b i), lp')"
      "log_prefix lp' (es @ [e])" "loge_tp e = Some BUDDY_ALLOC" "exec_buddy_pos e = node_pos i"
      "block_available (bd_tree b) i" "buddy_malloc_find_pos (Some b) len = node_pos i"
proof -
  have "buddy_malloc_find_pos (Some b) len = INVALID_POS \<or>
      (\<exists>i. buddy_malloc_find_pos (Some b) len = node_pos i \<and> block_available (bd_tree b) i)"
    using malloc_correct [OF assms(1), of len] by blast
  then show ?thesis
  proof
    assume "buddy_malloc_find_pos (Some b) len = INVALID_POS"
    then show ?thesis by (intro full) (simp_all add: alloc_and_log_lockheld_def Let_def del: buddy_malloc_find_pos.simps)
  next
    assume "\<exists>i. buddy_malloc_find_pos (Some b) len = node_pos i \<and> block_available (bd_tree b) i"
    then obtain i where i: "buddy_malloc_find_pos (Some b) len = node_pos i" "block_available (bd_tree b) i" by blast
    note a = available_node [OF assms(1) i(2)]
    obtain lp' e where e: "set_log_entry lp (buddyop_loge BUDDY_ALLOC (node_pos i)) = Some lp'" "length e = 56"
      "log_prefix lp' (es @ [buddyop_loge BUDDY_ALLOC (node_pos i) e])"
      using set_log_entry_prefix [OF assms(3,4), of "buddyop_loge BUDDY_ALLOC (node_pos i)"] by auto
    have "alloc_and_log_lockheld lp b md len = Some (0, Some (block_addr b i), lp')"
      using a e(1) i(1) assms(2)
      by (simp add: alloc_and_log_lockheld_def set_buddyop_log_entry_def Let_def arena_in_region_def del: buddy_malloc_find_pos.simps)
    then show ?thesis
      by (rule block [OF _ e(3) loge_tp_loge(1) [OF e(2)] exec_buddyop [OF e(2) a(3,4)] i(2,1)])
  qed
qed

subsection \<open>Recording the allocation of a header\<close>

lemma first_free_slot:
  assumes "s < NUM_OBJ_SLOTS" "\<not> bitset_test bs s"
  shows "first_free_slot bs < NUM_OBJ_SLOTS" "\<not> bitset_test bs (first_free_slot bs)"
proof -
  have "List.find (\<lambda>i. \<not> bitset_test bs i) [0..<NUM_OBJ_SLOTS] \<noteq> None" using assms by (auto simp: find_None_iff)
  then obtain i where i: "List.find (\<lambda>i. \<not> bitset_test bs i) [0..<NUM_OBJ_SLOTS] = Some i" by auto
  then have "first_free_slot bs = i" by (simp add: first_free_slot_def)
  with i show "first_free_slot bs < NUM_OBJ_SLOTS" "\<not> bitset_test bs (first_free_slot bs)"
    by (auto simp: find_Some_iff)
qed

text \<open>What executing the record of a header writes.\<close>

definition header_writes :: "nat \<Rightarrow> nat \<Rightarrow> nat \<Rightarrow> u64 \<Rightarrow> u64 \<Rightarrow> u16 \<Rightarrow> u8 list \<Rightarrow> mem \<Rightarrow> mem" where
  "header_writes recs slot available obj_ptr len machine_id prog_id m =
     (let hdr = recs_header_at recs slot;
          m = wr_bytes m (recs_bitset_at recs) (bitset_set (recs_bitset m recs) slot);
          m = wr 2 m (recs_available_at recs) available;
          m = wr 8 m (hdr + 32) (unat obj_ptr);
          m = wr 8 m (hdr + 40) (unat len);
          m = wr 2 m (hdr + 16) (unat machine_id);
          m = wr 2 m (hdr + 18) slot
      in wr_bytes m (hdr + 20) prog_id)"

lemma exec_hdr_alloc_loge:
  assumes "length e = 56" "length bs \<le> 12" "r \<noteq> 0"
  shows "execute_entry (obj_hdr_alloc_loge r ob len bs slot mid av e) (b, md, m) =
    Some (b, md, header_writes (mem_start md + unat r) (unat slot) (unat av) ob len mid bs m)"
proof -
  define e' where "e' = obj_hdr_alloc_loge r ob len bs slot mid av e"
  note f = obj_hdr_alloc_fields [OF assms(1,2) e'_def]
  have "loge_tp e' = Some OBJ_HDR_ALLOC" using assms by (simp add: e'_def)
  then show ?thesis
    using assms(3) by (simp add: execute_entry.simps exec_obj_hdr_alloc_def loge_u64_def f f(7) [simplified] header_writes_def Let_def flip: e'_def)
qed

lemma header_writes_other:
  assumes "x < recs + 16 \<or> recs + 62 \<le> x" "x < recs_header_at recs slot + 16 \<or> recs_header_at recs slot + 48 \<le> x"
    and "length prog_id \<le> 12"
  shows "header_writes recs slot available obj_ptr len mid prog_id m x = m x"
proof -
  have "x < recs + 16 \<or> recs + 59 \<le> x" "x < recs + 60 \<or> recs + 62 \<le> x" using assms(1) by auto
  with assms(2,3) show ?thesis
    by (auto simp: header_writes_def Let_def wr_other wr_bytes_other recs_bitset_at_def recs_available_at_def
        recs_bitset_def SIZEOF_OBJ_BITSET_def)
qed

lemma header_writes_fields:
  fixes m :: mem and slot recs available n :: nat and obj_ptr len :: u64 and mid :: u16
  assumes "slot < NUM_OBJ_SLOTS" "c_strlen prog_id = Some n" "length prog_id = PROG_ID_SIZE"
  defines "m' \<equiv> header_writes recs slot available obj_ptr len mid (take (n + 1) prog_id) m"
    and "h \<equiv> recs_header_at recs slot"
  shows "hdr_obj_optr m' h = obj_ptr" "hdr_length m' h = unat len" "hdr_machine_id m' h = unat mid"
    "hdr_slot_id m' h = slot" "c_string (hdr_prog_id m' h) = c_string prog_id" "0 \<in> set (hdr_prog_id m' h)"
    "recs_available m' recs = available mod 65536" "recs_bitset m' recs = bitset_set (recs_bitset m recs) slot"
proof -
  have n: "n < 12" "n < length prog_id" "prog_id ! n = 0" using c_strlen_Some [OF assms(2)] assms(3) by (auto simp: PROG_ID_SIZE_def)
  have h: "recs + 64 \<le> h" by (simp add: h_def recs_header_at_def)
  have lb: "length (recs_bitset m recs) = 43" by (simp add: recs_bitset_def SIZEOF_OBJ_BITSET_def)
  note d = m'_def header_writes_def Let_def h_def [symmetric]
  show "hdr_obj_optr m' h = obj_ptr" "hdr_length m' h = unat len" "hdr_machine_id m' h = unat mid"
    using n by (simp_all add: d hdr_obj_optr_def hdr_length_def hdr_machine_id_def)
  show "hdr_slot_id m' h = slot"
    using n assms(1) by (simp add: d hdr_slot_id_def rd_wr_same NUM_OBJ_SLOTS_def)
  show "recs_available m' recs = available mod 65536"
    using n h by (simp add: d recs_available_def rd_wr_same recs_available_at_def recs_bitset_at_def)
  show "recs_bitset m' recs = bitset_set (recs_bitset m recs) slot"
    using n h lb by (simp add: d recs_bitset_def [of _ recs] recs_available_at_def recs_bitset_at_def SIZEOF_OBJ_BITSET_def)
  obtain cs where cs: "hdr_prog_id m' h = take (n + 1) prog_id @ cs"
  proof -
    let ?x = "hdr_prog_id m' h"
    have "take (n + 1) ?x = take (n + 1) prog_id"
      by (rule nth_equalityI) (use n assms(3) in \<open>simp_all add: hdr_prog_id_def PROG_ID_SIZE_def d wr_bytes_def\<close>)
    then show ?thesis using that [of "drop (n + 1) ?x"] by (metis append_take_drop_id)
  qed
  show "c_string (hdr_prog_id m' h) = c_string prog_id" unfolding cs by (rule c_string_append [OF assms(2)])
  show "0 \<in> set (hdr_prog_id m' h)"
  proof -
    have "take (n + 1) prog_id ! n \<in> set (take (n + 1) prog_id)" using n(2) by (intro nth_mem) simp
    then show ?thesis unfolding cs using n(3) by simp
  qed
qed

end
