(* ===== verification/Queue_Spec.thy ===== *)
theory Queue_Spec
  imports Main
begin

text \<open>
  The contract of a bounded first-in first-out queue, and what clients may conclude from it: any
  sequence of operations returns what the same operations on a list would return.
\<close>

datatype 'a qop = Enq 'a | Deq

datatype 'a qout = Accepted | Refused | Got 'a | Empty

fun list_queue_step :: "nat \<Rightarrow> 'a list \<Rightarrow> 'a qop \<Rightarrow> 'a qout \<times> 'a list" where
  "list_queue_step cap xs (Enq x) = (if length xs < cap then (Accepted, xs @ [x]) else (Refused, xs))"
| "list_queue_step cap [] Deq = (Empty, [])"
| "list_queue_step cap (x # xs) Deq = (Got x, xs)"

fun list_queue_run :: "nat \<Rightarrow> 'a list \<Rightarrow> 'a qop list \<Rightarrow> 'a qout list \<times> 'a list" where
  "list_queue_run cap xs [] = ([], xs)"
| "list_queue_run cap xs (p # ps) =
     (let (out, ys) = list_queue_step cap xs p; (outs, zs) = list_queue_run cap ys ps in (out # outs, zs))"

fun queue_step :: "('q \<Rightarrow> 'a \<Rightarrow> bool \<times> 'q) \<Rightarrow> ('q \<Rightarrow> 'a option \<times> 'q) \<Rightarrow> 'q \<Rightarrow> 'a qop \<Rightarrow> 'a qout \<times> 'q" where
  "queue_step enq deq q (Enq x) = (case enq q x of (b, q') \<Rightarrow> (if b then Accepted else Refused, q'))"
| "queue_step enq deq q Deq = (case deq q of (r, q') \<Rightarrow> (case r of None \<Rightarrow> Empty | Some x \<Rightarrow> Got x, q'))"

fun queue_run ::
  "('q \<Rightarrow> 'a \<Rightarrow> bool \<times> 'q) \<Rightarrow> ('q \<Rightarrow> 'a option \<times> 'q) \<Rightarrow> 'q \<Rightarrow> 'a qop list \<Rightarrow> 'a qout list \<times> 'q" where
  "queue_run enq deq q [] = ([], q)"
| "queue_run enq deq q (p # ps) =
     (let (out, q') = queue_step enq deq q p; (outs, q'') = queue_run enq deq q' ps in (out # outs, q''))"

fun op_storable :: "('a \<Rightarrow> bool) \<Rightarrow> 'a qop \<Rightarrow> bool" where
  "op_storable P (Enq x) = P x"
| "op_storable P Deq = True"

locale bounded_fifo =
  fixes ok :: "'q \<Rightarrow> bool"
    and contents :: "'q \<Rightarrow> 'a list"
    and enqueue :: "'q \<Rightarrow> 'a \<Rightarrow> bool \<times> 'q"
    and dequeue :: "'q \<Rightarrow> 'a option \<times> 'q"
    and cap :: nat
    and storable :: "'a \<Rightarrow> bool"
  assumes enqueue_room: "ok q \<Longrightarrow> storable x \<Longrightarrow> length (contents q) < cap \<Longrightarrow>
      \<exists>q'. enqueue q x = (True, q') \<and> ok q' \<and> contents q' = contents q @ [x]"
    and enqueue_full: "ok q \<Longrightarrow> storable x \<Longrightarrow> cap \<le> length (contents q) \<Longrightarrow>
      \<exists>q'. enqueue q x = (False, q') \<and> ok q' \<and> contents q' = contents q"
    and dequeue_some: "ok q \<Longrightarrow> contents q = x # xs \<Longrightarrow>
      \<exists>q'. dequeue q = (Some x, q') \<and> ok q' \<and> contents q' = xs"
    and dequeue_none: "ok q \<Longrightarrow> contents q = [] \<Longrightarrow>
      \<exists>q'. dequeue q = (None, q') \<and> ok q' \<and> contents q' = []"
begin

lemma step_refines:
  assumes "ok q" "op_storable storable p"
  obtains q' where "queue_step enqueue dequeue q p = (fst (list_queue_step cap (contents q) p), q')" "ok q'"
    "contents q' = snd (list_queue_step cap (contents q) p)"
proof (cases p)
  case (Enq x)
  with assms have x: "storable x" by simp
  show ?thesis
  proof (cases "length (contents q) < cap")
    case True
    with enqueue_room [OF assms(1) x] Enq that show ?thesis by force
  next
    case False
    with enqueue_full [OF assms(1) x] Enq that show ?thesis by force
  qed
next
  case Deq
  show ?thesis
  proof (cases "contents q")
    case Nil
    with dequeue_none [OF assms(1)] Deq that show ?thesis by force
  next
    case (Cons x xs)
    with dequeue_some [OF assms(1)] Deq that show ?thesis by force
  qed
qed

lemma run_refines:
  assumes "ok q" "list_all (op_storable storable) ps"
  shows "\<exists>q'. queue_run enqueue dequeue q ps = (fst (list_queue_run cap (contents q) ps), q') \<and> ok q' \<and>
    contents q' = snd (list_queue_run cap (contents q) ps)"
  using assms
proof (induction ps arbitrary: q)
  case (Cons p ps)
  then obtain q1 where 1: "queue_step enqueue dequeue q p = (fst (list_queue_step cap (contents q) p), q1)" "ok q1"
    "contents q1 = snd (list_queue_step cap (contents q) p)"
    using step_refines [of q p] by auto
  from Cons.IH [OF 1(2)] Cons.prems obtain q2 where 2: "queue_run enqueue dequeue q1 ps = (fst (list_queue_run cap (contents q1) ps), q2)"
    "ok q2" "contents q2 = snd (list_queue_run cap (contents q1) ps)" by auto
  show ?case using 1 2 by (simp add: split_def Let_def)
qed simp

end

text \<open>The elements of a ring buffer of \<open>N\<close> cells, \<open>n\<close> of them in use from cell \<open>r\<close> on.\<close>

definition ring :: "nat \<Rightarrow> nat \<Rightarrow> nat \<Rightarrow> (nat \<Rightarrow> 'a) \<Rightarrow> 'a list" where
  "ring N r n d = map (\<lambda>i. d ((r + i) mod N)) [0..<n]"

lemma length_ring [simp]: "length (ring N r n d) = n"
  by (simp add: ring_def)

lemma ring_0 [simp]: "ring N r 0 d = []"
  by (simp add: ring_def)

lemma ring_cong: "(\<And>i. i < n \<Longrightarrow> d ((r + i) mod N) = d' ((r + i) mod N)) \<Longrightarrow> ring N r n d = ring N r n d'"
  by (simp add: ring_def)

lemma ring_snoc: "ring N r (Suc n) d = ring N r n d @ [d ((r + n) mod N)]"
  by (simp add: ring_def)

lemma ring_Cons: "r < N \<Longrightarrow> ring N r (Suc n) d = d r # ring N (Suc r mod N) n d"
  by (simp add: ring_def upt_conv_Cons map_Suc_upt [symmetric] mod_simps del: upt_Suc map_Suc_upt)

lemma ring_cells_distinct:
  assumes "i < j" "j < (N :: nat)"
  shows "(r + i) mod N \<noteq> (r + j) mod N"
proof
  assume "(r + i) mod N = (r + j) mod N"
  then have "N dvd (r + j) - (r + i)" using mod_eq_dvd_iff_nat [of "r + i" "r + j" N] assms by simp
  then have "N dvd j - i" by simp
  with assms show False by (auto dest: dvd_imp_le)
qed

lemma ring_add:
  assumes "n < N"
  shows "ring N r (Suc n) (d ((r + n) mod N := x)) = ring N r n d @ [x]"
proof -
  have "ring N r n (d ((r + n) mod N := x)) = ring N r n d"
    using assms ring_cells_distinct [of _ n N r] by (intro ring_cong) simp
  then show ?thesis by (simp add: ring_snoc)
qed

end
