(* ===== verification/Circular_Queue.thy ===== *)
theory Circular_Queue
  imports TTAS_Lock Queue_Spec
begin

text \<open>
  The ring buffer that carries futex addresses and death notices between machines,
  \<^verbatim>\<open>src/driver/src/circular_queue.c\<close>. Positions, lock and data are persistent words. An operation takes
  the lock of the queue; what other processes do to the lock word while it waits is a list of changes
  as in theory \<open>TTAS_Lock\<close>, and the rest of the queue is the one found when the lock is taken.

  The changes made under the lock are written as lists of stores and flushes, so that a crash between
  any two of them is a prefix of the list. The theory shows that the queue is a bounded first-in
  first-out queue, that a crash leaves either the old or the new contents, and that draining empties it.
\<close>

unbundle bit_operations_syntax

definition CQUEUE_SIZE :: nat where "CQUEUE_SIZE = 128"
definition RINGBUF_POS_PERSIST_BIT :: u64 where "RINGBUF_POS_PERSIST_BIT = push_bit 63 1"

record circular_queue =
  pos_read :: "u64 pcell"
  pos_write :: "u64 pcell"
  cq_lock :: "u64 pcell"
  cq_data :: "u64 pcell list"

definition circular_queue_size :: nat where
  "circular_queue_size = 8 + 8 + 8 + 8 * CQUEUE_SIZE"

subsection \<open>The operations\<close>

definition cq_lock_init :: "granularity \<Rightarrow> circular_queue \<Rightarrow> circular_queue" where
  "cq_lock_init g q = q \<lparr>cq_lock := ttas_init g (cq_lock q)\<rparr>"

definition cq_lock_irqsave ::
  "granularity \<Rightarrow> cpu \<Rightarrow> u16 \<Rightarrow> env \<Rightarrow> circular_queue \<Rightarrow> circular_queue outcome" where
  "cq_lock_irqsave g k machine_id es q =
     bind_outcome (ttas_lock_kern g k machine_id es (cq_lock q)) (\<lambda>c. Done (q \<lparr>cq_lock := c\<rparr>))"

definition cq_unlock_irqrestore :: "granularity \<Rightarrow> cpu \<Rightarrow> u16 \<Rightarrow> circular_queue \<Rightarrow> circular_queue outcome" where
  "cq_unlock_irqrestore g k machine_id q =
     bind_outcome (ttas_unlock_kern g k machine_id (cq_lock q)) (\<lambda>c. Done (q \<lparr>cq_lock := c\<rparr>))"

definition init_circular_queue :: "granularity \<Rightarrow> circular_queue \<Rightarrow> circular_queue" where
  "init_circular_queue g q =
     (let q = q \<lparr>pos_read := store_release g (pos_read q) 0\<rparr>;
          q = q \<lparr>pos_write := store_release g (pos_write q) 0\<rparr>;
          q = cq_lock_init g q;
          q = q \<lparr>cq_data := map (\<lambda>c. store_release g c 0) (cq_data q)\<rparr>
      in \<lparr>pos_read = shmem_output_cacheline g (pos_read q), pos_write = shmem_output_cacheline g (pos_write q),
          cq_lock = shmem_output_cacheline g (cq_lock q), cq_data = map (shmem_output_cacheline g) (cq_data q)\<rparr>)"

definition store_position_steps :: "granularity \<Rightarrow> u64 \<Rightarrow> (u64 pcell \<Rightarrow> u64 pcell) list" where
  "store_position_steps g val =
     (if g = CACHELINE_GRANULAR then
        [\<lambda>pos. store_release g pos (val OR RINGBUF_POS_PERSIST_BIT), shmem_output_cacheline g,
         \<lambda>pos. store_release g pos val, shmem_output_cacheline g]
      else [\<lambda>pos. store_release g pos val])"

definition run_steps :: "('s \<Rightarrow> 's) list \<Rightarrow> 's \<Rightarrow> 's" where
  "run_steps fs s = fold (\<lambda>f s. f s) fs s"

definition circular_queue_store_position :: "granularity \<Rightarrow> u64 pcell \<Rightarrow> u64 \<Rightarrow> u64 pcell" where
  "circular_queue_store_position g pos val = run_steps (store_position_steps g val) pos"

definition circular_queue_load_position ::
  "granularity \<Rightarrow> circular_queue \<Rightarrow> (u64 \<times> u64) \<times> circular_queue" where
  "circular_queue_load_position g q =
     (let w = load_acquire (pos_write q); r = load_acquire (pos_read q)
      in if w AND RINGBUF_POS_PERSIST_BIT \<noteq> 0 \<or> r AND RINGBUF_POS_PERSIST_BIT \<noteq> 0 then
           ((r AND NOT RINGBUF_POS_PERSIST_BIT, w AND NOT RINGBUF_POS_PERSIST_BIT),
            q \<lparr>pos_read := shmem_output_cacheline g (pos_read q), pos_write := shmem_output_cacheline g (pos_write q)\<rparr>)
         else ((r, w), q))"

text \<open>What \<open>circular_queue_enqueue\<close> does to the queue once it found room: the entry is stored and flushed
  before the position that publishes it is stored and flushed.\<close>

definition cell_update :: "nat \<Rightarrow> (u64 pcell \<Rightarrow> u64 pcell) \<Rightarrow> circular_queue \<Rightarrow> circular_queue" where
  "cell_update i f q = q \<lparr>cq_data := (cq_data q) [i := f (cq_data q ! i)]\<rparr>"

definition enqueue_steps :: "granularity \<Rightarrow> u64 \<Rightarrow> u64 \<Rightarrow> u64 \<Rightarrow> (circular_queue \<Rightarrow> circular_queue) list" where
  "enqueue_steps g w next_w dat =
     [cell_update (unat w) (\<lambda>c. store_release g c dat), cell_update (unat w) (shmem_output_cacheline g)] @
     map pos_write_update (store_position_steps g next_w)"

definition enqueue_body :: "granularity \<Rightarrow> circular_queue \<Rightarrow> u64 \<Rightarrow> int \<times> circular_queue" where
  "enqueue_body g q dat =
     (let ((r, w), q) = circular_queue_load_position g q;
          next_w = (w + 1) mod word_of_nat CQUEUE_SIZE
      in if next_w = r then (-1, q) else (0, run_steps (enqueue_steps g w next_w dat) q))"

definition circular_queue_enqueue ::
  "granularity \<Rightarrow> cpu \<Rightarrow> u16 \<Rightarrow> env \<Rightarrow> circular_queue \<Rightarrow> u64 \<Rightarrow> (int \<times> circular_queue) outcome" where
  "circular_queue_enqueue g k proc_id es q dat =
     bind_outcome (cq_lock_irqsave g k proc_id es q) (\<lambda>q.
       let (ret, q) = enqueue_body g q dat
       in bind_outcome (cq_unlock_irqrestore g k proc_id q) (\<lambda>q. Done (ret, q)))"

definition dequeue_steps :: "granularity \<Rightarrow> u64 \<Rightarrow> (circular_queue \<Rightarrow> circular_queue) list" where
  "dequeue_steps g r = map pos_read_update (store_position_steps g ((r + 1) mod word_of_nat CQUEUE_SIZE))"

text \<open>The entry taken is \<open>None\<close> where the code returns \<open>-1\<close> and leaves \<open>*data\<close> alone.\<close>

definition dequeue_body :: "granularity \<Rightarrow> circular_queue \<Rightarrow> int \<times> u64 option \<times> circular_queue" where
  "dequeue_body g q =
     (let ((r, w), q) = circular_queue_load_position g q
      in if w = r then (-1, None, q)
         else (0, Some (cached (cq_data q ! unat r)), run_steps (dequeue_steps g r) q))"

definition circular_queue_dequeue ::
  "granularity \<Rightarrow> cpu \<Rightarrow> u16 \<Rightarrow> env \<Rightarrow> circular_queue \<Rightarrow> (int \<times> u64 option \<times> circular_queue) outcome" where
  "circular_queue_dequeue g k proc_id es q =
     bind_outcome (cq_lock_irqsave g k proc_id es q) (\<lambda>q.
       let (ret, dat, q) = dequeue_body g q
       in bind_outcome (cq_unlock_irqrestore g k proc_id q) (\<lambda>q. Done (ret, dat, q)))"

text \<open>Draining calls the public dequeue in a loop while it holds the lock itself. Each round comes with
  what others do to the queue before the call and with what they do to the lock during it.\<close>

fun drain_loop ::
  "granularity \<Rightarrow> cpu \<Rightarrow> u16 \<Rightarrow> ((circular_queue \<Rightarrow> circular_queue) \<times> env) list \<Rightarrow> circular_queue \<Rightarrow> circular_queue outcome" where
  "drain_loop g k machine_id [] q = Blocked"
| "drain_loop g k machine_id ((e, es) # rounds) q =
     bind_outcome (circular_queue_dequeue g k machine_id es (e q)) (\<lambda>(ret, dat, q).
       if ret \<noteq> -1 then drain_loop g k machine_id rounds q else Done q)"

definition drain_circular_queue ::
  "granularity \<Rightarrow> cpu \<Rightarrow> u16 \<Rightarrow> env \<Rightarrow> ((circular_queue \<Rightarrow> circular_queue) \<times> env) list \<Rightarrow>
    (circular_queue \<Rightarrow> circular_queue) \<Rightarrow> circular_queue \<Rightarrow> circular_queue outcome" where
  "drain_circular_queue g k machine_id es rounds e q =
     bind_outcome (cq_lock_irqsave g k machine_id es q) (\<lambda>q.
       bind_outcome (drain_loop g k machine_id rounds q) (\<lambda>q. cq_unlock_irqrestore g k machine_id (e q)))"

subsection \<open>Contents and invariant\<close>

definition pos_val :: "u64 \<Rightarrow> nat" where
  "pos_val v = unat (v AND CLEAR_DIRTY)"

definition cq_used :: "nat \<Rightarrow> nat \<Rightarrow> nat" where
  "cq_used r w = (w + CQUEUE_SIZE - r) mod CQUEUE_SIZE"

definition cq_contents :: "circular_queue \<Rightarrow> u64 list" where
  "cq_contents q =
     (let r = pos_val (cached (pos_read q)); w = pos_val (cached (pos_write q))
      in ring CQUEUE_SIZE r (cq_used r w) (\<lambda>i. cached (cq_data q ! i)))"

definition pos_ok :: "granularity \<Rightarrow> u64 pcell \<Rightarrow> bool" where
  "pos_ok g c \<longleftrightarrow> pos_val (cached c) < CQUEUE_SIZE \<and> (g \<noteq> DRAM \<longrightarrow> pos_val (media c) = pos_val (cached c))"

definition cq_ok :: "granularity \<Rightarrow> circular_queue \<Rightarrow> bool" where
  "cq_ok g q \<longleftrightarrow> pos_ok g (pos_read q) \<and> pos_ok g (pos_write q) \<and> length (cq_data q) = CQUEUE_SIZE \<and>
     (g \<noteq> DRAM \<longrightarrow> (\<forall>c\<in>set (cq_data q). media c = cached c))"

lemma persist_bit: "RINGBUF_POS_PERSIST_BIT = DIRTY" "NOT RINGBUF_POS_PERSIST_BIT = CLEAR_DIRTY"
  by (simp_all add: RINGBUF_POS_PERSIST_BIT_def DIRTY_def CLEAR_DIRTY_def)

lemma small_plain:
  assumes "unat (v :: u64) < CQUEUE_SIZE"
  shows "plain v" "pos_val v = unat v"
proof -
  have "bit v 63 \<longleftrightarrow> bit (unat v) 63" by (simp add: bit_unsigned_iff)
  also have "\<not> bit (unat v) 63" using assms by (simp add: bit_iff_odd CQUEUE_SIZE_def)
  finally show "plain v" by (simp add: plain_bit)
  then show "pos_val v = unat v" by (simp add: pos_val_def)
qed

lemma pos_val_dirty [simp]: "pos_val (v OR DIRTY) = pos_val v"
  by (simp add: pos_val_def)

lemma load_position:
  assumes "cq_ok g q"
  obtains r w q1 where "circular_queue_load_position g q = ((r, w), q1)"
    "unat r = pos_val (cached (pos_read q))" "unat w = pos_val (cached (pos_write q))"
    "cq_ok g q1" "cq_lock q1 = cq_lock q" "cq_data q1 = cq_data q"
    "cached (pos_read q1) = cached (pos_read q)" "cached (pos_write q1) = cached (pos_write q)"
proof -
  have flush: "pos_ok g c \<Longrightarrow> pos_ok g (shmem_output_cacheline g c)" "cached (shmem_output_cacheline g c) = cached c" for c
    by (auto simp: pos_ok_def shmem_output_cacheline_def)
  have plain: "v AND DIRTY = 0 \<Longrightarrow> pos_val v = unat v" for v by (simp add: pos_val_def plain_def [symmetric])
  show ?thesis
    by (rule that [of "fst (fst (circular_queue_load_position g q))" "snd (fst (circular_queue_load_position g q))"
          "snd (circular_queue_load_position g q)"])
      (use assms in \<open>auto simp: circular_queue_load_position_def load_acquire_def persist_bit(1) Let_def cq_ok_def flush plain
        pos_val_def [symmetric] CLEAR_DIRTY_def [symmetric]\<close>)
qed

lemma next_position:
  assumes "unat (w :: u64) < CQUEUE_SIZE"
  shows "unat ((w + 1) mod word_of_nat CQUEUE_SIZE) = Suc (unat w) mod CQUEUE_SIZE"
proof -
  have "unat (w + 1) = Suc (unat w)"
    using assms by (simp add: CQUEUE_SIZE_def unat_word_ariths)
  then show ?thesis by (simp add: CQUEUE_SIZE_def unat_mod_distrib)
qed

subsection \<open>Crashes\<close>

text \<open>After a crash a word holds the value that was in the cache or the one that was in memory, depending
  on whether the line had been evicted.\<close>

definition cell_image :: "u64 pcell \<Rightarrow> u64 pcell \<Rightarrow> bool" where
  "cell_image c c' \<longleftrightarrow> cached c' = media c' \<and> (media c' = cached c \<or> media c' = media c)"

definition crash_image :: "circular_queue \<Rightarrow> circular_queue \<Rightarrow> bool" where
  "crash_image q q' \<longleftrightarrow> cell_image (pos_read q) (pos_read q') \<and> cell_image (pos_write q) (pos_write q') \<and>
     cell_image (cq_lock q) (cq_lock q') \<and> list_all2 cell_image (cq_data q) (cq_data q')"

text \<open>The states between the steps of an enqueue: the cell behind the last entry is being written, and the
  position names the old end, or the new one once that cell is durable.\<close>

definition enqueuing :: "circular_queue \<Rightarrow> u64 \<Rightarrow> circular_queue \<Rightarrow> bool" where
  "enqueuing q x q1 \<longleftrightarrow>
     (let w = pos_val (cached (pos_write q))
      in pos_read q1 = pos_read q \<and> length (cq_data q1) = length (cq_data q) \<and>
         (\<forall>i<CQUEUE_SIZE. i \<noteq> w \<longrightarrow> cq_data q1 ! i = cq_data q ! i) \<and>
         (\<forall>v\<in>{cached (pos_write q1), media (pos_write q1)}.
            pos_val v = w \<or>
            pos_val v = Suc w mod CQUEUE_SIZE \<and> cached (cq_data q1 ! w) = x \<and> media (cq_data q1 ! w) = x))"

lemmas step_defs = run_steps_def store_position_steps_def enqueue_steps_def dequeue_steps_def cell_update_def
  store_release_def shmem_output_cacheline_def

lemma upto_six: "(k :: nat) = 0 \<or> k = 1 \<or> k = 2 \<or> k = 3 \<or> k = 4 \<or> k = 5 \<or> 6 \<le> k"
  by arith

lemma enqueue_enqueuing:
  assumes "cq_ok g q" "g \<noteq> DRAM" "unat w = pos_val (cached (pos_write q))"
  shows "enqueuing q x (run_steps (take k (enqueue_steps g w ((w + 1) mod word_of_nat CQUEUE_SIZE) x)) q)"
proof -
  let ?n = "(w + 1) mod word_of_nat CQUEUE_SIZE :: u64"
  have w: "unat w < CQUEUE_SIZE" using assms by (simp add: cq_ok_def pos_ok_def)
  have n: "pos_val ?n = Suc (unat w) mod CQUEUE_SIZE"
    using small_plain(2) [of ?n] next_position [OF w] by (simp add: CQUEUE_SIZE_def)
  have l: "length (cq_data q) = CQUEUE_SIZE" using assms by (simp add: cq_ok_def)
  have m: "pos_val (media (pos_write q)) = unat w" using assms by (simp add: cq_ok_def pos_ok_def)
  show ?thesis
  proof (cases "g = CACHELINE_GRANULAR")
    case True
    then show ?thesis
      using upto_six [of k] w n l m assms(3)
      by (elim disjE) (simp_all add: step_defs enqueuing_def Let_def persist_bit(1) take_Cons' nth_list_update)
  next
    case False
    with assms(2) have "g = BYTE_GRANULAR" by (cases g) auto
    then show ?thesis
      using upto_six [of k] w n l m assms(3)
      by (elim disjE) (simp_all add: step_defs enqueuing_def Let_def persist_bit(1) take_Cons' nth_list_update)
  qed
qed

lemma cq_used:
  assumes "r < CQUEUE_SIZE" "w < CQUEUE_SIZE"
  shows "cq_used r w < CQUEUE_SIZE" "(r + cq_used r w) mod CQUEUE_SIZE = w"
    and "cq_used r w = 0 \<longleftrightarrow> r = w" "Suc (cq_used r w) = CQUEUE_SIZE \<longleftrightarrow> Suc w mod CQUEUE_SIZE = r"
    and "Suc w mod CQUEUE_SIZE \<noteq> r \<Longrightarrow> cq_used r (Suc w mod CQUEUE_SIZE) = Suc (cq_used r w)"
    and "r \<noteq> w \<Longrightarrow> cq_used r w = Suc (cq_used (Suc r mod CQUEUE_SIZE) w)"
  using assms by (auto simp: cq_used_def CQUEUE_SIZE_def mod_if)

text \<open>How the contents depend on positions and cells; \<open>w\<close> is the first cell behind the entries of \<open>q\<close>.\<close>

lemma contents_cases:
  assumes "cq_ok g q" "pos_val (cached (pos_read q')) = pos_val (cached (pos_read q))"
    and w: "w = pos_val (cached (pos_write q))"
    and "\<And>i. i < CQUEUE_SIZE \<Longrightarrow> i \<noteq> w \<Longrightarrow> cached (cq_data q' ! i) = cached (cq_data q ! i)"
  shows "pos_val (cached (pos_write q')) = w \<Longrightarrow> cq_contents q' = cq_contents q"
    and "pos_val (cached (pos_write q')) = Suc w mod CQUEUE_SIZE \<Longrightarrow> cached (cq_data q' ! w) = x \<Longrightarrow>
      Suc w mod CQUEUE_SIZE \<noteq> pos_val (cached (pos_read q)) \<Longrightarrow> cq_contents q' = cq_contents q @ [x]"
proof -
  let ?r = "pos_val (cached (pos_read q))" and ?N = CQUEUE_SIZE
  have b: "?r < ?N" "w < ?N" using assms by (simp_all add: cq_ok_def pos_ok_def)
  note u = cq_used [OF b]
  have N: "0 < ?N" by (simp add: CQUEUE_SIZE_def)
  have old: "ring ?N ?r (cq_used ?r w) (\<lambda>i. cached (cq_data q' ! i)) = cq_contents q"
    unfolding cq_contents_def Let_def w [symmetric]
  proof (rule ring_cong)
    fix i assume i: "i < cq_used ?r w"
    then have "(?r + i) mod ?N \<noteq> w" using ring_cells_distinct [OF i u(1), of ?r] u(2) by simp
    with assms(4) N show "cached (cq_data q' ! ((?r + i) mod ?N)) = cached (cq_data q ! ((?r + i) mod ?N))" by simp
  qed
  show "pos_val (cached (pos_write q')) = w \<Longrightarrow> cq_contents q' = cq_contents q"
    using old assms(2) by (simp add: cq_contents_def [of q'])
  show "pos_val (cached (pos_write q')) = Suc w mod ?N \<Longrightarrow> cached (cq_data q' ! w) = x \<Longrightarrow>
      Suc w mod ?N \<noteq> ?r \<Longrightarrow> cq_contents q' = cq_contents q @ [x]"
    using old assms(2) u(2,5) by (simp add: cq_contents_def [of q'] ring_snoc)
qed

lemma enqueuing_image:
  assumes "cq_ok g q" "enqueuing q x q1" "crash_image q1 q'" "g \<noteq> DRAM"
    and "Suc (pos_val (cached (pos_write q))) mod CQUEUE_SIZE \<noteq> pos_val (cached (pos_read q))"
  shows "cq_contents q' = cq_contents q \<or> cq_contents q' = cq_contents q @ [x]"
proof -
  let ?w = "pos_val (cached (pos_write q))" and ?N = CQUEUE_SIZE
  have ok: "media (cq_data q ! i) = cached (cq_data q ! i)" "length (cq_data q) = ?N" if "i < ?N" for i
    using assms(1,4) that by (auto simp: cq_ok_def)
  have w: "?w < ?N" using assms(1) by (simp add: cq_ok_def pos_ok_def)
  have img: "cell_image (cq_data q1 ! i) (cq_data q' ! i)" if "i < ?N" for i
    using assms(2,3) that ok(2) [OF w] by (auto simp: crash_image_def enqueuing_def Let_def dest: list_all2_nthD)
  have cell: "cached (cq_data q' ! i) = cached (cq_data q ! i)" if "i < ?N" "i \<noteq> ?w" for i
    using img [OF that(1)] assms(2) ok(1) [OF that(1)] that by (auto simp: cell_image_def enqueuing_def Let_def)
  have rd: "pos_val (cached (pos_read q')) = pos_val (cached (pos_read q))"
    using assms(1-4) by (auto simp: crash_image_def cell_image_def enqueuing_def Let_def cq_ok_def pos_ok_def)
  have "cached (pos_write q') = cached (pos_write q1) \<or> cached (pos_write q') = media (pos_write q1)"
    using assms(3) by (auto simp: crash_image_def cell_image_def)
  then have "pos_val (cached (pos_write q')) = ?w \<or>
      pos_val (cached (pos_write q')) = Suc ?w mod ?N \<and> cached (cq_data q' ! ?w) = x"
    using assms(2) img [OF w] by (auto simp: enqueuing_def Let_def cell_image_def)
  with contents_cases [OF assms(1) rd refl cell] assms(5) show ?thesis by blast
qed

text \<open>The end of an enqueue and of a dequeue.\<close>

lemma set_data_update:
  assumes "cq_ok g q" "g \<noteq> DRAM \<longrightarrow> media c = cached c"
  shows "g \<noteq> DRAM \<longrightarrow> (\<forall>c\<in>set ((cq_data q) [i := c]). media c = cached c)"
  using assms set_update_subset_insert [of "cq_data q" i c] by (auto simp: cq_ok_def)

lemma enqueue_end:
  fixes x :: u64
  assumes "cq_ok g q" "unat w = pos_val (cached (pos_write q))"
    and room: "Suc (unat w) mod CQUEUE_SIZE \<noteq> pos_val (cached (pos_read q))"
  defines "q' \<equiv> run_steps (enqueue_steps g w ((w + 1) mod word_of_nat CQUEUE_SIZE) x) q"
  shows "cq_ok g q'" "cq_contents q' = cq_contents q @ [x]" "cq_lock q' = cq_lock q"
proof -
  let ?n = "(w + 1) mod word_of_nat CQUEUE_SIZE :: u64"
  have w: "unat w < CQUEUE_SIZE" using assms by (simp add: cq_ok_def pos_ok_def)
  have n: "pos_val ?n = Suc (unat w) mod CQUEUE_SIZE"
    using small_plain(2) [of ?n] next_position [OF w] by (simp add: CQUEUE_SIZE_def)
  have l: "length (cq_data q) = CQUEUE_SIZE" using assms by (simp add: cq_ok_def)
  obtain c where q': "pos_read q' = pos_read q" "cq_lock q' = cq_lock q" "cq_data q' = (cq_data q) [unat w := c]"
    "cached c = x" "g \<noteq> DRAM \<longrightarrow> media c = cached c" "cached (pos_write q') = ?n" "g \<noteq> DRAM \<longrightarrow> media (pos_write q') = ?n"
    using w l unfolding q'_def by (cases g) (auto simp: step_defs)
  show "cq_lock q' = cq_lock q" by (rule q'(2))
  show "cq_ok g q'"
    using assms(1) q' n l set_data_update [OF assms(1) q'(5), of "unat w"]
    by (auto simp: cq_ok_def pos_ok_def CQUEUE_SIZE_def)
  show "cq_contents q' = cq_contents q @ [x]"
    by (rule contents_cases(2) [OF assms(1) _ refl]) (use q' n w l room assms(2) in auto)
qed

lemma dequeue_end:
  assumes "cq_ok g q" "unat r = pos_val (cached (pos_read q))" "unat r \<noteq> pos_val (cached (pos_write q))"
  defines "q' \<equiv> run_steps (dequeue_steps g r) q"
  shows "cq_ok g q'" "cq_contents q = cached (cq_data q ! unat r) # cq_contents q'" "cq_lock q' = cq_lock q"
proof -
  let ?n = "(r + 1) mod word_of_nat CQUEUE_SIZE :: u64"
  have b: "unat r < CQUEUE_SIZE" "pos_val (cached (pos_write q)) < CQUEUE_SIZE"
    using assms by (simp_all add: cq_ok_def pos_ok_def)
  have n: "pos_val ?n = Suc (unat r) mod CQUEUE_SIZE"
    using small_plain(2) [of ?n] next_position [OF b(1)] by (simp add: CQUEUE_SIZE_def)
  have q': "pos_write q' = pos_write q" "cq_lock q' = cq_lock q" "cq_data q' = cq_data q"
    "cached (pos_read q') = ?n" "g \<noteq> DRAM \<longrightarrow> media (pos_read q') = ?n"
    unfolding q'_def by (cases g; simp add: step_defs)+
  show "cq_lock q' = cq_lock q" by (rule q'(2))
  show "cq_ok g q'" using assms(1) q' n by (auto simp: cq_ok_def pos_ok_def CQUEUE_SIZE_def)
  show "cq_contents q = cached (cq_data q ! unat r) # cq_contents q'"
    using q' n cq_used(6) [OF b] assms(2,3) b(1)
    by (simp add: cq_contents_def Let_def ring_Cons)
qed

text \<open>The same for a dequeue, which only moves the read position.\<close>

definition dequeuing :: "circular_queue \<Rightarrow> circular_queue \<Rightarrow> bool" where
  "dequeuing q q1 \<longleftrightarrow>
     (let r = pos_val (cached (pos_read q))
      in pos_write q1 = pos_write q \<and> cq_data q1 = cq_data q \<and>
         (\<forall>v\<in>{cached (pos_read q1), media (pos_read q1)}. pos_val v = r \<or> pos_val v = Suc r mod CQUEUE_SIZE))"

lemma dequeue_dequeuing:
  assumes "cq_ok g q" "g \<noteq> DRAM" "unat r = pos_val (cached (pos_read q))"
  shows "dequeuing q (run_steps (take k (dequeue_steps g r)) q)"
proof -
  let ?n = "(r + 1) mod word_of_nat CQUEUE_SIZE :: u64"
  have r: "unat r < CQUEUE_SIZE" "pos_val (media (pos_read q)) = unat r" using assms by (simp_all add: cq_ok_def pos_ok_def)
  have n: "pos_val ?n = Suc (unat r) mod CQUEUE_SIZE"
    using small_plain(2) [of ?n] next_position [OF r(1)] by (simp add: CQUEUE_SIZE_def)
  show ?thesis
    using upto_six [of k] r n assms(2,3)
    by (cases g; elim disjE) (simp_all add: step_defs dequeuing_def Let_def persist_bit(1) take_Cons')
qed

lemma image_cells:
  assumes "cq_ok g q" "g \<noteq> DRAM" "list_all2 cell_image (cq_data q) (cq_data q')" "i < CQUEUE_SIZE"
  shows "cached (cq_data q' ! i) = cached (cq_data q ! i)"
proof -
  have "i < length (cq_data q)" "media (cq_data q ! i) = cached (cq_data q ! i)"
    using assms(1,2,4) by (auto simp: cq_ok_def)
  with list_all2_nthD [OF assms(3) this(1)] show ?thesis by (auto simp: cell_image_def)
qed

lemma dequeuing_image:
  assumes "cq_ok g q" "dequeuing q q1" "crash_image q1 q'" "g \<noteq> DRAM"
    and "pos_val (cached (pos_read q)) \<noteq> pos_val (cached (pos_write q))"
  shows "cq_contents q' = cq_contents q \<or> cq_contents q' = tl (cq_contents q)"
proof -
  let ?r = "pos_val (cached (pos_read q))" and ?w = "pos_val (cached (pos_write q))" and ?N = CQUEUE_SIZE
  have b: "?r < ?N" "?w < ?N" using assms(1) by (simp_all add: cq_ok_def pos_ok_def)
  have wr: "pos_val (cached (pos_write q')) = ?w"
    using assms(1-4) by (auto simp: crash_image_def cell_image_def dequeuing_def Let_def cq_ok_def pos_ok_def)
  have data: "list_all2 cell_image (cq_data q) (cq_data q')"
    using assms(2,3) by (simp add: crash_image_def dequeuing_def Let_def)
  have "0 < ?N" by (simp add: CQUEUE_SIZE_def)
  then have ring: "ring ?N a n (\<lambda>i. cached (cq_data q' ! i)) = ring ?N a n (\<lambda>i. cached (cq_data q ! i))" for a n
    by (intro ring_cong image_cells [OF assms(1,4) data]) simp
  have "cached (pos_read q') = cached (pos_read q1) \<or> cached (pos_read q') = media (pos_read q1)"
    using assms(3) by (auto simp: crash_image_def cell_image_def)
  then have "pos_val (cached (pos_read q')) = ?r \<or> pos_val (cached (pos_read q')) = Suc ?r mod ?N"
    using assms(2) by (auto simp: dequeuing_def Let_def)
  then show ?thesis
    using wr ring cq_used(6) [OF b assms(5)] b(1) by (auto simp: cq_contents_def Let_def ring_Cons)
qed

text \<open>The states a locked operation passes through, from its start to its end.\<close>

fun cq_states :: "granularity \<Rightarrow> circular_queue \<Rightarrow> u64 qop \<Rightarrow> circular_queue list" where
  "cq_states g q (Enq x) =
     (let ((r, w), q1) = circular_queue_load_position g q;
          next_w = (w + 1) mod word_of_nat CQUEUE_SIZE;
          steps = (if next_w = r then [] else enqueue_steps g w next_w x)
      in q # map (\<lambda>k. run_steps (take k steps) q1) [0..<Suc (length steps)])"
| "cq_states g q Deq =
     (let ((r, w), q1) = circular_queue_load_position g q;
          steps = (if w = r then [] else dequeue_steps g r)
      in q # map (\<lambda>k. run_steps (take k steps) q1) [0..<Suc (length steps)])"

lemma cq_states_last:
  "last (cq_states g q (Enq x)) = snd (enqueue_body g q x)"
  "last (cq_states g q Deq) = snd (snd (dequeue_body g q))"
  by (auto simp: enqueue_body_def dequeue_body_def Let_def run_steps_def split: prod.splits)

lemma steady_image:
  assumes "cq_ok g q" "g \<noteq> DRAM" "crash_image q q'"
  shows "cq_contents q' = cq_contents q"
proof (rule contents_cases(1) [OF assms(1) _ refl])
  show "cached (cq_data q' ! i) = cached (cq_data q ! i)" if "i < CQUEUE_SIZE" for i
    by (rule image_cells [OF assms(1,2) _ that]) (use assms(3) in \<open>simp add: crash_image_def\<close>)
qed (use assms in \<open>auto simp: crash_image_def cell_image_def cq_ok_def pos_ok_def\<close>)

subsection \<open>The locked operations\<close>

definition cq_free :: "granularity \<Rightarrow> cpu \<Rightarrow> u16 \<Rightarrow> circular_queue \<Rightarrow> bool" where
  "cq_free g k m q \<longleftrightarrow> cq_ok g q \<and> pvalue g (cq_lock q) = UNLOCKED \<and> kernel_process k m \<noteq> None"

lemma contents_lock [simp]: "cq_contents (q \<lparr>cq_lock := c\<rparr>) = cq_contents q" "cq_ok g (q \<lparr>cq_lock := c\<rparr>) = cq_ok g q"
  by (simp_all add: cq_contents_def cq_ok_def)

lemma contents_same:
  "cq_data q1 = cq_data q \<Longrightarrow> cached (pos_read q1) = cached (pos_read q) \<Longrightarrow>
    cached (pos_write q1) = cached (pos_write q) \<Longrightarrow> cq_contents q1 = cq_contents q"
  by (simp add: cq_contents_def)

definition cq_cap :: nat where "cq_cap = CQUEUE_SIZE - 1"

lemma enqueue_body:
  assumes "cq_ok g q"
  obtains q' where "enqueue_body g q x = (if length (cq_contents q) < cq_cap then 0 else -1, q')" "cq_ok g q'"
    "cq_contents q' = snd (list_queue_step cq_cap (cq_contents q) (Enq x))"
proof -
  obtain r w q1 where l: "circular_queue_load_position g q = ((r, w), q1)"
    "unat r = pos_val (cached (pos_read q))" "unat w = pos_val (cached (pos_write q))" "cq_ok g q1" "cq_data q1 = cq_data q"
    "cached (pos_read q1) = cached (pos_read q)" "cached (pos_write q1) = cached (pos_write q)"
    by (rule load_position [OF assms(1)])
  have b: "unat r < CQUEUE_SIZE" "unat w < CQUEUE_SIZE" using assms(1) l by (simp_all add: cq_ok_def pos_ok_def)
  have "length (cq_contents q) = cq_used (unat r) (unat w)" using l by (simp add: cq_contents_def Let_def)
  with cq_used(1,4) [OF b] have room: "length (cq_contents q) < cq_cap \<longleftrightarrow> Suc (unat w) mod CQUEUE_SIZE \<noteq> unat r"
    by (auto simp: cq_cap_def)
  then have "(w + 1) mod word_of_nat CQUEUE_SIZE = r \<longleftrightarrow> \<not> length (cq_contents q) < cq_cap"
    using next_position [OF b(2)] by (metis word_unat_eq_iff)
  with enqueue_end(1,2) [OF l(4), of w x] l room contents_same [OF l(5-7)] that show ?thesis
    by (cases "length (cq_contents q) < cq_cap") (simp_all add: enqueue_body_def)
qed

lemma dequeue_body:
  assumes "cq_ok g q"
  obtains q' where "dequeue_body g q = (case cq_contents q of [] \<Rightarrow> (-1, None, q') | x # xs \<Rightarrow> (0, Some x, q'))" "cq_ok g q'"
    "cq_contents q' = tl (cq_contents q)"
proof -
  obtain r w q1 where l: "circular_queue_load_position g q = ((r, w), q1)"
    "unat r = pos_val (cached (pos_read q))" "unat w = pos_val (cached (pos_write q))" "cq_ok g q1" "cq_data q1 = cq_data q"
    "cached (pos_read q1) = cached (pos_read q)" "cached (pos_write q1) = cached (pos_write q)"
    by (rule load_position [OF assms(1)])
  have b: "unat r < CQUEUE_SIZE" "unat w < CQUEUE_SIZE" using assms(1) l by (simp_all add: cq_ok_def pos_ok_def)
  note same = contents_same [OF l(5-7)]
  show ?thesis
  proof (cases "w = r")
    case True
    then have "cq_contents q = []" using l cq_used(3) [OF b] by (simp add: cq_contents_def Let_def)
    with True l same that show ?thesis by (simp add: dequeue_body_def)
  next
    case False
    then have "unat r \<noteq> pos_val (cached (pos_write q1))" using l(3,7) by (metis word_unat_eq_iff)
    from dequeue_end(1,2) [OF l(4) _ this] l same False that show ?thesis
      by (simp add: dequeue_body_def)
  qed
qed

lemma lock_then:
  assumes "cq_free g k m q" "quiet_env g es"
  obtains c where "cq_lock_irqsave g k m es q = Done (q \<lparr>cq_lock := c\<rparr>)"
proof -
  from assms(1) obtain p where p: "kernel_process k m = Some p" by (auto simp: cq_free_def)
  obtain c where "ttas_lock g p es (cq_lock q) = Done c"
    using ttas_lock_free [OF _ assms(2), of "cq_lock q" p] assms(1) by (auto simp: cq_free_def)
  with p that show ?thesis by (simp add: cq_lock_irqsave_def ttas_lock_kern_def)
qed

lemma unlock_then:
  assumes "kernel_process k m \<noteq> None" "cq_ok g q"
  obtains c where "cq_unlock_irqrestore g k m q = Done (q \<lparr>cq_lock := c\<rparr>)" "cq_free g k m (q \<lparr>cq_lock := c\<rparr>)"
  using assms that by (auto simp: cq_unlock_irqrestore_def ttas_unlock_kern_def cq_free_def)

lemma circular_queue_enqueue:
  assumes "cq_free g k m q" "quiet_env g es"
  obtains q' where "circular_queue_enqueue g k m es q x = Done (if length (cq_contents q) < cq_cap then 0 else -1, q')"
    "cq_free g k m q'" "cq_contents q' = snd (list_queue_step cq_cap (cq_contents q) (Enq x))"
proof -
  obtain c where 1: "cq_lock_irqsave g k m es q = Done (q \<lparr>cq_lock := c\<rparr>)" by (rule lock_then [OF assms])
  have ok: "cq_ok g (q \<lparr>cq_lock := c\<rparr>)" "kernel_process k m \<noteq> None" using assms(1) by (simp_all add: cq_free_def)
  obtain q1 where 2: "enqueue_body g (q \<lparr>cq_lock := c\<rparr>) x = (if length (cq_contents q) < cq_cap then 0 else -1, q1)"
    "cq_ok g q1" "cq_contents q1 = snd (list_queue_step cq_cap (cq_contents q) (Enq x))"
    by (rule enqueue_body [OF ok(1), of x]) simp
  obtain c' where 3: "cq_unlock_irqrestore g k m q1 = Done (q1 \<lparr>cq_lock := c'\<rparr>)" "cq_free g k m (q1 \<lparr>cq_lock := c'\<rparr>)"
    by (rule unlock_then [OF ok(2) 2(2)])
  show ?thesis
    by (rule that [OF _ 3(2)]) (use 1 2 3(1) in \<open>simp_all add: circular_queue_enqueue_def\<close>)
qed

lemma circular_queue_dequeue_locked:
  assumes "cq_lock_irqsave g k m es q = Done (q \<lparr>cq_lock := c\<rparr>)" "cq_ok g q" "kernel_process k m \<noteq> None"
  obtains q' where
    "circular_queue_dequeue g k m es q = Done (case cq_contents q of [] \<Rightarrow> (-1, None, q') | x # xs \<Rightarrow> (0, Some x, q'))"
    "cq_free g k m q'" "cq_contents q' = tl (cq_contents q)"
proof -
  have ok: "cq_ok g (q \<lparr>cq_lock := c\<rparr>)" using assms(2) by simp
  obtain q1 where 2: "dequeue_body g (q \<lparr>cq_lock := c\<rparr>) = (case cq_contents q of [] \<Rightarrow> (-1, None, q1) | x # xs \<Rightarrow> (0, Some x, q1))"
    "cq_ok g q1" "cq_contents q1 = tl (cq_contents q)"
    by (rule dequeue_body [OF ok]) simp
  obtain c' where 3: "cq_unlock_irqrestore g k m q1 = Done (q1 \<lparr>cq_lock := c'\<rparr>)" "cq_free g k m (q1 \<lparr>cq_lock := c'\<rparr>)"
    by (rule unlock_then [OF assms(3) 2(2)])
  show ?thesis
    by (rule that [OF _ 3(2)]) (use assms(1) 2 3(1) in \<open>simp_all add: circular_queue_dequeue_def split: list.split\<close>)
qed

lemma circular_queue_dequeue:
  assumes "cq_free g k m q" "quiet_env g es"
  obtains q' where
    "circular_queue_dequeue g k m es q = Done (case cq_contents q of [] \<Rightarrow> (-1, None, q') | x # xs \<Rightarrow> (0, Some x, q'))"
    "cq_free g k m q'" "cq_contents q' = tl (cq_contents q)"
  by (rule lock_then [OF assms], erule circular_queue_dequeue_locked) (use assms(1) that in \<open>auto simp: cq_free_def\<close>)

lemma drain_loop_empties:
  assumes "\<exists>c. cq_lock_irqsave g k m es q = Done (q \<lparr>cq_lock := c\<rparr>)" "cq_ok g q" "kernel_process k m \<noteq> None"
    and "quiet_env g es" "length (cq_contents q) < n"
  shows "\<exists>q'. drain_loop g k m (replicate n (\<lambda>q. q, es)) q = Done q' \<and> cq_free g k m q' \<and> cq_contents q' = []"
  using assms(1,2,5)
proof (induction n arbitrary: q)
  case (Suc n)
  from Suc.prems(1) obtain c where c: "cq_lock_irqsave g k m es q = Done (q \<lparr>cq_lock := c\<rparr>)" ..
  obtain q1 where 1: "circular_queue_dequeue g k m es q = Done (case cq_contents q of [] \<Rightarrow> (-1, None, q1) | x # xs \<Rightarrow> (0, Some x, q1))"
    "cq_free g k m q1" "cq_contents q1 = tl (cq_contents q)"
    by (rule circular_queue_dequeue_locked [OF c Suc.prems(2) assms(3)])
  show ?case
  proof (cases "cq_contents q")
    case Nil
    with 1 show ?thesis by simp
  next
    case (Cons x xs)
    obtain c1 where "cq_lock_irqsave g k m es q1 = Done (q1 \<lparr>cq_lock := c1\<rparr>)" by (rule lock_then [OF 1(2) assms(4)])
    then have "\<exists>q'. drain_loop g k m (replicate n (\<lambda>q. q, es)) q1 = Done q' \<and> cq_free g k m q' \<and> cq_contents q' = []"
      using 1 Cons Suc.prems(3) by (intro Suc.IH) (auto simp: cq_free_def)
    with 1(1) Cons show ?thesis by simp
  qed
qed simp

lemma drain_loop_locked:
  assumes "cq_free g k m q" "quiet_env g es" "length (cq_contents q) < n"
  obtains q0 q1 where "cq_lock_irqsave g k m es q = Done q0"
    "drain_loop g k m (replicate n (\<lambda>q. q, es)) q0 = Done q1" "cq_free g k m q1" "cq_contents q1 = []"
proof -
  from assms(1) obtain p where p: "kernel_process k m = Some p" by (auto simp: cq_free_def)
  obtain c where c: "ttas_lock g p es (cq_lock q) = Done c" "pvalue g c = lock_val p"
    using ttas_lock_free [OF _ assms(2), of "cq_lock q" p] assms(1) by (auto simp: cq_free_def)
  let ?q0 = "q \<lparr>cq_lock := c\<rparr>"
  have 0: "cq_lock_irqsave g k m es q = Done ?q0" using c(1) p by (simp add: cq_lock_irqsave_def ttas_lock_kern_def)
  obtain c' where "ttas_lock g p es c = Done c'" by (rule ttas_lock_mine [OF c(2)])
  then have "\<exists>c'. cq_lock_irqsave g k m es ?q0 = Done (?q0 \<lparr>cq_lock := c'\<rparr>)"
    using p by (auto simp: cq_lock_irqsave_def ttas_lock_kern_def intro: exI [of _ c'])
  then have "\<exists>q1. drain_loop g k m (replicate n (\<lambda>q. q, es)) ?q0 = Done q1 \<and> cq_free g k m q1 \<and> cq_contents q1 = []"
    by (rule drain_loop_empties) (use assms in \<open>auto simp: cq_free_def\<close>)
  with 0 that show ?thesis by blast
qed

lemma init_circular_queue_free:
  assumes "length (cq_data q) = CQUEUE_SIZE" "kernel_process k m \<noteq> None"
  shows "cq_free g k m (init_circular_queue g q)" "cq_contents (init_circular_queue g q) = []"
proof -
  have lock: "pvalue g (shmem_output_cacheline g (ttas_init g c)) = UNLOCKED" for c
    using persist_write_value [of g UNLOCKED c]
    by (cases g) (simp_all add: ttas_init_def persist_atomic_write_uint64_def shmem_output_cacheline_def pcas_defs)
  have "pos_val 0 = 0" by (simp add: pos_val_def)
  with assms lock show "cq_free g k m (init_circular_queue g q)"
    by (cases g) (auto simp: cq_free_def cq_ok_def pos_ok_def init_circular_queue_def cq_lock_init_def Let_def
        shmem_output_cacheline_def store_release_def CQUEUE_SIZE_def)
  show "cq_contents (init_circular_queue g q) = []"
    by (simp add: cq_contents_def init_circular_queue_def cq_lock_init_def Let_def shmem_output_cacheline_def
        store_release_def \<open>pos_val 0 = 0\<close> cq_used_def)
qed

subsection \<open>The queue contract\<close>

definition cq_enq :: "granularity \<Rightarrow> cpu \<Rightarrow> u16 \<Rightarrow> circular_queue \<Rightarrow> u64 \<Rightarrow> bool \<times> circular_queue" where
  "cq_enq g k m q x =
     (case circular_queue_enqueue g k m [\<lambda>c. c, \<lambda>c. c] q x of Done (ret, q') \<Rightarrow> (ret = 0, q') | _ \<Rightarrow> (False, q))"

definition cq_deq :: "granularity \<Rightarrow> cpu \<Rightarrow> u16 \<Rightarrow> circular_queue \<Rightarrow> u64 option \<times> circular_queue" where
  "cq_deq g k m q = (case circular_queue_dequeue g k m [\<lambda>c. c, \<lambda>c. c] q of Done (ret, dat, q') \<Rightarrow> (dat, q') | _ \<Rightarrow> (None, q))"

interpretation cqueue: bounded_fifo "cq_free g k m" cq_contents "cq_enq g k m" "cq_deq g k m" cq_cap "\<lambda>_. True"
proof unfold_locales
  fix q :: circular_queue and x :: u64
  assume free: "cq_free g k m q"
  obtain q' where e: "circular_queue_enqueue g k m [\<lambda>c. c, \<lambda>c. c] q x = Done (if length (cq_contents q) < cq_cap then 0 else -1, q')"
    "cq_free g k m q'" "cq_contents q' = snd (list_queue_step cq_cap (cq_contents q) (Enq x))"
    by (rule circular_queue_enqueue [OF free quiet_env_calm])
  show "length (cq_contents q) < cq_cap \<Longrightarrow> \<exists>q'. cq_enq g k m q x = (True, q') \<and> cq_free g k m q' \<and> cq_contents q' = cq_contents q @ [x]"
    using e by (simp add: cq_enq_def)
  show "cq_cap \<le> length (cq_contents q) \<Longrightarrow> \<exists>q'. cq_enq g k m q x = (False, q') \<and> cq_free g k m q' \<and> cq_contents q' = cq_contents q"
    using e by (simp add: cq_enq_def)
  obtain q' where d: "circular_queue_dequeue g k m [\<lambda>c. c, \<lambda>c. c] q = Done (case cq_contents q of [] \<Rightarrow> (-1, None, q') | x # xs \<Rightarrow> (0, Some x, q'))"
    "cq_free g k m q'" "cq_contents q' = tl (cq_contents q)"
    by (rule circular_queue_dequeue [OF free quiet_env_calm])
  show "cq_contents q = x # xs \<Longrightarrow> \<exists>q'. cq_deq g k m q = (Some x, q') \<and> cq_free g k m q' \<and> cq_contents q' = xs" for xs
    using d by (simp add: cq_deq_def)
  show "cq_contents q = [] \<Longrightarrow> \<exists>q'. cq_deq g k m q = (None, q') \<and> cq_free g k m q' \<and> cq_contents q' = []"
    using d by (simp add: cq_deq_def)
qed

subsection \<open>Properties\<close>

text \<open>C20: A freshly initialised circular queue behaves as a first-in first-out queue of at most 127 entries:
  any sequence of uncontended enqueues and dequeues accepts, refuses and returns exactly what the list does,
  and leaves the list in the ring. One of the 128 cells stays unused, and each operation leaves the lock free.\<close>

theorem circular_queue_refines:
  assumes "length (cq_data q0) = CQUEUE_SIZE" "kernel_process k m = Some p"
  shows "\<exists>q. queue_run (cq_enq g k m) (cq_deq g k m) (init_circular_queue g q0) ops = (fst (list_queue_run 127 [] ops), q) \<and>
    cq_contents q = snd (list_queue_run 127 [] ops) \<and> pvalue g (cq_lock q) = UNLOCKED"
proof -
  note i = init_circular_queue_free [OF assms(1), of k m g]
  have "list_all (op_storable (\<lambda>_. True)) ops" by (simp add: list_all_iff) (metis op_storable.simps qop.exhaust)
  moreover have "cq_cap = 127" by (simp add: cq_cap_def CQUEUE_SIZE_def)
  ultimately show ?thesis using cqueue.run_refines [OF i(1), of ops] i(2) assms(2) by (auto simp: cq_free_def)
qed

text \<open>The queue of the witnesses: memory with arbitrary contents, owned by CPU 1 of machine 2.\<close>

definition ex_cpu :: cpu where "ex_cpu = \<lparr>nr_cpu_ids = 4, cpu_id = 1\<rparr>"

definition ex_raw :: circular_queue where
  "ex_raw = \<lparr>pos_read = \<lparr>cached = 5, media = 6\<rparr>, pos_write = \<lparr>cached = 7, media = 8\<rparr>, cq_lock = \<lparr>cached = 9, media = 9\<rparr>,
     cq_data = replicate 128 \<lparr>cached = 3, media = 4\<rparr>\<rparr>"

lemma ex_raw: "length (cq_data ex_raw) = CQUEUE_SIZE" "kernel_process ex_cpu 2 = Some 5"
  by (simp_all add: ex_raw_def ex_cpu_def CQUEUE_SIZE_def kernel_process_def get_process_identifier_def Let_def)

theorem circular_queue_refines_witness:
  "\<exists>q. queue_run (cq_enq CACHELINE_GRANULAR ex_cpu 2) (cq_deq CACHELINE_GRANULAR ex_cpu 2)
      (init_circular_queue CACHELINE_GRANULAR ex_raw) [Enq 10, Enq 20, Deq, Deq, Deq] =
      ([Accepted, Accepted, Got 10, Got 20, Empty], q) \<and> cq_contents q = []"
proof -
  have "\<exists>q. queue_run (cq_enq CACHELINE_GRANULAR ex_cpu 2) (cq_deq CACHELINE_GRANULAR ex_cpu 2)
      (init_circular_queue CACHELINE_GRANULAR ex_raw) [Enq 10, Enq 20, Deq, Deq, Deq] =
      (fst (list_queue_run 127 [] [Enq 10, Enq 20, Deq, Deq, Deq]), q) \<and>
      cq_contents q = snd (list_queue_run 127 [] [Enq 10, Enq 20, Deq, Deq, Deq]) \<and>
      pvalue CACHELINE_GRANULAR (cq_lock q) = UNLOCKED"
    by (rule circular_queue_refines [OF ex_raw])
  then show ?thesis by auto
qed

text \<open>C21: Enqueue and dequeue are atomic with respect to crashes. Whatever the state between two stores or
  flushes of an operation and whichever lines had reached memory by then, the queue found after the crash
  holds the entries from before the operation or the entries from after it, with every entry intact.\<close>

theorem circular_queue_crash_atomic:
  assumes "cq_ok g q" "g \<noteq> DRAM" "s \<in> set (cq_states g q op)" "crash_image s q'"
  shows "cq_contents q' = cq_contents q \<or> cq_contents q' = snd (list_queue_step 127 (cq_contents q) op)"
proof -
  obtain r w q1 where l: "circular_queue_load_position g q = ((r, w), q1)"
    "unat r = pos_val (cached (pos_read q))" "unat w = pos_val (cached (pos_write q))" "cq_ok g q1" "cq_data q1 = cq_data q"
    "cached (pos_read q1) = cached (pos_read q)" "cached (pos_write q1) = cached (pos_write q)"
    by (rule load_position [OF assms(1)])
  have b: "unat r < CQUEUE_SIZE" "unat w < CQUEUE_SIZE" using assms(1) l by (simp_all add: cq_ok_def pos_ok_def)
  have same: "cq_contents q1 = cq_contents q" by (rule contents_same [OF l(5-7)])
  have len: "length (cq_contents q) = cq_used (unat r) (unat w)" using l by (simp add: cq_contents_def Let_def)
  have steady: "s = q \<or> s = q1 \<Longrightarrow> ?thesis"
    using steady_image [OF assms(1,2), of q'] steady_image [OF l(4) assms(2), of q'] assms(4) same by auto
  show ?thesis
  proof (cases op)
    case (Enq x)
    let ?n = "(w + 1) mod word_of_nat CQUEUE_SIZE"
    show ?thesis
    proof (cases "s = q \<or> ?n = r")
      case True
      with steady assms(3) l(1) Enq show ?thesis by (auto simp: run_steps_def)
    next
      case False
      then obtain j where s: "s = run_steps (take j (enqueue_steps g w ?n x)) q1" using assms(3) l(1) Enq by (auto simp: Let_def simp del: upt_Suc)
      have room: "Suc (unat w) mod CQUEUE_SIZE \<noteq> unat r" using False next_position [OF b(2)] by (metis word_unat_eq_iff)
      have "enqueuing q1 x s" unfolding s by (rule enqueue_enqueuing [OF l(4) assms(2)]) (simp add: l)
      from enqueuing_image [OF l(4) this assms(4,2)] room l same
      have "cq_contents q' = cq_contents q \<or> cq_contents q' = cq_contents q @ [x]" by simp
      moreover have "length (cq_contents q) < 127" using len cq_used(1,4) [OF b] room by (simp add: CQUEUE_SIZE_def)
      ultimately show ?thesis using Enq by simp
    qed
  next
    case Deq
    show ?thesis
    proof (cases "s = q \<or> w = r")
      case True
      with steady assms(3) l(1) Deq show ?thesis by (auto simp: run_steps_def)
    next
      case False
      then obtain j where s: "s = run_steps (take j (dequeue_steps g r)) q1" using assms(3) l(1) Deq by (auto simp: Let_def simp del: upt_Suc)
      have ne: "unat r \<noteq> unat w" using False by (metis word_unat_eq_iff)
      have "dequeuing q1 s" unfolding s by (rule dequeue_dequeuing [OF l(4) assms(2)]) (simp add: l)
      from dequeuing_image [OF l(4) this assms(4,2)] ne l same
      have "cq_contents q' = cq_contents q \<or> cq_contents q' = tl (cq_contents q)" by simp
      then show ?thesis using Deq by (cases "cq_contents q") simp_all
    qed
  qed
qed

text \<open>A crash in which no line is evicted keeps only what had been flushed.\<close>

definition cq_lose_cache :: "circular_queue \<Rightarrow> circular_queue" where
  "cq_lose_cache q = \<lparr>pos_read = lose_cache (pos_read q), pos_write = lose_cache (pos_write q), cq_lock = lose_cache (cq_lock q),
     cq_data = map lose_cache (cq_data q)\<rparr>"

lemma crash_image_lose: "crash_image q (cq_lose_cache q)"
  by (simp add: crash_image_def cq_lose_cache_def cell_image_def lose_cache_def list_all2_map2 list_all2_same)

theorem circular_queue_crash_atomic_witness:
  "cq_contents (cq_lose_cache (last (cq_states CACHELINE_GRANULAR (init_circular_queue CACHELINE_GRANULAR ex_raw) (Enq 10)))) \<in> {[], [10]}"
proof -
  let ?q = "init_circular_queue CACHELINE_GRANULAR ex_raw"
  have i: "cq_free CACHELINE_GRANULAR ex_cpu 2 ?q" "cq_contents ?q = []"
    using init_circular_queue_free [OF ex_raw(1), of ex_cpu 2 CACHELINE_GRANULAR] ex_raw(2) by simp_all
  have "cq_states CACHELINE_GRANULAR ?q (Enq 10) \<noteq> []" by (simp add: Let_def split: prod.splits)
  then have "last (cq_states CACHELINE_GRANULAR ?q (Enq 10)) \<in> set (cq_states CACHELINE_GRANULAR ?q (Enq 10))" by (rule last_in_set)
  from circular_queue_crash_atomic [OF _ _ this crash_image_lose] i show ?thesis by (simp add: cq_free_def)
qed

text \<open>C22: Draining terminates and empties the queue when no other process adds entries: a queue of \<open>n\<close> entries
  is empty after \<open>n + 1\<close> rounds of the loop, and the lock is free.\<close>

theorem drain_empties:
  assumes "cq_free g k m q" "quiet_env g es" "length (cq_contents q) < n"
  shows "\<exists>q'. drain_circular_queue g k m es (replicate n (\<lambda>q. q, es)) (\<lambda>q. q) q = Done q' \<and> cq_contents q' = [] \<and> cq_free g k m q'"
proof -
  obtain q0 q1 where d: "cq_lock_irqsave g k m es q = Done q0" "drain_loop g k m (replicate n (\<lambda>q. q, es)) q0 = Done q1"
    "cq_free g k m q1" "cq_contents q1 = []" by (rule drain_loop_locked [OF assms])
  obtain c where "cq_unlock_irqrestore g k m q1 = Done (q1 \<lparr>cq_lock := c\<rparr>)" "cq_free g k m (q1 \<lparr>cq_lock := c\<rparr>)"
    using d(3) by (auto simp: cq_free_def intro: unlock_then [of k m g q1])
  with d show ?thesis by (simp add: drain_circular_queue_def)
qed

theorem drain_empties_witness:
  "\<exists>q'. drain_circular_queue CACHELINE_GRANULAR ex_cpu 2 [\<lambda>c. c, \<lambda>c. c] (replicate 1 (\<lambda>q. q, [\<lambda>c. c, \<lambda>c. c])) (\<lambda>q. q)
      (init_circular_queue CACHELINE_GRANULAR ex_raw) = Done q' \<and> cq_contents q' = [] \<and> cq_free CACHELINE_GRANULAR ex_cpu 2 q'"
  using init_circular_queue_free [OF ex_raw(1), of ex_cpu 2 CACHELINE_GRANULAR] ex_raw(2)
  by (intro drain_empties) simp_all

text \<open>The lock that \<open>drain_circular_queue\<close> takes does not protect it. The dequeues it calls find the lock
  already owned and release it, so that after the last of them another process \<open>p\<close> can enter; the final
  unlock of the drain then frees the lock while \<open>p\<close> is inside.\<close>

lemma drain_releases_foreign_lock:
  assumes "cq_free g k m q" "quiet_env g es" "length (cq_contents q) < n"
  shows "\<exists>q0 q1 q'. cq_lock_irqsave g k m es q = Done q0 \<and> drain_loop g k m (replicate n (\<lambda>q. q, es)) q0 = Done q1 \<and>
    fst (ttas_try_enter g p (cq_lock q1)) \<and>
    drain_circular_queue g k m es (replicate n (\<lambda>q. q, es)) (\<lambda>q. q \<lparr>cq_lock := snd (ttas_try_enter g p (cq_lock q))\<rparr>) q = Done q' \<and>
    pvalue g (cq_lock q') = UNLOCKED"
proof -
  obtain q0 q1 where d: "cq_lock_irqsave g k m es q = Done q0" "drain_loop g k m (replicate n (\<lambda>q. q, es)) q0 = Done q1"
    "cq_free g k m q1" by (rule drain_loop_locked [OF assms])
  let ?q2 = "q1 \<lparr>cq_lock := snd (ttas_try_enter g p (cq_lock q1))\<rparr>"
  obtain c where c: "cq_unlock_irqrestore g k m ?q2 = Done (?q2 \<lparr>cq_lock := c\<rparr>)" "cq_free g k m (?q2 \<lparr>cq_lock := c\<rparr>)"
    using d(3) by (auto simp: cq_free_def intro: unlock_then [of k m g ?q2])
  have "fst (ttas_try_enter g p (cq_lock q1))"
    using d(3) pcas64_cas(1) [of g "cq_lock q1" UNLOCKED "lock_val p"]
    by (auto simp: ttas_try_enter_def cq_free_def lock_val_gen_0 split: prod.splits)
  with c d(1,2) show ?thesis by (simp add: drain_circular_queue_def cq_free_def)
qed

end
