(* ===== verification/Cxl_Cgroup.thy ===== *)
theory Cxl_Cgroup
  imports TTAS_Lock Obj_Records
begin

text \<open>
  Process groups and generations shared by the machines, \<^verbatim>\<open>src/driver/src/cxl_cgroup.c\<close> and
  \<^verbatim>\<open>src/driver/src/cxl_cgroup.h\<close>, with the message words of \<^verbatim>\<open>src/driver/src/uapi/cxl_cgroup_udef.h\<close>. The record
  \<open>cxlcg_meta\<close> is the structure in shared memory, \<open>cg_local\<close> the static variables of one kernel. The
  detection of failed machines, which also recovers the allocator, is in theory \<open>Failure_Detection\<close>.

  The lock of the structure is taken as in theory \<open>TTAS_Lock\<close>; the other fields are those found once it
  is taken. An access outside the tables and a secret without terminating zero are undefined in the
  code and modelled by \<open>Bug\<close>. Printing and time stamps are omitted.
\<close>

unbundle bit_operations_syntax

subsection \<open>Message words\<close>

definition MSG_TYPE_SHIFT :: nat where "MSG_TYPE_SHIFT = 62"
definition OS_ID_SHIFT :: nat where "OS_ID_SHIFT = 48"
definition PROC_ID_SHIFT :: nat where "PROC_ID_SHIFT = 32"
definition MSG_TYPE_MASK :: u64 where "MSG_TYPE_MASK = push_bit MSG_TYPE_SHIFT 0x3"
definition OS_ID_MASK :: u64 where "OS_ID_MASK = push_bit OS_ID_SHIFT 0x3fff"
definition PROC_ID_MASK :: u64 where "PROC_ID_MASK = push_bit PROC_ID_SHIFT 0xffff"
definition GEN_ID_MASK :: u64 where "GEN_ID_MASK = 0xffffffff"

definition GET_OS_ID :: "u64 \<Rightarrow> u32" where "GET_OS_ID x = ucast (drop_bit OS_ID_SHIFT (x AND OS_ID_MASK))"
definition GET_PROC_ID :: "u64 \<Rightarrow> u32" where "GET_PROC_ID x = ucast (drop_bit PROC_ID_SHIFT (x AND PROC_ID_MASK))"
definition GET_GEN_ID :: "u64 \<Rightarrow> u32" where "GET_GEN_ID x = ucast (x AND GEN_ID_MASK)"
definition GET_MSG_TYPE :: "u64 \<Rightarrow> u32" where "GET_MSG_TYPE x = ucast (drop_bit MSG_TYPE_SHIFT (x AND MSG_TYPE_MASK))"

definition SET_OS_ID :: "u64 \<Rightarrow> u64 \<Rightarrow> u64" where "SET_OS_ID x y = (x AND NOT OS_ID_MASK) + push_bit 48 y"
definition SET_PROC_ID :: "u64 \<Rightarrow> u64 \<Rightarrow> u64" where "SET_PROC_ID x y = (x AND NOT PROC_ID_MASK) + push_bit 32 y"
definition SET_GEN_ID :: "u64 \<Rightarrow> u64 \<Rightarrow> u64" where "SET_GEN_ID x y = (x AND NOT GEN_ID_MASK) + (y AND GEN_ID_MASK)"
definition SET_MSG_TYPE :: "u64 \<Rightarrow> u64 \<Rightarrow> u64" where "SET_MSG_TYPE x y = (x AND NOT MSG_TYPE_MASK) + push_bit 62 y"

definition MSG_TYPE_OS_FAILURE :: u64 where "MSG_TYPE_OS_FAILURE = 0"
definition MSG_TYPE_LEADER_CHANGE :: u64 where "MSG_TYPE_LEADER_CHANGE = 1"
definition MSG_TYPE_PROC_FAILURE :: u64 where "MSG_TYPE_PROC_FAILURE = 2"

subsection \<open>The structures\<close>

definition SECRET_STR_LEN :: nat where "SECRET_STR_LEN = 20"
definition MAX_PROC_PER_GROUP :: nat where "MAX_PROC_PER_GROUP = 16"
definition MAX_GROUP_NUM :: nat where "MAX_GROUP_NUM = 50"
definition VCXL_MAX_SUPPORTED_MACHINES :: nat where "VCXL_MAX_SUPPORTED_MACHINES = 16"

text \<open>A task is the address of its structure in the kernel that stored it; 0 is the null pointer.\<close>

record member_proc =
  mp_osii :: u64
  mp_local_proc_id :: u64
  mp_tsk :: nat
  mp_in_use :: bool

record cxlcg_entry =
  ce_procs :: "member_proc list"
  ce_secret_str :: "u8 list"
  ce_in_use :: bool

record cxlcg_meta =
  cm_entries :: "cxlcg_entry list"
  cm_os_generation_ids :: "u32 list"
  cm_os_heartbeats :: "u32 list"
  cm_cur_leader_osii :: u64
  cm_meta_lock :: "u64 pcell"

record cg_local =
  cl_os_gen_ids_snapshot :: "u32 list"
  cl_os_heartbeats :: "u32 list"
  cl_my_osii :: u64
  cl_os_live :: "bool list"

definition zero_member :: member_proc where
  "zero_member = \<lparr>mp_osii = 0, mp_local_proc_id = 0, mp_tsk = 0, mp_in_use = False\<rparr>"

definition zero_entry :: cxlcg_entry where
  "zero_entry = \<lparr>ce_procs = replicate MAX_PROC_PER_GROUP zero_member, ce_secret_str = replicate SECRET_STR_LEN 0, ce_in_use = False\<rparr>"

subsection \<open>Generations and the lock\<close>

definition get_os_gen_id :: "cxlcg_meta \<Rightarrow> u16 \<Rightarrow> u32 option" where
  "get_os_gen_id cm machine_id =
     (if unat machine_id < length (cm_os_generation_ids cm) then Some (cm_os_generation_ids cm ! unat machine_id) else None)"

definition increment_gen_id :: "u16 \<Rightarrow> cxlcg_meta \<Rightarrow> cxlcg_meta outcome" where
  "increment_gen_id machine_id cm =
     (case get_os_gen_id cm (machine_id - 1) of
        None \<Rightarrow> Bug
      | Some gen \<Rightarrow>
          Done (cm \<lparr>cm_os_generation_ids := (cm_os_generation_ids cm) [unat (machine_id - 1) := gen + 1]\<rparr>))"

definition recoverable_lock_init :: "granularity \<Rightarrow> cxlcg_meta \<Rightarrow> cxlcg_meta" where
  "recoverable_lock_init g cm = cm \<lparr>cm_meta_lock := ttas_init g (cm_meta_lock cm)\<rparr>"

definition recoverable_lock :: "granularity \<Rightarrow> cpu \<Rightarrow> u16 \<Rightarrow> env \<Rightarrow> cxlcg_meta \<Rightarrow> cxlcg_meta outcome" where
  "recoverable_lock g k machine_id es cm =
     (case get_os_gen_id cm (machine_id - 1) of
        None \<Rightarrow> Bug
      | Some gen_id \<Rightarrow>
          bind_outcome (ttas_lock_with_gen_kern g k machine_id gen_id es (cm_meta_lock cm))
            (\<lambda>c. Done (cm \<lparr>cm_meta_lock := c\<rparr>)))"

definition recoverable_unlock :: "granularity \<Rightarrow> cpu \<Rightarrow> u16 \<Rightarrow> cxlcg_meta \<Rightarrow> cxlcg_meta outcome" where
  "recoverable_unlock g k machine_id cm =
     bind_outcome (do_ttas_unlock g k machine_id (cm_meta_lock cm)) (\<lambda>c. Done (cm \<lparr>cm_meta_lock := c\<rparr>))"

definition recoverable_lock_recover ::
  "granularity \<Rightarrow> cpu \<Rightarrow> u16 \<Rightarrow> u16 \<Rightarrow> cxlcg_meta \<Rightarrow> (transfer_st \<times> cxlcg_meta) outcome" where
  "recoverable_lock_recover g k machine_id old_machine_id cm =
     (case get_os_gen_id cm (machine_id - 1) of
        None \<Rightarrow> Bug
      | Some gen_id \<Rightarrow>
          bind_outcome (do_ttas_lock_recover g k old_machine_id machine_id gen_id (cm_meta_lock cm))
            (\<lambda>(st, c). Done (st, cm \<lparr>cm_meta_lock := c\<rparr>)))"

definition recoverable_lock_done_recover ::
  "granularity \<Rightarrow> cpu \<Rightarrow> u16 \<Rightarrow> transfer_st \<Rightarrow> cxlcg_meta \<Rightarrow> cxlcg_meta outcome" where
  "recoverable_lock_done_recover g k machine_id st cm =
     bind_outcome (done_ttas_lock_recover g k machine_id st (cm_meta_lock cm)) (\<lambda>c. Done (cm \<lparr>cm_meta_lock := c\<rparr>))"

subsection \<open>Initialisation and recovery\<close>

definition init_cxlcg_meta ::
  "granularity \<Rightarrow> u16 \<Rightarrow> cg_local \<Rightarrow> cxlcg_meta \<Rightarrow> (cg_local \<times> cxlcg_meta) outcome" where
  "init_cxlcg_meta g machine_id cl cm =
     (let n = VCXL_MAX_SUPPORTED_MACHINES;
          cm = \<lparr>cm_entries = replicate MAX_GROUP_NUM zero_entry, cm_os_generation_ids = replicate n 0,
                cm_os_heartbeats = replicate n 0, cm_cur_leader_osii = 0,
                cm_meta_lock = store_release g (cm_meta_lock cm) 0\<rparr>;
          cl = cl \<lparr>cl_os_live := replicate n True, cl_os_heartbeats := replicate n 0\<rparr>;
          cm = recoverable_lock_init g cm;
          cl = cl \<lparr>cl_os_gen_ids_snapshot := cm_os_generation_ids cm\<rparr>;
          my_osii = SET_OS_ID (cl_my_osii cl) (ucast machine_id)
      in case get_os_gen_id cm (machine_id - 1) of
           None \<Rightarrow> Bug
         | Some gen \<Rightarrow>
             let my_osii = SET_GEN_ID my_osii (ucast gen)
             in Done (cl \<lparr>cl_my_osii := my_osii\<rparr>, cm \<lparr>cm_cur_leader_osii := my_osii\<rparr>))"

definition remove_member :: "member_proc \<Rightarrow> member_proc" where
  "remove_member p = p \<lparr>mp_osii := 0, mp_local_proc_id := 0, mp_tsk := 0, mp_in_use := False\<rparr>"

definition purge_entry :: "u32 \<Rightarrow> cxlcg_entry \<Rightarrow> cxlcg_entry" where
  "purge_entry machine_id e =
     (if ce_in_use e then
        e \<lparr>ce_procs := map (\<lambda>p. if mp_in_use p \<and> GET_OS_ID (mp_osii p) = machine_id then remove_member p else p) (ce_procs e)\<rparr>
      else e)"

definition recover_cxlcg_meta ::
  "granularity \<Rightarrow> cpu \<Rightarrow> u16 \<Rightarrow> env \<Rightarrow> cg_local \<Rightarrow> cxlcg_meta \<Rightarrow> (cg_local \<times> cxlcg_meta) outcome" where
  "recover_cxlcg_meta g k machine_id es cl cm =
     bind_outcome (increment_gen_id machine_id cm) (\<lambda>cm.
       case get_os_gen_id cm (machine_id - 1) of
         None \<Rightarrow> Bug
       | Some gen \<Rightarrow>
           let my_osii = SET_GEN_ID (SET_OS_ID (cl_my_osii cl) (ucast machine_id)) (ucast gen);
               cl = cl \<lparr>cl_my_osii := my_osii, cl_os_gen_ids_snapshot := cm_os_generation_ids cm,
                 cl_os_live := replicate VCXL_MAX_SUPPORTED_MACHINES True\<rparr>
           in bind_outcome (recoverable_lock_recover g k machine_id machine_id cm) (\<lambda>(st, cm).
                bind_outcome (if st \<noteq> TRANSFERED then recoverable_lock g k machine_id es cm else Done cm) (\<lambda>cm.
                  let cm = cm \<lparr>cm_entries := map (purge_entry (ucast machine_id)) (cm_entries cm)\<rparr>
                  in bind_outcome (recoverable_unlock g k machine_id cm) (\<lambda>cm. Done (cl, cm)))))"

subsection \<open>Groups\<close>

text \<open>The characters are signed, so the conversion to 32 bits extends the sign; a string that is not
  terminated would be read past its end.\<close>

fun hash_loop :: "u32 \<Rightarrow> u8 list \<Rightarrow> u32 option" where
  "hash_loop h [] = None"
| "hash_loop h (c # word) = (if c = 0 then Some h else hash_loop (31 * h + scast c) word)"

definition hash_func :: "u8 list \<Rightarrow> u32 option" where
  "hash_func word = hash_loop 0 word"

definition group_of :: "u8 list \<Rightarrow> nat option" where
  "group_of secret_str = map_option (\<lambda>h. unat (h mod word_of_nat MAX_GROUP_NUM)) (hash_func secret_str)"

definition do_create_cxlcg ::
  "granularity \<Rightarrow> cpu \<Rightarrow> u16 \<Rightarrow> env \<Rightarrow> u8 list \<Rightarrow> cxlcg_meta \<Rightarrow> (int \<times> cxlcg_meta) outcome" where
  "do_create_cxlcg g k machine_id es secret_str cm =
     (case group_of secret_str of
        None \<Rightarrow> Bug
      | Some hash \<Rightarrow>
          bind_outcome (recoverable_lock g k machine_id es cm) (\<lambda>cm.
            let e = cm_entries cm ! hash;
                (ret, cm) = (if ce_in_use e then (-1, cm)
                  else (0, cm \<lparr>cm_entries := (cm_entries cm) [hash := e \<lparr>ce_secret_str := take SECRET_STR_LEN secret_str, ce_in_use := True\<rparr>]\<rparr>))
            in bind_outcome (recoverable_unlock g k machine_id cm) (\<lambda>cm. Done (ret, cm))))"

definition do_delete_cxlcg ::
  "granularity \<Rightarrow> cpu \<Rightarrow> u16 \<Rightarrow> env \<Rightarrow> u8 list \<Rightarrow> cxlcg_meta \<Rightarrow> (int \<times> cxlcg_meta) outcome" where
  "do_delete_cxlcg g k machine_id es secret_str cm =
     (case group_of secret_str of
        None \<Rightarrow> Bug
      | Some hash \<Rightarrow>
          bind_outcome (recoverable_lock g k machine_id es cm) (\<lambda>cm.
            let cm = cm \<lparr>cm_entries := (cm_entries cm) [hash := zero_entry]\<rparr>
            in bind_outcome (recoverable_unlock g k machine_id cm) (\<lambda>cm. Done (0, cm))))"

definition same_process :: "u64 \<Rightarrow> u64 \<Rightarrow> member_proc \<Rightarrow> bool" where
  "same_process osii local_proc_id p \<longleftrightarrow>
     mp_in_use p \<and> GET_OS_ID (mp_osii p) = GET_OS_ID osii \<and> GET_GEN_ID (mp_osii p) = GET_GEN_ID osii \<and>
     mp_local_proc_id p = local_proc_id"

text \<open>The index at which a loop over the slots of a group stops; \<open>MAX_PROC_PER_GROUP\<close> when it runs through.\<close>

definition slot_index :: "(member_proc \<Rightarrow> bool) \<Rightarrow> member_proc list \<Rightarrow> nat" where
  "slot_index P ps = length (takeWhile (\<lambda>p. \<not> P p) ps)"

definition join_entry :: "u64 \<Rightarrow> u64 \<Rightarrow> nat \<Rightarrow> cxlcg_entry \<Rightarrow> int \<times> cxlcg_entry" where
  "join_entry osii local_proc_id tsk e =
     (let ps = ce_procs e
      in if slot_index (same_process osii local_proc_id) ps < MAX_PROC_PER_GROUP then (0, e)
         else
           let i = slot_index (\<lambda>p. \<not> mp_in_use p) ps
           in if MAX_PROC_PER_GROUP \<le> i then (-1, e)
              else (0, e \<lparr>ce_procs := ps [i := \<lparr>mp_osii = osii, mp_local_proc_id = local_proc_id, mp_tsk = tsk, mp_in_use = True\<rparr>]\<rparr>))"

text \<open>\<open>tsk\<close> is the group leader of the calling task.\<close>

definition do_join_cxlcg ::
  "granularity \<Rightarrow> cpu \<Rightarrow> u16 \<Rightarrow> env \<Rightarrow> cg_local \<Rightarrow> nat \<Rightarrow> u8 list \<Rightarrow> u64 \<Rightarrow> cxlcg_meta \<Rightarrow> (int \<times> cxlcg_meta) outcome" where
  "do_join_cxlcg g k machine_id es cl tsk secret_str local_proc_id cm =
     (case group_of secret_str of
        None \<Rightarrow> Bug
      | Some hash \<Rightarrow>
          bind_outcome (recoverable_lock g k machine_id es cm) (\<lambda>cm.
            let (ret, e) = join_entry (cl_my_osii cl) local_proc_id tsk (cm_entries cm ! hash);
                cm = cm \<lparr>cm_entries := (cm_entries cm) [hash := e]\<rparr>
            in bind_outcome (recoverable_unlock g k machine_id cm) (\<lambda>cm. Done (ret, cm))))"

definition leave_entry :: "u64 \<Rightarrow> u64 \<Rightarrow> cxlcg_entry \<Rightarrow> cxlcg_entry" where
  "leave_entry osii local_proc_id e =
     (let ps = ce_procs e;
          i = slot_index (same_process osii local_proc_id) ps
      in if MAX_PROC_PER_GROUP \<le> i then e else e \<lparr>ce_procs := ps [i := remove_member (ps ! i)]\<rparr>)"

definition do_leave_cxlcg ::
  "granularity \<Rightarrow> cpu \<Rightarrow> u16 \<Rightarrow> env \<Rightarrow> u8 list \<Rightarrow> u64 \<Rightarrow> u64 \<Rightarrow> cxlcg_meta \<Rightarrow> (int \<times> cxlcg_meta) outcome" where
  "do_leave_cxlcg g k machine_id es secret_str osii local_proc_id cm =
     (case group_of secret_str of
        None \<Rightarrow> Bug
      | Some hash \<Rightarrow>
          bind_outcome (recoverable_lock g k machine_id es cm) (\<lambda>cm.
            let cm = cm \<lparr>cm_entries := (cm_entries cm) [hash := leave_entry osii local_proc_id (cm_entries cm ! hash)]\<rparr>
            in bind_outcome (recoverable_unlock g k machine_id cm) (\<lambda>cm. Done (0, cm))))"

text \<open>The search of \<open>notify_proc_failure\<close>: the first slot, in the order of the two loops, that belongs to
  the task in a group in use.\<close>

definition failed_slot :: "nat \<Rightarrow> cxlcg_entry list \<Rightarrow> (nat \<times> nat) option" where
  "failed_slot tsk es =
     List.find (\<lambda>(i, j). ce_in_use (es ! i) \<and> mp_in_use (ce_procs (es ! i) ! j) \<and> mp_tsk (ce_procs (es ! i) ! j) = tsk)
       (List.product [0..<MAX_GROUP_NUM] [0..<MAX_PROC_PER_GROUP])"

text \<open>The message sent to user space, if any. \<open>cm\<close> is absent before the first initialisation.\<close>

definition notify_proc_failure ::
  "granularity \<Rightarrow> cpu \<Rightarrow> u16 \<Rightarrow> env \<Rightarrow> nat \<Rightarrow> cxlcg_meta option \<Rightarrow> (u64 option \<times> cxlcg_meta option) outcome" where
  "notify_proc_failure g k machine_id es tsk cmo =
     (case cmo of
        None \<Rightarrow> Done (None, None)
      | Some cm \<Rightarrow>
          bind_outcome (recoverable_lock g k machine_id es cm) (\<lambda>cm.
            let (msg, cm) =
                  (case failed_slot tsk (cm_entries cm) of
                     None \<Rightarrow> (None, cm)
                   | Some (i, j) \<Rightarrow>
                       let e = cm_entries cm ! i;
                           p = ce_procs e ! j;
                           msg = SET_MSG_TYPE (SET_PROC_ID (mp_osii p) (mp_local_proc_id p)) MSG_TYPE_PROC_FAILURE;
                           e = e \<lparr>ce_procs := (ce_procs e) [j := p \<lparr>mp_in_use := False, mp_tsk := 0\<rparr>]\<rparr>
                       in (Some msg, cm \<lparr>cm_entries := (cm_entries cm) [i := e]\<rparr>))
            in bind_outcome (recoverable_unlock g k machine_id cm) (\<lambda>cm. Done (msg, Some cm))))"

text \<open>An election: the leader is replaced when there is none or its generation is outdated. Other machines
  may change the structure before the compare-and-exchange (\<open>e1\<close>) and before the new leader is read
  back for the message (\<open>e2\<close>).\<close>

definition leader_exchange ::
  "(cxlcg_meta \<Rightarrow> cxlcg_meta) \<Rightarrow> (cxlcg_meta \<Rightarrow> cxlcg_meta) \<Rightarrow> cg_local \<Rightarrow> u64 \<Rightarrow> cxlcg_meta \<Rightarrow> u64 option \<times> cxlcg_meta" where
  "leader_exchange e1 e2 cl cur cm =
     (let cm = e1 cm
      in if cm_cur_leader_osii cm = cur then
           let cm = e2 (cm \<lparr>cm_cur_leader_osii := cl_my_osii cl\<rparr>)
           in (Some (SET_MSG_TYPE (cm_cur_leader_osii cm) MSG_TYPE_LEADER_CHANGE), cm)
         else (None, cm))"

definition do_leader_election ::
  "(cxlcg_meta \<Rightarrow> cxlcg_meta) \<Rightarrow> (cxlcg_meta \<Rightarrow> cxlcg_meta) \<Rightarrow> cg_local \<Rightarrow> cxlcg_meta \<Rightarrow> (u64 option \<times> cxlcg_meta) outcome" where
  "do_leader_election e1 e2 cl cm =
     (let cur = cm_cur_leader_osii cm;
          cur_leader_os_id = GET_OS_ID cur
      in if cur = 0 then Done (leader_exchange e1 e2 cl cur cm)
         else
           case get_os_gen_id cm (ucast (cur_leader_os_id - 1)) of
             None \<Rightarrow> Bug
           | Some gen \<Rightarrow> Done (if GET_GEN_ID cur \<noteq> gen then leader_exchange e1 e2 cl cur cm else (None, cm)))"

subsection \<open>Message words\<close>

named_theorems message_bits

lemma bit_masks [message_bits]:
  "bit MSG_TYPE_MASK n \<longleftrightarrow> n = 62 \<or> n = 63" "bit OS_ID_MASK n \<longleftrightarrow> 48 \<le> n \<and> n < 62"
  "bit PROC_ID_MASK n \<longleftrightarrow> 32 \<le> n \<and> n < 48" "bit GEN_ID_MASK n \<longleftrightarrow> n < 32"
proof -
  have m: "MSG_TYPE_MASK = push_bit 62 (mask 2)" "OS_ID_MASK = push_bit 48 (mask 14)"
    "PROC_ID_MASK = push_bit 32 (mask 16)" "GEN_ID_MASK = mask 32"
    by (simp_all add: MSG_TYPE_MASK_def OS_ID_MASK_def PROC_ID_MASK_def GEN_ID_MASK_def MSG_TYPE_SHIFT_def OS_ID_SHIFT_def
        PROC_ID_SHIFT_def mask_eq_exp_minus_1)
  show "bit MSG_TYPE_MASK n \<longleftrightarrow> n = 62 \<or> n = 63" unfolding m by (simp only: bit_push_bit_iff bit_mask_iff) auto
  show "bit OS_ID_MASK n \<longleftrightarrow> 48 \<le> n \<and> n < 62" unfolding m by (simp only: bit_push_bit_iff bit_mask_iff) auto
  show "bit PROC_ID_MASK n \<longleftrightarrow> 32 \<le> n \<and> n < 48" unfolding m by (simp only: bit_push_bit_iff bit_mask_iff) auto
  show "bit GEN_ID_MASK n \<longleftrightarrow> n < 32" unfolding m by (simp only: bit_mask_iff) auto
qed

lemma small_bits:
  assumes "unat (y :: u64) < 2 ^ n" "bit y k"
  shows "k < n"
proof -
  have "take_bit n (unat y) = unat y" using assms(1) by (rule take_bit_nat_eq_self)
  then have "take_bit n y = y" by (metis unsigned_take_bit_eq unsigned_word_eqI)
  with assms(2) show ?thesis by (metis bit_take_bit_iff)
qed

lemmas small_fields = small_bits [where n = 14, simplified] small_bits [where n = 16, simplified]

lemma SET_or [message_bits]:
  "unat y < 2 ^ 14 \<Longrightarrow> SET_OS_ID x y = (x AND NOT OS_ID_MASK) OR push_bit 48 y"
  "unat y < 2 ^ 16 \<Longrightarrow> SET_PROC_ID x y = (x AND NOT PROC_ID_MASK) OR push_bit 32 y"
  "SET_GEN_ID x y = (x AND NOT GEN_ID_MASK) OR (y AND GEN_ID_MASK)"
  "SET_MSG_TYPE x y = (x AND NOT MSG_TYPE_MASK) OR push_bit 62 y"
  unfolding SET_OS_ID_def SET_PROC_ID_def SET_GEN_ID_def SET_MSG_TYPE_def
  by (rule disjunctive_add_eq_or; rule bit_word_eqI;
      auto simp: bit_simps message_bits dest: small_fields)+

lemma bit_SET [message_bits]:
  "unat y < 2 ^ 14 \<Longrightarrow> n < 64 \<Longrightarrow> bit (SET_OS_ID x y) n \<longleftrightarrow> (if 48 \<le> n \<and> n < 62 then bit y (n - 48) else bit x n)"
  "unat y < 2 ^ 16 \<Longrightarrow> n < 64 \<Longrightarrow> bit (SET_PROC_ID x y) n \<longleftrightarrow> (if 32 \<le> n \<and> n < 48 then bit y (n - 32) else bit x n)"
  "n < 64 \<Longrightarrow> bit (SET_GEN_ID x y) n \<longleftrightarrow> (if n < 32 then bit y n else bit x n)"
  "n < 64 \<Longrightarrow> bit (SET_MSG_TYPE x y) n \<longleftrightarrow> (if 62 \<le> n then bit y (n - 62) else bit x n)"
  by (auto simp: bit_simps SET_or bit_masks dest: small_fields)

lemma bit_GET [message_bits]:
  "bit (GET_OS_ID x) n \<longleftrightarrow> n < 14 \<and> bit x (n + 48)" "bit (GET_PROC_ID x) n \<longleftrightarrow> n < 16 \<and> bit x (n + 32)"
  "bit (GET_GEN_ID x) n \<longleftrightarrow> n < 32 \<and> bit x n" "bit (GET_MSG_TYPE x) n \<longleftrightarrow> n < 2 \<and> bit x (n + 62)"
  by (auto simp: GET_OS_ID_def GET_PROC_ID_def GET_GEN_ID_def GET_MSG_TYPE_def bit_simps bit_masks OS_ID_SHIFT_def
      PROC_ID_SHIFT_def MSG_TYPE_SHIFT_def add.commute)

subsection \<open>The lock keeps the groups\<close>

lemma recoverable_lock_Done:
  "recoverable_lock g k m es cm = Done cm' \<Longrightarrow> \<exists>c. cm' = cm \<lparr>cm_meta_lock := c\<rparr>"
  "recoverable_unlock g k m cm = Done cm' \<Longrightarrow> \<exists>c. cm' = cm \<lparr>cm_meta_lock := c\<rparr>"
  "recoverable_lock_recover g k m old cm = Done (st, cm') \<Longrightarrow> \<exists>c. cm' = cm \<lparr>cm_meta_lock := c\<rparr>"
  by (auto simp: recoverable_lock_def recoverable_unlock_def recoverable_lock_recover_def
      split: option.splits elim!: bind_outcome_Done)

lemma lock_keeps:
  "recoverable_lock g k m es cm = Done cm' \<Longrightarrow> cm_entries cm' = cm_entries cm \<and> cm_os_generation_ids cm' = cm_os_generation_ids cm"
  "recoverable_unlock g k m cm = Done cm' \<Longrightarrow> cm_entries cm' = cm_entries cm \<and> cm_os_generation_ids cm' = cm_os_generation_ids cm"
  "recoverable_lock_recover g k m old cm = Done (st, cm') \<Longrightarrow>
    cm_entries cm' = cm_entries cm \<and> cm_os_generation_ids cm' = cm_os_generation_ids cm"
  by (auto dest: recoverable_lock_Done)

text \<open>What the operations do to the groups, once the lock has been taken.\<close>

lemma do_create_entries:
  assumes "do_create_cxlcg g k m es secret cm = Done (ret, cm')"
  obtains h where "group_of secret = Some h" "cm_os_generation_ids cm' = cm_os_generation_ids cm"
    "cm_entries cm' = (if ce_in_use (cm_entries cm ! h) then cm_entries cm
      else (cm_entries cm) [h := (cm_entries cm ! h) \<lparr>ce_secret_str := take SECRET_STR_LEN secret, ce_in_use := True\<rparr>])"
    "ret = (if ce_in_use (cm_entries cm ! h) then -1 else 0)"
  using assms by (auto simp: do_create_cxlcg_def Let_def split: option.splits if_splits elim!: bind_outcome_Done dest!: lock_keeps)

lemma do_delete_entries:
  assumes "do_delete_cxlcg g k m es secret cm = Done (ret, cm')"
  obtains h where "group_of secret = Some h" "cm_os_generation_ids cm' = cm_os_generation_ids cm"
    "cm_entries cm' = (cm_entries cm) [h := zero_entry]"
  using assms by (auto simp: do_delete_cxlcg_def Let_def split: option.splits elim!: bind_outcome_Done dest!: lock_keeps)

lemma do_join_entries:
  assumes "do_join_cxlcg g k m es cl tsk secret lid cm = Done (ret, cm')"
  obtains h where "group_of secret = Some h" "cm_os_generation_ids cm' = cm_os_generation_ids cm"
    "cm_entries cm' = (cm_entries cm) [h := snd (join_entry (cl_my_osii cl) lid tsk (cm_entries cm ! h))]"
    "ret = fst (join_entry (cl_my_osii cl) lid tsk (cm_entries cm ! h))"
  using assms by (auto simp: do_join_cxlcg_def Let_def split: option.splits prod.splits elim!: bind_outcome_Done dest!: lock_keeps)

lemma do_leave_entries:
  assumes "do_leave_cxlcg g k m es secret osii lid cm = Done (ret, cm')"
  obtains h where "group_of secret = Some h" "cm_os_generation_ids cm' = cm_os_generation_ids cm"
    "cm_entries cm' = (cm_entries cm) [h := leave_entry osii lid (cm_entries cm ! h)]"
  using assms by (auto simp: do_leave_cxlcg_def Let_def split: option.splits elim!: bind_outcome_Done dest!: lock_keeps)

lemma notify_entries:
  assumes "notify_proc_failure g k m es tsk (Some cm) = Done (msg, Some cm')"
  shows "cm_os_generation_ids cm' = cm_os_generation_ids cm"
    and "cm_entries cm' = (case failed_slot tsk (cm_entries cm) of None \<Rightarrow> cm_entries cm
      | Some (i, j) \<Rightarrow> (cm_entries cm) [i := (cm_entries cm ! i) \<lparr>ce_procs := (ce_procs (cm_entries cm ! i))
          [j := (ce_procs (cm_entries cm ! i) ! j) \<lparr>mp_in_use := False, mp_tsk := 0\<rparr>]\<rparr>])"
  using assms by (auto simp: notify_proc_failure_def Let_def split: option.splits prod.splits elim!: bind_outcome_Done dest!: lock_keeps)

lemma recover_entries:
  assumes "recover_cxlcg_meta g k m es cl cm = Done (cl', cm')"
  shows "cm_entries cm' = map (purge_entry (ucast m)) (cm_entries cm)"
    and "unat (m - 1) < length (cm_os_generation_ids cm)"
    and "cm_os_generation_ids cm' = (cm_os_generation_ids cm) [unat (m - 1) := cm_os_generation_ids cm ! unat (m - 1) + 1]"
  using assms
  by (auto simp: recover_cxlcg_meta_def increment_gen_id_def get_os_gen_id_def Let_def split: option.splits if_splits
      elim!: bind_outcome_Done dest!: lock_keeps)

subsection \<open>Membership\<close>

text \<open>The identity of a member, as the searches compare it.\<close>

definition process_of :: "member_proc \<Rightarrow> u32 \<times> u32 \<times> u64" where
  "process_of p = (GET_OS_ID (mp_osii p), GET_GEN_ID (mp_osii p), mp_local_proc_id p)"

definition members :: "cxlcg_entry \<Rightarrow> (u32 \<times> u32 \<times> u64) list" where
  "members e = map process_of (filter mp_in_use (ce_procs e))"

definition entry_ok :: "cxlcg_entry \<Rightarrow> bool" where
  "entry_ok e \<longleftrightarrow> length (ce_procs e) = MAX_PROC_PER_GROUP \<and> distinct (members e)"

definition cg_ok :: "cxlcg_meta \<Rightarrow> bool" where
  "cg_ok cm \<longleftrightarrow> length (cm_entries cm) = MAX_GROUP_NUM \<and> length (cm_os_generation_ids cm) = VCXL_MAX_SUPPORTED_MACHINES \<and>
     (\<forall>e\<in>set (cm_entries cm). entry_ok e)"

lemma same_process_iff: "same_process osii lid p \<longleftrightarrow> mp_in_use p \<and> process_of p = (GET_OS_ID osii, GET_GEN_ID osii, lid)"
  by (simp add: same_process_def process_of_def)

lemma slot_index:
  "slot_index P ps < length ps \<Longrightarrow> P (ps ! slot_index P ps)"
  "slot_index P ps < length ps \<longleftrightarrow> (\<exists>p\<in>set ps. P p)"
proof -
  show "slot_index P ps < length ps \<Longrightarrow> P (ps ! slot_index P ps)"
    unfolding slot_index_def using nth_length_takeWhile [of "\<lambda>p. \<not> P p" ps] by simp
  show "slot_index P ps < length ps \<longleftrightarrow> (\<exists>p\<in>set ps. P p)"
    unfolding slot_index_def by (induction ps) auto
qed

lemma members_split:
  assumes "i < length ps"
  shows "map process_of (filter mp_in_use (ps [i := q])) =
    map process_of (filter mp_in_use (take i ps)) @ (if mp_in_use q then [process_of q] else []) @
    map process_of (filter mp_in_use (drop (Suc i) ps))"
  using assms by (simp add: upd_conv_take_nth_drop)

lemma members_at:
  assumes "i < length ps"
  shows "map process_of (filter mp_in_use ps) =
    map process_of (filter mp_in_use (take i ps)) @ (if mp_in_use (ps ! i) then [process_of (ps ! i)] else []) @
    map process_of (filter mp_in_use (drop (Suc i) ps))"
  using members_split [OF assms, of "ps ! i"] by simp

lemma vacate_ok:
  assumes "entry_ok e" "\<not> mp_in_use q"
  shows "entry_ok (e \<lparr>ce_procs := (ce_procs e) [i := q]\<rparr>)"
proof (cases "i < length (ce_procs e)")
  case True
  with assms show ?thesis
    by (auto simp: entry_ok_def members_def members_split members_at [OF True] split: if_splits)
qed (use assms in \<open>simp add: list_update_beyond\<close>)

lemma join_entry_ok:
  assumes "entry_ok e"
  shows "entry_ok (snd (join_entry osii lid tsk e))"
    and "fst (join_entry osii lid tsk e) = 0 \<Longrightarrow>
      set (members (snd (join_entry osii lid tsk e))) = insert (GET_OS_ID osii, GET_GEN_ID osii, lid) (set (members e))"
    and "fst (join_entry osii lid tsk e) \<noteq> 0 \<Longrightarrow> snd (join_entry osii lid tsk e) = e \<and> length (members e) = MAX_PROC_PER_GROUP"
proof -
  let ?ps = "ce_procs e" and ?P = "(GET_OS_ID osii, GET_GEN_ID osii, lid)"
  let ?q = "\<lparr>mp_osii = osii, mp_local_proc_id = lid, mp_tsk = tsk, mp_in_use = True\<rparr>"
  have l: "length ?ps = MAX_PROC_PER_GROUP" and d: "distinct (members e)" using assms by (simp_all add: entry_ok_def)
  have mem: "slot_index (same_process osii lid) ?ps < MAX_PROC_PER_GROUP \<longleftrightarrow> ?P \<in> set (members e)"
    using slot_index(2) [of "same_process osii lid" ?ps] l by (auto simp: members_def same_process_iff image_iff intro: sym)
  define i where "i = slot_index (\<lambda>p. \<not> mp_in_use p) ?ps"
  have free: "i < MAX_PROC_PER_GROUP \<Longrightarrow> \<not> mp_in_use (?ps ! i)"
    using slot_index(1) [of "\<lambda>p. \<not> mp_in_use p" ?ps] l by (simp add: i_def)
  have full: "\<not> i < MAX_PROC_PER_GROUP \<Longrightarrow> length (members e) = MAX_PROC_PER_GROUP"
    using slot_index(2) [of "\<lambda>p. \<not> mp_in_use p" ?ps] l by (simp add: i_def members_def)
  have J: "join_entry osii lid tsk e = (if ?P \<in> set (members e) then (0, e) else if MAX_PROC_PER_GROUP \<le> i then (-1, e)
      else (0, e \<lparr>ce_procs := ?ps [i := ?q]\<rparr>))"
    using mem by (simp add: join_entry_def Let_def i_def)
  have q: "process_of ?q = ?P" by (simp add: process_of_def)
  have new: "members (e \<lparr>ce_procs := ?ps [i := ?q]\<rparr>) = map process_of (filter mp_in_use (take i ?ps)) @ ?P #
      map process_of (filter mp_in_use (drop (Suc i) ?ps))"
    and old: "members e = map process_of (filter mp_in_use (take i ?ps)) @ map process_of (filter mp_in_use (drop (Suc i) ?ps))"
    if "i < MAX_PROC_PER_GROUP"
    using that l free q members_split [of i ?ps ?q] members_at [of i ?ps] by (simp_all add: members_def)
  show "entry_ok (snd (join_entry osii lid tsk e))"
  proof (cases "?P \<in> set (members e) \<or> MAX_PROC_PER_GROUP \<le> i")
    case False
    then have "distinct (members (e \<lparr>ce_procs := ?ps [i := ?q]\<rparr>))" using new old d by auto
    with False l show ?thesis by (simp add: J entry_ok_def)
  qed (use assms in \<open>auto simp: J\<close>)
  show "fst (join_entry osii lid tsk e) = 0 \<Longrightarrow>
      set (members (snd (join_entry osii lid tsk e))) = insert ?P (set (members e))"
    using new old by (auto simp: J split: if_splits)
  show "fst (join_entry osii lid tsk e) \<noteq> 0 \<Longrightarrow> snd (join_entry osii lid tsk e) = e \<and> length (members e) = MAX_PROC_PER_GROUP"
    using full by (auto simp: J split: if_splits)
qed

lemma leave_entry_ok:
  assumes "entry_ok e"
  shows "entry_ok (leave_entry osii lid e)"
    and "set (members (leave_entry osii lid e)) = set (members e) - {(GET_OS_ID osii, GET_GEN_ID osii, lid)}"
proof -
  let ?ps = "ce_procs e" and ?P = "(GET_OS_ID osii, GET_GEN_ID osii, lid)"
  define i where "i = slot_index (same_process osii lid) ?ps"
  have l: "length ?ps = MAX_PROC_PER_GROUP" and d: "distinct (members e)" using assms by (simp_all add: entry_ok_def)
  have L: "leave_entry osii lid e = (if MAX_PROC_PER_GROUP \<le> i then e else e \<lparr>ce_procs := ?ps [i := remove_member (?ps ! i)]\<rparr>)"
    by (simp add: leave_entry_def Let_def i_def)
  have nu: "\<not> mp_in_use (remove_member p)" for p by (simp add: remove_member_def)
  show "entry_ok (leave_entry osii lid e)" using vacate_ok [OF assms nu] assms by (simp add: L)
  show "set (members (leave_entry osii lid e)) = set (members e) - {?P}"
  proof (cases "i < MAX_PROC_PER_GROUP")
    case True
    then have i: "i < length ?ps" and "same_process osii lid (?ps ! i)"
      using slot_index(1) [of "same_process osii lid" ?ps] l by (simp_all add: i_def)
    then have p: "mp_in_use (?ps ! i)" "process_of (?ps ! i) = ?P" by (simp_all add: same_process_iff)
    show ?thesis
      using True d p nu members_at [OF i] members_split [OF i, of "remove_member (?ps ! i)"]
      by (auto simp: L members_def)
  next
    case False
    then have "?P \<notin> set (members e)"
      using slot_index(2) [of "same_process osii lid" ?ps] l by (auto simp: i_def members_def same_process_iff)
    with False show ?thesis by (simp add: L)
  qed
qed

lemma purge_entry_ok:
  assumes "entry_ok e"
  shows "entry_ok (purge_entry m e)"
    and "ce_in_use e \<Longrightarrow> members (purge_entry m e) = filter (\<lambda>p. fst p \<noteq> m) (members e)"
proof -
  let ?f = "\<lambda>p. if mp_in_use p \<and> GET_OS_ID (mp_osii p) = m then remove_member p else p"
  have "map process_of (filter mp_in_use (map ?f ps)) = filter (\<lambda>p. fst p \<noteq> m) (map process_of (filter mp_in_use ps))" for ps
    by (induction ps) (auto simp: process_of_def remove_member_def)
  then show "ce_in_use e \<Longrightarrow> members (purge_entry m e) = filter (\<lambda>p. fst p \<noteq> m) (members e)"
    by (simp add: purge_entry_def members_def)
  with assms show "entry_ok (purge_entry m e)"
    by (cases "ce_in_use e") (auto simp: entry_ok_def purge_entry_def)
qed

lemma zero_entry_ok: "entry_ok zero_entry"
  by (simp add: entry_ok_def zero_entry_def members_def zero_member_def)

lemma cg_ok_update:
  assumes "cg_ok cm" "cm_entries cm' = (cm_entries cm) [h := e]" "cm_os_generation_ids cm' = cm_os_generation_ids cm"
    and "h < MAX_GROUP_NUM \<Longrightarrow> entry_ok (cm_entries cm ! h) \<Longrightarrow> entry_ok e"
  shows "cg_ok cm'"
proof (cases "h < MAX_GROUP_NUM")
  case True
  with assms(1) have "entry_ok (cm_entries cm ! h)" by (simp add: cg_ok_def)
  with True assms show ?thesis by (auto simp: cg_ok_def dest!: set_update_subset_insert [THEN subsetD])
qed (use assms in \<open>simp add: cg_ok_def list_update_beyond\<close>)

subsection \<open>The machines operate on the groups\<close>

text \<open>One completed operation of any machine, CPU, process and secret.\<close>

inductive cg_step :: "granularity \<Rightarrow> cxlcg_meta \<Rightarrow> cxlcg_meta \<Rightarrow> bool" for g where
  create: "do_create_cxlcg g k m es secret cm = Done (ret, cm') \<Longrightarrow> cg_step g cm cm'"
| delete: "do_delete_cxlcg g k m es secret cm = Done (ret, cm') \<Longrightarrow> cg_step g cm cm'"
| join: "do_join_cxlcg g k m es cl tsk secret lid cm = Done (ret, cm') \<Longrightarrow> cg_step g cm cm'"
| leave: "do_leave_cxlcg g k m es secret osii lid cm = Done (ret, cm') \<Longrightarrow> cg_step g cm cm'"
| notify: "notify_proc_failure g k m es tsk (Some cm) = Done (msg, Some cm') \<Longrightarrow> cg_step g cm cm'"
| recover: "recover_cxlcg_meta g k m es cl cm = Done (cl', cm') \<Longrightarrow> cg_step g cm cm'"

definition cg_start :: "granularity \<Rightarrow> cxlcg_meta \<Rightarrow> bool" where
  "cg_start g cm \<longleftrightarrow> (\<exists>m cl cl' cm0. init_cxlcg_meta g m cl cm0 = Done (cl', cm))"

lemma cg_start_ok: "cg_start g cm \<Longrightarrow> cg_ok cm"
  by (auto simp: cg_start_def init_cxlcg_meta_def recoverable_lock_init_def cg_ok_def zero_entry_ok Let_def
      split: option.splits)

lemma cg_step_ok: "cg_step g cm cm' \<Longrightarrow> cg_ok cm \<Longrightarrow> cg_ok cm'"
proof (induction rule: cg_step.induct)
  case (create k m es secret cm ret cm')
  then obtain h where h: "cm_os_generation_ids cm' = cm_os_generation_ids cm"
    "cm_entries cm' = (if ce_in_use (cm_entries cm ! h) then cm_entries cm
      else (cm_entries cm) [h := (cm_entries cm ! h) \<lparr>ce_secret_str := take SECRET_STR_LEN secret, ce_in_use := True\<rparr>])"
    by (auto elim: do_create_entries)
  show ?case
  proof (cases "ce_in_use (cm_entries cm ! h)")
    case True
    with h create show ?thesis by (simp add: cg_ok_def)
  next
    case False
    with h(2) have "cm_entries cm' = (cm_entries cm) [h := (cm_entries cm ! h) \<lparr>ce_secret_str := take SECRET_STR_LEN secret, ce_in_use := True\<rparr>]"
      by simp
    from cg_ok_update [OF create.prems this h(1)] show ?thesis by (auto simp: entry_ok_def members_def)
  qed
next
  case delete
  then show ?case by (auto elim!: do_delete_entries cg_ok_update simp: zero_entry_ok)
next
  case join
  then show ?case by (auto elim!: do_join_entries cg_ok_update simp: join_entry_ok)
next
  case leave
  then show ?case by (auto elim!: do_leave_entries cg_ok_update simp: leave_entry_ok)
next
  case (notify k m es tsk cm msg cm')
  note n = notify_entries [OF notify.hyps]
  show ?case
  proof (cases "failed_slot tsk (cm_entries cm)")
    case None
    with n notify.prems show ?thesis by (simp add: cg_ok_def)
  next
    case (Some ij)
    with n notify.prems show ?thesis by (cases ij) (auto elim!: cg_ok_update simp: vacate_ok)
  qed
next
  case (recover k m es cl cm cl' cm')
  note r = recover_entries [OF recover.hyps]
  show ?case using recover.prems r purge_entry_ok(1) by (auto simp: cg_ok_def)
qed

interpretation cgroup: transition_invariant "cg_start g" "cg_step g" cg_ok
  by unfold_locales (simp_all add: cg_start_ok cg_step_ok)

subsection \<open>A machine alone\<close>

definition cg_free :: "granularity \<Rightarrow> cpu \<Rightarrow> u16 \<Rightarrow> cxlcg_meta \<Rightarrow> bool" where
  "cg_free g k m cm \<longleftrightarrow> cg_ok cm \<and> pvalue g (cm_meta_lock cm) = UNLOCKED \<and> kernel_process k m \<noteq> None \<and>
     unat (m - 1) < VCXL_MAX_SUPPORTED_MACHINES"

lemma recoverable_lock_free:
  assumes "cg_free g k m cm" "quiet_env g es"
  obtains c where "recoverable_lock g k m es cm = Done (cm \<lparr>cm_meta_lock := c\<rparr>)"
proof -
  from assms(1) obtain p gen where p: "kernel_process k m = Some p" "get_os_gen_id cm (m - 1) = Some gen"
    "pvalue g (cm_meta_lock cm) = UNLOCKED"
    by (auto simp: cg_free_def cg_ok_def get_os_gen_id_def)
  obtain c where "ttas_lock_with_gen_kern g k m gen es (cm_meta_lock cm) = Done c"
    by (rule ttas_lock_with_gen_free [OF p(3) assms(2) p(1)])
  with p that show ?thesis by (simp add: recoverable_lock_def)
qed

lemma recoverable_unlock_free:
  assumes "kernel_process k m \<noteq> None"
  obtains c where "recoverable_unlock g k m cm = Done (cm \<lparr>cm_meta_lock := c\<rparr>)" "pvalue g c = UNLOCKED"
  using assms that by (auto simp: recoverable_unlock_def do_ttas_unlock_def ttas_unlock_kern_def)

lemma recover_left:
  assumes "cg_ok cm" "left_by g k m (cm_meta_lock cm)" "kernel_process k m = Some p"
    and "unat (m - 1) < VCXL_MAX_SUPPORTED_MACHINES"
  obtains cl' cm' where "recover_cxlcg_meta g k m es cl cm = Done (cl', cm')"
    "unat (m - 1) < length (cm_os_generation_ids cm')"
proof -
  have n: "unat (m - 1) < length (cm_os_generation_ids cm)" using assms(1,4) by (simp add: cg_ok_def)
  let ?gen = "cm_os_generation_ids cm ! unat (m - 1) + 1"
  obtain c where "do_ttas_lock_recover g k m m ?gen (cm_meta_lock cm) = Done (TRANSFERED, c)"
    by (rule recover_kern_left [OF assms(2,3)])
  with assms(3) n have "\<exists>cl' cm'. recover_cxlcg_meta g k m es cl cm = Done (cl', cm') \<and>
      unat (m - 1) < length (cm_os_generation_ids cm')"
    by (simp add: recover_cxlcg_meta_def increment_gen_id_def get_os_gen_id_def recoverable_lock_recover_def
        recoverable_unlock_def do_ttas_unlock_def ttas_unlock_kern_def Let_def)
  with that show ?thesis by blast
qed

lemma recover_free:
  assumes "cg_free g k m cm"
  obtains cl' cm' where "recover_cxlcg_meta g k m es cl cm = Done (cl', cm')"
proof -
  from assms obtain p where "kernel_process k m = Some p" by (auto simp: cg_free_def)
  from recover_left [OF _ _ this, of cm g es cl] assms that show ?thesis by (auto simp: cg_free_def left_by_def)
qed

definition ex_machine :: cpu where "ex_machine = \<lparr>nr_cpu_ids = 4, cpu_id = 1\<rparr>"

definition ex_local :: cg_local where
  "ex_local = \<lparr>cl_os_gen_ids_snapshot = [], cl_os_heartbeats = [], cl_my_osii = 0, cl_os_live = []\<rparr>"

definition ex_table :: cxlcg_meta where
  "ex_table = \<lparr>cm_entries = [], cm_os_generation_ids = [], cm_os_heartbeats = [], cm_cur_leader_osii = 0,
     cm_meta_lock = \<lparr>cached = 9, media = 9\<rparr>\<rparr>"

lemma ex_init:
  obtains cl cm where "init_cxlcg_meta g 2 ex_local ex_table = Done (cl, cm)" "cg_free g ex_machine 2 cm"
    "cm_entries cm = replicate MAX_GROUP_NUM zero_entry"
proof -
  have lock: "pvalue g (ttas_init g c) = UNLOCKED" for c
    using persist_write_value [of g UNLOCKED c] by (simp add: ttas_init_def persist_atomic_write_uint64_def)
  have k: "kernel_process ex_machine 2 = Some 5"
    by (simp add: kernel_process_def get_process_identifier_def ex_machine_def Let_def)
  have "unat (2 - 1 :: u16) = 1" by simp
  then show ?thesis
    by (intro that) (auto simp: init_cxlcg_meta_def get_os_gen_id_def recoverable_lock_init_def VCXL_MAX_SUPPORTED_MACHINES_def
        cg_free_def cg_ok_def zero_entry_ok lock k Let_def)
qed

subsection \<open>Properties\<close>

text \<open>The fields of a message word do not disturb each other: after the machine, the generation, the
  process and the type have been set, in this order on any word, each is read back, provided the machine
  fits in 14 bits and the process in 16.\<close>

lemma message_roundtrip:
  assumes "unat os < 2 ^ 14" "unat pid < 2 ^ 16"
    and msg: "msg = SET_MSG_TYPE (SET_PROC_ID (SET_GEN_ID (SET_OS_ID x os) gen) pid) ty"
  shows "GET_OS_ID msg = ucast os \<and> GET_GEN_ID msg = ucast gen \<and> GET_PROC_ID msg = ucast pid \<and> GET_MSG_TYPE msg = ucast ty AND 3"
proof -
  have os: "bit os n \<Longrightarrow> n < 14" and pid: "bit pid n \<Longrightarrow> n < 16" for n
    using assms(1,2) by (auto dest: small_fields)
  have bits: "bit msg n \<longleftrightarrow> (if 62 \<le> n then bit ty (n - 62) else if 48 \<le> n then bit os (n - 48)
      else if 32 \<le> n then bit pid (n - 32) else bit gen n)" if "n < 64" for n
    using that assms by (simp add: bit_SET)
  have three: "(3 :: u32) = mask 2" by (simp add: mask_eq_exp_minus_1)
  have "bit os n \<Longrightarrow> bit msg (n + 48)" for n using os [of n] bits [of "n + 48"] by simp
  then have "GET_OS_ID msg = ucast os" by (intro bit_word_eqI) (auto simp: bit_GET bits bit_simps dest: os)
  moreover have "GET_PROC_ID msg = ucast pid" by (rule bit_word_eqI) (auto simp: bit_GET bits bit_simps dest: pid)
  moreover have "GET_GEN_ID msg = ucast gen" by (rule bit_word_eqI) (auto simp: bit_GET bits bit_simps)
  moreover have "GET_MSG_TYPE msg = ucast ty AND mask 2" by (rule bit_word_eqI) (auto simp: bit_GET bits bit_simps)
  ultimately show ?thesis unfolding three by simp
qed

text \<open>A process number of more than 16 bits is not masked and spills into the machine number of the
  message: the failure of process 65536 of machine 1 is reported as a failure on machine 2.\<close>

lemma message_pid_overflow:
  "GET_OS_ID (SET_PROC_ID (SET_OS_ID 0 1) 65536) = 2 \<and> GET_PROC_ID (SET_PROC_ID (SET_OS_ID 0 1) 65536) = 0"
  by code_simp

text \<open>C23: In every reachable state of the group table, whatever the machines and processes do and in
  whatever order, each of the 50 groups has its 16 slots and no process occupies two slots of a group.\<close>

theorem cgroup_members_distinct:
  assumes "reach (cg_start g) (cg_step g) cm" "e \<in> set (cm_entries cm)"
  shows "length (ce_procs e) = MAX_PROC_PER_GROUP \<and> distinct (members e)"
  using cgroup.reach_inv [OF assms(1)] assms(2) by (auto simp: cg_ok_def entry_ok_def)

theorem cgroup_members_distinct_witness:
  "\<exists>cm e. reach (cg_start DRAM) (cg_step DRAM) cm \<and> e \<in> set (cm_entries cm) \<and> distinct (members e)"
proof -
  obtain cl cm where i: "init_cxlcg_meta DRAM 2 ex_local ex_table = Done (cl, cm)" "cm_entries cm = replicate MAX_GROUP_NUM zero_entry"
    by (rule ex_init)
  then have r: "reach (cg_start DRAM) (cg_step DRAM) cm" by (intro reach.start) (auto simp: cg_start_def)
  have e: "zero_entry \<in> set (cm_entries cm)" using i(2) by (simp add: MAX_GROUP_NUM_def)
  from cgroup_members_distinct [OF r e] r e show ?thesis by blast
qed

text \<open>C24: Recovering a machine starts its next generation and takes all its processes out of every group
  in use, keeping the members of the other machines in their order.\<close>

theorem recover_purges_machine:
  assumes "cg_ok cm" "recover_cxlcg_meta g k m es cl cm = Done (cl', cm')"
  shows "get_os_gen_id cm' (m - 1) = map_option (\<lambda>gen. gen + 1) (get_os_gen_id cm (m - 1)) \<and>
    list_all2 (\<lambda>e e'. members e' = (if ce_in_use e then filter (\<lambda>p. fst p \<noteq> ucast m) (members e) else members e))
      (cm_entries cm) (cm_entries cm')"
proof -
  note r = recover_entries [OF assms(2)]
  have "members (purge_entry (ucast m) e) = (if ce_in_use e then filter (\<lambda>p. fst p \<noteq> ucast m) (members e) else members e)"
    if "e \<in> set (cm_entries cm)" for e
    using that assms(1) purge_entry_ok(2) [of e "ucast m"] by (auto simp: cg_ok_def purge_entry_def [of _ e])
  then show ?thesis using r by (simp add: list_all2_map2 list_all2_same get_os_gen_id_def)
qed

theorem recover_purges_machine_witness:
  "\<exists>cm cl' cm'. cg_ok cm \<and> recover_cxlcg_meta DRAM ex_machine 2 [] ex_local cm = Done (cl', cm') \<and>
    get_os_gen_id cm' (2 - 1) = map_option (\<lambda>gen. gen + 1) (get_os_gen_id cm (2 - 1))"
proof -
  obtain cl cm where i: "cg_free DRAM ex_machine 2 cm" by (rule ex_init)
  obtain cl' cm' where r: "recover_cxlcg_meta DRAM ex_machine 2 [] ex_local cm = Done (cl', cm')" by (rule recover_free [OF i])
  have ok: "cg_ok cm" using i by (simp add: cg_free_def)
  from recover_purges_machine [OF ok r] r ok show ?thesis by blast
qed

text \<open>Joining checks neither that a group exists nor that the secret is the one it was created with:
  in a group that is not in use, with a free slot, any process whose secret hashes to its number becomes
  a member, and the group stays not in use, so that a later recovery of the machine skips it.\<close>

lemma join_unchecked_group:
  assumes "cg_free g k m cm" "quiet_env g es" "group_of secret = Some h" "h < MAX_GROUP_NUM"
    and "\<not> ce_in_use (cm_entries cm ! h)" "length (members (cm_entries cm ! h)) < MAX_PROC_PER_GROUP"
  shows "\<exists>cm'. do_join_cxlcg g k m es cl tsk secret lid cm = Done (0, cm') \<and> \<not> ce_in_use (cm_entries cm' ! h) \<and>
    (GET_OS_ID (cl_my_osii cl), GET_GEN_ID (cl_my_osii cl), lid) \<in> set (members (cm_entries cm' ! h))"
proof -
  let ?e = "cm_entries cm ! h" and ?j = "join_entry (cl_my_osii cl) lid tsk (cm_entries cm ! h)"
  have ok: "entry_ok ?e" "length (cm_entries cm) = MAX_GROUP_NUM" using assms(1,4) by (auto simp: cg_free_def cg_ok_def)
  have ret: "fst ?j = 0" using join_entry_ok(3) [OF ok(1), of "cl_my_osii cl" lid tsk] assms(6) by auto
  have use: "ce_in_use (snd ?j) = ce_in_use ?e" by (simp add: join_entry_def Let_def)
  obtain c where l: "recoverable_lock g k m es cm = Done (cm \<lparr>cm_meta_lock := c\<rparr>)" by (rule recoverable_lock_free [OF assms(1,2)])
  let ?cm = "cm \<lparr>cm_meta_lock := c, cm_entries := (cm_entries cm) [h := snd ?j]\<rparr>"
  obtain c' where u: "recoverable_unlock g k m ?cm = Done (?cm \<lparr>cm_meta_lock := c'\<rparr>)"
    using assms(1) recoverable_unlock_free [of k m g ?cm] by (auto simp: cg_free_def)
  have "do_join_cxlcg g k m es cl tsk secret lid cm = Done (0, ?cm \<lparr>cm_meta_lock := c'\<rparr>)"
    using assms(3) ret l u by (simp add: do_join_cxlcg_def split_def Let_def)
  with join_entry_ok(2) [OF ok(1) ret] use assms(4,5) ok(2) show ?thesis by simp
qed

end
