(* ===== verification/Meta_Alloc.thy ===== *)
theory Meta_Alloc
  imports Obj_Header Circular_Queue Cxl_Cgroup
begin

text \<open>
  The allocator of shared objects, \<^verbatim>\<open>src/driver/src/buddy_alloc.c\<close>, with the handlers of
  \<^verbatim>\<open>src/driver/src/cxl_alloc.c\<close> that call it and the layout of the shared region (\<^verbatim>\<open>vcxl_def.h\<close>, \<^verbatim>\<open>log.h\<close>).

  The parts of the region are kept as values of their own types (\<open>shared\<close>): the queues, the group table,
  the metadata of the allocator (log, lock and buddy allocator, \<open>meta_shmem\<close>), and the bytes of the rest,
  which hold the pages of object headers and the two list heads inside the metadata. \<open>meta_dram\<close> is the
  volatile state of one kernel. As in the other theories, a lock is taken in a changing environment, and
  everything else is the state found when it has been taken.

  \<open>None\<close> and \<open>Bug\<close> stand for a failed assertion, a null pointer that is followed, or a string that is not
  terminated. Cache flushes and fences of the metadata, printing and the points of fault injection are
  omitted; a crash is described by what it leaves behind.
\<close>

subsection \<open>Layout of the region\<close>

definition FUTEX_ADDR_QUEUE_SIZE :: nat where "FUTEX_ADDR_QUEUE_SIZE = 20480"
definition PROC_DEATH_NOTIFICATION_SIZE :: nat where "PROC_DEATH_NOTIFICATION_SIZE = 20480"
definition CXLCG_META_SIZE :: nat where "CXLCG_META_SIZE = 40960"
definition BUDDY_ALLOC_ALIGNMENT :: nat where "BUDDY_ALLOC_ALIGNMENT = 4096"
definition ELOG_ERR :: int where "ELOG_ERR = 134"
definition EIDX_NOT_FOUND :: int where "EIDX_NOT_FOUND = 135"
definition EINVAL :: int where "EINVAL = 22"

text \<open>Addresses of the queues of this machine and of a peer.\<close>

definition peer_vcxl_addr_queue :: "meta_dram \<Rightarrow> u16 \<Rightarrow> nat" where
  "peer_vcxl_addr_queue md peer =
     (if peer < 1 then 0 else mem_start md + (unat peer - 1) * circular_queue_size)"

definition self_vcxl_addr_queue :: "meta_dram \<Rightarrow> nat" where
  "self_vcxl_addr_queue md =
     (if md_machine_id md < 1 then 0 else mem_start md + (unat (md_machine_id md) - 1) * circular_queue_size)"

definition peer_vcxl_procdeath_queue :: "meta_dram \<Rightarrow> u16 \<Rightarrow> nat" where
  "peer_vcxl_procdeath_queue md peer =
     (if peer < 1 then 0
      else mem_start md + FUTEX_ADDR_QUEUE_SIZE + OBJ_ALLOC_RECS_SIZE + (unat peer - 1) * circular_queue_size)"

definition self_vcxl_procdeath_queue :: "meta_dram \<Rightarrow> nat" where
  "self_vcxl_procdeath_queue md =
     (if md_machine_id md < 1 then 0
      else mem_start md + FUTEX_ADDR_QUEUE_SIZE + OBJ_ALLOC_RECS_SIZE + (unat (md_machine_id md) - 1) * circular_queue_size)"

definition shm_off_to_virtual_addr :: "meta_dram \<Rightarrow> u64 \<Rightarrow> nat" where
  "shm_off_to_virtual_addr md offset = (if offset = 0 then 0 else mem_start md + unat offset)"

subsection \<open>The metadata\<close>

text \<open>\<open>ms_at\<close> is the address of the structure. The log takes its first 560 bytes, then come the heads of
  the two lists, which live in the byte memory, the lock and the buddy allocator.\<close>

record meta_shmem =
  ms_at :: nat
  ms_redolog :: redo_log
  ms_meta_lock :: "u64 pcell"
  ms_buddy_alloc :: buddy

definition sizeof_meta_shmem :: nat where "sizeof_meta_shmem = 632"
definition ms_obj_headers :: "meta_shmem \<Rightarrow> nat" where "ms_obj_headers ms = ms_at ms + 560"
definition ms_obj_allocs :: "meta_shmem \<Rightarrow> nat" where "ms_obj_allocs ms = ms_at ms + 576"
definition ms_buddy_at :: "nat \<Rightarrow> nat" where "ms_buddy_at at = at + 600"

record shared =
  sh_futexq :: "circular_queue list"
  sh_deathq :: "circular_queue list"
  sh_cg :: cxlcg_meta
  sh_meta :: meta_shmem
  sh_mem :: mem

record meta_info =
  mi_alignment :: nat
  mi_mem_size :: nat
  mi_buddy_struct_offset :: u64
  mi_buddy_flags :: nat

definition assign_meta_info :: "meta_shmem \<Rightarrow> meta_dram \<Rightarrow> meta_info" where
  "assign_meta_info ms md =
     \<lparr>mi_alignment = bd_alignment (ms_buddy_alloc ms), mi_mem_size = bd_memory_size (ms_buddy_alloc ms),
      mi_buddy_struct_offset = word_of_nat (ms_at ms) - word_of_nat (mem_start md),
      mi_buddy_flags = bd_flags (ms_buddy_alloc ms)\<rparr>"

definition record_append_obj :: "redo_log \<times> nat \<Rightarrow> mem \<Rightarrow> meta_shmem \<Rightarrow> nat \<Rightarrow> nat \<Rightarrow> (redo_log \<times> nat) option" where
  "record_append_obj lp m ms obj_hdr start = record_list_queue_append lp m (ms_obj_headers ms) obj_hdr start"

definition record_remove_obj :: "redo_log \<times> nat \<Rightarrow> mem \<Rightarrow> meta_shmem \<Rightarrow> nat \<Rightarrow> nat \<Rightarrow> (redo_log \<times> nat) option" where
  "record_remove_obj lp m ms obj_hdr start = record_list_queue_remove lp m (ms_obj_headers ms) obj_hdr start"

subsection \<open>The lock\<close>

definition meta_lock_init :: "granularity \<Rightarrow> meta_shmem \<Rightarrow> meta_shmem" where
  "meta_lock_init g ms = ms \<lparr>ms_meta_lock := ttas_init g (ms_meta_lock ms)\<rparr>"

definition meta_lock :: "granularity \<Rightarrow> cpu \<Rightarrow> env \<Rightarrow> cxlcg_meta \<Rightarrow> meta_dram \<Rightarrow> meta_shmem \<Rightarrow> meta_shmem outcome" where
  "meta_lock g k es cm md ms =
     (case get_os_gen_id cm (md_machine_id md - 1) of
        None \<Rightarrow> Bug
      | Some gen_id \<Rightarrow>
          bind_outcome (ttas_lock_with_gen_kern g k (md_machine_id md) gen_id es (ms_meta_lock ms))
            (\<lambda>c. Done (ms \<lparr>ms_meta_lock := c\<rparr>)))"

definition meta_lock_recover ::
  "granularity \<Rightarrow> cpu \<Rightarrow> cxlcg_meta \<Rightarrow> meta_dram \<Rightarrow> u16 \<Rightarrow> meta_shmem \<Rightarrow> (transfer_st \<times> meta_shmem) outcome" where
  "meta_lock_recover g k cm md old_machine_id ms =
     (case get_os_gen_id cm (md_machine_id md - 1) of
        None \<Rightarrow> Bug
      | Some gen_id \<Rightarrow>
          bind_outcome (do_ttas_lock_recover g k old_machine_id (md_machine_id md) gen_id (ms_meta_lock ms))
            (\<lambda>(st, c). Done (st, ms \<lparr>ms_meta_lock := c\<rparr>)))"

definition meta_lock_done_recover ::
  "granularity \<Rightarrow> cpu \<Rightarrow> meta_dram \<Rightarrow> transfer_st \<Rightarrow> meta_shmem \<Rightarrow> meta_shmem outcome" where
  "meta_lock_done_recover g k md st ms =
     bind_outcome (done_ttas_lock_recover g k (md_machine_id md) st (ms_meta_lock ms))
       (\<lambda>c. Done (ms \<lparr>ms_meta_lock := c\<rparr>))"

definition meta_unlock :: "granularity \<Rightarrow> cpu \<Rightarrow> meta_dram \<Rightarrow> meta_shmem \<Rightarrow> meta_shmem outcome" where
  "meta_unlock g k md ms =
     bind_outcome (do_ttas_unlock g k (md_machine_id md) (ms_meta_lock ms)) (\<lambda>c. Done (ms \<lparr>ms_meta_lock := c\<rparr>))"

definition buddy_malloc_find_pos_lockheld :: "meta_shmem \<Rightarrow> nat \<Rightarrow> buddy_tree_pos" where
  "buddy_malloc_find_pos_lockheld ms requested = buddy_malloc_find_pos (Some (ms_buddy_alloc ms)) requested"

definition buddy_free_find_pos_lockheld :: "meta_shmem \<Rightarrow> nat \<Rightarrow> nat \<Rightarrow> buddy_tree_pos" where
  "buddy_free_find_pos_lockheld ms addr requested = buddy_free_find_pos (Some (ms_buddy_alloc ms)) addr requested"

subsection \<open>Construction\<close>

definition metashmem_sizeof_alignment :: "nat \<Rightarrow> nat \<Rightarrow> nat" where
  "metashmem_sizeof_alignment memory_size alignment =
     (if \<not> is_valid_alignment alignment then 0
      else if memory_size < alignment then 0
      else sizeof_meta_shmem + buddy_tree_sizeof (buddy_tree_order_for_memory memory_size alignment mod 256))"

definition metashmem_embed_offset :: "nat \<Rightarrow> nat \<Rightarrow> buddy_embed_check" where
  "metashmem_embed_offset memory_size alignment =
     (let meta_size = metashmem_sizeof_alignment memory_size alignment;
          failed = \<lparr>can_fit = False, embed_offset = 0, embed_buddy_size = 0\<rparr>
      in if memory_size \<le> meta_size \<or> meta_size = 0 then failed
         else
           let offset = memory_size - meta_size
           in if offset mod 8 \<noteq> 0 then
                let meta_size = meta_size + offset mod 8
                in if memory_size \<le> meta_size then failed
                   else \<lparr>can_fit = True, embed_offset = memory_size - meta_size, embed_buddy_size = meta_size\<rparr>
              else \<lparr>can_fit = True, embed_offset = offset, embed_buddy_size = meta_size\<rparr>)"

text \<open>\<open>ms\<close> is what the memory at \<open>at\<close> held before; \<open>None\<close> is the null pointer.\<close>

definition metashmem_init_alignment ::
  "granularity \<Rightarrow> nat \<Rightarrow> nat \<Rightarrow> nat \<Rightarrow> nat \<Rightarrow> meta_shmem \<Rightarrow> meta_shmem option" where
  "metashmem_init_alignment g at main memory_size alignment ms =
     (if at = 0 \<or> main = 0 \<or> at = main then None
      else if \<not> is_valid_alignment alignment then None
      else if at mod 8 \<noteq> 0 \<or> main mod 8 \<noteq> 0 then None
      else
        let memory_size = memory_size - memory_size mod alignment
        in if memory_size < alignment then None
           else
             let ord = buddy_tree_order_for_memory memory_size alignment;
                 b = \<lparr>bd_at = ms_buddy_at at, bd_memory_size = memory_size, bd_alignment = alignment,
                      bd_arena = main, bd_flags = 0, bd_tree = fst (buddy_tree_init (ord mod 256))\<rparr>;
                 ms = meta_lock_init g (ms \<lparr>ms_at := at\<rparr>)
             in map_option (\<lambda>b. ms \<lparr>ms_buddy_alloc := b\<rparr>) (buddy_toggle_virtual_slots b True))"

text \<open>The memory of the metadata is cleared first; of the typed parts this concerns the lock and the log,
  of the byte memory the list heads.\<close>

definition metashmem_embed_alignment ::
  "granularity \<Rightarrow> nat \<Rightarrow> nat \<Rightarrow> nat \<Rightarrow> meta_shmem \<Rightarrow> mem \<Rightarrow> (meta_shmem \<times> mem) option" where
  "metashmem_embed_alignment g main memory_size alignment ms m =
     (if main = 0 then None
      else if \<not> is_valid_alignment alignment then None
      else
        let result = metashmem_embed_offset memory_size alignment;
            at = main + embed_offset result
        in if \<not> can_fit result then None
           else
             let m = wr_bytes m at (replicate (embed_buddy_size result) 0);
                 ms = ms \<lparr>ms_at := at, ms_meta_lock := store_release g (ms_meta_lock ms) 0,
                   ms_redolog := replicate REDOLOG_ENTRIES EMPTY_LOG_ENTRY\<rparr>
             in case metashmem_init_alignment g at main (embed_offset result) alignment ms of
                  None \<Rightarrow> None
                | Some ms \<Rightarrow>
                    let b = ms_buddy_alloc ms;
                        ms = ms \<lparr>ms_buddy_alloc := b \<lparr>bd_flags := bd_flags b OR BUDDY_RELATIVE_MODE,
                               bd_arena := bd_at b - main\<rparr>\<rparr>;
                        m = wr 8 m (ms_obj_headers ms) 0;
                        m = wr 8 m (ms_obj_headers ms + 8) 0;
                        ms = ms \<lparr>ms_redolog := replicate REDOLOG_ENTRIES EMPTY_LOG_ENTRY\<rparr>
                    in Some (ms, m))"

definition execute_log_entries ::
  "meta_shmem \<Rightarrow> nat \<Rightarrow> meta_dram \<Rightarrow> mem \<Rightarrow> (meta_shmem \<times> meta_dram \<times> mem) option" where
  "execute_log_entries ms redolog_pos md m =
     map_option (\<lambda>(b, md, m). (ms \<lparr>ms_buddy_alloc := b\<rparr>, md, m))
       (execute_log (ms_redolog ms) redolog_pos (ms_buddy_alloc ms, md, m))"

primrec outcome_of :: "'a option \<Rightarrow> 'a outcome" where
  "outcome_of None = Bug"
| "outcome_of (Some x) = Done x"

text \<open>The initialisation of the whole region. The metadata that could not be placed is a null pointer that
  the code follows.\<close>

definition vcxl_init_meta_impl ::
  "granularity \<Rightarrow> cg_local \<Rightarrow> meta_dram \<Rightarrow> shared \<Rightarrow> (int \<times> cg_local \<times> meta_dram \<times> shared) outcome" where
  "vcxl_init_meta_impl g cl md sh =
     (let total_reserved = FUTEX_ADDR_QUEUE_SIZE + OBJ_ALLOC_RECS_SIZE + PROC_DEATH_NOTIFICATION_SIZE + CXLCG_META_SIZE;
          total_circular_queue_size = VCXL_MAX_SUPPORTED_MACHINES * circular_queue_size
      in if FUTEX_ADDR_QUEUE_SIZE < total_circular_queue_size then Done (- EINVAL, cl, md, sh)
         else if PROC_DEATH_NOTIFICATION_SIZE < total_circular_queue_size then Done (- EINVAL, cl, md, sh)
         else
           let sh = sh \<lparr>sh_futexq := map (init_circular_queue g) (sh_futexq sh),
                 sh_deathq := map (init_circular_queue g) (sh_deathq sh)\<rparr>
           in bind_outcome (init_cxlcg_meta g (md_machine_id md) cl (sh_cg sh)) (\<lambda>(cl, cm).
                let obj_alloc_recs = mem_start md + FUTEX_ADDR_QUEUE_SIZE;
                    m = init_obj_allocation_records (sh_mem sh) obj_alloc_recs;
                    md = md \<lparr>cur_obj_recs := obj_alloc_recs\<rparr>
                in case metashmem_embed_alignment g (mem_start md + total_reserved)
                     (size_sub (mem_length md) total_reserved) BUDDY_ALLOC_ALIGNMENT (sh_meta sh) m of
                     None \<Rightarrow> Bug
                   | Some (ms, m) \<Rightarrow>
                       let off = shmem_optr_from_ptr (mem_start md) obj_alloc_recs;
                           m = wr 8 m (ms_obj_allocs ms) (unat off);
                           m = wr 8 m (ms_obj_allocs ms + 8) (unat (lq_pe_first m (ms_obj_allocs ms)))
                       in Done (0, cl, md, sh \<lparr>sh_cg := cm, sh_meta := ms, sh_mem := m\<rparr>)))"

subsection \<open>Recovery\<close>

text \<open>The scan for the commit record: the return value, and its position when the checksum matches.\<close>

fun find_commit :: "redo_log \<Rightarrow> nat list \<Rightarrow> (int \<times> nat option) option" where
  "find_commit log [] = Some (0, None)"
| "find_commit log (i # is) =
     (if loge_tp (log ! i) = Some COMMIT then
        case util_checksum (concat log) (sizeof_log_entry * i) (sizeof_log_entry * i + 8) False 0 of
          None \<Rightarrow> None
        | Some (ret, _) \<Rightarrow> if ret then Some (0, Some i) else Some (ELOG_ERR, None)
      else find_commit log is)"

definition recover_with_redolog ::
  "meta_shmem \<Rightarrow> meta_dram \<Rightarrow> mem \<Rightarrow> (int \<times> meta_shmem \<times> meta_dram \<times> mem) option" where
  "recover_with_redolog ms md m =
     (case find_commit (ms_redolog ms) [0..<REDOLOG_ENTRIES] of
        None \<Rightarrow> None
      | Some (ret, None) \<Rightarrow> Some (ret, ms, md, m)
      | Some (ret, Some redolog_pos) \<Rightarrow>
          map_option (\<lambda>(ms, md, m). (0, ms, md, m)) (execute_log_entries ms redolog_pos md m))"

definition obj_header_head :: "nat \<Rightarrow> meta_shmem \<Rightarrow> mem \<Rightarrow> nat" where
  "obj_header_head start ms m = shmem_optr_direct_ptr start (lq_pe_first m (ms_obj_headers ms))"

definition obj_alloc_recs_head :: "nat \<Rightarrow> meta_shmem \<Rightarrow> mem \<Rightarrow> nat" where
  "obj_alloc_recs_head start ms m = shmem_optr_direct_ptr start (lq_pe_first m (ms_obj_allocs ms))"

text \<open>The loops over the list of headers (printing, or looking for the first header that satisfies a
  test) and over the pages. A list that is not terminated makes them run forever, which is \<open>None\<close>. The
  result is the node where the loop stopped, 0 when it ran through.\<close>

partial_function (option) find_node ::
  "(mem \<Rightarrow> nat \<Rightarrow> bool option) \<Rightarrow> mem \<Rightarrow> nat \<Rightarrow> nat \<Rightarrow> nat option" where
  "find_node P m start node =
     (if node = 0 then Some 0
      else
        case P m node of
          None \<Rightarrow> None
        | Some stop \<Rightarrow>
            if stop then Some node
            else if shmem_optr_is_null (le_pe_next m node) then Some 0
            else find_node P m start (shmem_optr_direct_ptr start (le_pe_next m node)))"

declare find_node.simps [code]

definition print_allocation :: "nat \<Rightarrow> meta_shmem \<Rightarrow> mem \<Rightarrow> nat option" where
  "print_allocation start ms m = find_node (\<lambda>_ _. Some False) m start (obj_header_head start ms m)"

definition has_available_slot :: "mem \<Rightarrow> nat \<Rightarrow> bool option" where
  "has_available_slot m recs = Some (recs_available m recs \<noteq> 0)"

text \<open>Recovery computes the address of the metadata again. When it is not the address where they were
  placed, the code takes other bytes for a log and a lock; this is \<open>Bug\<close> here.\<close>

definition recover_meta ::
  "granularity \<Rightarrow> cpu \<Rightarrow> env \<Rightarrow> env \<Rightarrow> cg_local \<Rightarrow> meta_dram \<Rightarrow> shared \<Rightarrow>
    (int \<times> cg_local \<times> meta_dram \<times> shared) outcome" where
  "recover_meta g k es1 es2 cl md sh =
     (let total_reserved = FUTEX_ADDR_QUEUE_SIZE + OBJ_ALLOC_RECS_SIZE + PROC_DEATH_NOTIFICATION_SIZE
      in bind_outcome (recover_cxlcg_meta g k (md_machine_id md) es1 cl (sh_cg sh)) (\<lambda>(cl, cm).
           let memory_size = size_sub (mem_length md) total_reserved;
               result = metashmem_embed_offset memory_size BUDDY_ALLOC_ALIGNMENT;
               sh = sh \<lparr>sh_cg := cm\<rparr>
           in if \<not> can_fit result then Done (- EFAULT, cl, md, sh)
              else if mem_start md + total_reserved + embed_offset result \<noteq> ms_at (sh_meta sh) then Bug
              else
                bind_outcome (meta_lock_recover g k cm md (md_machine_id md) (sh_meta sh)) (\<lambda>(st, ms).
                   bind_outcome (if st \<noteq> TRANSFERED then meta_lock g k es2 cm md ms else Done ms) (\<lambda>ms.
                   bind_outcome (outcome_of (recover_with_redolog ms md (sh_mem sh))) (\<lambda>(ret, ms, md, m).
                   if ret \<noteq> 0 then
                     bind_outcome (meta_unlock g k md ms) (\<lambda>ms. Done (- ret, cl, md, sh \<lparr>sh_meta := ms, sh_mem := m\<rparr>))
                   else
                     bind_outcome (outcome_of (print_allocation (mem_start md) ms m)) (\<lambda>_.
                     bind_outcome (outcome_of (find_node has_available_slot m (mem_start md)
                         (obj_alloc_recs_head (mem_start md) ms m))) (\<lambda>recs.
                     bind_outcome (meta_unlock g k md ms) (\<lambda>ms.
                       Done (0, cl, md \<lparr>cur_obj_recs := recs\<rparr>, sh \<lparr>sh_meta := ms, sh_mem := m\<rparr>)))))))))"

subsection \<open>Objects\<close>

record region_desc =
  rg_offset :: u64
  rg_length :: u64
  rg_prog_id :: "u8 list"

text \<open>The comparison all lookups use: equal lengths, then \<open>strncmp\<close> over that length.\<close>

definition header_matches :: "u8 list \<Rightarrow> mem \<Rightarrow> nat \<Rightarrow> bool option" where
  "header_matches src m obj_hdr =
     (case c_strlen src of
        None \<Rightarrow> None
      | Some src_prog_id_len \<Rightarrow>
          map_option (\<lambda>n. n = src_prog_id_len \<and> strncmp_eq (hdr_prog_id m obj_hdr) src src_prog_id_len)
            (c_strlen (hdr_prog_id m obj_hdr)))"

definition find_header :: "u8 list \<Rightarrow> meta_dram \<Rightarrow> meta_shmem \<Rightarrow> mem \<Rightarrow> nat option" where
  "find_header src md ms m =
     (case c_strlen src of
        None \<Rightarrow> None
      | Some _ \<Rightarrow> find_node (header_matches src) m (mem_start md) (obj_header_head (mem_start md) ms m))"

text \<open>The first half of an allocation builds the log up to the commit record; nothing else changes. The
  result is the return value, the block and the log. A page of headers that could not be allocated
  shows as a null header, which is appended to the list of objects all the same.\<close>

definition allocate_record ::
  "meta_shmem \<Rightarrow> meta_dram \<Rightarrow> mem \<Rightarrow> region_desc \<Rightarrow> (int \<times> nat \<times> (redo_log \<times> nat)) option" where
  "allocate_record ms md m alloc =
     (case alloc_and_log_lockheld (ms_redolog ms, 0) (ms_buddy_alloc ms) md (unat (rg_length alloc)) of
        None \<Rightarrow> None
      | Some (ret, None, lp) \<Rightarrow> Some (ret, 0, lp)
      | Some (ret, Some obj, lp) \<Rightarrow>
          (case record_obj_hdr_alloc lp (ms_buddy_alloc ms) m (ms_obj_allocs ms) md
              (shmem_optr_from_ptr (mem_start md) obj) (rg_length alloc) (rg_prog_id alloc) of
             None \<Rightarrow> None
           | Some (obj_header, lp) \<Rightarrow>
               (case record_append_obj lp m ms obj_header (mem_start md) of
                  None \<Rightarrow> None
                | Some lp \<Rightarrow> map_option (\<lambda>lp. (0, obj, lp)) (set_commit_log_entry lp))))"

definition atomic_allocate_memory_lockheld ::
  "meta_shmem \<Rightarrow> meta_dram \<Rightarrow> mem \<Rightarrow> region_desc \<Rightarrow> (int \<times> nat \<times> meta_shmem \<times> meta_dram \<times> mem) option" where
  "atomic_allocate_memory_lockheld ms md m alloc =
     (case allocate_record ms md m alloc of
        None \<Rightarrow> None
      | Some (ret, obj, lp) \<Rightarrow>
          let ms = ms \<lparr>ms_redolog := fst lp\<rparr>
          in if ret \<noteq> 0 then Some (ret, 0, ms, md, m)
             else map_option (\<lambda>(ms, md, m). (0, obj, ms, md, m)) (execute_log_entries ms (snd lp) md m))"

definition atomic_allocate_memory ::
  "granularity \<Rightarrow> cpu \<Rightarrow> env \<Rightarrow> meta_dram \<Rightarrow> region_desc \<Rightarrow> shared \<Rightarrow> (int \<times> nat \<times> meta_dram \<times> shared) outcome" where
  "atomic_allocate_memory g k es md alloc sh =
     bind_outcome (meta_lock g k es (sh_cg sh) md (sh_meta sh)) (\<lambda>ms.
     bind_outcome (outcome_of (atomic_allocate_memory_lockheld ms md (sh_mem sh) alloc)) (\<lambda>(ret, obj, ms, md, m).
     bind_outcome (meta_unlock g k md ms) (\<lambda>ms. Done (ret, obj, md, sh \<lparr>sh_meta := ms, sh_mem := m\<rparr>))))"

text \<open>The log of a release.\<close>

definition free_record ::
  "meta_shmem \<Rightarrow> meta_dram \<Rightarrow> mem \<Rightarrow> nat \<Rightarrow> buddy_tree_pos \<Rightarrow> (redo_log \<times> nat) option" where
  "free_record ms md m obj_hdr pos =
     (case set_buddyop_log_entry ((ms_redolog ms) [0 := EMPTY_LOG_ENTRY], 0) BUDDY_FREE pos of
        None \<Rightarrow> None
      | Some lp \<Rightarrow>
          (case record_remove_obj lp m ms obj_hdr (mem_start md) of
             None \<Rightarrow> None
           | Some lp \<Rightarrow>
               (case record_obj_hdr_free lp m md obj_hdr of
                  None \<Rightarrow> None
                | Some lp \<Rightarrow> set_commit_log_entry lp)))"

definition free_lockheld ::
  "meta_shmem \<Rightarrow> meta_dram \<Rightarrow> mem \<Rightarrow> region_desc \<Rightarrow> (int \<times> meta_shmem \<times> meta_dram \<times> mem) option" where
  "free_lockheld ms md m free_arg =
     (case find_header (rg_prog_id free_arg) md ms m of
        None \<Rightarrow> None
      | Some obj_hdr \<Rightarrow>
          if obj_hdr = 0 then Some (0, ms, md, m)
          else
            let addr_to_free = mem_start md + unat (rg_offset free_arg);
                pos = buddy_free_find_pos_lockheld ms addr_to_free (unat (rg_length free_arg))
            in if \<not> buddy_tree_valid (bd_tree (ms_buddy_alloc ms)) pos then Some (- EFAULT, ms, md, m)
               else
                 case free_record ms md m obj_hdr pos of
                   None \<Rightarrow> None
                 | Some lp \<Rightarrow>
                     map_option (\<lambda>(ms, md, m). (0, ms, md, m)) (execute_log_entries (ms \<lparr>ms_redolog := fst lp\<rparr>) (snd lp) md m))"

definition atomic_free_memory ::
  "granularity \<Rightarrow> cpu \<Rightarrow> env \<Rightarrow> meta_dram \<Rightarrow> region_desc \<Rightarrow> shared \<Rightarrow> (int \<times> meta_dram \<times> shared) outcome" where
  "atomic_free_memory g k es md free_arg sh =
     bind_outcome (meta_lock g k es (sh_cg sh) md (sh_meta sh)) (\<lambda>ms.
     bind_outcome (outcome_of (free_lockheld ms md (sh_mem sh) free_arg)) (\<lambda>(ret, ms, md, m).
     bind_outcome (meta_unlock g k md ms) (\<lambda>ms. Done (ret, md, sh \<lparr>sh_meta := ms, sh_mem := m\<rparr>))))"

text \<open>Lookup of an object by name, allocating it when it does not exist and a length is given. The flag is
  \<open>existing\<close>. The result of the allocation is ignored: after a failure the block is null and the offset
  that of the null pointer.\<close>

definition find_lockheld ::
  "meta_shmem \<Rightarrow> meta_dram \<Rightarrow> mem \<Rightarrow> region_desc \<Rightarrow> (bool \<times> region_desc \<times> meta_shmem \<times> meta_dram \<times> mem) option" where
  "find_lockheld ms md m desc =
     (case find_header (rg_prog_id desc) md ms m of
        None \<Rightarrow> None
      | Some obj_hdr \<Rightarrow>
          if obj_hdr \<noteq> 0 then
            Some (True, desc \<lparr>rg_offset := hdr_obj_optr m obj_hdr, rg_length := word_of_nat (hdr_length m obj_hdr)\<rparr>, ms, md, m)
          else if 0 < rg_length desc then
            map_option (\<lambda>(ret, obj, ms, md, m).
                (False, desc \<lparr>rg_offset := word_of_nat obj - word_of_nat (mem_start md)\<rparr>, ms, md, m))
              (atomic_allocate_memory_lockheld ms md m desc)
          else Some (False, desc, ms, md, m))"

definition find_allocation ::
  "granularity \<Rightarrow> cpu \<Rightarrow> env \<Rightarrow> meta_dram \<Rightarrow> region_desc \<Rightarrow> shared \<Rightarrow>
    (bool \<times> region_desc \<times> meta_dram \<times> shared) outcome" where
  "find_allocation g k es md desc sh =
     bind_outcome (meta_lock g k es (sh_cg sh) md (sh_meta sh)) (\<lambda>ms.
     bind_outcome (outcome_of (find_lockheld ms md (sh_mem sh) desc)) (\<lambda>(existing, desc, ms, md, m).
     bind_outcome (meta_unlock g k md ms) (\<lambda>ms. Done (existing, desc, md, sh \<lparr>sh_meta := ms, sh_mem := m\<rparr>))))"

text \<open>The self-check of an object: all its assertions hold, or it stops. The slot is computed in 16 bits
  before the division.\<close>

definition check_object :: "meta_shmem \<Rightarrow> meta_dram \<Rightarrow> mem \<Rightarrow> region_desc \<Rightarrow> nat \<Rightarrow> bool" where
  "check_object ms md m check obj_hdr =
     (let obj_allocs = mem_start md + unat (get_obj_allocation_records_offset m obj_hdr (mem_start md));
          calc_slot_id = unat (word_of_nat obj_hdr - word_of_nat (recs_header_at obj_allocs 0) :: u16) div OBJ_HEADER_SIZE;
          total_slots = SIZEOF_OBJ_BITSET;
          alloced_slot = bitset_count_range (recs_bitset m obj_allocs) 0 total_slots;
          pos = buddy_free_find_pos_lockheld ms (mem_start md + unat (rg_offset check)) (unat (rg_length check));
          t = bd_tree (ms_buddy_alloc ms);
          pos_internal = buddy_tree_internal_position_tree t pos
      in bitset_test (recs_bitset m obj_allocs) calc_slot_id \<and>
         int NUM_OBJ_SLOTS - int alloced_slot = int (recs_available m obj_allocs) \<and>
         recs_header_at obj_allocs (hdr_slot_id m obj_hdr) = obj_hdr \<and>
         calc_slot_id = hdr_slot_id m obj_hdr \<and>
         unat (md_machine_id md) = hdr_machine_id m obj_hdr \<and>
         hdr_length m obj_hdr = unat (rg_length check) \<and>
         hdr_obj_optr m obj_hdr = rg_offset check \<and>
         header_matches (rg_prog_id check) m obj_hdr = Some True \<and>
         read_from_internal_position (bt_data t) pos_internal = local_offset pos_internal)"

definition check_allocation ::
  "granularity \<Rightarrow> cpu \<Rightarrow> env \<Rightarrow> meta_dram \<Rightarrow> region_desc \<Rightarrow> shared \<Rightarrow> (int \<times> shared) outcome" where
  "check_allocation g k es md check sh =
     bind_outcome (meta_lock g k es (sh_cg sh) md (sh_meta sh)) (\<lambda>ms.
     bind_outcome (outcome_of (find_header (rg_prog_id check) md ms (sh_mem sh))) (\<lambda>obj_hdr.
     if obj_hdr = 0 then
       bind_outcome (meta_unlock g k md ms) (\<lambda>ms. Done (EIDX_NOT_FOUND, sh \<lparr>sh_meta := ms\<rparr>))
     else if \<not> check_object ms md (sh_mem sh) check obj_hdr then Bug
     else bind_outcome (meta_unlock g k md ms) (\<lambda>ms. Done (0, sh \<lparr>sh_meta := ms\<rparr>))))"

subsection \<open>The handlers\<close>

text \<open>\<open>copied_in\<close> and \<open>copied_out\<close> say whether the copies from and to user space succeed. Assertions that are
  compiled only with \<^verbatim>\<open>DEBUG_ASSERT\<close> are omitted.\<close>

definition do_vcxl_init_meta ::
  "granularity \<Rightarrow> bool \<Rightarrow> bool \<Rightarrow> u8 \<Rightarrow> u8 \<Rightarrow> bool \<Rightarrow> cg_local \<Rightarrow> meta_dram \<Rightarrow> shared \<Rightarrow>
    (int \<times> meta_info option \<times> cg_local \<times> meta_dram \<times> shared) outcome" where
  "do_vcxl_init_meta g copied_in copied_out info_total utot_machine test cl md sh =
     (if mem_start md = 0 then Bug
      else if test \<and> \<not> copied_in then Done (-1, None, cl, md, sh)
      else
        let tot_machine = (if test then info_total else utot_machine)
        in if VCXL_MAX_SUPPORTED_MACHINES < unat (md_machine_id md) then Done (- EINVAL, None, cl, md, sh)
           else if VCXL_MAX_SUPPORTED_MACHINES < unat tot_machine then Done (- EINVAL, None, cl, md, sh)
           else
             bind_outcome (vcxl_init_meta_impl g cl md sh) (\<lambda>(_, cl, md, sh).
               let info = assign_meta_info (sh_meta sh) md;
                   md = md \<lparr>md_total_machines := tot_machine\<rparr>
               in if test \<and> \<not> copied_out then Done (-1, None, cl, md, sh)
                  else Done (0, if test then Some info else None, cl, md, sh)))"

definition do_vcxl_recover_meta ::
  "granularity \<Rightarrow> cpu \<Rightarrow> env \<Rightarrow> env \<Rightarrow> bool \<Rightarrow> bool \<Rightarrow> u8 \<Rightarrow> u8 \<Rightarrow> bool \<Rightarrow> cg_local \<Rightarrow> meta_dram \<Rightarrow> shared \<Rightarrow>
    (int \<times> meta_info option \<times> cg_local \<times> meta_dram \<times> shared) outcome" where
  "do_vcxl_recover_meta g k es1 es2 copied_in copied_out info_total utot_machine test cl md sh =
     (if mem_start md = 0 then Bug
      else if test \<and> \<not> copied_in then Done (-1, None, cl, md, sh)
      else
        let tot_machine = (if test then info_total else utot_machine)
        in if VCXL_MAX_SUPPORTED_MACHINES < unat tot_machine then Done (- EINVAL, None, cl, md, sh)
           else
             bind_outcome (recover_meta g k es1 es2 cl md sh) (\<lambda>(rval, cl, md, sh).
               if rval \<noteq> 0 then Done (rval, None, cl, md, sh)
               else
                 let info = assign_meta_info (sh_meta sh) md;
                     md = md \<lparr>md_total_machines := tot_machine\<rparr>
                 in if test \<and> \<not> copied_out then Done (-1, None, cl, md, sh)
                    else Done (rval, if test then Some info else None, cl, md, sh)))"

definition do_vcxl_find_alloc ::
  "granularity \<Rightarrow> cpu \<Rightarrow> env \<Rightarrow> bool \<Rightarrow> bool \<Rightarrow> region_desc \<Rightarrow> meta_dram \<Rightarrow> shared \<Rightarrow>
    (int \<times> (bool \<times> region_desc) option \<times> meta_dram \<times> shared) outcome" where
  "do_vcxl_find_alloc g k es copied_in copied_out desc md sh =
     (if mem_start md = 0 then Bug
      else if \<not> copied_in then Done (- EFAULT, None, md, sh)
      else
        bind_outcome (find_allocation g k es md desc sh) (\<lambda>(existing, desc, md, sh).
          if copied_out then Done (0, Some (existing, desc), md, sh) else Done (-1, None, md, sh)))"

definition do_vcxl_check_alloc ::
  "granularity \<Rightarrow> cpu \<Rightarrow> env \<Rightarrow> bool \<Rightarrow> region_desc \<Rightarrow> meta_dram \<Rightarrow> shared \<Rightarrow> (int \<times> shared) outcome" where
  "do_vcxl_check_alloc g k es copied_in arg md sh =
     (if mem_start md = 0 then Bug
      else if \<not> copied_in then Done (- EFAULT, sh)
      else check_allocation g k es md arg sh)"

definition do_vcxl_alloc ::
  "granularity \<Rightarrow> cpu \<Rightarrow> env \<Rightarrow> bool \<Rightarrow> bool \<Rightarrow> region_desc \<Rightarrow> meta_dram \<Rightarrow> shared \<Rightarrow>
    (int \<times> region_desc option \<times> meta_dram \<times> shared) outcome" where
  "do_vcxl_alloc g k es copied_in copied_out arg md sh =
     (if mem_start md = 0 then Bug
      else if \<not> copied_in then Done (- EFAULT, None, md, sh)
      else
        bind_outcome (atomic_allocate_memory g k es md arg sh) (\<lambda>(rval, ret, md, sh).
          if rval \<noteq> 0 then Done (rval, None, md, sh)
          else if copied_out then
            Done (rval, Some (arg \<lparr>rg_offset := word_of_nat ret - word_of_nat (mem_start md)\<rparr>), md, sh)
          else Done (-1, None, md, sh)))"

definition do_vcxl_free ::
  "granularity \<Rightarrow> cpu \<Rightarrow> env \<Rightarrow> bool \<Rightarrow> region_desc \<Rightarrow> meta_dram \<Rightarrow> shared \<Rightarrow> (int \<times> meta_dram \<times> shared) outcome" where
  "do_vcxl_free g k es copied_in arg md sh =
     (if mem_start md = 0 then Bug
      else if \<not> copied_in then Done (- EFAULT, md, sh)
      else bind_outcome (atomic_free_memory g k es md arg sh) (\<lambda>(_, md, sh). Done (0, md, sh)))"

end
