(* ===== verification/Meta_Inv.thy ===== *)
theory Meta_Inv
  imports Meta_Alloc
begin

text \<open>
  The invariant of the allocator of shared objects and the correctness of an allocation. \<open>hs\<close> is the list
  of object headers and \<open>rs\<close> the list of pages, in the order of the two linked lists. The invariant ties
  the lists to the bitmaps of the pages and the objects to blocks of the buddy allocator.
\<close>

subsection \<open>The invariant\<close>

definition used_slots :: "mem \<Rightarrow> nat \<Rightarrow> nat list" where
  "used_slots m r = filter (bitset_test (recs_bitset m r)) [0..<NUM_OBJ_SLOTS]"

definition page_ok :: "mem \<Rightarrow> nat \<Rightarrow> bool" where
  "page_ok m r \<longleftrightarrow> recs_available m r = NUM_OBJ_SLOTS - length (used_slots m r) \<and>
     list_all (\<lambda>s. hdr_slot_id m (recs_header_at r s) = s) [0..<NUM_OBJ_SLOTS]"

definition page_sep :: "nat \<Rightarrow> nat \<Rightarrow> bool" where
  "page_sep r r' \<longleftrightarrow> r + OBJ_ALLOC_RECS_SIZE \<le> r' \<or> r' + OBJ_ALLOC_RECS_SIZE \<le> r"

definition page_place :: "meta_shmem \<Rightarrow> nat \<Rightarrow> nat \<Rightarrow> bool" where
  "page_place ms start r \<longleftrightarrow> start < r \<and> r + OBJ_ALLOC_RECS_SIZE < 2 ^ 64 \<and>
     (r + OBJ_ALLOC_RECS_SIZE \<le> ms_at ms \<or> ms_at ms + sizeof_meta_shmem \<le> r)"

definition pages_ok :: "meta_shmem \<Rightarrow> nat \<Rightarrow> mem \<Rightarrow> nat list \<Rightarrow> bool" where
  "pages_ok ms start m rs \<longleftrightarrow> list_all (page_place ms start) rs \<and> list_all (page_ok m) rs \<and> sorted_wrt page_sep rs"

definition headers_ok :: "mem \<Rightarrow> nat list \<Rightarrow> nat list \<Rightarrow> bool" where
  "headers_ok m hs rs \<longleftrightarrow> set hs = (\<Union>r\<in>set rs. recs_header_at r ` set (used_slots m r)) \<and>
     list_all (\<lambda>h. 0 \<in> set (hdr_prog_id m h)) hs"

definition blocks_ok :: "nat \<Rightarrow> buddy \<Rightarrow> mem \<Rightarrow> nat list \<Rightarrow> bool" where
  "blocks_ok start b m hs \<longleftrightarrow>
     list_all (\<lambda>h. \<exists>n. (start + unat (hdr_obj_optr m h), n) \<in> bd_blocks b \<and> hdr_length m h \<le> n) hs \<and>
     distinct (map (hdr_obj_optr m) hs)"

definition meta_inv :: "meta_shmem \<Rightarrow> meta_dram \<Rightarrow> mem \<Rightarrow> nat list \<Rightarrow> nat list \<Rightarrow> bool" where
  "meta_inv ms md m hs rs \<longleftrightarrow>
     log_wf (ms_redolog ms) \<and> bd_ok (ms_buddy_alloc ms) \<and> arena_in_region md (ms_buddy_alloc ms) \<and>
     dll m (mem_start md) (ms_obj_headers ms) hs \<and> dll m (mem_start md) (ms_obj_allocs ms) rs \<and>
     pages_ok ms (mem_start md) m rs \<and> headers_ok m hs rs \<and> blocks_ok (mem_start md) (ms_buddy_alloc ms) m hs \<and>
     cur_obj_recs md \<in> set rs"

text \<open>The objects as their users see them: name, offset and length.\<close>

definition object_of :: "mem \<Rightarrow> nat \<Rightarrow> u8 list \<times> u64 \<times> nat" where
  "object_of m h = (c_string (hdr_prog_id m h), hdr_obj_optr m h, hdr_length m h)"

definition objects :: "mem \<Rightarrow> nat list \<Rightarrow> (u8 list \<times> u64 \<times> nat) list" where
  "objects m hs = map (object_of m) hs"

subsection \<open>Geometry of pages\<close>

lemma header_in_page:
  assumes "s < NUM_OBJ_SLOTS"
  shows "r + 64 \<le> recs_header_at r s" "recs_header_at r s + 48 \<le> r + 16384"
  using assms by (simp_all add: recs_header_at_def OBJ_HEADER_SIZE_def NUM_OBJ_SLOTS_def)

lemma header_slots:
  assumes "s \<noteq> s'"
  shows "recs_header_at r s + 48 \<le> recs_header_at r s' \<or> recs_header_at r s' + 48 \<le> recs_header_at r s"
  using assms by (auto simp: recs_header_at_def OBJ_HEADER_SIZE_def)

lemma sorted_wrt_distinct_pair:
  assumes "sorted_wrt P xs" "x \<in> set xs" "y \<in> set xs" "x \<noteq> y"
  shows "P x y \<or> P y x"
  using assms by (induction xs) auto

lemma pages_apart:
  assumes "pages_ok ms start m rs" "r \<in> set rs" "r' \<in> set rs" "r \<noteq> r'"
  shows "r + 16384 \<le> r' \<or> r' + 16384 \<le> r"
  using sorted_wrt_distinct_pair [of page_sep rs r r'] assms
  by (auto simp: pages_ok_def page_sep_def OBJ_ALLOC_RECS_SIZE_def)

lemma page_placeD:
  assumes "pages_ok ms start m rs" "r \<in> set rs"
  shows "start < r" "r + 16384 < 2 ^ 64" "r + 16384 \<le> ms_at ms \<or> ms_at ms + 632 \<le> r"
  using assms by (auto simp: pages_ok_def list_all_iff page_place_def OBJ_ALLOC_RECS_SIZE_def sizeof_meta_shmem_def)

lemma headers_apart:
  assumes "pages_ok ms start m rs" "r \<in> set rs" "r' \<in> set rs" "s < NUM_OBJ_SLOTS" "s' < NUM_OBJ_SLOTS" "(r, s) \<noteq> (r', s')"
  shows "recs_header_at r s + 48 \<le> recs_header_at r' s' \<or> recs_header_at r' s' + 48 \<le> recs_header_at r s"
proof (cases "r = r'")
  case True
  with assms(6) header_slots [of s s' r] show ?thesis by auto
next
  case False
  with pages_apart [OF assms(1-3)] header_in_page [OF assms(4), of r] header_in_page [OF assms(5), of r'] show ?thesis by linarith
qed

lemma used_slots_iff: "s \<in> set (used_slots m r) \<longleftrightarrow> s < NUM_OBJ_SLOTS \<and> bitset_test (recs_bitset m r) s"
  by (auto simp: used_slots_def)

lemma header_page:
  assumes "headers_ok m hs rs" "h \<in> set hs"
  obtains r s where "r \<in> set rs" "s < NUM_OBJ_SLOTS" "h = recs_header_at r s" "bitset_test (recs_bitset m r) s"
  using assms by (auto simp: headers_ok_def used_slots_iff)

text \<open>A page with slots left has a free one.\<close>

lemma free_slot:
  assumes "page_ok m r" "0 < recs_available m r"
  defines "s \<equiv> first_free_slot (recs_bitset m r)"
  shows "s < NUM_OBJ_SLOTS" "\<not> bitset_test (recs_bitset m r) s"
proof -
  have "\<exists>i<NUM_OBJ_SLOTS. \<not> bitset_test (recs_bitset m r) i"
  proof (rule ccontr)
    assume "\<not> ?thesis"
    then have "used_slots m r = [0..<NUM_OBJ_SLOTS]" by (auto simp: used_slots_def filter_id_conv)
    with assms(1,2) show False by (simp add: page_ok_def)
  qed
  then show "s < NUM_OBJ_SLOTS" "\<not> bitset_test (recs_bitset m r) s"
    unfolding s_def using first_free_slot by blast+
qed

subsection \<open>The writes of an allocation\<close>

text \<open>A free slot of a page, for a new header \<open>h\<close>.\<close>

definition new_header :: "meta_shmem \<Rightarrow> meta_dram \<Rightarrow> mem \<Rightarrow> nat list \<Rightarrow> nat list \<Rightarrow> nat \<Rightarrow> nat \<Rightarrow> nat \<Rightarrow> bool" where
  "new_header ms md m hs rs r s h \<longleftrightarrow> meta_inv ms md m hs rs \<and> r \<in> set rs \<and> s < NUM_OBJ_SLOTS \<and>
     \<not> bitset_test (recs_bitset m r) s \<and> h = recs_header_at r s"

lemma header_placed:
  assumes "pages_ok ms start m rs" "r \<in> set rs" "s < NUM_OBJ_SLOTS"
  defines "h \<equiv> recs_header_at r s"
  shows "placed start h" "h + 48 \<le> ms_at ms \<or> ms_at ms + 632 \<le> h"
  using page_placeD [OF assms(1,2)] header_in_page [OF assms(3), of r] by (auto simp: placed_def h_def)

lemma new_header_apart:
  assumes "new_header ms md m hs rs r s h" "h' \<in> set hs"
  shows "h + 48 \<le> h' \<or> h' + 48 \<le> h"
proof -
  from assms obtain r' s' where "r' \<in> set rs" "s' < NUM_OBJ_SLOTS" "h' = recs_header_at r' s'" "bitset_test (recs_bitset m r') s'"
    by (auto simp: new_header_def meta_inv_def elim: header_page)
  with assms(1) headers_apart [of ms "mem_start md" m rs r r' s s'] show ?thesis
    by (auto simp: new_header_def meta_inv_def)
qed

lemma new_header_notin: "new_header ms md m hs rs r s h \<Longrightarrow> h \<notin> set hs"
  using new_header_apart by fastforce

lemma new_header_place:
  assumes "new_header ms md m hs rs r s h"
  shows "placed (mem_start md) h" "h + 48 \<le> ms_at ms \<or> ms_at ms + 632 \<le> h" "r + 64 \<le> h" "h + 48 \<le> r + 16384"
    "r + 16384 \<le> ms_at ms \<or> ms_at ms + 632 \<le> r"
  using assms header_placed [of ms "mem_start md" m rs r s] header_in_page [of s r] page_placeD(3) [of ms "mem_start md" m rs r]
  by (auto simp: new_header_def meta_inv_def)

text \<open>Addresses outside the changed fields of the page, the header, the list head and the last link.\<close>

definition untouched :: "meta_shmem \<Rightarrow> nat list \<Rightarrow> nat \<Rightarrow> nat \<Rightarrow> nat \<Rightarrow> bool" where
  "untouched ms hs r h x \<longleftrightarrow>
     (x < r + 16 \<or> r + 62 \<le> x) \<and> (x < h \<or> h + 48 \<le> x) \<and> (x < ms_obj_headers ms \<or> ms_obj_headers ms + 16 \<le> x) \<and>
     (hs \<noteq> [] \<longrightarrow> x < last hs \<or> last hs + 8 \<le> x)"

text \<open>The memory after an allocation.\<close>

definition alloc_mem :: "meta_shmem \<Rightarrow> meta_dram \<Rightarrow> nat \<Rightarrow> nat \<Rightarrow> nat \<Rightarrow> u64 \<Rightarrow> u64 \<Rightarrow> u8 list \<Rightarrow> mem \<Rightarrow> mem" where
  "alloc_mem ms md r s available obj_ptr len prog_id m =
     append_writes m (mem_start md) (ms_obj_headers ms) (recs_header_at r s)
       (header_writes r s available obj_ptr len (md_machine_id md) prog_id m)"

lemma alloc_mem_frame:
  assumes "new_header ms md m hs rs r s h" "length bs \<le> 12" "untouched ms hs r h x"
  shows "alloc_mem ms md r s av ob len bs m x = m x"
proof -
  have d: "dll m (mem_start md) (ms_obj_headers ms) hs" "h = recs_header_at r s"
    using assms(1) by (simp_all add: new_header_def meta_inv_def)
  have "alloc_mem ms md r s av ob len bs m x = header_writes r s av ob len (md_machine_id md) bs m x"
    unfolding alloc_mem_def d(2) [symmetric]
    by (rule append_writes_other [OF d(1)]) (use assms(3) in \<open>auto simp: untouched_def\<close>)
  also have "\<dots> = m x"
    by (rule header_writes_other) (use assms(2,3) d(2) in \<open>auto simp: untouched_def\<close>)
  finally show ?thesis .
qed

text \<open>What an allocation leaves alone: the data of the other headers, the rest of every page, the list of
  pages.\<close>

lemma last_header:
  assumes "new_header ms md m hs rs r s h" "hs \<noteq> []"
  obtains r' s' where "r' \<in> set rs" "s' < NUM_OBJ_SLOTS" "last hs = recs_header_at r' s'" "last hs \<in> set hs"
proof -
  have "headers_ok m hs rs" using assms(1) by (simp add: new_header_def meta_inv_def)
  from header_page [OF this last_in_set [OF assms(2)]] that last_in_set [OF assms(2)] show ?thesis by metis
qed

lemma untouched_slot_id:
  assumes new: "new_header ms md m hs rs r s h" and r': "r' \<in> set rs" "s' < NUM_OBJ_SLOTS" "(r', s') \<noteq> (r, s)"
    and x: "recs_header_at r' s' + 16 \<le> x" "x < recs_header_at r' s' + 48"
  shows "untouched ms hs r h x"
proof -
  have inv: "pages_ok ms (mem_start md) m rs" "r \<in> set rs" "s < NUM_OBJ_SLOTS" "h = recs_header_at r s"
    using new by (simp_all add: new_header_def meta_inv_def)
  note p = header_in_page [OF r'(2), of r'] header_placed [OF inv(1) r'(1,2)] new_header_place [OF new]
    headers_apart [OF inv(1) inv(2) r'(1) inv(3) r'(2)]
  have "x < r + 16 \<or> r + 62 \<le> x"
    using pages_apart [OF inv(1) inv(2) r'(1)] p x by (cases "r = r'") auto
  moreover have "hs \<noteq> [] \<Longrightarrow> x < last hs \<or> last hs + 8 \<le> x"
  proof -
    assume "hs \<noteq> []"
    with new obtain r2 s2 where "r2 \<in> set rs" "s2 < NUM_OBJ_SLOTS" "last hs = recs_header_at r2 s2" by (rule last_header)
    with headers_apart [OF inv(1) r'(1) this(1) r'(2) this(2)] x show ?thesis by (cases "(r', s') = (r2, s2)") auto
  qed
  ultimately show ?thesis using p x r'(3) inv(4) by (auto simp: untouched_def ms_obj_headers_def)
qed

lemma untouched_header:
  assumes "new_header ms md m hs rs r s h" "h' \<in> set hs" "h' + 16 \<le> x" "x < h' + 48"
  shows "untouched ms hs r h x"
proof -
  from assms(1,2) obtain r' s' where "r' \<in> set rs" "s' < NUM_OBJ_SLOTS" "h' = recs_header_at r' s'"
    "bitset_test (recs_bitset m r') s'" by (auto simp: new_header_def meta_inv_def elim: header_page)
  with assms show ?thesis by (intro untouched_slot_id [OF assms(1), of r' s']) (auto simp: new_header_def)
qed

lemma untouched_page:
  assumes new: "new_header ms md m hs rs r s h" and r': "r' \<in> set rs" and x: "r' \<le> x" "x < r' + 64" "r' = r \<Longrightarrow> x < r + 16"
  shows "untouched ms hs r h x"
proof -
  have inv: "pages_ok ms (mem_start md) m rs" "r \<in> set rs" using new by (simp_all add: new_header_def meta_inv_def)
  note p = new_header_place [OF new] page_placeD [OF inv(1) r'] pages_apart [OF inv(1) inv(2) r']
  have "hs \<noteq> [] \<Longrightarrow> x < last hs \<or> last hs + 8 \<le> x"
  proof -
    assume "hs \<noteq> []"
    with new obtain r2 s2 where r2: "r2 \<in> set rs" "s2 < NUM_OBJ_SLOTS" "last hs = recs_header_at r2 s2" by (rule last_header)
    with pages_apart [OF inv(1) r2(1) r'] header_in_page [OF r2(2), of r2] x show ?thesis by (cases "r2 = r'") auto
  qed
  with p x show ?thesis by (cases "r' = r") (auto simp: untouched_def ms_obj_headers_def)
qed

subsection \<open>The invariant after an allocation\<close>

lemma alloc_mem_new:
  assumes new: "new_header ms md m hs rs r s h" and x: "r + 16 \<le> x \<and> x < r + 62 \<or> h + 16 \<le> x \<and> x < h + 48"
  shows "alloc_mem ms md r s av ob len bs m x = header_writes r s av ob len (md_machine_id md) bs m x"
proof -
  have inv: "pages_ok ms (mem_start md) m rs" "r \<in> set rs" "dll m (mem_start md) (ms_obj_headers ms) hs" "h = recs_header_at r s"
    using new by (simp_all add: new_header_def meta_inv_def)
  note p = new_header_place [OF new]
  have "x < last hs \<or> last hs + 8 \<le> x" if ne: "hs \<noteq> []"
  proof -
    from new ne obtain r2 s2 where r2: "r2 \<in> set rs" "s2 < NUM_OBJ_SLOTS" "last hs = recs_header_at r2 s2" "last hs \<in> set hs"
      by (rule last_header)
    show ?thesis
      using new_header_apart [OF new r2(4)] pages_apart [OF inv(1) r2(1) inv(2)] header_in_page [OF r2(2), of r2] p x r2(3)
      by (cases "r2 = r") auto
  qed
  with p x show ?thesis
    unfolding alloc_mem_def inv(4) [symmetric]
    by (intro append_writes_other [OF inv(3)]) (auto simp: ms_obj_headers_def)
qed

lemma alloc_mem_fields:
  fixes m :: mem and ob len :: u64 and av n s :: nat
  assumes new: "new_header ms md m hs rs r s h" and "c_strlen prog_id = Some n" "length prog_id = PROG_ID_SIZE"
  defines "m' \<equiv> alloc_mem ms md r s av ob len (take (n + 1) prog_id) m"
  shows "hdr_obj_optr m' h = ob" "hdr_length m' h = unat len" "hdr_machine_id m' h = unat (md_machine_id md)"
    "hdr_slot_id m' h = s" "c_string (hdr_prog_id m' h) = c_string prog_id" "0 \<in> set (hdr_prog_id m' h)"
    "recs_available m' r = av mod 65536" "recs_bitset m' r = bitset_set (recs_bitset m r) s"
proof -
  let ?m = "header_writes r s av ob len (md_machine_id md) (take (n + 1) prog_id) m"
  have inv: "s < NUM_OBJ_SLOTS" "h = recs_header_at r s" using new by (simp_all add: new_header_def)
  note f = header_writes_fields [OF inv(1) assms(2,3), where recs = r, folded inv(2)]
  have eq: "m' x = ?m x" if "r + 16 \<le> x \<and> x < r + 62 \<or> h + 16 \<le> x \<and> x < h + 48" for x
    unfolding m'_def by (rule alloc_mem_new [OF new that])
  have "rd 8 m' (h + 32) = rd 8 ?m (h + 32)" "rd 8 m' (h + 40) = rd 8 ?m (h + 40)"
    "rd 2 m' (h + 16) = rd 2 ?m (h + 16)" "rd 2 m' (h + 18) = rd 2 ?m (h + 18)" "rd 2 m' (r + 60) = rd 2 ?m (r + 60)"
    by (rule rd_cong; rule eq; simp)+
  moreover have "rd_bytes m' (h + 20) 12 = rd_bytes ?m (h + 20) 12" "rd_bytes m' (r + 16) 43 = rd_bytes ?m (r + 16) 43"
    by (rule rd_bytes_cong; rule eq; simp)+
  ultimately have g: "hdr_obj_optr m' h = hdr_obj_optr ?m h" "hdr_length m' h = hdr_length ?m h"
    "hdr_machine_id m' h = hdr_machine_id ?m h" "hdr_slot_id m' h = hdr_slot_id ?m h" "hdr_prog_id m' h = hdr_prog_id ?m h"
    "recs_available m' r = recs_available ?m r" "recs_bitset m' r = recs_bitset ?m r"
    by (simp_all add: hdr_obj_optr_def hdr_length_def hdr_machine_id_def hdr_slot_id_def hdr_prog_id_def recs_available_def
        recs_bitset_def recs_available_at_def recs_bitset_at_def PROG_ID_SIZE_def SIZEOF_OBJ_BITSET_def)
  show "hdr_obj_optr m' h = ob" "hdr_length m' h = unat len" "hdr_machine_id m' h = unat (md_machine_id md)"
    "hdr_slot_id m' h = s" "c_string (hdr_prog_id m' h) = c_string prog_id" "0 \<in> set (hdr_prog_id m' h)"
    "recs_available m' r = av mod 65536" "recs_bitset m' r = bitset_set (recs_bitset m r) s"
    by (simp_all only: g f)
qed

lemma alloc_mem_old:
  fixes m :: mem and ob len :: u64 and av :: nat
  assumes new: "new_header ms md m hs rs r s h" and "length bs \<le> 12"
  defines "m' \<equiv> alloc_mem ms md r s av ob len bs m"
  shows "h' \<in> set hs \<Longrightarrow> hdr_obj_optr m' h' = hdr_obj_optr m h' \<and> hdr_length m' h' = hdr_length m h' \<and>
      hdr_prog_id m' h' = hdr_prog_id m h'"
    and "r' \<in> set rs \<Longrightarrow> r' \<noteq> r \<Longrightarrow> recs_available m' r' = recs_available m r' \<and> recs_bitset m' r' = recs_bitset m r'"
    and "r' \<in> set rs \<Longrightarrow> s' < NUM_OBJ_SLOTS \<Longrightarrow> (r', s') \<noteq> (r, s) \<Longrightarrow>
      hdr_slot_id m' (recs_header_at r' s') = hdr_slot_id m (recs_header_at r' s')"
    and "dll m' (mem_start md) (ms_obj_allocs ms) rs"
proof -
  note frame = alloc_mem_frame [OF new assms(2), of _ av ob len, folded m'_def]
  {
    assume h': "h' \<in> set hs"
    have eq: "m' x = m x" if "h' + 16 \<le> x" "x < h' + 48" for x
      by (rule frame) (rule untouched_header [OF new h' that])
    have "rd 8 m' (h' + 32) = rd 8 m (h' + 32)" "rd 8 m' (h' + 40) = rd 8 m (h' + 40)" by (rule rd_cong; rule eq; simp)+
    moreover have "rd_bytes m' (h' + 20) 12 = rd_bytes m (h' + 20) 12" by (rule rd_bytes_cong; rule eq; simp)
    ultimately show "hdr_obj_optr m' h' = hdr_obj_optr m h' \<and> hdr_length m' h' = hdr_length m h' \<and> hdr_prog_id m' h' = hdr_prog_id m h'"
      by (simp add: hdr_obj_optr_def hdr_length_def hdr_prog_id_def PROG_ID_SIZE_def)
  }
  have page: "m' x = m x" if "r' \<in> set rs" "r' \<le> x" "x < r' + 64" "r' = r \<Longrightarrow> x < r + 16" for r' x
    by (rule frame) (rule untouched_page [OF new that])
  {
    assume r': "r' \<in> set rs" "r' \<noteq> r"
    have "rd 2 m' (r' + 60) = rd 2 m (r' + 60)" by (rule rd_cong; rule page [OF r'(1)]) (use r'(2) in auto)
    moreover have "rd_bytes m' (r' + 16) 43 = rd_bytes m (r' + 16) 43"
      by (rule rd_bytes_cong; rule page [OF r'(1)]) (use r'(2) in auto)
    ultimately show "recs_available m' r' = recs_available m r' \<and> recs_bitset m' r' = recs_bitset m r'"
      by (simp add: recs_available_def recs_bitset_def recs_available_at_def recs_bitset_at_def SIZEOF_OBJ_BITSET_def)
  }
  {
    assume r': "r' \<in> set rs" "s' < NUM_OBJ_SLOTS" "(r', s') \<noteq> (r, s)"
    have "rd 2 m' (recs_header_at r' s' + 18) = rd 2 m (recs_header_at r' s' + 18)"
      by (rule rd_cong; rule frame; rule untouched_slot_id [OF new r']) auto
    then show "hdr_slot_id m' (recs_header_at r' s') = hdr_slot_id m (recs_header_at r' s')" by (simp add: hdr_slot_id_def)
  }
  have head: "m' x = m x" if "ms_obj_allocs ms \<le> x" "x < ms_obj_allocs ms + 16" for x
  proof (rule frame)
    note p = new_header_place [OF new]
    have "hs \<noteq> [] \<Longrightarrow> x < last hs \<or> last hs + 8 \<le> x"
    proof -
      assume "hs \<noteq> []"
      with new obtain r2 s2 where r2: "r2 \<in> set rs" "s2 < NUM_OBJ_SLOTS" "last hs = recs_header_at r2 s2" by (rule last_header)
      have "pages_ok ms (mem_start md) m rs" using new by (simp add: new_header_def meta_inv_def)
      with header_placed(2) [OF this r2(1,2)] that r2(3) show ?thesis by (auto simp: ms_obj_allocs_def)
    qed
    with p that show "untouched ms hs r h x" by (auto simp: untouched_def ms_obj_allocs_def ms_obj_headers_def)
  qed
  have "dll m (mem_start md) (ms_obj_allocs ms) rs" using new by (simp add: new_header_def meta_inv_def)
  then show "dll m' (mem_start md) (ms_obj_allocs ms) rs"
  proof (rule dll_cong)
    fix x assume "x \<in> set (ms_obj_allocs ms # rs)"
    then consider "x = ms_obj_allocs ms" | "x \<in> set rs" by auto
    then show "rd 8 m' x = rd 8 m x \<and> rd 8 m' (x + 8) = rd 8 m (x + 8)"
      by cases (intro conjI; rule rd_cong; simp add: head page)+
  qed
qed

lemma alloc_mem_list:
  assumes new: "new_header ms md m hs rs r s h" and bs: "length bs \<le> 12"
  shows "dll (alloc_mem ms md r s av ob len bs m) (mem_start md) (ms_obj_headers ms) (hs @ [h])"
proof -
  let ?lq = "ms_obj_headers ms" and ?start = "mem_start md"
  define m1 where "m1 = header_writes r s av ob len (md_machine_id md) bs m"
  have inv: "pages_ok ms ?start m rs" "headers_ok m hs rs" "r \<in> set rs" "dll m ?start ?lq hs" "h = recs_header_at r s"
    using new by (simp_all add: new_header_def meta_inv_def)
  note p = new_header_place [OF new]
  have eq: "m1 x = m x" if "x < r + 16 \<or> r + 62 \<le> x" "x < h + 16 \<or> h + 48 \<le> x" for x
    unfolding m1_def by (rule header_writes_other) (use that bs inv(5) in auto)
  have keep: "rd 8 m1 x = rd 8 m x \<and> rd 8 m1 (x + 8) = rd 8 m (x + 8)" if node: "x \<in> set (?lq # hs)" for x
  proof -
    have "m1 y = m y" if y: "x \<le> y" "y < x + 16" for y
    proof (cases "x = ?lq")
      case True
      with p y show ?thesis by (intro eq) (auto simp: ms_obj_headers_def)
    next
      case False
      with node have x: "x \<in> set hs" by simp
      from header_page [OF inv(2) this] obtain r' s' where r': "r' \<in> set rs" "s' < NUM_OBJ_SLOTS" "x = recs_header_at r' s'" by metis
      note q = new_header_apart [OF new x] header_in_page [OF r'(2), of r'] pages_apart [OF inv(1) inv(3) r'(1)]
      show ?thesis by (rule eq) (use p q y r'(3) in \<open>cases "r = r'"; auto\<close>)+
    qed
    then show ?thesis by (auto intro!: rd_cong)
  qed
  have d: "dll m1 ?start ?lq hs" by (rule dll_cong [OF inv(4) keep])
  have ends: "lq_pe_first m1 ?lq = lq_pe_first m ?lq" "lq_pe_tail m1 ?lq = lq_pe_tail m ?lq"
    using keep [of ?lq] by (simp_all add: lq_pe_first_def lq_pe_tail_def)
  have "append_writes m ?start ?lq h m1 = append_writes m1 ?start ?lq h m1" unfolding append_writes_def ends ..
  moreover have "dll (append_writes m1 ?start ?lq h m1) ?start ?lq (hs @ [h])"
  proof (rule append_writes_dll [OF d p(1)])
    show "apart ?lq h" using p by (auto simp: apart_def ms_obj_headers_def)
    show "list_all (apart h) hs" using new_header_apart [OF new] by (fastforce simp: list_all_iff apart_def)
  qed
  ultimately show ?thesis by (simp add: alloc_mem_def m1_def inv(5))
qed

lemma length_used_slots: "length (used_slots m r) = card {s. s < NUM_OBJ_SLOTS \<and> bitset_test (recs_bitset m r) s}"
proof -
  have "distinct (used_slots m r)" by (simp add: used_slots_def)
  then have "length (used_slots m r) = card (set (used_slots m r))" by (rule distinct_card [symmetric])
  also have "set (used_slots m r) = {s. s < NUM_OBJ_SLOTS \<and> bitset_test (recs_bitset m r) s}" by (auto simp: used_slots_iff)
  finally show ?thesis .
qed

lemma used_slots_set:
  assumes "recs_bitset m' r = bitset_set (recs_bitset m r) s" "s < NUM_OBJ_SLOTS" "\<not> bitset_test (recs_bitset m r) s"
  shows "set (used_slots m' r) = insert s (set (used_slots m r))" "length (used_slots m' r) = Suc (length (used_slots m r))"
proof -
  have test: "bitset_test (recs_bitset m' r) x \<longleftrightarrow> x = s \<or> bitset_test (recs_bitset m r) x" for x
    using assms(1,2) by (simp add: bitset_test_set recs_bitset_def SIZEOF_OBJ_BITSET_def NUM_OBJ_SLOTS_def)
  have eq: "{x. x < NUM_OBJ_SLOTS \<and> bitset_test (recs_bitset m' r) x} =
      insert s {x. x < NUM_OBJ_SLOTS \<and> bitset_test (recs_bitset m r) x}" using assms(2) by (auto simp: test)
  show "set (used_slots m' r) = insert s (set (used_slots m r))" using assms(2) by (auto simp: used_slots_iff test)
  show "length (used_slots m' r) = Suc (length (used_slots m r))"
    unfolding length_used_slots eq using assms(3) by simp
qed

lemma used_slots_le: "length (used_slots m r) \<le> NUM_OBJ_SLOTS"
  unfolding used_slots_def using length_filter_le [of _ "[0..<NUM_OBJ_SLOTS]"] by simp

lemma alloc_pages_ok:
  fixes m :: mem and ob len :: u64
  assumes new: "new_header ms md m hs rs r s h" and str: "c_strlen prog_id = Some n" "length prog_id = PROG_ID_SIZE"
  defines "m' \<equiv> alloc_mem ms md r s (recs_available m r - 1) ob len (take (n + 1) prog_id) m"
  shows "pages_ok ms (mem_start md) m' rs"
proof -
  have inv: "pages_ok ms (mem_start md) m rs" "r \<in> set rs" "s < NUM_OBJ_SLOTS" "\<not> bitset_test (recs_bitset m r) s" "h = recs_header_at r s"
    using new by (simp_all add: new_header_def meta_inv_def)
  have n: "length (take (n + 1) prog_id) \<le> 12" using str(2) by (simp add: PROG_ID_SIZE_def)
  note new_f = alloc_mem_fields [OF new str, where av = "recs_available m r - 1" and ob = ob and len = len, folded m'_def]
  note old_f = alloc_mem_old [OF new n, where av = "recs_available m r - 1" and ob = ob and len = len, folded m'_def]
  have ok: "page_ok m r'" if "r' \<in> set rs" for r' using inv(1) that by (simp add: pages_ok_def list_all_iff)
  have "page_ok m' r'" if r': "r' \<in> set rs" for r'
  proof (cases "r' = r")
    case True
    note u = used_slots_set [OF new_f(8) inv(3,4)]
    have "recs_available m r \<le> 340" using ok [OF inv(2)] by (simp add: page_ok_def NUM_OBJ_SLOTS_def)
    then have "recs_available m' r = NUM_OBJ_SLOTS - length (used_slots m' r)"
      using ok [OF inv(2)] new_f(7) u(2) by (simp add: page_ok_def)
    moreover have "hdr_slot_id m' (recs_header_at r s') = s'" if "s' < NUM_OBJ_SLOTS" for s'
      using new_f(4) old_f(3) [OF inv(2) that] ok [OF inv(2)] that inv(5) by (cases "s' = s") (auto simp: page_ok_def list_all_iff)
    ultimately show ?thesis using True by (simp add: page_ok_def list_all_iff)
  next
    case False
    then have "used_slots m' r' = used_slots m r'" using old_f(2) [OF r'] by (simp add: used_slots_def)
    moreover have "hdr_slot_id m' (recs_header_at r' s') = s'" if "s' < NUM_OBJ_SLOTS" for s'
      using old_f(3) [OF r' that] ok [OF r'] that False by (auto simp: page_ok_def list_all_iff)
    ultimately show ?thesis using old_f(2) [OF r'] ok [OF r'] False by (simp add: page_ok_def list_all_iff)
  qed
  with inv(1) show ?thesis by (simp add: pages_ok_def list_all_iff)
qed

lemma alloc_headers_ok:
  fixes m :: mem and ob len :: u64 and av :: nat
  assumes new: "new_header ms md m hs rs r s h" and str: "c_strlen prog_id = Some n" "length prog_id = PROG_ID_SIZE"
  defines "m' \<equiv> alloc_mem ms md r s av ob len (take (n + 1) prog_id) m"
  shows "headers_ok m' (hs @ [h]) rs" "objects m' (hs @ [h]) = objects m hs @ [(c_string prog_id, ob, unat len)]"
proof -
  have inv: "headers_ok m hs rs" "r \<in> set rs" "s < NUM_OBJ_SLOTS" "\<not> bitset_test (recs_bitset m r) s" "h = recs_header_at r s"
    using new by (simp_all add: new_header_def meta_inv_def)
  have n: "length (take (n + 1) prog_id) \<le> 12" using str(2) by (simp add: PROG_ID_SIZE_def)
  note new_f = alloc_mem_fields [OF new str, where av = av and ob = ob and len = len, folded m'_def]
  note old_f = alloc_mem_old [OF new n, where av = av and ob = ob and len = len, folded m'_def]
  note u = used_slots_set(1) [OF new_f(8) inv(3,4)]
  have "used_slots m' r' = used_slots m r'" if "r' \<in> set rs" "r' \<noteq> r" for r'
    using old_f(2) [OF that] by (simp add: used_slots_def)
  with u inv(2) have "(\<Union>r\<in>set rs. recs_header_at r ` set (used_slots m' r)) =
      insert (recs_header_at r s) (\<Union>r\<in>set rs. recs_header_at r ` set (used_slots m r))" by fastforce
  then show "headers_ok m' (hs @ [h]) rs"
    using inv(1,5) new_f(6) old_f(1) by (auto simp: headers_ok_def list_all_iff)
  show "objects m' (hs @ [h]) = objects m hs @ [(c_string prog_id, ob, unat len)]"
    using new_f old_f(1) by (simp add: objects_def object_of_def)
qed

lemma mark_blocks:
  assumes "bd_ok b" "block_available (bd_tree b) i"
  defines "b' \<equiv> b \<lparr>bd_tree := buddy_tree_mark (bd_tree b) (node_pos i)\<rparr>"
  shows "bd_blocks b' = insert (block_addr b i, block_size b i) (bd_blocks b)"
    "(a, n) \<in> bd_blocks b \<Longrightarrow> a + n \<le> block_addr b i \<or> block_addr b i + block_size b i \<le> a"
    "(a, n) \<in> bd_blocks b \<Longrightarrow> 0 < n"
proof -
  note mk = mark_correct [OF bd_okD(2) [OF assms(1)] assms(2)]
  note f = available_first [OF assms(1,2)]
  have [simp]: "bt_order (buddy_tree_mark (bd_tree b) (node_pos i)) = bt_order (bd_tree b)" by simp
  show eq: "bd_blocks b' = insert (block_addr b i, block_size b i) (bd_blocks b)"
    using f mk(2) by (auto simp: bd_blocks_iff b'_def)
  have ok: "bd_ok b'" unfolding b'_def by (rule mark_bd_ok [OF assms(1,2)])
  assume "(a, n) \<in> bd_blocks b"
  then obtain j where j: "a = block_addr b j" "n = block_size b j" "block_allocated (bd_tree b) j"
    "block_first (bt_order (bd_tree b)) j < bd_units b" by (auto simp: bd_blocks_iff)
  have "i \<noteq> j" using assms(2) j(3) by (auto simp: block_available_def is_available_def block_allocated_def is_alloc_def)
  then show "a + n \<le> block_addr b i \<or> block_addr b i + block_size b i \<le> a"
    using blocks_separated [OF ok, of j i] mk(2) j by (auto simp: b'_def)
  show "0 < n" using block_in_arena(3) [OF assms(1) j(3,4)] j(2) by simp
qed

end
