(* ===== verification/Meta_Recover.thy ===== *)
theory Meta_Recover
  imports Meta_Inv
begin

text \<open>
  Committed logs and recovery. A log whose commit record was written is found by the scan of
  \<open>recover_with_redolog\<close>, and replaying it over what a crash left completes the transaction.
\<close>

subsection \<open>Finding the commit record\<close>

lemma nth_concat_equal:
  assumes "list_all (\<lambda>e. length e = k) log" "i < length log" "j < k"
  shows "concat log ! (k * i + j) = log ! i ! j"
  using assms
proof (induction log arbitrary: i)
  case (Cons e log)
  show ?case
  proof (cases i)
    case 0
    with Cons.prems show ?thesis by (simp add: nth_append)
  next
    case (Suc i')
    with Cons show ?thesis by (simp add: nth_append)
  qed
qed simp

lemma length_concat_equal: "list_all (\<lambda>e. length e = k) log \<Longrightarrow> length (concat log) = k * length log"
  by (induction log) simp_all

lemma concat_take_nth:
  assumes "list_all (\<lambda>e. length e = k) log" "list_all (\<lambda>e. length e = k) log'" "n \<le> length log" "n \<le> length log'"
    and "take n log = take n log'" "j < k * n"
  shows "concat log ! j = concat log' ! j"
proof -
  have "0 < k" using assms(6) by (cases k) auto
  then have j: "j = k * (j div k) + j mod k" "j div k < n" "j mod k < k"
    using assms(6) by (simp_all add: less_mult_imp_div_less mult.commute)
  have "log ! (j div k) = log' ! (j div k)" using assms(5) j(2) by (metis nth_take)
  then show ?thesis
    using nth_concat_equal [OF assms(1) _ j(3), of "j div k"] nth_concat_equal [OF assms(2) _ j(3), of "j div k"] j assms(3,4) by simp
qed

lemma log_wfD: "log_wf log \<Longrightarrow> length log = 10" "log_wf log \<Longrightarrow> list_all (\<lambda>e. length e = 56) log"
  by (simp_all add: log_wf_def REDOLOG_ENTRIES_def sizeof_log_entry_def)

text \<open>The checksum depends only on the records it covers.\<close>

lemma log_checksum_cong:
  assumes "log_wf log" "log_wf log'" "n \<le> REDOLOG_ENTRIES" "take n log = take n log'"
  shows "log_checksum log n = log_checksum log' n"
    "util_checksum_compute (concat log) (56 * n) (Some (56 * n + 8)) 0 = log_checksum log' n"
proof -
  have m4: "(56 * n + 8) mod 4 = 0" "56 * n mod 4 = 0" by presburger+
  have "util_checksum_compute (concat log) (56 * n) (Some (56 * n + 8)) 0 = util_checksum_compute (concat log') (56 * n) (Some (56 * n + 8)) 0"
  proof (rule checksum_compute_ignores [OF m4(1)])
    fix k assume "k < 56 * n"
    then show "concat log ! k = concat log' ! k"
      using assms log_wfD [OF assms(1)] log_wfD [OF assms(2)] concat_take_nth [of 56 log log' n k] by (simp add: REDOLOG_ENTRIES_def)
  qed
  moreover have "util_checksum_compute bs (56 * n) (Some (56 * n + 8)) 0 = util_checksum_compute bs (56 * n) None 0" for bs
    using checksum_compute_plain [OF m4(2), of "Some (56 * n + 8)"] checksum_compute_none [OF m4(2)] by simp
  ultimately show "util_checksum_compute (concat log) (56 * n) (Some (56 * n + 8)) 0 = log_checksum log' n"
    "log_checksum log n = log_checksum log' n"
    by (simp_all add: log_checksum_def sizeof_log_entry_def mult.commute)
qed

lemma log_checksum_Some: "\<exists>csum. log_checksum log n = Some csum"
proof -
  have "n * 56 mod 4 = 0" by presburger
  then show ?thesis by (simp add: log_checksum_def util_checksum_compute_def Let_def split_def sizeof_log_entry_def)
qed

text \<open>Writing the commit record.\<close>

definition committed :: "redo_log \<Rightarrow> log_entry list \<Rightarrow> bool" where
  "committed log es \<longleftrightarrow> (\<exists>c e. log_prefix (log, length es + 1) (es @ [c]) \<and> length e = 56 \<and>
     c = commit_loge (the (log_checksum log (length es))) e)"

lemma set_commit_prefix:
  assumes "log_prefix lp es" "length es < REDOLOG_ENTRIES"
  obtains lp' where "set_commit_log_entry lp = Some lp'" "snd lp' = length es + 1" "committed (fst lp') es"
proof -
  obtain csum where c: "log_checksum (fst lp) (length es) = Some csum" using log_checksum_Some by blast
  obtain lp' e where e: "set_log_entry lp (commit_loge csum) = Some lp'" "length e = 56" "log_prefix lp' (es @ [commit_loge csum e])"
    using set_log_entry_prefix [OF assms, of "commit_loge csum"] by auto
  have s: "snd lp = length es" "log_wf (fst lp)" "take (length es) (fst lp) = es" using assms(1) by (auto simp: log_prefix_def)
  have s': "snd lp' = length es + 1" "log_wf (fst lp')" "take (length es + 1) (fst lp') = es @ [commit_loge csum e]"
    using e(3) by (auto simp: log_prefix_def)
  have "take (length es) (fst lp') = es" using s'(3) by (metis append_eq_conv_conj le_add1 min.absorb1 take_take)
  with log_checksum_cong(1) [OF s(2) s'(2), of "length es"] s(3) assms(2) c
  have "log_checksum (fst lp') (length es) = Some csum" by simp
  with e s' have "committed (fst lp') es" by (auto simp: committed_def log_prefix_def intro!: exI [of _ e])
  with that [of lp'] e(1) s(1) s'(1) c show ?thesis by (simp add: set_commit_log_entry_def)
qed

lemma find_commit_skip:
  assumes "\<And>i. i \<in> set is \<Longrightarrow> loge_tp (log ! i) \<noteq> Some COMMIT"
  shows "find_commit log (is @ js) = find_commit log js"
  using assms by (induction "is") auto

lemma find_commit_found:
  assumes "committed log es" "\<And>e. e \<in> set es \<Longrightarrow> loge_tp e \<noteq> Some COMMIT"
  shows "find_commit log [0..<REDOLOG_ENTRIES] = Some (0, Some (length es))" "take (length es) log = es"
proof -
  let ?n = "length es"
  from assms(1) obtain c e where p: "log_prefix (log, ?n + 1) (es @ [c])" and e: "length e = 56"
    and c: "c = commit_loge (the (log_checksum log ?n)) e" by (auto simp: committed_def)
  have wf: "log_wf log" "?n < 10" "take (?n + 1) log = es @ [c]" using p by (auto simp: log_prefix_def REDOLOG_ENTRIES_def)
  show t: "take ?n log = es" using wf(3) by (metis append_eq_conv_conj le_add1 min.absorb1 take_take)
  have n: "log ! ?n = c" using wf(2,3) log_wfD(1) [OF wf(1)] by (metis less_add_one nth_append_length nth_take)
  have "log ! i \<in> set es" if "i < ?n" for i using that t by (metis nth_mem nth_take)
  then have skip: "loge_tp (log ! i) \<noteq> Some COMMIT" if "i \<in> set [0..<?n]" for i using that assms(2) by auto
  have split: "[0..<REDOLOG_ENTRIES] = [0..<?n] @ ?n # [Suc ?n..<10]"
    using wf(2) upt_add_eq_append [of 0 ?n "10 - ?n"] by (simp add: REDOLOG_ENTRIES_def upt_conv_Cons)
  obtain csum where csum: "log_checksum log ?n = Some csum" using log_checksum_Some by blast
  have "util_checksum_compute (concat log) (56 * ?n) (Some (56 * ?n + 8)) 0 = Some csum"
    using log_checksum_cong(2) [OF wf(1) wf(1), of ?n] wf(2) csum by (simp add: REDOLOG_ENTRIES_def)
  moreover have "load64 (concat log) (56 * ?n + 8) = load_le 8 (log ! ?n) 8"
    unfolding load_le_def
    using wf(2) log_wfD(1) [OF wf(1)] nth_concat_equal [OF log_wfD(2) [OF wf(1)], of ?n]
    by (intro arg_cong [where f = sum_list] map_cong) (simp_all add: add.assoc)
  moreover have "load_le 8 (log ! ?n) 8 = unat csum" using commit_checksum [OF e] by (simp add: n c csum)
  ultimately have "util_checksum (concat log) (sizeof_log_entry * ?n) (sizeof_log_entry * ?n + 8) False 0 = Some (True, concat log)"
    by (simp add: util_checksum_def sizeof_log_entry_def)
  then show "find_commit log [0..<REDOLOG_ENTRIES] = Some (0, Some ?n)"
    using find_commit_skip [of "[0..<?n]" log "?n # [Suc ?n..<10]", OF skip] n c e by (simp add: split)
qed

subsection \<open>Completing a transaction\<close>

text \<open>What a crash leaves while the records \<open>es\<close> of a committed log are executed: the log, the tree after some
  of them, and a memory that differs from the old one only in bits the records write.\<close>

definition interrupted :: "nat \<Rightarrow> log_entry list \<Rightarrow> meta_shmem \<Rightarrow> mem \<Rightarrow> meta_shmem \<Rightarrow> mem \<Rightarrow> bool" where
  "interrupted start es ms m ms' m' \<longleftrightarrow>
     ms_at ms' = ms_at ms \<and> ms_redolog ms' = ms_redolog ms \<and>
     (\<exists>k. ms_buddy_alloc ms' = fold entry_buddy (take k es) (ms_buddy_alloc ms)) \<and> agree_off (log_writes start es) m m'"

lemma recover_committed:
  assumes "committed (ms_redolog ms) es" "\<And>e. e \<in> set es \<Longrightarrow> loge_tp e \<noteq> Some COMMIT"
    and "execute_entries es (ms_buddy_alloc ms, md, m) = Some (b1, md1, m1)" "buddy_txn (ms_buddy_alloc ms) es"
    and "interrupted (mem_start md) es ms m ms' m'" "mem_start md' = mem_start md"
  shows "recover_with_redolog ms' md' m' = Some (0, ms' \<lparr>ms_buddy_alloc := b1\<rparr>, fold entry_dram es md', m1)"
proof -
  from assms(5) obtain k where k: "ms_redolog ms' = ms_redolog ms"
    "ms_buddy_alloc ms' = fold entry_buddy (take k es) (ms_buddy_alloc ms)" "agree_off (log_writes (mem_start md) es) m m'"
    by (auto simp: interrupted_def)
  note f = find_commit_found [OF assms(1,2)]
  have "execute_log (ms_redolog ms') (length es) (ms_buddy_alloc ms', md', m') = Some (b1, fold entry_dram es md', m1)"
    using redo_replay [OF assms(3,4) k(3) assms(6), of k] by (simp add: execute_log_def k(1,2) f(2))
  then show ?thesis
    by (simp add: recover_with_redolog_def k(1) f(1) execute_log_entries_def)
qed

subsection \<open>The transaction of an allocation\<close>

lemma fold_entry_dram_same:
  assumes "\<And>e. e \<in> set es \<Longrightarrow> loge_tp e \<noteq> Some INIT_OBJ_ALLOC_RECS"
  shows "fold entry_dram es md = md"
  using assms by (induction es) (simp_all add: entry_dram_def)

lemma exec_buddy_alloc:
  assumes "loge_tp e = Some BUDDY_ALLOC" "exec_buddy_pos e = node_pos i"
  shows "execute_entry e (b, md, m) = Some (b \<lparr>bd_tree := buddy_tree_mark (bd_tree b) (node_pos i)\<rparr>, md, m)"
  using assms by (simp add: execute_entry.simps buddy_malloc_apply_def Let_def)

lemma commit_no_effect: "loge_tp c = Some COMMIT \<Longrightarrow> execute_entry c s = Some s"
  by (cases s) (simp add: execute_entry.simps)

lemma allocate_record_cases:
  assumes inv: "meta_inv ms md m hs rs" and avail: "0 < recs_available m (cur_obj_recs md)"
    and str: "c_strlen (rg_prog_id alloc) = Some n" "length (rg_prog_id alloc) = PROG_ID_SIZE"
  defines "b \<equiv> ms_buddy_alloc ms" and "r \<equiv> cur_obj_recs md" and "s \<equiv> first_free_slot (recs_bitset m (cur_obj_recs md))"
  obtains (full) "allocate_record ms md m alloc = Some (- ENOMEM, 0, (ms_redolog ms, 0))"
      "buddy_malloc_find_pos (Some b) (unat (rg_length alloc)) = INVALID_POS"
    | (block) i lp es where "allocate_record ms md m alloc = Some (0, block_addr b i, lp)"
      "buddy_malloc_find_pos (Some b) (unat (rg_length alloc)) = node_pos i" "block_available (bd_tree b) i"
      "committed (fst lp) es" "snd lp = length es + 1" "buddy_positions es = [(BUDDY_ALLOC, node_pos i)]"
      "\<And>e. e \<in> set es \<Longrightarrow> loge_tp e \<noteq> Some COMMIT \<and> loge_tp e \<noteq> Some INIT_OBJ_ALLOC_RECS"
      "execute_entries es (b, md, m) = Some (b \<lparr>bd_tree := buddy_tree_mark (bd_tree b) (node_pos i)\<rparr>, md,
         alloc_mem ms md r s (recs_available m r - 1) (shmem_optr_from_ptr (mem_start md) (block_addr b i))
           (rg_length alloc) (take (n + 1) (rg_prog_id alloc)) m)"
proof -
  let ?start = "mem_start md"
  have i0: "bd_ok b" "arena_in_region md b" "log_wf (ms_redolog ms)" "pages_ok ms ?start m rs" "r \<in> set rs"
    "dll m ?start (ms_obj_headers ms) hs" using inv by (simp_all add: meta_inv_def b_def r_def)
  have new: "new_header ms md m hs rs r s (recs_header_at r s)"
    using inv avail i0(4,5) free_slot [of m r] by (auto simp: new_header_def pages_ok_def list_all_iff r_def s_def)
  have p: "placed ?start (recs_header_at r s)" by (rule new_header_place [OF new])
  have lq: "placed ?start (ms_obj_headers ms)" "lq_pe_first m (ms_obj_headers ms) \<noteq> 0 \<Longrightarrow> lq_pe_tail m (ms_obj_headers ms) \<noteq> 0"
    using i0(6) placed_optr(2) by (auto simp: dll_def list_all_iff split: if_splits)
  have r: "?start < r" "r + 16384 < 2 ^ 64" using page_placeD [OF i0(4,5)] by simp_all
  have ro: "shmem_optr_from_ptr ?start r \<noteq> 0" "?start + unat (shmem_optr_from_ptr ?start r) = r"
    using direct_from_ptr [of ?start r] r by simp_all
  have s: "s < NUM_OBJ_SLOTS" and av: "recs_available m r \<le> NUM_OBJ_SLOTS"
    using new i0(4,5) by (auto simp: new_header_def pages_ok_def list_all_iff page_ok_def)
  have us: "unat (word_of_nat s :: u16) = s" "unat (word_of_nat (recs_available m r) - 1 :: u16) = recs_available m r - 1"
    using s av avail by (simp_all add: NUM_OBJ_SLOTS_def unsigned_of_nat take_bit_eq_mod unat_sub_if_size r_def word_size)
  from i0(1,2) log_prefix_start [OF i0(3)] show ?thesis
  proof (rule alloc_and_log_cases [where len = "unat (rg_length alloc)"])
    show "length [] < REDOLOG_ENTRIES" by (simp add: REDOLOG_ENTRIES_def)
  next
    assume "alloc_and_log_lockheld (ms_redolog ms, 0) b md (unat (rg_length alloc)) = Some (- ENOMEM, None, ms_redolog ms, 0)"
      "buddy_malloc_find_pos (Some b) (unat (rg_length alloc)) = INVALID_POS"
    then show ?thesis by (intro full) (simp_all add: allocate_record_def b_def del: buddy_malloc_find_pos.simps)
  next
    fix i lp1 e1
    assume 1: "alloc_and_log_lockheld (ms_redolog ms, 0) b md (unat (rg_length alloc)) = Some (0, Some (block_addr b i), lp1)"
      "log_prefix lp1 ([] @ [e1])" "loge_tp e1 = Some BUDDY_ALLOC" "exec_buddy_pos e1 = node_pos i"
      "block_available (bd_tree b) i" "buddy_malloc_find_pos (Some b) (unat (rg_length alloc)) = node_pos i"
    let ?ob = "shmem_optr_from_ptr ?start (block_addr b i)" and ?bs = "take (n + 1) (rg_prog_id alloc)"
    let ?f = "obj_hdr_alloc_loge (shmem_optr_from_ptr ?start r) ?ob (rg_length alloc) ?bs (word_of_nat s) (md_machine_id md)
      (word_of_nat (recs_available m r) - 1)"
    have bs: "length ?bs \<le> 12" using str(2) by (simp add: PROG_ID_SIZE_def)
    obtain lp2 e2 where 2: "set_log_entry lp1 ?f = Some lp2" "length e2 = 56" "log_prefix lp2 ([e1] @ [?f e2])"
      using set_log_entry_prefix [OF 1(2), of ?f] bs by (auto simp: REDOLOG_ENTRIES_def)
    have hdr: "record_obj_hdr_alloc lp1 b m (ms_obj_allocs ms) md ?ob (rg_length alloc) (rg_prog_id alloc) =
        Some (recs_header_at r s, lp2)"
      using 2(1) avail str r by (simp add: record_obj_hdr_alloc_def set_obj_hdr_alloc_log_entry_def r_def s_def Let_def)
    have len: "length ([e1] @ [?f e2]) + 2 \<le> REDOLOG_ENTRIES" by (simp add: REDOLOG_ENTRIES_def)
    obtain lp3 e3 e4 where 3: "record_list_queue_append lp2 m (ms_obj_headers ms) (recs_header_at r s) ?start = Some lp3"
      "log_prefix lp3 (([e1] @ [?f e2]) @ [e3, e4])"
      "\<And>b md m0. mem_start md = ?start \<Longrightarrow> execute_entries [e3, e4] (b, md, m0) =
        Some (b, md, append_writes m ?start (ms_obj_headers ms) (recs_header_at r s) m0)"
      "loge_tp e3 = Some TWO_VAL_LOG" "loge_tp e4 = Some TWO_VAL_LOG"
      by (rule record_append_entries [OF 2(3) len p lq]; (assumption | blast))
    let ?es = "([e1] @ [?f e2]) @ [e3, e4]"
    obtain lp4 where 4: "set_commit_log_entry lp3 = Some lp4" "snd lp4 = length ?es + 1" "committed (fst lp4) ?es"
      using set_commit_prefix [OF 3(2)] by (auto simp: REDOLOG_ENTRIES_def)
    have tp: "loge_tp (?f e2) = Some OBJ_HDR_ALLOC" using 2(2) bs by simp
    show ?thesis
    proof (rule block [OF _ 1(6,5) 4(3,2)])
      show "allocate_record ms md m alloc = Some (0, block_addr b i, lp4)"
        using 1(1) hdr 3(1) 4(1) by (simp add: allocate_record_def record_append_obj_def b_def)
      show "buddy_positions ?es = [(BUDDY_ALLOC, node_pos i)]"
        using 1(3,4) tp 3(4,5) by (simp add: buddy_positions_def)
      show "loge_tp e \<noteq> Some COMMIT \<and> loge_tp e \<noteq> Some INIT_OBJ_ALLOC_RECS" if "e \<in> set ?es" for e
        using that 1(3) tp 3(4,5) by auto
      have "execute_entries [e1, ?f e2] (b, md, m) = Some (b \<lparr>bd_tree := buddy_tree_mark (bd_tree b) (node_pos i)\<rparr>, md,
          header_writes r s (recs_available m r - 1) ?ob (rg_length alloc) (md_machine_id md) ?bs m)"
        using exec_buddy_alloc [OF 1(3,4)] exec_hdr_alloc_loge [OF 2(2) bs ro(1)] by (simp add: ro(2) us)
      with 3(3) [of md] show "execute_entries ?es (b, md, m) = Some (b \<lparr>bd_tree := buddy_tree_mark (bd_tree b) (node_pos i)\<rparr>, md,
         alloc_mem ms md r s (recs_available m r - 1) ?ob (rg_length alloc) ?bs m)"
        by (simp add: execute_entries_append [of "[e1, ?f e2]" "[e3, e4]", simplified] alloc_mem_def)
    qed
  qed
qed

subsection \<open>Correctness of an allocation\<close>

lemma malloc_block_size:
  assumes "bd_ok b" "block_available (bd_tree b) i" "buddy_malloc_find_pos (Some b) len = node_pos i"
  shows "len \<le> block_size b i"
proof -
  note a = available_node [OF assms(1,2)]
  define r' where "r' = (if len = 0 then 1 else len)"
  have "bit_length i = depth_for_size b r'" "r' \<le> bd_memory_size b"
  proof -
    from malloc_correct [OF assms(1), of len] assms(3) a(6)
    obtain j where "node_pos i = node_pos j" "bit_length j = depth_for_size b r'" "r' \<le> bd_memory_size b"
      unfolding r'_def by auto
    then show "bit_length i = depth_for_size b r'" "r' \<le> bd_memory_size b" by (simp_all add: node_pos_def)
  qed
  then show ?thesis
    using depth_for_size_correct(3) [OF bd_okD(1) [OF assms(1)], of r'] size_for_node [OF bd_okD(1) [OF assms(1)] a(1,2)]
    by (simp add: r'_def split: if_splits)
qed

lemma alloc_meta_inv:
  assumes new: "new_header ms md m hs rs r s h" and str: "c_strlen prog_id = Some n" "length prog_id = PROG_ID_SIZE"
    and i: "block_available (bd_tree (ms_buddy_alloc ms)) i" "unat len \<le> block_size (ms_buddy_alloc ms) i" and log: "log_wf log"
  defines "b \<equiv> ms_buddy_alloc ms"
  defines "m' \<equiv> alloc_mem ms md r s (recs_available m r - 1) (shmem_optr_from_ptr (mem_start md) (block_addr b i)) len
      (take (n + 1) prog_id) m"
    and "ms' \<equiv> ms \<lparr>ms_redolog := log, ms_buddy_alloc := b \<lparr>bd_tree := buddy_tree_mark (bd_tree b) (node_pos i)\<rparr>\<rparr>"
  shows "meta_inv ms' md m' (hs @ [h]) rs"
proof -
  let ?start = "mem_start md" and ?ob = "shmem_optr_from_ptr (mem_start md) (block_addr b i)"
  let ?b = "b \<lparr>bd_tree := buddy_tree_mark (bd_tree b) (node_pos i)\<rparr>"
  have inv: "bd_ok b" "arena_in_region md b" "blocks_ok ?start b m hs" "cur_obj_recs md \<in> set rs" "block_available (bd_tree b) i"
    using new i by (simp_all add: new_header_def meta_inv_def b_def)
  have n: "length (take (n + 1) prog_id) \<le> 12" using str(2) by (simp add: PROG_ID_SIZE_def)
  note new_f = alloc_mem_fields [OF new str, where av = "recs_available m r - 1" and ob = ?ob and len = len, folded m'_def]
  note old_f = alloc_mem_old [OF new n, where av = "recs_available m r - 1" and ob = ?ob and len = len, folded m'_def]
  note mb = mark_blocks [OF inv(1,5)]
  have addr: "?start < block_addr b i" "block_addr b i < 2 ^ 64"
    using available_node(8-10) [OF inv(1,5)] inv(2) by (simp_all add: arena_in_region_def)
  have ob: "?start + unat ?ob = block_addr b i" using direct_from_ptr(2) [OF addr] addr(1) by simp
  have fresh: "hdr_obj_optr m h' \<noteq> ?ob" if "h' \<in> set hs" for h'
  proof
    assume eq: "hdr_obj_optr m h' = ?ob"
    from inv(3) that obtain k where "(?start + unat (hdr_obj_optr m h'), k) \<in> bd_blocks b" by (auto simp: blocks_ok_def list_all_iff)
    with mb(2,3) ob eq available_node(10) [OF inv(1,5)] show False by fastforce
  qed
  have "blocks_ok ?start ?b m' (hs @ [h])"
  proof -
    have map: "map (hdr_obj_optr m') hs = map (hdr_obj_optr m) hs" using old_f(1) by simp
    have "?ob \<notin> set (map (hdr_obj_optr m) hs)" using fresh by (metis imageE set_map)
    then have "distinct (map (hdr_obj_optr m') (hs @ [h]))"
      using inv(3) unfolding map_append distinct_append map by (simp add: blocks_ok_def new_f(1))
    moreover have "list_all (\<lambda>h. \<exists>n. (?start + unat (hdr_obj_optr m' h), n) \<in> bd_blocks ?b \<and> hdr_length m' h \<le> n) (hs @ [h])"
      using inv(3) new_f(1,2) old_f(1) i(2) [folded b_def] by (auto simp: blocks_ok_def list_all_iff mb(1) ob)
    ultimately show ?thesis by (simp add: blocks_ok_def)
  qed
  moreover have "bd_ok ?b" by (rule mark_bd_ok [OF inv(1,5)])
  moreover have "pages_ok ms' ?start m' rs" "dll m' ?start (ms_obj_allocs ms') rs" "dll m' ?start (ms_obj_headers ms') (hs @ [h])"
    using alloc_pages_ok [OF new str, of ?ob len, folded m'_def] old_f(4)
      alloc_mem_list [OF new n, of "recs_available m r - 1" ?ob len, folded m'_def]
    by (simp_all add: ms'_def pages_ok_def list_all_iff page_place_def ms_obj_allocs_def ms_obj_headers_def)
  moreover have "headers_ok m' (hs @ [h]) rs"
    using alloc_headers_ok(1) [OF new str, of "recs_available m r - 1" ?ob len] by (simp add: m'_def)
  ultimately show ?thesis
    using inv(2,4) log by (simp add: meta_inv_def ms'_def arena_in_region_def)
qed

lemma execute_committed:
  assumes "committed log es" "execute_entries es s = Some s'"
  shows "execute_log log (length es + 1) s = Some s'" "log_wf log"
proof -
  from assms(1) obtain c e where c: "take (length es + 1) log = es @ [c]" "loge_tp c = Some COMMIT"
    by (auto simp: committed_def log_prefix_def)
  with assms(2) show "execute_log log (length es + 1) s = Some s'"
    by (simp add: execute_log_def execute_entries_append commit_no_effect)
  show "log_wf log" using assms(1) by (auto simp: committed_def log_prefix_def)
qed

lemma allocate_cases:
  assumes inv: "meta_inv ms md m hs rs" and avail: "0 < recs_available m (cur_obj_recs md)"
    and str: "c_strlen (rg_prog_id alloc) = Some n" "length (rg_prog_id alloc) = PROG_ID_SIZE"
  obtains (full) "atomic_allocate_memory_lockheld ms md m alloc = Some (- ENOMEM, 0, ms, md, m)"
      "buddy_malloc_find_pos (Some (ms_buddy_alloc ms)) (unat (rg_length alloc)) = INVALID_POS"
    | (block) i ms' m' h lp es where
      "atomic_allocate_memory_lockheld ms md m alloc = Some (0, block_addr (ms_buddy_alloc ms) i, ms', md, m')"
      "allocate_record ms md m alloc = Some (0, block_addr (ms_buddy_alloc ms) i, lp)"
      "block_available (bd_tree (ms_buddy_alloc ms)) i" "unat (rg_length alloc) \<le> block_size (ms_buddy_alloc ms) i"
      "ms' = ms \<lparr>ms_redolog := fst lp, ms_buddy_alloc := (ms_buddy_alloc ms)
         \<lparr>bd_tree := buddy_tree_mark (bd_tree (ms_buddy_alloc ms)) (node_pos i)\<rparr>\<rparr>"
      "meta_inv ms' md m' (hs @ [h]) rs"
      "objects m' (hs @ [h]) = objects m hs @ [(c_string (rg_prog_id alloc),
         shmem_optr_from_ptr (mem_start md) (block_addr (ms_buddy_alloc ms) i), unat (rg_length alloc))]"
      "committed (fst lp) es" "snd lp = length es + 1" "buddy_txn (ms_buddy_alloc ms) es"
      "\<And>e. e \<in> set es \<Longrightarrow> loge_tp e \<noteq> Some COMMIT \<and> loge_tp e \<noteq> Some INIT_OBJ_ALLOC_RECS"
      "execute_entries es (ms_buddy_alloc ms, md, m) = Some (ms_buddy_alloc ms', md, m')"
      "buddy_malloc_find_pos (Some (ms_buddy_alloc ms)) (unat (rg_length alloc)) \<noteq> INVALID_POS"
proof (rule allocate_record_cases [OF assms])
  assume "allocate_record ms md m alloc = Some (- ENOMEM, 0, (ms_redolog ms, 0))"
    "buddy_malloc_find_pos (Some (ms_buddy_alloc ms)) (unat (rg_length alloc)) = INVALID_POS"
  then show ?thesis
    by (intro full) (simp_all add: atomic_allocate_memory_lockheld_def ENOMEM_def del: buddy_malloc_find_pos.simps)
next
  let ?b = "ms_buddy_alloc ms" and ?r = "cur_obj_recs md"
  let ?s = "first_free_slot (recs_bitset m (cur_obj_recs md))"
  let ?h = "recs_header_at ?r ?s"
  fix i and lp :: "redo_log \<times> nat" and es
  let ?m = "alloc_mem ms md ?r ?s (recs_available m ?r - 1) (shmem_optr_from_ptr (mem_start md) (block_addr ?b i))
    (rg_length alloc) (take (n + 1) (rg_prog_id alloc)) m"
  let ?b' = "?b \<lparr>bd_tree := buddy_tree_mark (bd_tree ?b) (node_pos i)\<rparr>"
  let ?ms = "ms \<lparr>ms_redolog := fst lp, ms_buddy_alloc := ?b'\<rparr>"
  assume a: "allocate_record ms md m alloc = Some (0, block_addr ?b i, lp)"
    "buddy_malloc_find_pos (Some ?b) (unat (rg_length alloc)) = node_pos i" "block_available (bd_tree ?b) i"
    "committed (fst lp) es" "snd lp = length es + 1" "buddy_positions es = [(BUDDY_ALLOC, node_pos i)]"
    "\<And>e. e \<in> set es \<Longrightarrow> loge_tp e \<noteq> Some COMMIT \<and> loge_tp e \<noteq> Some INIT_OBJ_ALLOC_RECS"
    "execute_entries es (?b, md, m) = Some (?b', md, ?m)"
  have new: "new_header ms md m hs rs ?r ?s ?h"
    using inv avail free_slot [of m ?r] by (auto simp: new_header_def meta_inv_def pages_ok_def list_all_iff)
  have ok: "bd_ok ?b" using inv by (simp add: meta_inv_def)
  note size = malloc_block_size [OF ok a(3,2)]
  note ex = execute_committed [OF a(4,8)]
  show ?thesis
  proof (rule block [OF _ a(1,3) size refl])
    show "atomic_allocate_memory_lockheld ms md m alloc = Some (0, block_addr ?b i, ?ms, md, ?m)"
      using a(1,5) ex(1) by (simp add: atomic_allocate_memory_lockheld_def execute_log_entries_def Let_def)
    show "meta_inv ?ms md ?m (hs @ [?h]) rs" by (rule alloc_meta_inv [OF new str a(3) size ex(2)])
    show "objects ?m (hs @ [?h]) = objects m hs @ [(c_string (rg_prog_id alloc),
         shmem_optr_from_ptr (mem_start md) (block_addr ?b i), unat (rg_length alloc))]"
      by (rule alloc_headers_ok(2) [OF new str])
    show "buddy_txn ?b es"
      unfolding buddy_txn_def using a(3,6) bd_okD(2) [OF ok] by (intro conjI disjI1 exI [of _ "[i]"]) simp_all
    show "execute_entries es (?b, md, m) = Some (ms_buddy_alloc ?ms, md, ?m)" using a(8) by simp
    show "buddy_malloc_find_pos (Some ?b) (unat (rg_length alloc)) \<noteq> INVALID_POS"
      using a(2,3) by (simp add: node_pos_def INVALID_POS_def block_available_def is_available_def del: buddy_malloc_find_pos.simps)
  qed (use a(4,5,7) in auto)
qed

end
