(* ===== verification/Meta_Init.thy ===== *)
theory Meta_Init
  imports Meta_Recover
begin

text \<open>
  Initialisation of the shared region establishes the invariant of the allocator, with one empty page of
  headers and no objects. The metadata are placed at the end of the region.
\<close>

subsection \<open>Placing the metadata\<close>

lemma metashmem_embed_offset_fits:
  assumes "can_fit (metashmem_embed_offset M alignment)"
  defines "off \<equiv> embed_offset (metashmem_embed_offset M alignment)"
    and "sz \<equiv> embed_buddy_size (metashmem_embed_offset M alignment)"
  shows "off mod 8 = 0" "off + sz = M" "0 < off" "metashmem_sizeof_alignment M alignment \<le> sz"
    "sz < metashmem_sizeof_alignment M alignment + 8" "is_valid_alignment alignment" "alignment \<le> M" "632 \<le> sz"
proof -
  let ?s = "metashmem_sizeof_alignment M alignment"
  have s: "?s < M" "?s \<noteq> 0" using assms(1) by (auto simp: metashmem_embed_offset_def Let_def split: if_splits)
  let ?d = "(M - ?s) mod 8"
  have r: "off = M - (?s + ?d)" "sz = ?s + ?d" "?s + ?d < M"
    using assms(1) s unfolding off_def sz_def metashmem_embed_offset_def Let_def by (auto split: if_splits)
  have "M - (?s + ?d) = (M - ?s) - ?d" by simp
  then have "off = 8 * ((M - ?s) div 8)" using r(1) by (simp add: minus_mod_eq_mult_div)
  then show "off mod 8 = 0" by simp
  show "off + sz = M" "0 < off" "?s \<le> sz" using r by simp_all
  show "sz < ?s + 8" using r(2) by simp
  show "is_valid_alignment alignment" "alignment \<le> M"
    using s(2) by (auto simp: metashmem_sizeof_alignment_def split: if_splits)
  show "632 \<le> sz" using s(2) r(2) by (auto simp: metashmem_sizeof_alignment_def sizeof_meta_shmem_def split: if_splits)
qed

text \<open>The embedded allocator is the one \<open>buddy_init_alignment\<close> builds, in relative mode.\<close>

lemma relative_mode_ok:
  assumes "bd_ok b" "bd_flags b = 0" "buddy_main b \<le> bd_at b" "bd_blocks b = {}"
  defines "b' \<equiv> b \<lparr>bd_flags := bd_flags b OR BUDDY_RELATIVE_MODE, bd_arena := bd_at b - buddy_main b\<rparr>"
  shows "bd_ok b'" "buddy_main b' = buddy_main b" "bd_blocks b' = {}" "bd_memory_size b' = bd_memory_size b"
proof -
  show main: "buddy_main b' = buddy_main b"
    using assms(2,3) by (simp add: b'_def buddy_main_def [of "b \<lparr>bd_flags := _, bd_arena := _\<rparr>"] buddy_relative_mode_def BUDDY_RELATIVE_MODE_def)
  have [simp]: "bd_tree b' = bd_tree b" "bd_memory_size b' = bd_memory_size b" "bd_alignment b' = bd_alignment b"
    by (simp_all add: b'_def)
  then show "bd_memory_size b' = bd_memory_size b" by simp
  have u: "bd_units b' = bd_units b" by (simp add: bd_units_def)
  have "bd_covered b' \<longleftrightarrow> bd_covered b" by (simp add: bd_covered_def u)
  moreover have "bd_wf b' \<longleftrightarrow> bd_wf b" by (simp add: bd_wf_def main)
  ultimately show "bd_ok b'" using assms(1) by (simp add: bd_ok_def)
  show "bd_blocks b' = {}"
    using assms(4) main by (auto simp: bd_blocks_def bd_block_list_def u block_addr_def block_size_def filter_empty_conv)
qed

lemma metashmem_init_alignment_buddy:
  assumes "at \<noteq> 0" "main \<noteq> 0" "main \<le> at" "at \<noteq> main" "at mod 8 = 0" "main mod 8 = 0"
    and al: "alignment = 2 ^ k" "alignment \<le> memory_size" "memory_size \<le> 2 ^ 63"
    and ord: "buddy_tree_order_for_memory (memory_size - memory_size mod alignment) alignment < 32"
  shows "\<exists>b. metashmem_init_alignment g at main memory_size alignment ms =
      Some (meta_lock_init g (ms \<lparr>ms_at := at\<rparr>) \<lparr>ms_buddy_alloc := b\<rparr>) \<and>
    bd_ok b \<and> bd_blocks b = {} \<and> buddy_main b = main \<and> bd_at b = ms_buddy_at at \<and> bd_flags b = 0 \<and>
    bd_memory_size b = memory_size - memory_size mod alignment \<and> bd_alignment b = alignment"
proof -
  let ?at = "ms_buddy_at at"
  have at': "?at \<noteq> 0" "?at \<noteq> main" "?at mod 8 = 0" using assms(1-6) by (simp_all add: ms_buddy_at_def mod_add_eq [symmetric])
  obtain b where b: "buddy_init_alignment ?at main memory_size alignment = Some b" "bd_ok b" "bd_blocks b = {}"
    "buddy_main b = main" "bd_memory_size b = memory_size - memory_size mod alignment" "bd_alignment b = alignment"
    using init_alignment_correct [OF at'(1) assms(2) at'(2,3) assms(6) al ord] by blast
  let ?m = "memory_size - memory_size mod alignment"
  let ?b0 = "\<lparr>bd_at = ?at, bd_memory_size = ?m, bd_alignment = alignment, bd_arena = main, bd_flags = 0,
    bd_tree = fst (buddy_tree_init (buddy_tree_order_for_memory ?m alignment mod 256))\<rparr>"
  have valid: "is_valid_alignment alignment" and size: "alignment \<le> ?m" and t: "buddy_toggle_virtual_slots ?b0 True = Some b"
    using b(1) at' assms(2) unfolding buddy_init_alignment_def buddy_sizeof_alignment_def Let_def
    by (auto split: if_splits)
  have "bd_at b = ?at" "bd_flags b = 0"
    using t by (auto simp: buddy_toggle_virtual_slots_def Let_def split: if_splits)
  with b valid size t assms(1-6) show ?thesis
    by (intro exI [of _ b]) (simp add: metashmem_init_alignment_def Let_def)
qed

lemma metashmem_embed_alignment_correct:
  assumes main: "main \<noteq> 0" "main mod 8 = 0" "main + M < 2 ^ 63"
    and fit: "can_fit (metashmem_embed_offset M alignment)"
  defines "off \<equiv> embed_offset (metashmem_embed_offset M alignment)"
  assumes al: "alignment = 2 ^ k" "alignment \<le> off"
    and ord: "buddy_tree_order_for_memory (off - off mod alignment) alignment < 32"
  shows "\<exists>ms'. metashmem_embed_alignment g main M alignment ms m =
      Some (ms', wr 8 (wr 8 (wr_bytes m (main + off) (replicate (M - off) 0)) (main + off + 560) 0) (main + off + 568) 0) \<and>
    ms_at ms' = main + off \<and> ms_redolog ms' = replicate REDOLOG_ENTRIES EMPTY_LOG_ENTRY \<and>
    ms_meta_lock ms' = ttas_init g (store_release g (ms_meta_lock ms) 0) \<and>
    bd_ok (ms_buddy_alloc ms') \<and> bd_blocks (ms_buddy_alloc ms') = {} \<and> buddy_main (ms_buddy_alloc ms') = main \<and>
    bd_memory_size (ms_buddy_alloc ms') = off - off mod alignment \<and> bd_alignment (ms_buddy_alloc ms') = alignment"
proof -
  note f = metashmem_embed_offset_fits [OF fit, folded off_def]
  let ?size = "embed_buddy_size (metashmem_embed_offset M alignment)"
  have sz: "?size = M - off" using f(2) by simp
  have "main \<le> main + off" "main + off \<noteq> main" "(main + off) mod 8 = 0" "main + off \<noteq> 0" "off \<le> 2 ^ 63"
    using main f by (simp_all add: mod_add_eq [symmetric])
  note init = metashmem_init_alignment_buddy [OF this(4) main(1) this(1-3) main(2) al this(5) ord]
  define ms0 where "ms0 = ms \<lparr>ms_at := main + off, ms_meta_lock := store_release g (ms_meta_lock ms) 0,
    ms_redolog := replicate REDOLOG_ENTRIES EMPTY_LOG_ENTRY\<rparr>"
  obtain b where b: "metashmem_init_alignment g (main + off) main off alignment ms0 =
      Some (meta_lock_init g (ms0 \<lparr>ms_at := main + off\<rparr>) \<lparr>ms_buddy_alloc := b\<rparr>)"
    "bd_ok b" "bd_blocks b = {}" "buddy_main b = main" "bd_at b = ms_buddy_at (main + off)" "bd_flags b = 0"
    "bd_memory_size b = off - off mod alignment" "bd_alignment b = alignment" using init [of g ms0] by blast
  have "buddy_main b \<le> bd_at b" using b(4,5) by (simp add: ms_buddy_at_def)
  note r = relative_mode_ok [OF b(2,6) this b(3), unfolded b(4)]
  show ?thesis
    unfolding metashmem_embed_alignment_def Let_def off_def [symmetric] sz ms0_def [symmetric]
    using main(1) f(6) fit b(1) r b(7,8)
    by (simp add: ms_obj_headers_def meta_lock_init_def ms0_def add.commute [of 568])
qed

subsection \<open>Initialising the region\<close>

definition RESERVED :: nat where
  "RESERVED = FUTEX_ADDR_QUEUE_SIZE + OBJ_ALLOC_RECS_SIZE + PROC_DEATH_NOTIFICATION_SIZE + CXLCG_META_SIZE"

text \<open>A region the driver can be loaded on: aligned, below the sign bit, large enough for the metadata and
  one page, and small enough for a tree of order below 32; the machine number is between 1 and 16.\<close>

definition region_fits :: "meta_dram \<Rightarrow> bool" where
  "region_fits md \<longleftrightarrow>
     (let M = mem_length md - RESERVED;
          result = metashmem_embed_offset M BUDDY_ALLOC_ALIGNMENT;
          off = embed_offset result
      in 0 < mem_start md \<and> mem_start md mod 8 = 0 \<and> mem_start md + mem_length md < 2 ^ 63 \<and> RESERVED \<le> mem_length md \<and>
         can_fit result \<and> BUDDY_ALLOC_ALIGNMENT \<le> off \<and>
         buddy_tree_order_for_memory (off - off mod BUDDY_ALLOC_ALIGNMENT) BUDDY_ALLOC_ALIGNMENT < 32 \<and>
         1 \<le> md_machine_id md \<and> unat (md_machine_id md) \<le> VCXL_MAX_SUPPORTED_MACHINES)"

lemma init_cxlcg_Done:
  assumes "1 \<le> machine_id" "unat machine_id \<le> VCXL_MAX_SUPPORTED_MACHINES"
  shows "\<exists>cl' cm'. init_cxlcg_meta g machine_id cl cm = Done (cl', cm') \<and>
    cm_os_generation_ids cm' = replicate VCXL_MAX_SUPPORTED_MACHINES 0"
proof -
  have "unat (machine_id - 1) < VCXL_MAX_SUPPORTED_MACHINES"
    using assms by (simp add: unat_sub word_le_nat_alt VCXL_MAX_SUPPORTED_MACHINES_def)
  then show ?thesis
    by (simp add: init_cxlcg_meta_def Let_def get_os_gen_id_def recoverable_lock_init_def)
qed

text \<open>The memory after the initialisation.\<close>

definition init_mem :: "meta_dram \<Rightarrow> nat \<Rightarrow> nat \<Rightarrow> mem \<Rightarrow> mem" where
  "init_mem md at n m =
     (let page = mem_start md + FUTEX_ADDR_QUEUE_SIZE;
          off = unat (shmem_optr_from_ptr (mem_start md) page);
          m = wr 8 (wr 8 (wr_bytes (init_obj_allocation_records m page) at (replicate n 0)) (at + 560) 0) (at + 568) 0
      in wr 8 (wr 8 m (at + 576) off) (at + 584) off)"

lemma init_mem_page:
  assumes "mem_start md + RESERVED \<le> at" "mem_start md + FUTEX_ADDR_QUEUE_SIZE \<le> x" "x < mem_start md + FUTEX_ADDR_QUEUE_SIZE + OBJ_ALLOC_RECS_SIZE"
  shows "init_mem md at n m x = init_obj_allocation_records m (mem_start md + FUTEX_ADDR_QUEUE_SIZE) x"
proof -
  have "x < at" using assms by (simp add: RESERVED_def)
  then show ?thesis by (simp add: init_mem_def Let_def wr_other wr_bytes_other)
qed

lemma init_mem_fields:
  fixes at n :: nat and m :: mem
  assumes at: "mem_start md + RESERVED \<le> at"
  defines "m' \<equiv> init_mem md at n m" and "page \<equiv> mem_start md + FUTEX_ADDR_QUEUE_SIZE"
  shows "le_pe_next m' page = 0" "le_pe_prev m' page = 0" "recs_bitset m' page = replicate SIZEOF_OBJ_BITSET 0"
    "recs_available m' page = NUM_OBJ_SLOTS" "s < NUM_OBJ_SLOTS \<Longrightarrow> hdr_slot_id m' (recs_header_at page s) = s"
    "lq_pe_first m' (at + 560) = 0" "lq_pe_first m' (at + 576) = shmem_optr_from_ptr (mem_start md) page"
    "lq_pe_tail m' (at + 576) = shmem_optr_from_ptr (mem_start md) page"
proof -
  have eq: "m' x = init_obj_allocation_records m page x" if "page \<le> x" "x < page + 16384" for x
    using init_mem_page [OF at, of x n m] that by (simp add: m'_def page_def OBJ_ALLOC_RECS_SIZE_def)
  note f = init_records_fields [where m = m and r = page]
  have "rd 8 m' page = rd 8 (init_obj_allocation_records m page) page"
    "rd 8 m' (page + 8) = rd 8 (init_obj_allocation_records m page) (page + 8)"
    "rd 2 m' (page + 60) = rd 2 (init_obj_allocation_records m page) (page + 60)" by (rule rd_cong; rule eq; simp)+
  moreover have "rd_bytes m' (page + 16) 43 = rd_bytes (init_obj_allocation_records m page) (page + 16) 43"
    by (rule rd_bytes_cong; rule eq; simp)
  ultimately show "le_pe_next m' page = 0" "le_pe_prev m' page = 0" "recs_bitset m' page = replicate SIZEOF_OBJ_BITSET 0"
    "recs_available m' page = NUM_OBJ_SLOTS"
    using f(1-4) by (simp_all add: le_pe_next_def le_pe_prev_def recs_bitset_def recs_available_def LE_NEXT_OFF_def LE_PREV_OFF_def
        recs_bitset_at_def recs_available_at_def SIZEOF_OBJ_BITSET_def)
  show "hdr_slot_id m' (recs_header_at page s) = s" if s: "s < NUM_OBJ_SLOTS"
  proof -
    have "rd 2 m' (recs_header_at page s + 18) = rd 2 (init_obj_allocation_records m page) (recs_header_at page s + 18)"
      by (rule rd_cong; rule eq) (use header_in_page [OF s, of page] in auto)
    then show ?thesis using f(5) [OF s] by (simp add: hdr_slot_id_def)
  qed
  show "lq_pe_first m' (at + 560) = 0" "lq_pe_first m' (at + 576) = shmem_optr_from_ptr (mem_start md) page"
    "lq_pe_tail m' (at + 576) = shmem_optr_from_ptr (mem_start md) page"
    by (simp_all add: m'_def init_mem_def Let_def lq_pe_first_def lq_pe_tail_def rd_wr_same page_def add.commute [of 584 at])
qed

lemma init_mem_inv:
  assumes at: "mem_start md + RESERVED \<le> ms_at ms" "ms_at ms + 632 < 2 ^ 64"
    and ok: "log_wf (ms_redolog ms)" "bd_ok (ms_buddy_alloc ms)" "bd_blocks (ms_buddy_alloc ms) = {}"
      "arena_in_region md (ms_buddy_alloc ms)"
  defines "page \<equiv> mem_start md + FUTEX_ADDR_QUEUE_SIZE"
  shows "meta_inv ms (md \<lparr>cur_obj_recs := page\<rparr>) (init_mem md (ms_at ms) n m) [] [page]"
proof -
  let ?m = "init_mem md (ms_at ms) n m"
  note f = init_mem_fields [OF at(1), where n = n and m = m, folded page_def]
  have pl: "placed (mem_start md) page" "placed (mem_start md) (ms_obj_headers ms)" "placed (mem_start md) (ms_obj_allocs ms)"
    "apart (ms_obj_allocs ms) page"
    using at by (auto simp: placed_def apart_def page_def ms_obj_headers_def ms_obj_allocs_def RESERVED_def FUTEX_ADDR_QUEUE_SIZE_def
        OBJ_ALLOC_RECS_SIZE_def)
  have "\<not> bitset_test (replicate SIZEOF_OBJ_BITSET 0) s" if "s < NUM_OBJ_SLOTS" for s
    using that by (simp add: bitset_test_bit SIZEOF_OBJ_BITSET_def NUM_OBJ_SLOTS_def)
  then have u: "used_slots ?m page = []" by (simp add: used_slots_def f(3) filter_empty_conv)
  have "dll ?m (mem_start md) (ms_obj_headers ms) []"
    using pl f(6) by (simp add: dll_def linked_def ms_obj_headers_def)
  moreover have "dll ?m (mem_start md) (ms_obj_allocs ms) [page]"
    using pl f by (simp add: dll_def linked_def ms_obj_allocs_def)
  moreover have "pages_ok ms (mem_start md) ?m [page]"
    using f(4,5) u at by (auto simp: pages_ok_def page_ok_def page_place_def list_all_iff page_def RESERVED_def
        FUTEX_ADDR_QUEUE_SIZE_def OBJ_ALLOC_RECS_SIZE_def)
  ultimately show ?thesis
    using ok u by (simp add: meta_inv_def headers_ok_def blocks_ok_def arena_in_region_def)
qed

lemma vcxl_init_correct:
  assumes "region_fits md"
  defines "page \<equiv> mem_start md + FUTEX_ADDR_QUEUE_SIZE"
  obtains cl' cm' ms' m' where "vcxl_init_meta_impl g cl md sh = Done (0, cl', md \<lparr>cur_obj_recs := page\<rparr>,
      sh \<lparr>sh_futexq := map (init_circular_queue g) (sh_futexq sh), sh_deathq := map (init_circular_queue g) (sh_deathq sh),
        sh_cg := cm', sh_meta := ms', sh_mem := m'\<rparr>)"
    "meta_inv ms' (md \<lparr>cur_obj_recs := page\<rparr>) m' [] [page]" "recs_available m' page = NUM_OBJ_SLOTS"
    "bd_blocks (ms_buddy_alloc ms') = {}" "pvalue g (ms_meta_lock ms') = UNLOCKED"
    "cm_os_generation_ids cm' = replicate VCXL_MAX_SUPPORTED_MACHINES 0"
    "bd_memory_size (ms_buddy_alloc ms') =
      (let off = embed_offset (metashmem_embed_offset (mem_length md - RESERVED) BUDDY_ALLOC_ALIGNMENT) in off - off mod BUDDY_ALLOC_ALIGNMENT)"
    "bd_alignment (ms_buddy_alloc ms') = BUDDY_ALLOC_ALIGNMENT"
    "ms_at ms' = mem_start md + RESERVED + embed_offset (metashmem_embed_offset (mem_length md - RESERVED) BUDDY_ALLOC_ALIGNMENT)"
proof -
  let ?M = "mem_length md - RESERVED"
  let ?r = "metashmem_embed_offset ?M BUDDY_ALLOC_ALIGNMENT"
  define off where "off = embed_offset ?r"
  let ?main = "mem_start md + RESERVED" and ?m = "init_obj_allocation_records (sh_mem sh) page"
  have fits: "0 < mem_start md" "mem_start md mod 8 = 0" "mem_start md + mem_length md < 2 ^ 63" "RESERVED \<le> mem_length md"
    "can_fit ?r" "BUDDY_ALLOC_ALIGNMENT \<le> off" "buddy_tree_order_for_memory (off - off mod BUDDY_ALLOC_ALIGNMENT) BUDDY_ALLOC_ALIGNMENT < 32"
    "1 \<le> md_machine_id md" "unat (md_machine_id md) \<le> VCXL_MAX_SUPPORTED_MACHINES"
    using assms(1) by (simp_all add: region_fits_def Let_def off_def)
  have main: "?main \<noteq> 0" "?main mod 8 = 0" "?main + ?M < 2 ^ 63"
    using fits(1-4) by (simp_all add: RESERVED_def FUTEX_ADDR_QUEUE_SIZE_def OBJ_ALLOC_RECS_SIZE_def PROC_DEATH_NOTIFICATION_SIZE_def
        CXLCG_META_SIZE_def mod_add_eq [symmetric])
  have al: "BUDDY_ALLOC_ALIGNMENT = 2 ^ 12" by (simp add: BUDDY_ALLOC_ALIGNMENT_def)
  note f = metashmem_embed_offset_fits [OF fits(5), folded off_def]
  obtain ms' where ms': "metashmem_embed_alignment g ?main ?M BUDDY_ALLOC_ALIGNMENT (sh_meta sh) ?m =
      Some (ms', wr 8 (wr 8 (wr_bytes ?m (?main + off) (replicate (?M - off) 0)) (?main + off + 560) 0) (?main + off + 568) 0)"
    "ms_at ms' = ?main + off" "ms_redolog ms' = replicate REDOLOG_ENTRIES EMPTY_LOG_ENTRY"
    "ms_meta_lock ms' = ttas_init g (store_release g (ms_meta_lock (sh_meta sh)) 0)"
    "bd_ok (ms_buddy_alloc ms')" "bd_blocks (ms_buddy_alloc ms') = {}" "buddy_main (ms_buddy_alloc ms') = ?main"
    "bd_memory_size (ms_buddy_alloc ms') = off - off mod BUDDY_ALLOC_ALIGNMENT" "bd_alignment (ms_buddy_alloc ms') = BUDDY_ALLOC_ALIGNMENT"
    using metashmem_embed_alignment_correct [OF main fits(5) al, folded off_def, OF fits(6,7)] by blast
  obtain cl' cm' where cg: "init_cxlcg_meta g (md_machine_id md) cl (sh_cg sh) = Done (cl', cm')"
    "cm_os_generation_ids cm' = replicate VCXL_MAX_SUPPORTED_MACHINES 0" using init_cxlcg_Done [OF fits(8,9)] by blast
  let ?m' = "init_mem md (?main + off) (?M - off) (sh_mem sh)"
  have q: "FUTEX_ADDR_QUEUE_SIZE = 20480" "PROC_DEATH_NOTIFICATION_SIZE = 20480" "VCXL_MAX_SUPPORTED_MACHINES * circular_queue_size = 16768"
    by (simp_all add: FUTEX_ADDR_QUEUE_SIZE_def PROC_DEATH_NOTIFICATION_SIZE_def VCXL_MAX_SUPPORTED_MACHINES_def circular_queue_size_def CQUEUE_SIZE_def)
  show ?thesis
  proof (rule that)
    show "vcxl_init_meta_impl g cl md sh = Done (0, cl', md \<lparr>cur_obj_recs := page\<rparr>,
      sh \<lparr>sh_futexq := map (init_circular_queue g) (sh_futexq sh), sh_deathq := map (init_circular_queue g) (sh_deathq sh),
        sh_cg := cm', sh_meta := ms', sh_mem := ?m'\<rparr>)"
    proof -
      let ?m1 = "wr 8 (wr 8 (wr_bytes ?m (?main + off) (replicate (?M - off) 0)) (?main + off + 560) 0) (?main + off + 568) 0"
      let ?o = "shmem_optr_from_ptr (mem_start md) page"
      have "lq_pe_first (wr 8 ?m1 (ms_obj_allocs ms') (unat ?o)) (ms_obj_allocs ms') = ?o" by (simp add: lq_pe_first_def)
      then have "wr 8 (wr 8 ?m1 (ms_obj_allocs ms') (unat ?o)) (ms_obj_allocs ms' + 8)
          (unat (lq_pe_first (wr 8 ?m1 (ms_obj_allocs ms') (unat ?o)) (ms_obj_allocs ms'))) = ?m'"
        by (simp add: init_mem_def Let_def ms_obj_allocs_def ms'(2) page_def ac_simps)
      moreover have "\<not> FUTEX_ADDR_QUEUE_SIZE < VCXL_MAX_SUPPORTED_MACHINES * circular_queue_size"
        "\<not> PROC_DEATH_NOTIFICATION_SIZE < VCXL_MAX_SUPPORTED_MACHINES * circular_queue_size" by (simp_all add: q)
      ultimately show ?thesis
        using ms'(1) cg(1) fits(4) unfolding vcxl_init_meta_impl_def Let_def RESERVED_def [symmetric] page_def [symmetric]
        by (simp add: page_def [symmetric])
    qed
    have "log_wf (ms_redolog ms')" by (simp add: ms'(3) log_wf_def EMPTY_LOG_ENTRY_def list_all_iff)
    moreover have "arena_in_region md (ms_buddy_alloc ms')"
    proof -
      have "0 < RESERVED" by (simp add: RESERVED_def FUTEX_ADDR_QUEUE_SIZE_def)
      moreover have "off - off mod BUDDY_ALLOC_ALIGNMENT \<le> mem_length md - RESERVED" using f(2) by linarith
      ultimately show ?thesis using fits(1,3,4) by (simp add: arena_in_region_def ms'(7,8))
    qed
    ultimately show "meta_inv ms' (md \<lparr>cur_obj_recs := page\<rparr>) ?m' [] [page]"
      using init_mem_inv [of md ms', OF _ _ _ ms'(5,6)] f fits(3,4) by (simp add: ms'(2) page_def)
    show "recs_available ?m' page = NUM_OBJ_SLOTS" using init_mem_fields(4) [of md "?main + off"] by (simp add: page_def)
    show "pvalue g (ms_meta_lock ms') = UNLOCKED"
      using persist_write_value [of g UNLOCKED] by (simp add: ms'(4) ttas_init_def persist_atomic_write_uint64_def)
    show "bd_memory_size (ms_buddy_alloc ms') = (let off = embed_offset ?r in off - off mod BUDDY_ALLOC_ALIGNMENT)"
      by (simp add: ms'(8) off_def Let_def)
  qed (use ms' cg in \<open>auto simp: off_def\<close>)
qed

end
