(* ===== verification/Meta_Props.thy ===== *)
theory Meta_Props
  imports Meta_Init
begin

text \<open>
  The properties of the allocator of shared objects: initialisation, allocation, lookup, and recovery
  after a crash.
\<close>

subsection \<open>Lookup\<close>

lemma find_node_0 [simp]: "find_node P m start 0 = Some 0"
  by (simp add: find_node.simps)

lemma find_node_list:
  assumes d: "dll m start lq xs" and P: "\<And>x. x \<in> set xs \<Longrightarrow> P m x = Some (Q x)"
  shows "find_node P m start (shmem_optr_direct_ptr start (lq_pe_first m lq)) =
    Some (case List.find Q xs of None \<Rightarrow> 0 | Some x \<Rightarrow> x)"
proof -
  have pl: "x \<noteq> 0" "shmem_optr_direct_ptr start (shmem_optr_from_ptr start x) = x" if "x \<in> set xs" for x
    using d that placed_optr [of start x] by (auto simp: dll_def list_all_iff placed_def)
  have suffix: "find_node P m start (if vs = [] then 0 else hd vs) = Some (case List.find Q vs of None \<Rightarrow> 0 | Some x \<Rightarrow> x)"
    if "xs = us @ vs" for us vs
    using that
  proof (induction vs arbitrary: us)
    case (Cons x vs)
    have x: "x \<in> set xs" using Cons.prems by simp
    have next_x: "le_pe_next m x = (if vs = [] then 0 else shmem_optr_from_ptr start (hd vs))"
      using dll_links(1) [of m start lq us x vs] d Cons.prems by simp
    have hd: "hd vs \<in> set xs" if "vs \<noteq> []" using that Cons.prems by simp
    have nz: "shmem_optr_from_ptr start (hd vs) \<noteq> 0" if "vs \<noteq> []"
      using d hd [OF that] placed_optr(2) by (auto simp: dll_def list_all_iff)
    show ?case
    proof (cases "Q x")
      case True
      with P [OF x] pl(1) [OF x] show ?thesis by (simp add: find_node.simps [of P m start x])
    next
      case False
      have "find_node P m start x = find_node P m start (if vs = [] then 0 else hd vs)"
      proof (cases "vs = []")
        case True
        with False P [OF x] pl(1) [OF x] next_x show ?thesis by (simp add: find_node.simps [of P m start x] shmem_optr_is_null_def)
      next
        case ne: False
        with False P [OF x] pl(1) [OF x] next_x nz [OF ne] pl(2) [OF hd [OF ne]]
        show ?thesis by (simp add: find_node.simps [of P m start x] shmem_optr_is_null_def del: direct_ptr_pos)
      qed
      with Cons.IH [of "us @ [x]"] Cons.prems False show ?thesis by simp
    qed
  qed simp
  have "shmem_optr_direct_ptr start (lq_pe_first m lq) = (if xs = [] then 0 else hd xs)"
    using d pl(2) [of "hd xs"] by (auto simp: dll_def simp del: direct_ptr_pos)
  with suffix [of "[]" xs] show ?thesis by simp
qed

lemma find_append: "List.find P (xs @ ys) = (case List.find P xs of None \<Rightarrow> List.find P ys | Some x \<Rightarrow> Some x)"
  by (induction xs) simp_all

lemma find_header_objects:
  assumes inv: "meta_inv ms md m hs rs" and str: "c_strlen src = Some n"
  shows "find_header src md ms m =
    Some (case List.find (\<lambda>h. c_string (hdr_prog_id m h) = c_string src) hs of None \<Rightarrow> 0 | Some h \<Rightarrow> h)"
proof -
  have d: "dll m (mem_start md) (ms_obj_headers ms) hs" and t: "\<And>h. h \<in> set hs \<Longrightarrow> 0 \<in> set (hdr_prog_id m h)"
    using inv by (auto simp: meta_inv_def headers_ok_def list_all_iff)
  have "header_matches src m h = Some (c_string (hdr_prog_id m h) = c_string src)" if "h \<in> set hs" for h
  proof -
    have n: "n = length (c_string src)" "0 \<in> set src" using str by (auto simp: c_strlen_def c_string_def split: if_splits)
    let ?s = "hdr_prog_id m h"
    have l: "c_strlen ?s = Some (length (c_string ?s))" using t [OF that] by (simp add: c_strlen_def c_string_def)
    show ?thesis
    proof (cases "length (c_string ?s) = n")
      case True
      from strncmp_lengths [OF True n(1) [symmetric] t [OF that] n(2)] show ?thesis
        by (simp only: header_matches_def str l True option.case option.map simp_thms)
    next
      case False
      then have "c_string ?s \<noteq> c_string src" using n(1) by auto
      with False show ?thesis by (simp only: header_matches_def str l option.case option.map simp_thms)
    qed
  qed
  from find_node_list [where P = "header_matches src" and Q = "\<lambda>h. c_string (hdr_prog_id m h) = c_string src", OF d this] str
  show ?thesis by (simp add: find_header_def obj_header_head_def)
qed

lemma find_objects:
  "List.find (\<lambda>(name, _). name = src) (objects m hs) =
    map_option (object_of m) (List.find (\<lambda>h. c_string (hdr_prog_id m h) = src) hs)"
  by (induction hs) (auto simp: objects_def object_of_def)

lemma find_lockheld_objects:
  assumes inv: "meta_inv ms md m hs rs" and str: "c_strlen (rg_prog_id desc) = Some n"
  shows "find_lockheld ms md m desc =
    (case List.find (\<lambda>(name, _). name = c_string (rg_prog_id desc)) (objects m hs) of
       Some (_, off, len) \<Rightarrow> Some (True, desc \<lparr>rg_offset := off, rg_length := word_of_nat len\<rparr>, ms, md, m)
     | None \<Rightarrow> if 0 < rg_length desc then
          map_option (\<lambda>(ret, obj, ms, md, m).
              (False, desc \<lparr>rg_offset := word_of_nat obj - word_of_nat (mem_start md)\<rparr>, ms, md, m))
            (atomic_allocate_memory_lockheld ms md m desc)
        else Some (False, desc, ms, md, m))"
proof -
  let ?f = "List.find (\<lambda>h. c_string (hdr_prog_id m h) = c_string (rg_prog_id desc)) hs"
  have "h \<noteq> 0" if "?f = Some h" for h
  proof -
    have "h \<in> set hs" using that by (auto simp: find_Some_iff)
    with inv show ?thesis by (auto simp: meta_inv_def dll_def list_all_iff placed_def)
  qed
  then show ?thesis
    by (cases ?f) (simp_all add: find_lockheld_def find_header_objects [OF inv str] find_objects object_of_def)
qed

subsection \<open>Example\<close>

text \<open>A region of one megabyte at address 4096 for machine 1.\<close>

definition ex_dram :: meta_dram where
  "ex_dram = \<lparr>mem_start = 4096, mem_length = 1048576, cur_obj_recs = 0, md_machine_id = 1, md_total_machines = 1\<rparr>"

lemma ex_embed: "metashmem_embed_offset 950272 4096 = \<lparr>can_fit = True, embed_offset = 949392, embed_buddy_size = 880\<rparr>"
  by code_simp

lemma ex_recover_embed: "metashmem_embed_offset (size_sub 1048576 57344) 4096 = \<lparr>can_fit = True, embed_offset = 990352, embed_buddy_size = 880\<rparr>"
  by code_simp

lemma ex_large: "metashmem_embed_offset 1048576 4096 = \<lparr>can_fit = True, embed_offset = 1047696, embed_buddy_size = 880\<rparr>"
  "buddy_tree_order_for_memory 1044480 4096 = 9"
  "metashmem_embed_offset (size_sub 1146880 57344) 4096 = \<lparr>can_fit = True, embed_offset = 1088520, embed_buddy_size = 1016\<rparr>"
  by code_simp+

lemma ex_order: "buddy_tree_order_for_memory 946176 4096 = 9"
  by code_simp

lemma ex_fits: "region_fits ex_dram"
  using ex_embed ex_order
  by (simp add: region_fits_def Let_def ex_dram_def RESERVED_def FUTEX_ADDR_QUEUE_SIZE_def OBJ_ALLOC_RECS_SIZE_def
      PROC_DEATH_NOTIFICATION_SIZE_def CXLCG_META_SIZE_def BUDDY_ALLOC_ALIGNMENT_def VCXL_MAX_SUPPORTED_MACHINES_def)

definition ex_desc :: region_desc where
  "ex_desc = \<lparr>rg_offset = 0, rg_length = 10000, rg_prog_id = [97, 98, 0, 0, 0, 0, 0, 0, 0, 0, 0, 0]\<rparr>"

lemma ex_desc: "c_strlen (rg_prog_id ex_desc) = Some 2" "length (rg_prog_id ex_desc) = PROG_ID_SIZE" "0 < rg_length ex_desc"
  "unat (rg_length ex_desc) = 10000"
  by (simp_all add: ex_desc_def c_strlen_def PROG_ID_SIZE_def)

lemma ex_string: "c_string (rg_prog_id ex_desc) = [97, 98]"
  by (simp add: ex_desc_def c_string_def)

text \<open>A fresh region, where an allocation of 10000 bytes finds a block.\<close>

lemma ex_fresh_meta:
  obtains ms m where "meta_inv ms (ex_dram \<lparr>cur_obj_recs := 24576\<rparr>) m [] [24576]" "recs_available m 24576 = NUM_OBJ_SLOTS"
    "buddy_malloc_find_pos (Some (ms_buddy_alloc ms)) 10000 \<noteq> INVALID_POS"
    "bd_blocks (ms_buddy_alloc ms) = {}" "pvalue DRAM (ms_meta_lock ms) = UNLOCKED" "ms_at ms = 1051792"
    "bd_memory_size (ms_buddy_alloc ms) = 946176" "bd_alignment (ms_buddy_alloc ms) = 4096"
proof -
  have p: "mem_start ex_dram + FUTEX_ADDR_QUEUE_SIZE = 24576" by (simp add: ex_dram_def FUTEX_ADDR_QUEUE_SIZE_def)
  obtain cl' cm' ms m where ms: "meta_inv ms (ex_dram \<lparr>cur_obj_recs := 24576\<rparr>) m [] [24576]" "recs_available m 24576 = NUM_OBJ_SLOTS"
    "bd_blocks (ms_buddy_alloc ms) = {}" "pvalue DRAM (ms_meta_lock ms) = UNLOCKED"
    "bd_memory_size (ms_buddy_alloc ms) = (let off = embed_offset (metashmem_embed_offset (mem_length ex_dram - RESERVED) BUDDY_ALLOC_ALIGNMENT)
       in off - off mod BUDDY_ALLOC_ALIGNMENT)" "bd_alignment (ms_buddy_alloc ms) = BUDDY_ALLOC_ALIGNMENT"
    "ms_at ms = mem_start ex_dram + RESERVED + embed_offset (metashmem_embed_offset (mem_length ex_dram - RESERVED) BUDDY_ALLOC_ALIGNMENT)"
    using vcxl_init_correct [OF ex_fits, of DRAM, unfolded p] by metis
  let ?b = "ms_buddy_alloc ms"
  have size: "bd_memory_size ?b = 946176" "bd_alignment ?b = 4096" "ms_at ms = 1051792"
    using ms(5-7) ex_embed by (simp_all add: Let_def ex_dram_def RESERVED_def FUTEX_ADDR_QUEUE_SIZE_def OBJ_ALLOC_RECS_SIZE_def
        PROC_DEATH_NOTIFICATION_SIZE_def CXLCG_META_SIZE_def BUDDY_ALLOC_ALIGNMENT_def)
  have ok: "bd_ok ?b" using ms(1) by (simp add: meta_inv_def)
  have "size_for_depth ?b (depth_for_size ?b 10000) < 2 * max 10000 (bd_alignment ?b)"
    by (rule depth_for_size_correct(4) [OF bd_okD(1) [OF ok]]) (simp add: size)
  then have "buddy_malloc_find_pos (Some ?b) 10000 \<noteq> INVALID_POS"
    by (intro fresh_find_pos [OF ok ms(3)]) (simp_all add: size)
  with ms(1-4) size that show ?thesis by blast
qed

lemma ex_allocation:
  obtains ms m obj lp where "meta_inv ms (ex_dram \<lparr>cur_obj_recs := 24576\<rparr>) m [] [24576]"
    "0 < recs_available m (cur_obj_recs (ex_dram \<lparr>cur_obj_recs := 24576\<rparr>))"
    "allocate_record ms (ex_dram \<lparr>cur_obj_recs := 24576\<rparr>) m ex_desc = Some (0, obj, lp)"
    "pvalue DRAM (ms_meta_lock ms) = UNLOCKED" "ms_at ms = 1051792"
proof -
  let ?md = "ex_dram \<lparr>cur_obj_recs := 24576\<rparr>"
  obtain ms m where x: "meta_inv ms ?md m [] [24576]" "recs_available m 24576 = NUM_OBJ_SLOTS"
    "buddy_malloc_find_pos (Some (ms_buddy_alloc ms)) 10000 \<noteq> INVALID_POS"
    "pvalue DRAM (ms_meta_lock ms) = UNLOCKED" "ms_at ms = 1051792" by (rule ex_fresh_meta)
  have a: "0 < recs_available m (cur_obj_recs ?md)" using x(2) by (simp add: NUM_OBJ_SLOTS_def)
  show ?thesis
    by (rule allocate_cases [OF x(1) a ex_desc(1,2)]) (use x(3-5) that [OF x(1) a] in \<open>auto simp: ex_desc(4) simp del: buddy_malloc_find_pos.simps\<close>)
qed

subsection \<open>Recovery\<close>

lemma allocation_replay:
  assumes "meta_inv ms md m hs rs" "0 < recs_available m (cur_obj_recs md)"
    and "c_strlen (rg_prog_id alloc) = Some n" "length (rg_prog_id alloc) = PROG_ID_SIZE"
    and rec: "allocate_record ms md m alloc = Some (0, obj, lp)"
    and i: "interrupted (mem_start md) (take (snd lp - 1) (fst lp)) (ms \<lparr>ms_redolog := fst lp\<rparr>) m ms' m'"
    and s: "mem_start md' = mem_start md"
  obtains ms1 m1 h where "atomic_allocate_memory_lockheld ms md m alloc = Some (0, obj, ms1, md, m1)"
    "recover_with_redolog ms' md' m' = Some (0, ms1 \<lparr>ms_meta_lock := ms_meta_lock ms'\<rparr>, md', m1)"
    "meta_inv ms1 md m1 (hs @ [h]) rs"
    "objects m1 (hs @ [h]) = objects m hs @
      [(c_string (rg_prog_id alloc), shmem_optr_from_ptr (mem_start md) obj, unat (rg_length alloc))]" "ms_at ms1 = ms_at ms'"
proof (rule allocate_cases [OF assms(1-4)])
  assume "atomic_allocate_memory_lockheld ms md m alloc = Some (- ENOMEM, 0, ms, md, m)"
  with rec show ?thesis by (simp add: atomic_allocate_memory_lockheld_def ENOMEM_def split: if_splits option.splits prod.splits)
next
  let ?b = "ms_buddy_alloc ms" and ?ms = "ms \<lparr>ms_redolog := fst lp\<rparr>"
  fix i ms2 m2 h es and lp2 :: "redo_log \<times> nat"
  assume a: "atomic_allocate_memory_lockheld ms md m alloc = Some (0, block_addr ?b i, ms2, md, m2)"
    "allocate_record ms md m alloc = Some (0, block_addr ?b i, lp2)"
    "ms2 = ms \<lparr>ms_redolog := fst lp2, ms_buddy_alloc := ?b \<lparr>bd_tree := buddy_tree_mark (bd_tree ?b) (node_pos i)\<rparr>\<rparr>"
    "meta_inv ms2 md m2 (hs @ [h]) rs"
    "objects m2 (hs @ [h]) = objects m hs @ [(c_string (rg_prog_id alloc),
       shmem_optr_from_ptr (mem_start md) (block_addr ?b i), unat (rg_length alloc))]"
    "committed (fst lp2) es" "snd lp2 = length es + 1" "buddy_txn ?b es"
    "\<And>e. e \<in> set es \<Longrightarrow> loge_tp e \<noteq> Some COMMIT \<and> loge_tp e \<noteq> Some INIT_OBJ_ALLOC_RECS"
    "execute_entries es (?b, md, m) = Some (ms_buddy_alloc ms2, md, m2)"
  have e: "obj = block_addr ?b i" "lp2 = lp" using rec a(2) by simp_all
  from a(6) obtain c where "take (length es + 1) (fst lp2) = es @ [c]" by (auto simp: committed_def log_prefix_def)
  then have "take (length es) (take (length es + 1) (fst lp2)) = es" by simp
  then have es: "take (snd lp - 1) (fst lp) = es" using a(7) e(2) by (simp add: min_def)
  have r: "recover_with_redolog ms' md' m' = Some (0, ms' \<lparr>ms_buddy_alloc := ms_buddy_alloc ms2\<rparr>, fold entry_dram es md', m2)"
    by (rule recover_committed [where ms = ?ms, OF _ _ _ _ i [unfolded es] s]) (use a(6,8-10) e in auto)
  have "ms' \<lparr>ms_buddy_alloc := ms_buddy_alloc ms2\<rparr> = ms2 \<lparr>ms_meta_lock := ms_meta_lock ms'\<rparr>" "ms_at ms2 = ms_at ms'"
    using i a(3) e by (simp_all add: interrupted_def)
  moreover have "fold entry_dram es md' = md'" by (rule fold_entry_dram_same) (use a(9) in blast)
  ultimately show ?thesis using that [OF a(1) [folded e(1)] _ a(4) a(5) [folded e(1)]] r by simp
qed

lemma meta_inv_lists:
  assumes "meta_inv ms md m hs rs"
  shows "dll m (mem_start md) (ms_obj_headers ms) hs" "dll m (mem_start md) (ms_obj_allocs ms) rs"
  using assms by (simp_all add: meta_inv_def)

lemma meta_inv_lock: "meta_inv ms md m hs rs \<Longrightarrow> meta_inv (ms \<lparr>ms_meta_lock := c\<rparr>) md m hs rs"
  by (simp add: meta_inv_def pages_ok_def page_place_def list_all_iff ms_obj_headers_def ms_obj_allocs_def)

text \<open>The state of a region whose machine has failed: the metadata are where recovery looks for them, and
  the locks of the group table and of the allocator are free or held by the failed machine itself.\<close>

definition recoverable_region :: "granularity \<Rightarrow> cpu \<Rightarrow> meta_dram \<Rightarrow> shared \<Rightarrow> bool" where
  "recoverable_region g k md sh \<longleftrightarrow>
     (let reserved = FUTEX_ADDR_QUEUE_SIZE + OBJ_ALLOC_RECS_SIZE + PROC_DEATH_NOTIFICATION_SIZE;
          result = metashmem_embed_offset (size_sub (mem_length md) reserved) BUDDY_ALLOC_ALIGNMENT
      in can_fit result \<and> mem_start md + reserved + embed_offset result = ms_at (sh_meta sh)) \<and>
     kernel_process k (md_machine_id md) \<noteq> None \<and> unat (md_machine_id md - 1) < VCXL_MAX_SUPPORTED_MACHINES \<and>
     cg_ok (sh_cg sh) \<and> left_by g k (md_machine_id md) (cm_meta_lock (sh_cg sh)) \<and>
     left_by g k (md_machine_id md) (ms_meta_lock (sh_meta sh))"

subsection \<open>Initialisation and allocation\<close>

text \<open>C6: Initialising a region that is large enough, aligned and below the sign bit succeeds and establishes
  the invariant of the allocator: the two lists, the bitmaps of the pages and the buddy allocator agree,
  there is one empty page of headers, no object, no block in use, and the lock is free.\<close>

theorem init_establishes_invariant:
  assumes "region_fits md"
  shows "\<exists>cl' md' sh'. vcxl_init_meta_impl g cl md sh = Done (0, cl', md', sh') \<and>
    meta_inv (sh_meta sh') md' (sh_mem sh') [] [mem_start md + FUTEX_ADDR_QUEUE_SIZE] \<and>
    recs_available (sh_mem sh') (cur_obj_recs md') = NUM_OBJ_SLOTS \<and>
    bd_blocks (ms_buddy_alloc (sh_meta sh')) = {} \<and> pvalue g (ms_meta_lock (sh_meta sh')) = UNLOCKED"
  by (rule vcxl_init_correct [OF assms, of g cl sh]) simp

theorem init_establishes_invariant_witness:
  "\<forall>g cl sh. \<exists>cl' md' sh'. vcxl_init_meta_impl g cl ex_dram sh = Done (0, cl', md', sh') \<and>
    meta_inv (sh_meta sh') md' (sh_mem sh') [] [24576]"
proof (intro allI)
  fix g cl sh
  have "mem_start ex_dram + FUTEX_ADDR_QUEUE_SIZE = 24576" by (simp add: ex_dram_def FUTEX_ADDR_QUEUE_SIZE_def)
  with init_establishes_invariant [OF ex_fits, of g cl sh]
  show "\<exists>cl' md' sh'. vcxl_init_meta_impl g cl ex_dram sh = Done (0, cl', md', sh') \<and>
    meta_inv (sh_meta sh') md' (sh_mem sh') [] [24576]" by auto
qed

text \<open>C5: An allocation under a terminated name, while the current page of headers has a free slot, does one
  of two things. It returns \<open>-ENOMEM\<close> and changes nothing, exactly when the buddy allocator has no block
  for the length; or it returns a block that holds the length and overlaps no other block, and appends one
  object with the given name and length to the list of objects, keeping the invariant and every other
  object.\<close>

theorem allocate_adds_object:
  assumes "meta_inv ms md m hs rs" "0 < recs_available m (cur_obj_recs md)"
    and "c_strlen (rg_prog_id alloc) = Some n" "length (rg_prog_id alloc) = PROG_ID_SIZE"
  shows "if buddy_malloc_find_pos (Some (ms_buddy_alloc ms)) (unat (rg_length alloc)) = INVALID_POS
    then atomic_allocate_memory_lockheld ms md m alloc = Some (- ENOMEM, 0, ms, md, m)
    else \<exists>obj size ms' m' h. atomic_allocate_memory_lockheld ms md m alloc = Some (0, obj, ms', md, m') \<and>
      meta_inv ms' md m' (hs @ [h]) rs \<and>
      objects m' (hs @ [h]) = objects m hs @
        [(c_string (rg_prog_id alloc), shmem_optr_from_ptr (mem_start md) obj, unat (rg_length alloc))] \<and>
      unat (rg_length alloc) \<le> size \<and> bd_blocks (ms_buddy_alloc ms') = insert (obj, size) (bd_blocks (ms_buddy_alloc ms)) \<and>
      (\<forall>q k. (q, k) \<in> bd_blocks (ms_buddy_alloc ms) \<longrightarrow> obj + size \<le> q \<or> q + k \<le> obj)"
proof (rule allocate_cases [OF assms])
  assume "atomic_allocate_memory_lockheld ms md m alloc = Some (- ENOMEM, 0, ms, md, m)"
    "buddy_malloc_find_pos (Some (ms_buddy_alloc ms)) (unat (rg_length alloc)) = INVALID_POS"
  then show ?thesis by (simp del: buddy_malloc_find_pos.simps)
next
  let ?b = "ms_buddy_alloc ms"
  fix i ms' m' h lp
  assume a: "atomic_allocate_memory_lockheld ms md m alloc = Some (0, block_addr ?b i, ms', md, m')"
    "block_available (bd_tree ?b) i" "unat (rg_length alloc) \<le> block_size ?b i"
    "ms' = ms \<lparr>ms_redolog := fst lp, ms_buddy_alloc := ?b \<lparr>bd_tree := buddy_tree_mark (bd_tree ?b) (node_pos i)\<rparr>\<rparr>"
    "meta_inv ms' md m' (hs @ [h]) rs"
    "objects m' (hs @ [h]) = objects m hs @ [(c_string (rg_prog_id alloc),
       shmem_optr_from_ptr (mem_start md) (block_addr ?b i), unat (rg_length alloc))]"
    "buddy_malloc_find_pos (Some ?b) (unat (rg_length alloc)) \<noteq> INVALID_POS"
  have "bd_ok ?b" using assms(1) by (simp add: meta_inv_def)
  note mb = mark_blocks [OF this a(2)]
  have "bd_blocks (ms_buddy_alloc ms') = insert (block_addr ?b i, block_size ?b i) (bd_blocks ?b)"
    using mb(1) by (simp add: a(4))
  moreover have "\<forall>q k. (q, k) \<in> bd_blocks ?b \<longrightarrow> block_addr ?b i + block_size ?b i \<le> q \<or> q + k \<le> block_addr ?b i"
    using mb(2) by blast
  ultimately show ?thesis using a(1,3,5-7) by (auto simp del: buddy_malloc_find_pos.simps)
qed

theorem allocate_adds_object_witness:
  "\<exists>ms m ms' m' h obj. meta_inv ms (ex_dram \<lparr>cur_obj_recs := 24576\<rparr>) m [] [24576] \<and>
    atomic_allocate_memory_lockheld ms (ex_dram \<lparr>cur_obj_recs := 24576\<rparr>) m ex_desc =
      Some (0, obj, ms', ex_dram \<lparr>cur_obj_recs := 24576\<rparr>, m') \<and>
    meta_inv ms' (ex_dram \<lparr>cur_obj_recs := 24576\<rparr>) m' [h] [24576] \<and>
    objects m' [h] = [([97, 98], shmem_optr_from_ptr 4096 obj, 10000)]"
proof -
  obtain ms m where x: "meta_inv ms (ex_dram \<lparr>cur_obj_recs := 24576\<rparr>) m [] [24576]" "recs_available m 24576 = NUM_OBJ_SLOTS"
    "buddy_malloc_find_pos (Some (ms_buddy_alloc ms)) 10000 \<noteq> INVALID_POS" by (rule ex_fresh_meta)
  have "0 < recs_available m (cur_obj_recs (ex_dram \<lparr>cur_obj_recs := 24576\<rparr>))" using x(2) by (simp add: NUM_OBJ_SLOTS_def)
  from allocate_adds_object [OF x(1) this ex_desc(1,2)] x(1,3) show ?thesis
    by (simp add: ex_desc(4) ex_string objects_def ex_dram_def del: buddy_malloc_find_pos.simps) blast
qed








subsection \<open>Where allocation and recovery fall short\<close>

text \<open>C25: When the current page of headers is full, an allocation takes two blocks, one for the object and
  one for a new page of headers. Both are looked up in the same tree, because the first is only recorded
  and not yet marked. For every length that needs blocks of the size of a page the page is therefore
  placed on top of the object: the header of the object lies inside the object.\<close>

theorem new_page_overlaps_object:
  assumes "bd_ok b" "arena_in_region md b" "log_wf log" "dll m (mem_start md) allocs rs"
    and "cur_obj_recs md \<noteq> 0" "recs_available m (cur_obj_recs md) = 0"
    and "c_strlen name = Some n" "length name = PROG_ID_SIZE"
    and "0 < len" "len \<le> OBJ_ALLOC_RECS_SIZE" "depth_for_size b len = depth_for_size b OBJ_ALLOC_RECS_SIZE"
    and "buddy_malloc_find_pos (Some b) OBJ_ALLOC_RECS_SIZE \<noteq> INVALID_POS"
  shows "\<exists>obj lp lp'. alloc_and_log_lockheld (log, 0) b md len = Some (0, Some obj, lp) \<and>
    record_obj_hdr_alloc lp b m allocs md (shmem_optr_from_ptr (mem_start md) obj) (word_of_nat len) name =
      Some (recs_header_at obj 0, lp')"
proof -
  have same: "buddy_malloc_find_pos (Some b) len = buddy_malloc_find_pos (Some b) OBJ_ALLOC_RECS_SIZE"
    using assms(9-12) by (auto simp: Let_def split: if_splits)
  have l: "length [] < REDOLOG_ENTRIES" "length ([] @ [e :: log_entry]) < REDOLOG_ENTRIES" for e by (simp_all add: REDOLOG_ENTRIES_def)
  obtain i lp1 e1 where 1: "alloc_and_log_lockheld (log, 0) b md len = Some (0, Some (block_addr b i), lp1)" "log_prefix lp1 ([] @ [e1])"
    "block_available (bd_tree b) i" "buddy_malloc_find_pos (Some b) len = node_pos i"
    by (rule alloc_and_log_cases [OF assms(1,2) log_prefix_start [OF assms(3)] l(1), of len]) (use same assms(12) in auto)
  obtain j lp2 e2 where 2: "alloc_and_log_lockheld lp1 b md OBJ_ALLOC_RECS_SIZE = Some (0, Some (block_addr b j), lp2)"
    "log_prefix lp2 (([] @ [e1]) @ [e2])" "buddy_malloc_find_pos (Some b) OBJ_ALLOC_RECS_SIZE = node_pos j"
    "block_available (bd_tree b) j"
    by (rule alloc_and_log_cases [OF assms(1,2) 1(2) l(2), of OBJ_ALLOC_RECS_SIZE]) (use assms(12) in auto)
  have "block_addr b i = address_for_position b (node_pos i)" "block_addr b j = address_for_position b (node_pos j)"
    using available_node(7) [OF assms(1)] 1(3) 2(4) by simp_all
  then have ij: "block_addr b j = block_addr b i" using 1(4) 2(3) same by simp
  have p: "placed (mem_start md) (block_addr b j)"
    using available_node(8,9) [OF assms(1) 2(4)] malloc_block_size [OF assms(1) 2(4,3)] assms(2)
    by (simp add: placed_def arena_in_region_def OBJ_ALLOC_RECS_SIZE_def)
  have lq: "placed (mem_start md) allocs" "lq_pe_first m allocs \<noteq> 0 \<Longrightarrow> lq_pe_tail m allocs \<noteq> 0"
    using assms(4) placed_optr(2) by (auto simp: dll_def list_all_iff split: if_splits)
  obtain lp3 e3 e4 where 3: "record_list_queue_append lp2 m allocs (block_addr b j) (mem_start md) = Some lp3"
    "log_prefix lp3 ((([] @ [e1]) @ [e2]) @ [e3, e4])"
    by (rule record_append_entries [OF 2(2) _ p lq]) (auto simp: REDOLOG_ENTRIES_def)
  note r = REDOLOG_ENTRIES_def
  let ?o = "shmem_optr_from_ptr (mem_start md) (block_addr b j)"
  obtain lp4 e5 where 4: "set_log_entry lp3 (init_obj_alloc_loge ?o) = Some lp4"
    "log_prefix lp4 (((([] @ [e1]) @ [e2]) @ [e3, e4]) @ [init_obj_alloc_loge ?o e5])"
    by (rule set_log_entry_prefix [OF 3(2), of "init_obj_alloc_loge ?o"]) (auto simp: r)
  let ?f = "obj_hdr_alloc_loge ?o (shmem_optr_from_ptr (mem_start md) (block_addr b i)) (word_of_nat len) (take (n + 1) name) 0
    (md_machine_id md) (word_of_nat (NUM_OBJ_SLOTS - 1))"
  have n: "length (take (n + 1) name) \<le> 12" using assms(8) by (simp add: PROG_ID_SIZE_def)
  obtain lp5 where 5: "set_log_entry lp4 ?f = Some lp5"
    by (rule set_log_entry_prefix [OF 4(2), of ?f]) (use n in \<open>simp_all add: r\<close>)
  have "record_obj_hdr_alloc lp1 b m allocs md (shmem_optr_from_ptr (mem_start md) (block_addr b i)) (word_of_nat len) name =
      Some (recs_header_at (block_addr b i) 0, lp5)"
    using 2(1) 3(1) 4(1) 5 assms(5-8)
    by (simp add: record_obj_hdr_alloc_def Let_def set_init_obj_allocs_log_entry_def set_obj_hdr_alloc_log_entry_def ij)
  with 1(1) show ?thesis by blast
qed

theorem new_page_overlaps_object_witness:
  "\<exists>b m md log allocs obj (lp :: redo_log \<times> nat) (lp' :: redo_log \<times> nat). recs_available m (cur_obj_recs md) = 0 \<and>
    alloc_and_log_lockheld (log, 0) b md 10000 = Some (0, Some obj, lp) \<and>
    record_obj_hdr_alloc lp b m allocs md (shmem_optr_from_ptr (mem_start md) obj) 10000 (rg_prog_id ex_desc) =
      Some (recs_header_at obj 0, lp')"
proof -
  let ?md = "ex_dram \<lparr>cur_obj_recs := 24576\<rparr>"
  obtain ms m where x: "meta_inv ms ?md m [] [24576]" "bd_blocks (ms_buddy_alloc ms) = {}" "ms_at ms = 1051792"
    "bd_memory_size (ms_buddy_alloc ms) = 946176" "bd_alignment (ms_buddy_alloc ms) = 4096" by (rule ex_fresh_meta)
  let ?b = "ms_buddy_alloc ms" and ?m = "wr 2 m 24636 0"
  have i: "bd_ok ?b" "arena_in_region ?md ?b" "log_wf (ms_redolog ms)" using x(1) by (simp_all add: meta_inv_def)
  have d: "dll ?m (mem_start ?md) (ms_obj_allocs ms) [24576]"
    by (rule dll_cong [OF meta_inv_lists(2) [OF x(1)]]) (auto simp: ms_obj_allocs_def x(3))
  have e: "recs_available ?m (cur_obj_recs ?md) = 0" by (simp add: recs_available_def recs_available_at_def rd_wr_same)
  have eff: "ceiling_power_of_two 946176 = 1048576" by code_simp
  have dep: "depth_for_size ?b 10000 = 7" "depth_for_size ?b OBJ_ALLOC_RECS_SIZE = 7"
    by (simp_all add: depth_for_size_def buddy_effective_memory_size_def x(4,5) eff OBJ_ALLOC_RECS_SIZE_def depth_loop.simps)
  have f: "buddy_malloc_find_pos (Some ?b) OBJ_ALLOC_RECS_SIZE \<noteq> INVALID_POS"
    by (rule fresh_find_pos [OF i(1) x(2)]) (simp_all add: dep(2) size_for_depth_def x(4) eff, simp_all add: OBJ_ALLOC_RECS_SIZE_def)
  from new_page_overlaps_object [OF i d _ e ex_desc(1,2) _ _ _ f, of 10000] dep
  obtain obj and lp lp' :: "redo_log \<times> nat" where "alloc_and_log_lockheld (ms_redolog ms, 0) ?b ?md 10000 = Some (0, Some obj, lp)"
    "record_obj_hdr_alloc lp ?b ?m (ms_obj_allocs ms) ?md (shmem_optr_from_ptr (mem_start ?md) obj) 10000 (rg_prog_id ex_desc) =
      Some (recs_header_at obj 0, lp')" by (auto simp: OBJ_ALLOC_RECS_SIZE_def)
  with e show ?thesis by blast
qed

end
