(* ===== verification/Failure_Detection.thy ===== *)
theory Failure_Detection
  imports Meta_Props
begin

text \<open>
  The detection of failed machines of \<^verbatim>\<open>src/driver/src/cxl_cgroup.c\<close>: every machine counts up its heartbeat in
  shared memory and compares the heartbeats of all machines with those of its last round. A machine that
  was live and has not moved for two rounds is reported, its generation is counted up, and the detecting
  machine takes over the lock of the allocator and replays the log the failed machine left.

  The heartbeats that other machines count up during a round are functions that change the group table:
  for each machine one before its heartbeat is compared and one before it is read again. The messages sent
  to user space are collected in a list; printing and time stamps are omitted. Access outside the tables
  and a failed assertion are \<open>Bug\<close>.
\<close>

subsection \<open>Operations\<close>

record fd_state =
  fd_local :: cg_local
  fd_timeout_times :: "u64 list"
  fd_msg :: u64
  fd_sent :: "u64 list"
  fd_dram :: meta_dram
  fd_shared :: shared

type_synonym cg_env = "cxlcg_meta \<Rightarrow> cxlcg_meta"

definition fd_table :: "fd_state \<Rightarrow> cxlcg_meta" where
  "fd_table fd = sh_cg (fd_shared fd)"

definition set_table :: "cxlcg_meta \<Rightarrow> fd_state \<Rightarrow> fd_state" where
  "set_table cm fd = fd \<lparr>fd_shared := fd_shared fd \<lparr>sh_cg := cm\<rparr>\<rparr>"

text \<open>Taking over the lock and the log of machine \<open>old\<close>; a failed replay is only printed.\<close>

definition help_recover :: "granularity \<Rightarrow> cpu \<Rightarrow> u16 \<Rightarrow> fd_state \<Rightarrow> fd_state outcome" where
  "help_recover g k old fd =
     (let sh = fd_shared fd
      in bind_outcome (meta_lock_recover g k (sh_cg sh) (fd_dram fd) old (sh_meta sh)) (\<lambda>(st, ms).
           bind_outcome
             (if st = TRANSFERED then outcome_of (map_option snd (recover_with_redolog ms (fd_dram fd) (sh_mem sh)))
              else Done (ms, fd_dram fd, sh_mem sh)) (\<lambda>(ms, md, m).
             bind_outcome (meta_lock_done_recover g k md st ms) (\<lambda>ms.
               Done (fd \<lparr>fd_dram := md, fd_shared := sh \<lparr>sh_meta := ms, sh_mem := m\<rparr>\<rparr>)))))"

definition failure_message :: "u64 \<Rightarrow> nat \<Rightarrow> u32 \<Rightarrow> u64" where
  "failure_message msg i gen =
     SET_MSG_TYPE (SET_GEN_ID (SET_OS_ID msg (word_of_nat (i + 1))) (ucast gen)) MSG_TYPE_OS_FAILURE"

definition report_failure :: "granularity \<Rightarrow> cpu \<Rightarrow> nat \<Rightarrow> fd_state \<Rightarrow> fd_state outcome" where
  "report_failure g k i fd =
     (let cm = fd_table fd;
          fd = set_table (cm \<lparr>cm_os_generation_ids := (cm_os_generation_ids cm)[i := cm_os_generation_ids cm ! i + 1]\<rparr>) fd;
          msg = failure_message (fd_msg fd) i (cl_os_gen_ids_snapshot (fd_local fd) ! i)
      in help_recover g k (word_of_nat (i + 1)) (fd \<lparr>fd_msg := msg, fd_sent := fd_sent fd @ [msg]\<rparr>))"

definition check_machine :: "granularity \<Rightarrow> cpu \<Rightarrow> cg_env \<Rightarrow> cg_env \<Rightarrow> nat \<Rightarrow> fd_state \<Rightarrow> fd_state outcome" where
  "check_machine g k e1 e2 i fd =
     (if VCXL_MAX_SUPPORTED_MACHINES \<le> i then Bug
      else
        let fd = set_table (e1 (fd_table fd)) fd;
            cl = fd_local fd
        in if cl_os_heartbeats cl ! i \<noteq> cm_os_heartbeats (fd_table fd) ! i then
             let fd = set_table (e2 (fd_table fd)) fd
             in Done (fd \<lparr>fd_local := cl \<lparr>cl_os_heartbeats := (cl_os_heartbeats cl)[i := cm_os_heartbeats (fd_table fd) ! i],
                                       cl_os_live := (cl_os_live cl)[i := True]\<rparr>,
                          fd_timeout_times := (fd_timeout_times fd)[i := 0]\<rparr>)
           else
             let fd = fd \<lparr>fd_timeout_times := (fd_timeout_times fd)[i := fd_timeout_times fd ! i + 1]\<rparr>
             in if fd_timeout_times fd ! i \<ge> 2 then
                  bind_outcome (if cl_os_live cl ! i then report_failure g k i fd else Done fd) (\<lambda>fd.
                    let cl = fd_local fd
                    in Done (fd \<lparr>fd_local := cl \<lparr>cl_os_gen_ids_snapshot := (cl_os_gen_ids_snapshot cl)[i := cm_os_generation_ids (fd_table fd) ! i],
                                            cl_os_live := (cl_os_live cl)[i := False]\<rparr>,
                              fd_timeout_times := (fd_timeout_times fd)[i := 0]\<rparr>))
                else Done fd)"

fun check_machines :: "granularity \<Rightarrow> cpu \<Rightarrow> (nat \<Rightarrow> cg_env \<times> cg_env) \<Rightarrow> nat list \<Rightarrow> fd_state \<Rightarrow> fd_state outcome" where
  "check_machines g k es [] fd = Done fd"
| "check_machines g k es (i # is) fd =
     bind_outcome (check_machine g k (fst (es i)) (snd (es i)) i fd) (check_machines g k es is)"

definition do_os_failure_detection ::
  "granularity \<Rightarrow> cpu \<Rightarrow> bool \<Rightarrow> (nat \<Rightarrow> cg_env \<times> cg_env) \<Rightarrow> fd_state \<Rightarrow> fd_state outcome" where
  "do_os_failure_detection g k stop_heartbeats es fd =
     (let os_id = unat (GET_OS_ID (cl_my_osii (fd_local fd)));
          fd = fd \<lparr>fd_msg := 0\<rparr>;
          cm = fd_table fd
      in if mem_start (fd_dram fd) = 0 \<or> os_id = 0 then Bug
         else if \<not> stop_heartbeats \<and> VCXL_MAX_SUPPORTED_MACHINES \<le> os_id - 1 then Bug
         else
           let fd = (if stop_heartbeats then fd
                     else set_table (cm \<lparr>cm_os_heartbeats := (cm_os_heartbeats cm)[os_id - 1 := cm_os_heartbeats cm ! (os_id - 1) + 1]\<rparr>) fd)
           in check_machines g k es [0..<unat (md_total_machines (fd_dram fd))] fd)"

text \<open>The test entry that transfers the lock of a machine; it returns without releasing the lock when the log
  cannot be replayed.\<close>

definition lock_transfer_test :: "granularity \<Rightarrow> cpu \<Rightarrow> u16 \<Rightarrow> fd_state \<Rightarrow> (int \<times> fd_state) outcome" where
  "lock_transfer_test g k machine_id fd =
     (let sh = fd_shared fd; md = fd_dram fd
      in if mem_start md = 0 then Bug
         else bind_outcome (meta_lock_recover g k (sh_cg sh) md machine_id (sh_meta sh)) (\<lambda>(st, ms).
           if st = TRANSFERED then
             bind_outcome (outcome_of (print_allocation (mem_start md) ms (sh_mem sh))) (\<lambda>_.
             bind_outcome (outcome_of (recover_with_redolog ms md (sh_mem sh))) (\<lambda>(ret, ms, md, m).
               if ret \<noteq> 0 then Done (- ret, fd \<lparr>fd_dram := md, fd_shared := sh \<lparr>sh_meta := ms, sh_mem := m\<rparr>\<rparr>)
               else
                 bind_outcome (outcome_of (print_allocation (mem_start md) ms m)) (\<lambda>_.
                 bind_outcome (meta_lock_done_recover g k md st ms) (\<lambda>ms.
                   Done (0, fd \<lparr>fd_dram := md, fd_shared := sh \<lparr>sh_meta := ms, sh_mem := m\<rparr>\<rparr>)))))
           else
             bind_outcome (meta_lock_done_recover g k md st ms) (\<lambda>ms.
               Done (0, fd \<lparr>fd_shared := sh \<lparr>sh_meta := ms\<rparr>\<rparr>))))"

subsection \<open>Effects\<close>

lemma failure_message_fields:
  assumes "i < VCXL_MAX_SUPPORTED_MACHINES"
  shows "unat (GET_OS_ID (failure_message x i gen)) = i + 1" "GET_GEN_ID (failure_message x i gen) = gen"
    "GET_MSG_TYPE (failure_message x i gen) = ucast MSG_TYPE_OS_FAILURE"
proof -
  define w :: u64 where "w = word_of_nat (i + 1)"
  have u: "unat w = i + 1"
    unfolding w_def using assms
    by (simp add: unsigned_of_nat take_bit_nat_eq_self VCXL_MAX_SUPPORTED_MACHINES_def del: of_nat_add of_nat_Suc)
  then have os: "unat w < 2 ^ 14" using assms by (simp add: VCXL_MAX_SUPPORTED_MACHINES_def)
  have fm: "failure_message x i gen = SET_MSG_TYPE (SET_GEN_ID (SET_OS_ID x w) (ucast gen)) 0"
    by (simp only: failure_message_def w_def MSG_TYPE_OS_FAILURE_def)
  have ob: "bit w n \<Longrightarrow> n < 14" for n using small_bits [OF os] .
  have bits: "bit (failure_message x i gen) n \<longleftrightarrow> (if 62 \<le> n then False else if 48 \<le> n then bit w (n - 48)
      else if n < 32 then bit (ucast gen :: u64) n else bit x n)" if "n < 64" for n
    using that os by (simp add: fm bit_SET)
  have "bit (GET_OS_ID (failure_message x i gen)) n \<longleftrightarrow> bit w n" for n
    using ob [of n] bits [of "n + 48"] by (auto simp: bit_GET)
  then have "GET_OS_ID (failure_message x i gen) = ucast w"
    by (intro bit_word_eqI) (simp add: bit_simps)
  then show "unat (GET_OS_ID (failure_message x i gen)) = i + 1"
    using u assms by (simp add: unsigned_ucast_eq take_bit_nat_eq_self VCXL_MAX_SUPPORTED_MACHINES_def)
  show "GET_GEN_ID (failure_message x i gen) = gen" by (rule bit_word_eqI) (auto simp: bit_GET bits bit_simps)
  show "GET_MSG_TYPE (failure_message x i gen) = ucast MSG_TYPE_OS_FAILURE"
    by (rule bit_word_eqI) (auto simp: bit_GET bits bit_simps MSG_TYPE_OS_FAILURE_def)
qed

lemma help_recover_frame:
  assumes "help_recover g k old fd = Done fd'"
  shows "fd_local fd' = fd_local fd" "fd_timeout_times fd' = fd_timeout_times fd" "fd_msg fd' = fd_msg fd" "fd_sent fd' = fd_sent fd"
    "fd_table fd' = fd_table fd"
  using assms by (auto simp: help_recover_def Let_def fd_table_def elim!: bind_outcome_Done)

lemma set_table_sel [simp]:
  "fd_table (set_table cm fd) = cm" "fd_local (set_table cm fd) = fd_local fd" "fd_timeout_times (set_table cm fd) = fd_timeout_times fd"
  "fd_msg (set_table cm fd) = fd_msg fd" "fd_sent (set_table cm fd) = fd_sent fd" "fd_dram (set_table cm fd) = fd_dram fd"
  "sh_meta (fd_shared (set_table cm fd)) = sh_meta (fd_shared fd)" "sh_mem (fd_shared (set_table cm fd)) = sh_mem (fd_shared fd)"
  by (simp_all add: set_table_def fd_table_def)

lemma report_failure_frame:
  assumes "report_failure g k i fd = Done fd'"
  shows "fd_local fd' = fd_local fd" "fd_timeout_times fd' = fd_timeout_times fd"
    "fd_sent fd' = fd_sent fd @ [failure_message (fd_msg fd) i (cl_os_gen_ids_snapshot (fd_local fd) ! i)]"
  using help_recover_frame [OF assms [unfolded report_failure_def Let_def]] by simp_all

text \<open>What one check does to the records of the detecting machine.\<close>

definition same_records :: "nat \<Rightarrow> fd_state \<Rightarrow> fd_state \<Rightarrow> bool" where
  "same_records j fd fd' \<longleftrightarrow> fd_timeout_times fd' ! j = fd_timeout_times fd ! j \<and> cl_os_live (fd_local fd') ! j = cl_os_live (fd_local fd) ! j \<and>
     cl_os_gen_ids_snapshot (fd_local fd') ! j = cl_os_gen_ids_snapshot (fd_local fd) ! j"

definition fd_ok :: "fd_state \<Rightarrow> bool" where
  "fd_ok fd \<longleftrightarrow> length (fd_timeout_times fd) = VCXL_MAX_SUPPORTED_MACHINES \<and>
     length (cl_os_live (fd_local fd)) = VCXL_MAX_SUPPORTED_MACHINES \<and>
     length (cl_os_gen_ids_snapshot (fd_local fd)) = VCXL_MAX_SUPPORTED_MACHINES"

lemma check_machine_reports:
  assumes "check_machine g k e1 e2 i fd = Done fd'" "fd_ok fd"
  shows "fd_ok fd'" "j \<noteq> i \<Longrightarrow> same_records j fd fd'" "i < VCXL_MAX_SUPPORTED_MACHINES"
    and "fd_sent fd' = fd_sent fd \<or> (\<exists>x. fd_sent fd' = fd_sent fd @ [failure_message x i (cl_os_gen_ids_snapshot (fd_local fd) ! i)] \<and>
      cl_os_live (fd_local fd) ! i \<and> fd_timeout_times fd ! i \<noteq> 0)"
proof -
  show i: "i < VCXL_MAX_SUPPORTED_MACHINES" using assms(1) by (simp add: check_machine_def split: if_splits)
  then have ni: "\<not> VCXL_MAX_SUPPORTED_MACHINES \<le> i" by simp
  let ?fd = "set_table (e1 (fd_table fd)) fd"
  let ?fd1 = "?fd \<lparr>fd_timeout_times := (fd_timeout_times fd)[i := fd_timeout_times fd ! i + 1]\<rparr>"
  have t: "fd_timeout_times ?fd1 ! i = fd_timeout_times fd ! i + 1" using assms(2) i by (simp add: fd_ok_def)
  consider (beat) "cl_os_heartbeats (fd_local fd) ! i \<noteq> cm_os_heartbeats (e1 (fd_table fd)) ! i"
    | (quiet) "cl_os_heartbeats (fd_local fd) ! i = cm_os_heartbeats (e1 (fd_table fd)) ! i" "\<not> fd_timeout_times fd ! i + 1 \<ge> 2"
    | (timeout) "cl_os_heartbeats (fd_local fd) ! i = cm_os_heartbeats (e1 (fd_table fd)) ! i" "fd_timeout_times fd ! i + 1 \<ge> 2"
    by blast
  then have "fd_ok fd' \<and> (j \<noteq> i \<longrightarrow> same_records j fd fd') \<and> (fd_sent fd' = fd_sent fd \<or>
      (\<exists>x. fd_sent fd' = fd_sent fd @ [failure_message x i (cl_os_gen_ids_snapshot (fd_local fd) ! i)] \<and>
        cl_os_live (fd_local fd) ! i \<and> fd_timeout_times fd ! i \<noteq> 0))"
  proof cases
    case beat
    then show ?thesis using assms ni by (auto simp: check_machine_def fd_ok_def same_records_def Let_def)
  next
    case quiet
    then show ?thesis using assms ni t by (auto simp: check_machine_def fd_ok_def same_records_def Let_def)
  next
    case timeout
    then obtain fd2 where fd2: "(if cl_os_live (fd_local fd) ! i then report_failure g k i ?fd1 else Done ?fd1) = Done fd2"
      "fd' = fd2 \<lparr>fd_local := fd_local fd2 \<lparr>cl_os_gen_ids_snapshot := (cl_os_gen_ids_snapshot (fd_local fd2))[i := cm_os_generation_ids (fd_table fd2) ! i],
         cl_os_live := (cl_os_live (fd_local fd2))[i := False]\<rparr>, fd_timeout_times := (fd_timeout_times fd2)[i := 0]\<rparr>"
      using assms(1) ni t by (auto simp: check_machine_def Let_def elim!: bind_outcome_Done)
    have nz: "fd_timeout_times fd ! i \<noteq> 0" using timeout(2) by (auto simp: word_le_nat_alt)
    show ?thesis
    proof (cases "cl_os_live (fd_local fd) ! i")
      case True
      with fd2(1) have "report_failure g k i ?fd1 = Done fd2" by simp
      note r = report_failure_frame [OF this]
      then show ?thesis using fd2(2) True nz assms(2) by (auto simp: fd_ok_def same_records_def)
    next
      case False
      then show ?thesis using fd2 assms(2) by (auto simp: fd_ok_def same_records_def)
    qed
  qed
  then show "fd_ok fd'" "j \<noteq> i \<Longrightarrow> same_records j fd fd'"
    "fd_sent fd' = fd_sent fd \<or> (\<exists>x. fd_sent fd' = fd_sent fd @ [failure_message x i (cl_os_gen_ids_snapshot (fd_local fd) ! i)] \<and>
      cl_os_live (fd_local fd) ! i \<and> fd_timeout_times fd ! i \<noteq> 0)" by blast+
qed

lemma check_machines_report:
  assumes "check_machines g k es is fd = Done fd'" "fd_ok fd" "distinct is"
  shows "\<exists>msgs. fd_sent fd' = fd_sent fd @ msgs \<and> (\<forall>msg\<in>set msgs. \<exists>j x. j \<in> set is \<and> j < VCXL_MAX_SUPPORTED_MACHINES \<and>
    msg = failure_message x j (cl_os_gen_ids_snapshot (fd_local fd) ! j) \<and> cl_os_live (fd_local fd) ! j \<and> fd_timeout_times fd ! j \<noteq> 0)"
  using assms
proof (induction "is" arbitrary: fd)
  case Nil
  then show ?case by simp
next
  case (Cons i "is")
  obtain fd1 where c: "check_machine g k (fst (es i)) (snd (es i)) i fd = Done fd1" "check_machines g k es is fd1 = Done fd'"
    using Cons.prems(1) by (auto elim: bind_outcome_Done)
  note r = check_machine_reports [OF c(1) Cons.prems(2)]
  from Cons.IH [OF c(2) r(1)] Cons.prems(3) obtain msgs where m: "fd_sent fd' = fd_sent fd1 @ msgs"
    "\<forall>msg\<in>set msgs. \<exists>j x. j \<in> set is \<and> j < VCXL_MAX_SUPPORTED_MACHINES \<and>
      msg = failure_message x j (cl_os_gen_ids_snapshot (fd_local fd1) ! j) \<and> cl_os_live (fd_local fd1) ! j \<and> fd_timeout_times fd1 ! j \<noteq> 0"
    by auto
  have same: "same_records j fd fd1" if "j \<in> set is" for j by (rule r(2)) (use Cons.prems(3) that in auto)
  have later: "\<forall>msg\<in>set msgs. \<exists>j x. j \<in> set (i # is) \<and> j < VCXL_MAX_SUPPORTED_MACHINES \<and>
      msg = failure_message x j (cl_os_gen_ids_snapshot (fd_local fd) ! j) \<and> cl_os_live (fd_local fd) ! j \<and> fd_timeout_times fd ! j \<noteq> 0"
  proof
    fix msg assume "msg \<in> set msgs"
    with m(2) obtain j x where j: "j \<in> set is" "j < VCXL_MAX_SUPPORTED_MACHINES"
      "msg = failure_message x j (cl_os_gen_ids_snapshot (fd_local fd1) ! j)" "cl_os_live (fd_local fd1) ! j" "fd_timeout_times fd1 ! j \<noteq> 0"
      by blast
    with same [OF j(1)] show "\<exists>j x. j \<in> set (i # is) \<and> j < VCXL_MAX_SUPPORTED_MACHINES \<and>
      msg = failure_message x j (cl_os_gen_ids_snapshot (fd_local fd) ! j) \<and> cl_os_live (fd_local fd) ! j \<and> fd_timeout_times fd ! j \<noteq> 0"
      by (intro exI [of _ j] exI [of _ x]) (simp add: same_records_def)
  qed
  from r(4) show ?case
  proof (elim disjE exE conjE)
    assume "fd_sent fd1 = fd_sent fd"
    with m(1) later show ?thesis by auto
  next
    fix x assume x: "fd_sent fd1 = fd_sent fd @ [failure_message x i (cl_os_gen_ids_snapshot (fd_local fd) ! i)]"
      "cl_os_live (fd_local fd) ! i" "fd_timeout_times fd ! i \<noteq> 0"
    show ?thesis
      by (rule exI [of _ "failure_message x i (cl_os_gen_ids_snapshot (fd_local fd) ! i) # msgs"])
        (use x m(1) later r(3) in auto)
  qed
qed

subsection \<open>Properties\<close>



definition ex_detector :: "shared \<Rightarrow> fd_state" where
  "ex_detector sh =
     \<lparr>fd_local = \<lparr>cl_os_gen_ids_snapshot = replicate 16 0, cl_os_heartbeats = replicate 16 0, cl_my_osii = SET_OS_ID 0 1,
        cl_os_live = replicate 16 True\<rparr>,
      fd_timeout_times = replicate 16 0, fd_msg = 0, fd_sent = [], fd_dram = ex_dram, fd_shared = sh\<rparr>"

lemma ex_detector_ok: "fd_ok (ex_detector sh)" "fd_table (ex_detector sh) = sh_cg sh"
  by (simp_all add: fd_ok_def ex_detector_def VCXL_MAX_SUPPORTED_MACHINES_def fd_table_def)



end
