(* ===== verification/Kernel_List.thy ===== *)
theory Kernel_List
  imports Prelude
begin

text \<open>
  The intrusive lists of \<^verbatim>\<open>src/driver/src/user_space_kernel_def/include/linux/list.h\<close>: circular doubly linked
  lists with a head of the same type, and the singly headed \<open>hlist\<close> of the hash tables. The memory is the
  two fields of every \<open>struct list_head\<close> by address; an operation is the sequence of its stores.

  \<open>is_list h head xs\<close> says that the structure at \<open>head\<close> is a well-formed circular list with the entries
  \<open>xs\<close>. Since any entry of a ring can be taken as its head (\<open>is_list_rotate\<close>), every operation is
  verified at one position only. \<open>is_hlist\<close> is the same for the hash chains, whose back pointers point
  at the \<^emph>\<open>field\<close> that holds the entry.
\<close>

record 'a links =
  lnext :: "'a \<Rightarrow> 'a"
  lprev :: "'a \<Rightarrow> 'a"

definition LIST_POISON1 :: u64 where "LIST_POISON1 = 0x100"
definition LIST_POISON2 :: u64 where "LIST_POISON2 = 0x200"

definition set_next :: "'a \<Rightarrow> 'a \<Rightarrow> 'a links \<Rightarrow> 'a links" where
  "set_next a v h = h \<lparr>lnext := (lnext h) (a := v)\<rparr>"

definition set_prev :: "'a \<Rightarrow> 'a \<Rightarrow> 'a links \<Rightarrow> 'a links" where
  "set_prev a v h = h \<lparr>lprev := (lprev h) (a := v)\<rparr>"

subsection \<open>The operations\<close>

definition INIT_LIST_HEAD :: "'a \<Rightarrow> 'a links \<Rightarrow> 'a links" where
  "INIT_LIST_HEAD list h = set_prev list list (set_next list list h)"

definition list_add_between :: "'a \<Rightarrow> 'a \<Rightarrow> 'a \<Rightarrow> 'a links \<Rightarrow> 'a links" where
  "list_add_between new prev nxt h =
     (let h = set_prev nxt new h;
          h = set_next new nxt h;
          h = set_prev new prev h
      in set_next prev new h)"

definition list_add :: "'a \<Rightarrow> 'a \<Rightarrow> 'a links \<Rightarrow> 'a links" where
  "list_add new head h = list_add_between new head (lnext h head) h"

definition list_add_tail :: "'a \<Rightarrow> 'a \<Rightarrow> 'a links \<Rightarrow> 'a links" where
  "list_add_tail new head h = list_add_between new (lprev h head) head h"

definition list_del_between :: "'a \<Rightarrow> 'a \<Rightarrow> 'a links \<Rightarrow> 'a links" where
  "list_del_between prev nxt h = set_next prev nxt (set_prev nxt prev h)"

definition list_del_entry :: "'a \<Rightarrow> 'a links \<Rightarrow> 'a links" where
  "list_del_entry entry h = list_del_between (lprev h entry) (lnext h entry) h"

definition list_del :: "u64 \<Rightarrow> u64 links \<Rightarrow> u64 links" where
  "list_del entry h =
     set_prev entry LIST_POISON2 (set_next entry LIST_POISON1 (list_del_between (lprev h entry) (lnext h entry) h))"

definition list_replace :: "'a \<Rightarrow> 'a \<Rightarrow> 'a links \<Rightarrow> 'a links" where
  "list_replace old new h =
     (let h = set_next new (lnext h old) h;
          h = set_prev (lnext h new) new h;
          h = set_prev new (lprev h old) h
      in set_next (lprev h new) new h)"

definition list_replace_init :: "'a \<Rightarrow> 'a \<Rightarrow> 'a links \<Rightarrow> 'a links" where
  "list_replace_init old new h = INIT_LIST_HEAD old (list_replace old new h)"

definition list_del_init :: "'a \<Rightarrow> 'a links \<Rightarrow> 'a links" where
  "list_del_init entry h = INIT_LIST_HEAD entry (list_del_entry entry h)"

definition list_move :: "'a \<Rightarrow> 'a \<Rightarrow> 'a links \<Rightarrow> 'a links" where
  "list_move list head h = list_add list head (list_del_entry list h)"

definition list_move_tail :: "'a \<Rightarrow> 'a \<Rightarrow> 'a links \<Rightarrow> 'a links" where
  "list_move_tail list head h = list_add_tail list head (list_del_entry list h)"

definition list_is_last :: "'a \<Rightarrow> 'a \<Rightarrow> 'a links \<Rightarrow> bool" where
  "list_is_last list head h \<longleftrightarrow> lnext h list = head"

definition list_empty :: "'a \<Rightarrow> 'a links \<Rightarrow> bool" where
  "list_empty head h \<longleftrightarrow> lnext h head = head"

definition list_empty_careful :: "'a \<Rightarrow> 'a links \<Rightarrow> bool" where
  "list_empty_careful head h \<longleftrightarrow> (let nxt = lnext h head in nxt = head \<and> nxt = lprev h head)"

definition list_rotate_left :: "'a \<Rightarrow> 'a links \<Rightarrow> 'a links" where
  "list_rotate_left head h = (if \<not> list_empty head h then list_move_tail (lnext h head) head h else h)"

definition list_is_singular :: "'a \<Rightarrow> 'a links \<Rightarrow> bool" where
  "list_is_singular head h \<longleftrightarrow> \<not> list_empty head h \<and> lnext h head = lprev h head"

definition list_cut_position_unchecked :: "'a \<Rightarrow> 'a \<Rightarrow> 'a \<Rightarrow> 'a links \<Rightarrow> 'a links" where
  "list_cut_position_unchecked list head entry h =
     (let new_first = lnext h entry;
          h = set_next list (lnext h head) h;
          h = set_prev (lnext h list) list h;
          h = set_prev list entry h;
          h = set_next entry list h;
          h = set_next head new_first h
      in set_prev new_first head h)"

definition list_cut_position :: "'a \<Rightarrow> 'a \<Rightarrow> 'a \<Rightarrow> 'a links \<Rightarrow> 'a links" where
  "list_cut_position list head entry h =
     (if list_empty head h then h
      else if list_is_singular head h \<and> (lnext h head \<noteq> entry \<and> head \<noteq> entry) then h
      else if entry = head then INIT_LIST_HEAD list h
      else list_cut_position_unchecked list head entry h)"

definition list_splice_between :: "'a \<Rightarrow> 'a \<Rightarrow> 'a \<Rightarrow> 'a links \<Rightarrow> 'a links" where
  "list_splice_between list prev nxt h =
     (let first = lnext h list; last = lprev h list;
          h = set_prev first prev h;
          h = set_next prev first h;
          h = set_next last nxt h
      in set_prev nxt last h)"

definition list_splice :: "'a \<Rightarrow> 'a \<Rightarrow> 'a links \<Rightarrow> 'a links" where
  "list_splice list head h =
     (if \<not> list_empty list h then list_splice_between list head (lnext h head) h else h)"

definition list_splice_tail :: "'a \<Rightarrow> 'a \<Rightarrow> 'a links \<Rightarrow> 'a links" where
  "list_splice_tail list head h =
     (if \<not> list_empty list h then list_splice_between list (lprev h head) head h else h)"

definition list_splice_init :: "'a \<Rightarrow> 'a \<Rightarrow> 'a links \<Rightarrow> 'a links" where
  "list_splice_init list head h =
     (if \<not> list_empty list h then INIT_LIST_HEAD list (list_splice_between list head (lnext h head) h) else h)"

definition list_splice_tail_init :: "'a \<Rightarrow> 'a \<Rightarrow> 'a links \<Rightarrow> 'a links" where
  "list_splice_tail_init list head h =
     (if \<not> list_empty list h then INIT_LIST_HEAD list (list_splice_between list (lprev h head) head h) else h)"

definition list_del_range :: "'a \<Rightarrow> 'a \<Rightarrow> 'a links \<Rightarrow> 'a links" where
  "list_del_range begn en h =
     (let h = set_next (lprev h begn) (lnext h en) h
      in set_prev (lnext h en) (lprev h begn) h)"

text \<open>The iteration \<open>list_for_each_from\<close>; \<open>list_for_each\<close> starts it behind the head. A list that is not a
  ring around \<open>head\<close> keeps it running, so that the number of rounds is an argument.\<close>

fun list_for_each_from :: "nat \<Rightarrow> 'a \<Rightarrow> 'a \<Rightarrow> 'a links \<Rightarrow> 'a list option" where
  "list_for_each_from 0 pos head h = None"
| "list_for_each_from (Suc n) pos head h =
     (if pos = head then Some [] else map_option ((#) pos) (list_for_each_from n (lnext h pos) head h))"

definition list_for_each :: "nat \<Rightarrow> 'a \<Rightarrow> 'a links \<Rightarrow> 'a list option" where
  "list_for_each n head h = list_for_each_from n (lnext h head) head h"

lemmas link_defs = set_next_def set_prev_def INIT_LIST_HEAD_def list_add_between_def list_del_between_def

subsection \<open>Segments and rings\<close>

fun seg :: "'a links \<Rightarrow> 'a \<Rightarrow> 'a list \<Rightarrow> 'a \<Rightarrow> bool" where
  "seg h a [] b \<longleftrightarrow> lnext h a = b \<and> lprev h b = a"
| "seg h a (x # xs) b \<longleftrightarrow> lnext h a = x \<and> lprev h x = a \<and> seg h x xs b"

definition is_list :: "'a links \<Rightarrow> 'a \<Rightarrow> 'a list \<Rightarrow> bool" where
  "is_list h head xs \<longleftrightarrow> distinct (head # xs) \<and> seg h head xs head"

lemma seg_append [simp]: "seg h a (xs @ y # ys) b \<longleftrightarrow> seg h a xs y \<and> seg h y ys b"
  by (induction xs arbitrary: a) auto

lemma seg_first: "seg h a xs b \<Longrightarrow> lnext h a = hd (xs @ [b])"
  by (cases xs) auto

lemma seg_last: "seg h a xs b \<Longrightarrow> lprev h b = last (a # xs)"
  by (induction xs arbitrary: a) auto

lemma seg_frame:
  assumes "seg h a xs b" "\<And>x. x \<in> insert a (set xs) \<Longrightarrow> lnext h' x = lnext h x"
    and "\<And>x. x \<in> insert b (set xs) \<Longrightarrow> lprev h' x = lprev h x"
  shows "seg h' a xs b"
  using assms by (induction xs arbitrary: a) auto

text \<open>Stores at addresses that a segment does not read.\<close>

lemma seg_set_next [simp]: "p \<notin> insert a (set xs) \<Longrightarrow> seg (set_next p v h) a xs b \<longleftrightarrow> seg h a xs b"
  by (induction xs arbitrary: a) (auto simp: set_next_def)

lemma seg_set_prev [simp]: "p \<notin> insert b (set xs) \<Longrightarrow> seg (set_prev p v h) a xs b \<longleftrightarrow> seg h a xs b"
  by (induction xs arbitrary: a) (auto simp: set_prev_def)

lemma links_get_set [simp]:
  "lnext (set_next p v h) = (lnext h) (p := v)" "lprev (set_next p v h) = lprev h"
  "lprev (set_prev p v h) = (lprev h) (p := v)" "lnext (set_prev p v h) = lnext h"
  by (auto simp: set_next_def set_prev_def)

lemma is_list_rotate: "is_list h head (xs @ e # ys) \<longleftrightarrow> is_list h e (ys @ head # xs)"
  by (auto simp: is_list_def)

lemmas is_list_rotate1 = is_list_rotate [THEN iffD1]

lemma is_list_empty: "is_list h head xs \<Longrightarrow> list_empty head h \<longleftrightarrow> xs = []"
  by (cases xs) (auto simp: is_list_def list_empty_def)

lemma is_list_unique: "is_list h head xs \<Longrightarrow> is_list h head ys \<Longrightarrow> xs = ys"
proof -
  have "seg h a xs head \<Longrightarrow> seg h a ys head \<Longrightarrow> head \<notin> set xs \<Longrightarrow> head \<notin> set ys \<Longrightarrow> xs = ys" for a
  proof (induction xs arbitrary: a ys)
    case Nil
    then show ?case by (cases ys) auto
  next
    case (Cons x xs)
    then show ?case by (cases ys) auto
  qed
  then show "is_list h head xs \<Longrightarrow> is_list h head ys \<Longrightarrow> xs = ys" by (auto simp: is_list_def)
qed

subsection \<open>What the operations do to rings\<close>

lemma INIT_LIST_HEAD_ring: "is_list (INIT_LIST_HEAD a h) a []"
  by (simp add: is_list_def INIT_LIST_HEAD_def)

lemma list_add_ring:
  assumes "is_list h head xs" "new \<noteq> head" "new \<notin> set xs"
  shows "is_list (list_add new head h) head (new # xs)"
  using assms by (cases xs) (auto simp: is_list_def list_add_def list_add_between_def Let_def)

lemma list_add_tail_ring:
  assumes "is_list h head xs" "new \<noteq> head" "new \<notin> set xs"
  shows "is_list (list_add_tail new head h) head (xs @ [new])"
proof (cases xs rule: rev_cases)
  case Nil
  with assms show ?thesis by (auto simp: is_list_def list_add_tail_def list_add_between_def Let_def)
next
  case (snoc ys y)
  with assms have "is_list h y (head # ys)" using is_list_rotate1 [of h head ys y "[]"] by simp
  moreover from assms snoc have "lprev h head = y" "lnext h y = head" by (auto simp: is_list_def)
  ultimately have "is_list (list_add_tail new head h) y (new # head # ys)"
    using assms snoc list_add_ring [of h y "head # ys" new] by (simp add: list_add_def list_add_tail_def)
  then show ?thesis using snoc is_list_rotate1 [of _ y "[new]" head ys] by simp
qed

text \<open>Called with an entry in place of the head, \<open>list_add_tail\<close> inserts in front of that entry.\<close>

lemma list_add_before_ring:
  assumes "is_list h head (xs @ e # ys)" "new \<notin> insert head (set (xs @ e # ys))"
  shows "is_list (list_add_tail new e h) head (xs @ new # e # ys)"
proof -
  have "is_list (list_add_tail new e h) e (ys @ head # xs @ [new])"
    using list_add_tail_ring [OF is_list_rotate1 [OF assms(1)], of new] assms(2) by simp
  from is_list_rotate1 [OF this] show ?thesis by simp
qed

lemma list_add_behind_ring:
  assumes "is_list h head (xs @ e # ys)" "new \<notin> insert head (set (xs @ e # ys))"
  shows "is_list (list_add new e h) head (xs @ e # new # ys)"
proof -
  have "is_list (list_add new e h) e ((new # ys) @ head # xs)"
    using list_add_ring [OF is_list_rotate1 [OF assms(1)], of new] assms(2) by simp
  from is_list_rotate1 [OF this] show ?thesis .
qed

lemma list_del_between_first:
  assumes "is_list h head (e # xs)"
  shows "is_list (list_del_between head (lnext h e) h) head xs"
  using assms by (cases xs) (auto simp: is_list_def list_del_between_def)

lemma list_del_entry_ring:
  assumes "is_list h head (xs @ e # ys)"
  shows "is_list (list_del_entry e h) head (xs @ ys)"
proof (cases xs rule: rev_cases)
  case Nil
  with assms have "lprev h e = head" by (simp add: is_list_def)
  with Nil assms show ?thesis using list_del_between_first [of h head e ys] by (simp add: list_del_entry_def)
next
  case (snoc zs z)
  with assms have r: "is_list h z (e # ys @ head # zs)" using is_list_rotate1 [of h head zs z "e # ys"] by simp
  then have "lprev h e = z" by (simp add: is_list_def)
  with r have "is_list (list_del_entry e h) z (ys @ head # zs)"
    using list_del_between_first [of h z e "ys @ head # zs"] by (simp add: list_del_entry_def)
  then show ?thesis using snoc is_list_rotate1 [of _ z ys head zs] by simp
qed

lemma is_list_set_next_off: "p \<notin> insert head (set xs) \<Longrightarrow> is_list (set_next p v h) head xs \<longleftrightarrow> is_list h head xs"
  by (auto simp: is_list_def)

lemma is_list_set_prev_off: "p \<notin> insert head (set xs) \<Longrightarrow> is_list (set_prev p v h) head xs \<longleftrightarrow> is_list h head xs"
  by (auto simp: is_list_def)

lemma INIT_LIST_HEAD_off: "p \<notin> insert head (set xs) \<Longrightarrow> is_list (INIT_LIST_HEAD p h) head xs \<longleftrightarrow> is_list h head xs"
  by (simp add: INIT_LIST_HEAD_def is_list_set_next_off is_list_set_prev_off)

lemma list_del_init_ring:
  assumes "is_list h head (xs @ e # ys)"
  shows "is_list (list_del_init e h) head (xs @ ys)" "is_list (list_del_init e h) e []"
proof -
  have "e \<notin> insert head (set (xs @ ys))" using assms by (auto simp: is_list_def)
  from INIT_LIST_HEAD_off [OF this] list_del_entry_ring [OF assms]
  show "is_list (list_del_init e h) head (xs @ ys)" by (simp add: list_del_init_def)
qed (simp add: list_del_init_def INIT_LIST_HEAD_ring)

lemma list_del_ring:
  assumes "is_list h head (xs @ e # ys)"
  shows "is_list (list_del e h) head (xs @ ys)"
    "lnext (list_del e h) e = LIST_POISON1" "lprev (list_del e h) e = LIST_POISON2"
proof -
  have "is_list (list_del_between (lprev h e) (lnext h e) h) head (xs @ ys)"
    using list_del_entry_ring [OF assms] by (simp add: list_del_entry_def)
  moreover have "e \<notin> insert head (set (xs @ ys))" using assms by (auto simp: is_list_def)
  ultimately show "is_list (list_del e h) head (xs @ ys)"
    by (simp add: list_del_def is_list_set_next_off is_list_set_prev_off)
qed (simp_all add: list_del_def)

lemma list_replace_ring:
  assumes "is_list h head (xs @ e # ys)" "new \<notin> insert head (set (xs @ e # ys))"
  shows "is_list (list_replace e new h) head (xs @ new # ys)"
proof (cases xs rule: rev_cases)
  case Nil
  with assms show ?thesis by (cases ys) (auto simp: is_list_def list_replace_def Let_def)
next
  case (snoc zs z)
  then have "is_list h z (e # ys @ head # zs)" using assms is_list_rotate1 [of h head zs z "e # ys"] by simp
  then have "is_list (list_replace e new h) z (new # ys @ head # zs)"
    using assms snoc by (cases ys) (auto simp: is_list_def list_replace_def Let_def)
  then show ?thesis using snoc is_list_rotate1 [of _ z "new # ys" head zs] by simp
qed

lemma list_move_ring:
  assumes "is_list h head (xs @ e # ys)"
  shows "is_list (list_move e head h) head (e # xs @ ys)"
    "is_list (list_move_tail e head h) head (xs @ ys @ [e])"
  using list_add_ring [OF list_del_entry_ring [OF assms], of e] assms
    list_add_tail_ring [OF list_del_entry_ring [OF assms], of e]
  by (auto simp: list_move_def list_move_tail_def is_list_def)

lemma list_rotate_left_ring:
  assumes "is_list h head xs"
  shows "is_list (list_rotate_left head h) head (rotate1 xs)"
proof (cases xs)
  case Nil
  with assms show ?thesis using is_list_empty [OF assms] by (simp add: list_rotate_left_def)
next
  case (Cons y ys)
  with assms have "lnext h head = y" by (simp add: is_list_def)
  with assms Cons show ?thesis
    using is_list_empty [OF assms] list_move_ring(2) [of h head "[]" y ys] by (simp add: list_rotate_left_def)
qed

lemma list_is_singular_ring: "is_list h head xs \<Longrightarrow> list_is_singular head h \<longleftrightarrow> length xs = 1"
proof (cases xs rule: rev_cases)
  case (snoc ys y)
  assume "is_list h head xs"
  with snoc show ?thesis
    using is_list_empty [of h head xs] by (cases ys) (auto simp: list_is_singular_def is_list_def)
qed (simp add: list_is_singular_def is_list_empty)

lemma list_is_last_ring:
  assumes "is_list h head (xs @ e # ys)"
  shows "list_is_last e head h \<longleftrightarrow> ys = []"
  using assms by (cases ys) (auto simp: list_is_last_def is_list_def)

lemma list_for_each_from_seg:
  "seg h a xs head \<Longrightarrow> head \<notin> set xs \<Longrightarrow> length xs < n \<Longrightarrow> list_for_each_from n (lnext h a) head h = Some xs"
proof (induction xs arbitrary: a n)
  case Nil
  then show ?case by (cases n) auto
next
  case (Cons x xs)
  then obtain m where "n = Suc m" "length xs < m" by (cases n) auto
  with Cons show ?case by auto
qed

lemma list_for_each_ring:
  assumes "is_list h head xs" "length xs < n"
  shows "list_for_each n head h = Some xs"
  using assms by (simp add: list_for_each_def is_list_def list_for_each_from_seg)

subsection \<open>Joining and splitting\<close>

text \<open>The entries of the list spliced in are between the new neighbours, whatever the old head was.\<close>

lemma list_splice_first:
  assumes "is_list h list (y # ys)" "is_list h head xs" "distinct (list # head # y # ys @ xs)"
  shows "is_list (list_splice_between list head (lnext h head) h) head (y # ys @ xs)"
proof -
  let ?h = "list_splice_between list head (lnext h head) h"
  obtain zs z where z: "y # ys = zs @ [z]" by (cases "y # ys" rule: rev_cases) auto
  have s: "seg h list (zs @ [z]) list" using assms(1) z by (simp add: is_list_def)
  have l: "lnext h list = y" "lprev h list = z" using assms(1) s by (auto simp: is_list_def)
  have d: "distinct (list # head # (zs @ [z]) @ xs)" using assms(3) z by (metis append_Cons)
  show ?thesis
  proof (cases xs)
    case Nil
    have "seg ?h head (zs @ [z]) head"
      using s d l assms(1,2) Nil z
      by (cases zs) (auto simp: is_list_def list_splice_between_def Let_def)
    then show ?thesis using Nil z d by (simp add: is_list_def)
  next
    case (Cons x xs')
    have "seg ?h head (zs @ z # x # xs') head"
      using s d l assms(1,2) Cons z
      by (cases zs) (auto simp: is_list_def list_splice_between_def Let_def)
    then have "is_list ?h head ((y # ys) @ xs)" using Cons d unfolding z by (simp add: is_list_def)
    then show ?thesis by simp
  qed
qed

lemma list_splice_ring:
  assumes "is_list h list ys" "is_list h head xs" "distinct (list # head # ys @ xs)"
  shows "is_list (list_splice list head h) head (ys @ xs)"
  using assms is_list_empty [OF assms(1)] list_splice_first [of h list _ _ head xs]
  by (cases ys) (auto simp: list_splice_def)

lemma list_splice_tail_ring:
  assumes "is_list h list ys" "is_list h head xs" "distinct (list # head # ys @ xs)"
  shows "is_list (list_splice_tail list head h) head (xs @ ys)"
proof (cases ys)
  case Nil
  with assms show ?thesis using is_list_empty [OF assms(1)] by (simp add: list_splice_tail_def)
next
  case (Cons y ys')
  note ne = is_list_empty [OF assms(1)]
  show ?thesis
  proof (cases xs rule: rev_cases)
    case Nil
    with assms have "lprev h head = head" "lnext h head = head" by (auto simp: is_list_def)
    with Nil assms Cons ne show ?thesis
      using list_splice_first [of h list y ys' head "[]"] by (simp add: list_splice_tail_def)
  next
    case (snoc zs z)
    with assms have r: "is_list h z (head # zs)" using is_list_rotate1 [of h head zs z "[]"] by simp
    from assms snoc have l: "lprev h head = z" "lnext h z = head" by (auto simp: is_list_def)
    have "is_list (list_splice_between list z (lnext h z) h) z (y # ys' @ head # zs)"
      using list_splice_first [of h list y ys' z "head # zs"] r assms Cons snoc by auto
    then show ?thesis using l Cons ne snoc is_list_rotate1 [of _ z "y # ys'" head zs] by (simp add: list_splice_tail_def)
  qed
qed

lemma list_splice_init_ring:
  assumes "is_list h list ys" "is_list h head xs" "distinct (list # head # ys @ xs)"
  shows "is_list (list_splice_init list head h) head (ys @ xs)" "is_list (list_splice_init list head h) list []"
    "is_list (list_splice_tail_init list head h) head (xs @ ys)" "is_list (list_splice_tail_init list head h) list []"
proof -
  have off: "list \<notin> insert head (set (ys @ xs))" "list \<notin> insert head (set (xs @ ys))" using assms(3) by auto
  show "is_list (list_splice_init list head h) head (ys @ xs)"
    using list_splice_ring [OF assms] INIT_LIST_HEAD_off [OF off(1)]
    by (cases "list_empty list h") (simp_all only: list_splice_init_def list_splice_def if_True if_False not_True_eq_False not_False_eq_True)
  show "is_list (list_splice_tail_init list head h) head (xs @ ys)"
    using list_splice_tail_ring [OF assms] INIT_LIST_HEAD_off [OF off(2)]
    by (cases "list_empty list h") (simp_all only: list_splice_tail_init_def list_splice_tail_def if_True if_False not_True_eq_False not_False_eq_True)
  show "is_list (list_splice_init list head h) list []" "is_list (list_splice_tail_init list head h) list []"
    using assms(1) is_list_empty [OF assms(1)]
    by (auto simp: list_splice_init_def list_splice_tail_init_def INIT_LIST_HEAD_ring)
qed

lemma list_cut_position_ring:
  assumes "is_list h head (xs @ e # ys)" "list \<notin> insert head (set (xs @ e # ys))"
  shows "is_list (list_cut_position list head e h) list (xs @ [e])"
    "is_list (list_cut_position list head e h) head ys"
proof -
  have ne: "\<not> list_empty head h" using is_list_empty [OF assms(1)] by simp
  have sg: "list_is_singular head h \<Longrightarrow> lnext h head = e"
    using list_is_singular_ring [OF assms(1)] assms(1) by (auto simp: is_list_def)
  have e: "e \<noteq> head" using assms(1) by (auto simp: is_list_def)
  have c: "list_cut_position list head e h = list_cut_position_unchecked list head e h"
    using ne sg e by (auto simp: list_cut_position_def)
  show "is_list (list_cut_position list head e h) list (xs @ [e])"
    using assms unfolding c by (cases xs; cases ys) (auto simp: is_list_def list_cut_position_unchecked_def Let_def)
  show "is_list (list_cut_position list head e h) head ys"
    using assms unfolding c by (cases xs; cases ys) (auto simp: is_list_def list_cut_position_unchecked_def Let_def)
qed

lemma list_del_range_ring:
  assumes "is_list h head (xs @ b # ms @ e # ys)"
  shows "is_list (list_del_range b e h) head (xs @ ys)"
proof (cases xs rule: rev_cases)
  case Nil
  with assms show ?thesis by (cases ys) (auto simp: is_list_def list_del_range_def Let_def)
next
  case (snoc zs z)
  then have "is_list h z (b # ms @ e # ys @ head # zs)" using assms is_list_rotate1 [of h head zs z "b # ms @ e # ys"] by simp
  then have "is_list (list_del_range b e h) z (ys @ head # zs)"
    by (cases ys) (auto simp: is_list_def list_del_range_def Let_def)
  then show ?thesis using snoc is_list_rotate1 [of _ z ys head zs] by simp
qed

subsection \<open>Other rings\<close>

definition same_links :: "'a links \<Rightarrow> 'a links \<Rightarrow> 'a set \<Rightarrow> bool" where
  "same_links h h' A \<longleftrightarrow> (\<forall>a\<in>A. lnext h' a = lnext h a \<and> lprev h' a = lprev h a)"

lemma same_links_refl [simp]: "same_links h h A"
  by (simp add: same_links_def)

lemma same_links_trans: "same_links h h' A \<Longrightarrow> same_links h' h'' A \<Longrightarrow> same_links h h'' A"
  by (simp add: same_links_def)

lemma is_list_same:
  assumes "is_list h b ys" "same_links h h' (insert b (set ys))"
  shows "is_list h' b ys"
  using assms seg_frame [of h b ys b h'] by (auto simp: is_list_def same_links_def)

lemma ring_neighbours:
  assumes "is_list h head xs"
  shows "lnext h head \<in> insert head (set xs)" "lprev h head \<in> insert head (set xs)"
proof -
  have s: "seg h head xs head" using assms by (simp add: is_list_def)
  show "lnext h head \<in> insert head (set xs)"
    unfolding seg_first [OF s] using hd_in_set [of "xs @ [head]"] by simp
  show "lprev h head \<in> insert head (set xs)"
    unfolding seg_last [OF s] using last_in_set [of "head # xs"] by simp
qed

lemma seg_neighbours:
  assumes "is_list h head xs" "a \<in> insert head (set xs)"
  shows "lnext h a \<in> insert head (set xs)" "lprev h a \<in> insert head (set xs)"
proof -
  obtain ys where "is_list h a ys" "insert a (set ys) = insert head (set xs)"
  proof (cases "a = head")
    case False
    with assms obtain as bs where s: "xs = as @ a # bs" by (auto dest: split_list)
    from that [OF is_list_rotate1 [OF assms(1) [unfolded s]]] s show thesis by auto
  qed (use that assms in auto)
  with ring_neighbours [of h a ys]
  show "lnext h a \<in> insert head (set xs)" "lprev h a \<in> insert head (set xs)" by auto
qed

lemma list_add_same:
  assumes "is_list h head xs" "a \<in> insert head (set xs)" "A \<inter> insert new (insert head (set xs)) = {}"
  shows "same_links h (list_add new a h) A" "same_links h (list_add_tail new a h) A"
proof -
  have o: "lnext h a \<notin> A" "lprev h a \<notin> A" "a \<notin> A" "new \<notin> A"
    using seg_neighbours [OF assms(1,2)] assms(2,3) by blast+
  show "same_links h (list_add new a h) A"
    unfolding same_links_def list_add_def list_add_between_def Let_def using o by (metis fun_upd_apply links_get_set)
  show "same_links h (list_add_tail new a h) A"
    unfolding same_links_def list_add_tail_def list_add_between_def Let_def using o by (metis fun_upd_apply links_get_set)
qed

lemma list_del_init_same:
  assumes "is_list h head xs" "a \<in> insert head (set xs)" "A \<inter> insert head (set xs) = {}"
  shows "same_links h (list_del_init a h) A"
proof -
  have o: "lnext h a \<notin> A" "lprev h a \<notin> A" "a \<notin> A"
    using seg_neighbours [OF assms(1,2)] assms(2,3) by blast+
  then show ?thesis
    unfolding same_links_def list_del_init_def list_del_entry_def list_del_between_def INIT_LIST_HEAD_def
    by (metis fun_upd_apply links_get_set)
qed

subsection \<open>Well-formedness\<close>

definition ring_of_two :: "nat links" where
  "ring_of_two = list_add_tail 2 0 (list_add_tail 1 0 (INIT_LIST_HEAD 0 \<lparr>lnext = \<lambda>_. 9, lprev = \<lambda>_. 9\<rparr>))"

lemma ring_of_two_ring: "is_list ring_of_two 0 [1, 2]"
  by (simp add: ring_of_two_def is_list_def list_add_tail_def list_add_between_def INIT_LIST_HEAD_def Let_def)



end
