(* ===== verification/Plist.thy ===== *)
theory Plist
  imports Kernel_List
begin

text \<open>
  The priority-sorted lists of \<^verbatim>\<open>src/driver/src/plist.c\<close>. A node is on two rings: \<open>node_list\<close> through the
  head, with all nodes in the order of their priorities, and \<open>prio_list\<close> without a head, with the first
  node of every priority. The accessors of \<^verbatim>\<open>linux/plist.h\<close> (\<open>plist_first\<close>, \<open>plist_last\<close>, \<open>plist_next\<close>, the tests for
  emptiness) read these rings. The debugging checks are compiled out and the warnings change nothing.

  The two rings and the priorities are kept together by \<open>plist_ok\<close>. Adding a node puts it behind the nodes
  of the same priority, deleting it hands its place on the \<open>prio_list\<close> to the next node of that priority,
  and requeueing is deleting and adding.
\<close>

record 'a plist =
  node_list :: "'a links"
  prio_list :: "'a links"
  node_prio :: "'a \<Rightarrow> int"

definition plist_head_init :: "'a \<Rightarrow> 'a plist \<Rightarrow> 'a plist" where
  "plist_head_init head p = p \<lparr>node_list := INIT_LIST_HEAD head (node_list p)\<rparr>"

definition plist_node_init :: "'a \<Rightarrow> int \<Rightarrow> 'a plist \<Rightarrow> 'a plist" where
  "plist_node_init node prio p =
     p \<lparr>node_prio := (node_prio p) (node := prio), prio_list := INIT_LIST_HEAD node (prio_list p),
        node_list := INIT_LIST_HEAD node (node_list p)\<rparr>"

definition plist_head_empty :: "'a \<Rightarrow> 'a plist \<Rightarrow> bool" where
  "plist_head_empty head p \<longleftrightarrow> list_empty head (node_list p)"

definition plist_node_empty :: "'a \<Rightarrow> 'a plist \<Rightarrow> bool" where
  "plist_node_empty node p \<longleftrightarrow> list_empty node (node_list p)"

definition plist_first :: "'a \<Rightarrow> 'a plist \<Rightarrow> 'a" where
  "plist_first head p = lnext (node_list p) head"

definition plist_last :: "'a \<Rightarrow> 'a plist \<Rightarrow> 'a" where
  "plist_last head p = lprev (node_list p) head"

definition plist_next :: "'a \<Rightarrow> 'a plist \<Rightarrow> 'a" where
  "plist_next node p = lnext (node_list p) node"

subsection \<open>The operations\<close>

text \<open>The loop of \<open>plist_add\<close>: the result is \<open>iter\<close>, \<open>prev\<close> and \<open>node_next\<close> behind it. A list that is not
  well formed may keep it running; the first argument bounds its rounds.\<close>

fun plist_add_loop :: "nat \<Rightarrow> 'a plist \<Rightarrow> 'a \<Rightarrow> 'a \<Rightarrow> 'a \<Rightarrow> 'a \<Rightarrow> 'a option \<Rightarrow> ('a \<times> 'a option \<times> 'a) option" where
  "plist_add_loop 0 p node head first iter prv = None"
| "plist_add_loop (Suc k) p node head first iter prv =
     (if node_prio p node < node_prio p iter then Some (iter, prv, iter)
      else
        let prv = Some iter; iter = lnext (prio_list p) iter
        in if iter \<noteq> first then plist_add_loop k p node head first iter prv else Some (iter, prv, head))"

definition plist_add :: "nat \<Rightarrow> 'a \<Rightarrow> 'a \<Rightarrow> 'a plist \<Rightarrow> 'a plist option" where
  "plist_add k node head p =
     (if plist_head_empty head p then Some (p \<lparr>node_list := list_add_tail node head (node_list p)\<rparr>)
      else
        let first = plist_first head p
        in case plist_add_loop k p node head first first None of
             None \<Rightarrow> None
           | Some (iter, prv, node_next) \<Rightarrow>
               let p = (if prv = None \<or> node_prio p (the prv) \<noteq> node_prio p node
                        then p \<lparr>prio_list := list_add_tail node iter (prio_list p)\<rparr> else p)
               in Some (p \<lparr>node_list := list_add_tail node node_next (node_list p)\<rparr>))"

definition plist_del :: "'a \<Rightarrow> 'a \<Rightarrow> 'a plist \<Rightarrow> 'a plist" where
  "plist_del node head p =
     (let p = (if \<not> list_empty node (prio_list p) then
                 let nxt = lnext (node_list p) node;
                     p = (if nxt \<noteq> head \<and> list_empty nxt (prio_list p)
                          then p \<lparr>prio_list := list_add nxt node (prio_list p)\<rparr> else p)
                 in p \<lparr>prio_list := list_del_init node (prio_list p)\<rparr>
               else p)
      in p \<lparr>node_list := list_del_init node (node_list p)\<rparr>)"

fun plist_requeue_loop :: "nat \<Rightarrow> 'a plist \<Rightarrow> 'a \<Rightarrow> 'a \<Rightarrow> 'a \<Rightarrow> 'a option" where
  "plist_requeue_loop 0 p node head iter = None"
| "plist_requeue_loop (Suc k) p node head iter =
     (if iter = head then Some head
      else if node_prio p node \<noteq> node_prio p iter then Some iter
      else plist_requeue_loop k p node head (plist_next iter p))"

text \<open>\<open>None\<close> where the code stops at a \<open>BUG_ON\<close> or the loop does not end within \<open>k\<close> rounds.\<close>

definition plist_requeue :: "nat \<Rightarrow> 'a \<Rightarrow> 'a \<Rightarrow> 'a plist \<Rightarrow> 'a plist option" where
  "plist_requeue k node head p =
     (if plist_head_empty head p \<or> plist_node_empty node p then None
      else if node = plist_last head p then Some p
      else
        let iter = plist_next node p
        in if node_prio p node \<noteq> node_prio p iter then Some p
           else
             let p = plist_del node head p
             in map_option (\<lambda>node_next. p \<lparr>node_list := list_add_tail node node_next (node_list p)\<rparr>)
                  (plist_requeue_loop k p node head (plist_next iter p)))"

subsection \<open>Contents\<close>

text \<open>The first node of every priority.\<close>

function leaders :: "('a \<Rightarrow> int) \<Rightarrow> 'a list \<Rightarrow> 'a list" where
  "leaders f [] = []"
| "leaders f (x # xs) = x # leaders f (dropWhile (\<lambda>y. f y = f x) xs)"
  by pat_completeness auto
termination by (relation "measure (\<lambda>(f, xs). length xs)") (auto simp: le_imp_less_Suc length_dropWhile_le)

definition prio_ring :: "'a links \<Rightarrow> 'a list \<Rightarrow> bool" where
  "prio_ring P ls \<longleftrightarrow> (case ls of [] \<Rightarrow> True | l # ls' \<Rightarrow> is_list P l ls')"

definition plist_ok :: "'a plist \<Rightarrow> 'a \<Rightarrow> 'a list \<Rightarrow> bool" where
  "plist_ok p head xs \<longleftrightarrow> is_list (node_list p) head xs \<and> sorted (map (node_prio p) xs) \<and>
     prio_ring (prio_list p) (leaders (node_prio p) xs) \<and>
     (\<forall>x\<in>set xs. x \<notin> set (leaders (node_prio p) xs) \<longrightarrow> is_list (prio_list p) x [])"

text \<open>A node that is on no list: both its rings are the node alone.\<close>

definition plist_free :: "'a plist \<Rightarrow> 'a \<Rightarrow> bool" where
  "plist_free p n \<longleftrightarrow> is_list (node_list p) n [] \<and> is_list (prio_list p) n []"

definition prio_insert :: "('a \<Rightarrow> int) \<Rightarrow> 'a \<Rightarrow> 'a list \<Rightarrow> 'a list" where
  "prio_insert f n xs = takeWhile (\<lambda>x. f x \<le> f n) xs @ n # dropWhile (\<lambda>x. f x \<le> f n) xs"

lemma leaders_subset: "set (leaders f xs) \<subseteq> set xs"
  by (induction f xs rule: leaders.induct) (auto dest: set_dropWhileD)

lemma leaders_Nil [simp]: "leaders f xs = [] \<longleftrightarrow> xs = []"
  by (cases xs) auto

lemma leaders_append:
  assumes "\<forall>a\<in>set xs. \<forall>b\<in>set ys. f a \<noteq> f b"
  shows "leaders f (xs @ ys) = leaders f xs @ leaders f ys"
  using assms
proof (induction f xs rule: leaders.induct)
  case (2 f x xs)
  have d: "dropWhile (\<lambda>y. f y = f x) (xs @ ys) = dropWhile (\<lambda>y. f y = f x) xs @ ys"
  proof (cases "\<forall>y\<in>set xs. f y = f x")
    case True
    then have "dropWhile (\<lambda>y. f y = f x) (xs @ ys) = dropWhile (\<lambda>y. f y = f x) ys"
      by (simp add: dropWhile_append2)
    also have "\<dots> = ys" using 2(2) by (cases ys) auto
    finally show ?thesis using True by (simp add: dropWhile_eq_Nil_conv)
  qed (auto simp: dropWhile_append1)
  have "\<forall>a\<in>set (dropWhile (\<lambda>y. f y = f x) xs). \<forall>b\<in>set ys. f a \<noteq> f b"
    using 2(2) by (auto dest: set_dropWhileD)
  from 2(1) [OF this] show ?case by (simp only: append_Cons leaders.simps d)
qed simp

lemma leaders_group: "\<forall>y\<in>set xs. f y = c \<Longrightarrow> leaders f xs = take 1 xs"
  by (cases xs) (auto simp: dropWhile_eq_Nil_conv)

lemma leaders_hd: "xs \<noteq> [] \<Longrightarrow> hd (leaders f xs) = hd xs"
  by (cases xs) auto

lemma leaders_distinct: "distinct xs \<Longrightarrow> distinct (leaders f xs)"
proof (induction f xs rule: leaders.induct)
  case (2 f x xs)
  then show ?case using leaders_subset [of f "dropWhile (\<lambda>y. f y = f x) xs"] by (auto dest: set_dropWhileD)
qed simp

lemma leaders_last_prio: "xs \<noteq> [] \<Longrightarrow> f (last (leaders f xs)) = f (last xs)"
proof (induction f xs rule: leaders.induct)
  case (2 f x xs)
  show ?case
  proof (cases "dropWhile (\<lambda>y. f y = f x) xs = []")
    case True
    then have "\<forall>y\<in>set xs. f y = f x" by (simp add: dropWhile_eq_Nil_conv)
    with True show ?thesis using last_in_set [of xs] by auto
  next
    case False
    then have "last (dropWhile (\<lambda>y. f y = f x) xs) = last xs" "xs \<noteq> []"
      by (metis last_appendR takeWhile_dropWhile_id) (use False in auto)
    with False 2 show ?thesis by simp
  qed
qed simp

text \<open>Where a new node of priority \<open>q\<close> goes in a sorted list.\<close>

lemma sorted_above:
  assumes "sorted (map f xs)" "y \<in> set (dropWhile (\<lambda>x. f x \<le> q) xs)"
  shows "q < (f y :: int)"
  using assms
proof (induction xs)
  case (Cons x xs)
  show ?case
  proof (cases "f x \<le> q")
    case False
    with Cons.prems have "f x \<le> f y" by auto
    with False show ?thesis by simp
  qed (use Cons in auto)
qed simp

lemma takeWhile_below: "x \<in> set (takeWhile (\<lambda>x. f x \<le> q) xs) \<Longrightarrow> f x \<le> (q :: int)"
  by (auto dest: set_takeWhileD)

lemma leaders_split:
  assumes "sorted (map f xs)"
  shows "leaders f xs = leaders f (takeWhile (\<lambda>x. f x \<le> q) xs) @ leaders f (dropWhile (\<lambda>x. f x \<le> q) xs)"
proof -
  have "leaders f (takeWhile (\<lambda>x. f x \<le> q) xs @ dropWhile (\<lambda>x. f x \<le> q) xs) =
    leaders f (takeWhile (\<lambda>x. f x \<le> q) xs) @ leaders f (dropWhile (\<lambda>x. f x \<le> q) xs)"
  proof (rule leaders_append, intro ballI)
    fix a b assume "a \<in> set (takeWhile (\<lambda>x. f x \<le> q) xs)" "b \<in> set (dropWhile (\<lambda>x. f x \<le> q) xs)"
    then show "f a \<noteq> f b" using takeWhile_below [of a f q xs] sorted_above [OF assms, of b q] by linarith
  qed
  then show ?thesis by simp
qed

lemma leaders_while:
  assumes "sorted (map f xs)"
  shows "takeWhile (\<lambda>x. f x \<le> q) (leaders f xs) = leaders f (takeWhile (\<lambda>x. f x \<le> q) xs)"
    "dropWhile (\<lambda>x. f x \<le> q) (leaders f xs) = leaders f (dropWhile (\<lambda>x. f x \<le> q) xs)"
proof -
  let ?A = "leaders f (takeWhile (\<lambda>x. f x \<le> q) xs)" and ?B = "leaders f (dropWhile (\<lambda>x. f x \<le> q) xs)"
  have a: "\<forall>x\<in>set ?A. f x \<le> q"
    using leaders_subset [of f "takeWhile (\<lambda>x. f x \<le> q) xs"] takeWhile_below [of _ f q xs] by blast
  have "\<forall>x\<in>set ?B. \<not> f x \<le> q"
    using leaders_subset [of f "dropWhile (\<lambda>x. f x \<le> q) xs"] sorted_above [OF assms] by fastforce
  then have "?B = [] \<or> \<not> f (hd ?B) \<le> q" using hd_in_set [of ?B] by blast
  then have b: "takeWhile (\<lambda>x. f x \<le> q) ?B = []" "dropWhile (\<lambda>x. f x \<le> q) ?B = ?B"
    by (simp_all only: takeWhile_eq_Nil_iff dropWhile_eq_self_iff)
  show "takeWhile (\<lambda>x. f x \<le> q) (leaders f xs) = ?A"
    using a b(1) by (simp add: leaders_split [OF assms, of q] takeWhile_append2)
  show "dropWhile (\<lambda>x. f x \<le> q) (leaders f xs) = ?B"
    using a b(2) by (simp add: leaders_split [OF assms, of q] dropWhile_append2)
qed

text \<open>Appending a node behind a sorted list without larger priorities.\<close>

lemma leaders_snoc:
  assumes "sorted (map f xs)" "\<forall>x\<in>set xs. f x \<le> f n"
  shows "leaders f (xs @ [n]) = leaders f xs @ (if xs \<noteq> [] \<and> f (last xs) = f n then [] else [n])"
proof (cases "xs \<noteq> [] \<and> f (last xs) = f n")
  case True
  let ?l = "takeWhile (\<lambda>x. f x \<le> f n - 1) xs" and ?e = "dropWhile (\<lambda>x. f x \<le> f n - 1) xs"
  have e: "f y = f n" if "y \<in> set ?e" for y
    using sorted_above [OF assms(1), of y "f n - 1"] set_dropWhileD [OF that] assms(2) that by force
  have l: "f y < f n" if "y \<in> set ?l" for y using takeWhile_below [OF that] by simp
  have "?e \<noteq> []" using True last_in_set [of xs] by (auto simp: dropWhile_eq_Nil_conv intro!: bexI [of _ "last xs"])
  have "take 1 (?e @ [n]) = take 1 ?e" using \<open>?e \<noteq> []\<close> by (cases ?e) simp_all
  moreover have "leaders f (?e @ [n]) = take 1 (?e @ [n])"
    by (rule leaders_group [of _ _ "f n"], rule ballI) (metis e Un_iff empty_iff empty_set set_ConsD set_append)
  moreover have "leaders f ?e = take 1 ?e" by (rule leaders_group [of _ _ "f n"]) (use e in blast)
  ultimately have g: "leaders f (?e @ [n]) = leaders f ?e" by (simp only:)
  have "leaders f (?l @ ?e @ [n]) = leaders f ?l @ leaders f (?e @ [n])"
  proof (rule leaders_append, intro ballI)
    fix a b assume "a \<in> set ?l" "b \<in> set (?e @ [n])"
    then have "f a < f n" "f b = f n" using l [of a] e [of b] by (simp, metis Un_iff empty_iff empty_set set_ConsD set_append)
    then show "f a \<noteq> f b" by simp
  qed
  also note g
  also have "leaders f ?l @ leaders f ?e = leaders f xs"
    by (simp add: leaders_split [OF assms(1), of "f n - 1"])
  finally have "leaders f ((?l @ ?e) @ [n]) = leaders f xs" by (simp only: append_assoc)
  then show ?thesis using True by simp
next
  case False
  have ne: "\<forall>x\<in>set xs. f x \<noteq> f n"
  proof
    fix x assume x: "x \<in> set xs"
    then have "f x \<le> f (last xs)"
      using assms(1) by (cases xs rule: rev_cases) (auto simp: sorted_append)
    moreover have "f (last xs) \<le> f n" using assms(2) x last_in_set [of xs] by (cases xs) simp_all
    moreover have "f (last xs) \<noteq> f n" using False x by auto
    ultimately show "f x \<noteq> f n" by simp
  qed
  have "leaders f (xs @ [n]) = leaders f xs @ leaders f [n]" by (rule leaders_append) (use ne in simp)
  then show ?thesis using False by auto
qed

lemma leaders_prio_insert:
  assumes "sorted (map f xs)"
  shows "leaders f (prio_insert f n xs) =
    leaders f (takeWhile (\<lambda>x. f x \<le> f n) xs @ [n]) @ leaders f (dropWhile (\<lambda>x. f x \<le> f n) xs)"
proof -
  have "leaders f ((takeWhile (\<lambda>x. f x \<le> f n) xs @ [n]) @ dropWhile (\<lambda>x. f x \<le> f n) xs) =
    leaders f (takeWhile (\<lambda>x. f x \<le> f n) xs @ [n]) @ leaders f (dropWhile (\<lambda>x. f x \<le> f n) xs)"
  proof (rule leaders_append, intro ballI)
    fix a b assume "a \<in> set (takeWhile (\<lambda>x. f x \<le> f n) xs @ [n])" "b \<in> set (dropWhile (\<lambda>x. f x \<le> f n) xs)"
    then show "f a \<noteq> f b" using takeWhile_below [of a f "f n" xs] sorted_above [OF assms, of b "f n"] by auto
  qed
  then show ?thesis by (simp add: prio_insert_def)
qed

lemma leaders_insert:
  assumes "sorted (map f xs)" "A = takeWhile (\<lambda>x. f x \<le> f n) xs" "B = dropWhile (\<lambda>x. f x \<le> f n) xs"
  shows "leaders f (prio_insert f n xs) = leaders f A @ (if A \<noteq> [] \<and> f (last A) = f n then [] else [n]) @ leaders f B"
proof -
  have sA: "sorted (map f A)" using assms(1) unfolding assms(2)
    by (metis map_append sorted_append takeWhile_dropWhile_id)
  have bA: "\<forall>x\<in>set A. f x \<le> f n" unfolding assms(2) by (auto dest: set_takeWhileD)
  show ?thesis
    using leaders_prio_insert [OF assms(1), of n] unfolding assms(2,3) [symmetric] leaders_snoc [OF sA bA] by simp
qed

lemma prio_insert_sorted: "sorted (map f xs) \<Longrightarrow> sorted (map f (prio_insert f n xs))"
proof -
  assume s: "sorted (map f xs)"
  have "sorted (map f (takeWhile (\<lambda>x. f x \<le> f n) xs @ dropWhile (\<lambda>x. f x \<le> f n) xs))" using s by simp
  then have "sorted (map f (takeWhile (\<lambda>x. f x \<le> f n) xs))" "sorted (map f (dropWhile (\<lambda>x. f x \<le> f n) xs))"
    by (auto simp only: map_append sorted_append)
  then show ?thesis
    using sorted_above [OF s, of _ "f n"] takeWhile_below [of _ f "f n" xs]
    by (auto simp: prio_insert_def sorted_append less_imp_le) (meson order.trans less_imp_le)
qed

lemma set_prio_insert [simp]: "set (prio_insert f n xs) = insert n (set xs)"
proof -
  have "set (takeWhile (\<lambda>x. f x \<le> f n) xs) \<union> set (dropWhile (\<lambda>x. f x \<le> f n) xs) = set xs"
    by (metis set_append takeWhile_dropWhile_id)
  then show ?thesis by (auto simp: prio_insert_def)
qed

subsection \<open>The ring of the priorities\<close>

lemma prio_ring_insert:
  assumes "prio_ring P (as @ y # bs)" "n \<notin> set (as @ y # bs)"
  shows "prio_ring (list_add_tail n y P) (as @ n # y # bs)"
proof (cases as)
  case Nil
  with assms have "is_list (list_add_tail n y P) y (bs @ [n])" by (simp add: prio_ring_def list_add_tail_ring)
  from is_list_rotate1 [OF this] show ?thesis using Nil by (simp add: prio_ring_def)
next
  case (Cons l as')
  with assms show ?thesis using list_add_before_ring [of P l as' y bs n] by (simp add: prio_ring_def)
qed

lemma prio_ring_snoc:
  assumes "prio_ring P (l # ls)" "n \<notin> set (l # ls)"
  shows "prio_ring (list_add_tail n l P) (l # ls @ [n])"
  using assms by (simp add: prio_ring_def list_add_tail_ring)

lemma prio_ring_as_list:
  assumes "prio_ring P ls" "a \<in> set ls"
  obtains as bs where "ls = as @ a # bs" "is_list P a (bs @ as)"
proof -
  obtain as bs where s: "ls = as @ a # bs" using assms(2) by (auto dest: split_list)
  have "is_list P a (bs @ as)"
  proof (cases as)
    case (Cons l as')
    with assms(1) s have "is_list P l (as' @ a # bs)" by (simp add: prio_ring_def)
    from is_list_rotate1 [OF this] Cons show ?thesis by simp
  qed (use assms(1) s in \<open>simp add: prio_ring_def\<close>)
  with s that show ?thesis by blast
qed

lemma prio_ring_same:
  assumes "prio_ring P ls" "a \<in> set ls" "A \<inter> set ls = {}"
  shows "n \<notin> A \<Longrightarrow> same_links P (list_add_tail n a P) A" "n \<notin> A \<Longrightarrow> same_links P (list_add n a P) A"
    "same_links P (list_del_init a P) A"
proof -
  obtain as bs where r: "ls = as @ a # bs" "is_list P a (bs @ as)" using assms(1,2) by (rule prio_ring_as_list)
  have d: "A \<inter> insert a (set (bs @ as)) = {}" using assms(3) r(1) by auto
  then have d': "n \<notin> A \<Longrightarrow> A \<inter> insert n (insert a (set (bs @ as))) = {}" by blast
  show "n \<notin> A \<Longrightarrow> same_links P (list_add_tail n a P) A" "n \<notin> A \<Longrightarrow> same_links P (list_add n a P) A"
    by (rule list_add_same [OF r(2) insertI1 d'], simp)+
  show "same_links P (list_del_init a P) A" by (rule list_del_init_same [OF r(2) insertI1 d])
qed

subsection \<open>Adding a node\<close>

text \<open>What lies outside a list is left alone.\<close>

definition plist_same :: "'a plist \<Rightarrow> 'a plist \<Rightarrow> 'a set \<Rightarrow> bool" where
  "plist_same p p' A \<longleftrightarrow> same_links (node_list p) (node_list p') A \<and> same_links (prio_list p) (prio_list p') A \<and>
     node_prio p' = node_prio p"

lemma plist_same_ok:
  assumes "plist_ok p head xs" "plist_same p p' (insert head (set xs))"
  shows "plist_ok p' head xs"
proof -
  let ?ls = "leaders (node_prio p) xs"
  note sub = leaders_subset [of "node_prio p" xs]
  have "prio_ring (prio_list p') ?ls"
  proof (cases ?ls)
    case (Cons l ls)
    with assms(1) have "is_list (prio_list p) l ls" by (simp add: plist_ok_def prio_ring_def)
    then have "is_list (prio_list p') l ls"
      by (rule is_list_same) (use assms(2) sub Cons in \<open>auto simp: plist_same_def same_links_def\<close>)
    with Cons show ?thesis by (simp add: prio_ring_def)
  qed (simp add: prio_ring_def)
  moreover have "is_list (node_list p') head xs"
    by (rule is_list_same) (use assms in \<open>auto simp: plist_ok_def plist_same_def\<close>)
  moreover have "is_list (prio_list p') x []" if "x \<in> set xs" "x \<notin> set ?ls" for x
    by (rule is_list_same [of "prio_list p"]) (use assms that in \<open>auto simp: plist_ok_def plist_same_def same_links_def\<close>)
  ultimately show ?thesis using assms by (simp add: plist_ok_def plist_same_def)
qed

lemma plist_same_free: "plist_free p n \<Longrightarrow> plist_same p p' {n} \<Longrightarrow> plist_free p' n"
  by (auto simp: plist_free_def plist_same_def intro: is_list_same)

lemma add_loop_ring:
  assumes "seg (prio_list p) it ms first" "first \<notin> set ms" "length ms < k" "it # ms = as @ bs"
    "\<forall>a\<in>set as. node_prio p a \<le> node_prio p n" "\<forall>b\<in>set bs. node_prio p n < node_prio p b"
  shows "plist_add_loop k p n head first it prv =
    Some (case bs of [] \<Rightarrow> (first, Some (last as), head) | y # _ \<Rightarrow> (y, if as = [] then prv else Some (last as), y))"
  using assms
proof (induction ms arbitrary: it prv k as)
  case Nil
  then obtain j where "k = Suc j" by (cases k) auto
  with Nil show ?case by (cases as) (auto simp: Let_def)
next
  case (Cons m ms)
  then obtain j where j: "k = Suc j" "length ms < j" by (cases k) auto
  show ?case
  proof (cases as)
    case Nil
    with Cons.prems(4,6) j(1) show ?thesis by (cases bs) auto
  next
    case Cons': (Cons a as')
    with Cons.prems have p: "lnext (prio_list p) it = m" "m \<noteq> first" "seg (prio_list p) m ms first" "first \<notin> set ms"
      "m # ms = as' @ bs" "\<forall>a\<in>set as'. node_prio p a \<le> node_prio p n" "a = it" "node_prio p it \<le> node_prio p n" by auto
    have e: "plist_add_loop k p n head first it prv = plist_add_loop j p n head first m (Some it)"
      using p j(1) by (simp add: Let_def)
    show ?thesis
      using Cons.IH [OF p(3,4) j(2) p(5,6) Cons.prems(6), of "Some it"] p(5,7) Cons'
      unfolding e by (cases bs) auto
  qed
qed

lemma plist_add_empty:
  assumes "plist_ok p head []" "plist_free p n" "n \<noteq> head"
  shows "\<exists>p'. plist_add k n head p = Some p' \<and> plist_ok p' head [n]"
proof -
  have l: "is_list (node_list p) head []" using assms(1) by (simp add: plist_ok_def)
  then have "plist_head_empty head p" using is_list_empty [OF l] by (simp add: plist_head_empty_def)
  with list_add_tail_ring [OF l assms(3)] assms(2) show ?thesis
    by (simp add: plist_add_def plist_ok_def plist_free_def prio_ring_def)
qed

lemma plist_add_node_list:
  assumes "is_list N head xs" "n \<notin> insert head (set xs)"
    "node_next = (case dropWhile Q xs of [] \<Rightarrow> head | y # _ \<Rightarrow> y)"
  shows "is_list (list_add_tail n node_next N) head (takeWhile Q xs @ n # dropWhile Q xs)"
proof (cases "dropWhile Q xs")
  case Nil
  then have "takeWhile Q xs = xs" using takeWhile_dropWhile_id [of Q xs] by simp
  then show ?thesis
    using list_add_tail_ring [OF assms(1), of n] assms(2,3) Nil by (simp del: dropWhile_eq_Nil_conv takeWhile_eq_all_conv)
next
  case (Cons y ys)
  then have "xs = takeWhile Q xs @ y # ys" by (metis takeWhile_dropWhile_id)
  with assms Cons list_add_before_ring [of N head "takeWhile Q xs" y ys n] show ?thesis by simp
qed

lemma plist_add_prio_list:
  assumes "plist_ok p head xs" "xs \<noteq> []" "plist_free p n" "n \<notin> insert head (set xs)"
    and A: "A = takeWhile (\<lambda>x. node_prio p x \<le> node_prio p n) xs"
    and B: "B = dropWhile (\<lambda>x. node_prio p x \<le> node_prio p n) xs"
    and iter: "iter = (case B of [] \<Rightarrow> hd xs | y # _ \<Rightarrow> y)"
    and P': "P' = (if A = [] \<or> node_prio p (last A) \<noteq> node_prio p n then list_add_tail n iter (prio_list p) else prio_list p)"
  shows "prio_ring P' (leaders (node_prio p) (prio_insert (node_prio p) n xs))"
    "same_links (prio_list p) P' (- insert n (set (leaders (node_prio p) xs)))"
    "n \<notin> set (leaders (node_prio p) (prio_insert (node_prio p) n xs)) \<longrightarrow> P' = prio_list p"
proof -
  let ?f = "node_prio p"
  have s: "sorted (map ?f xs)" and r: "prio_ring (prio_list p) (leaders ?f xs)" using assms(1) by (auto simp: plist_ok_def)
  have ls: "leaders ?f xs = leaders ?f A @ leaders ?f B" unfolding A B by (rule leaders_split [OF s])
  note li = leaders_insert [OF s A B]
  have nl: "n \<notin> set (leaders ?f xs)" using assms(4) leaders_subset [of ?f xs] by auto
  have it: "iter \<in> set (leaders ?f xs)"
  proof (cases B)
    case Nil
    then show ?thesis using iter leaders_hd [OF assms(2), of ?f] hd_in_set [of "leaders ?f xs"] assms(2) by simp
  next
    case (Cons y ys)
    then show ?thesis using iter ls by simp
  qed
  show "prio_ring P' (leaders ?f (prio_insert ?f n xs))"
  proof (cases "A \<noteq> [] \<and> ?f (last A) = ?f n")
    case True
    with li ls r P' show ?thesis by auto
  next
    case False
    show ?thesis
    proof (cases B)
      case Nil
      obtain l ls' where l: "leaders ?f xs = l # ls'" "l = hd xs"
        using assms(2) leaders_hd [OF assms(2), of ?f] by (cases "leaders ?f xs") auto
      have "prio_ring (list_add_tail n l (prio_list p)) (l # ls' @ [n])"
        using prio_ring_snoc [of "prio_list p" l ls' n] r nl l by simp
      then show ?thesis using False Nil iter P' li l ls by auto
    next
      case (Cons y ys)
      then obtain bs where bs: "leaders ?f B = y # bs" by simp
      have "prio_ring (list_add_tail n y (prio_list p)) (leaders ?f A @ n # y # bs)"
        by (rule prio_ring_insert) (use r nl ls bs in auto)
      then show ?thesis using False Cons iter P' li bs by auto
    qed
  qed
  show "same_links (prio_list p) P' (- insert n (set (leaders ?f xs)))"
    using prio_ring_same(1) [OF r it, of "- insert n (set (leaders ?f xs))" n] unfolding P' by auto
  show "n \<notin> set (leaders ?f (prio_insert ?f n xs)) \<longrightarrow> P' = prio_list p" using li P' by auto
qed

lemma leaders_length: "length (leaders f xs) \<le> length xs"
proof (induction f xs rule: leaders.induct)
  case (2 f x xs)
  then show ?case using length_dropWhile_le [of "\<lambda>y. f y = f x" xs] by simp
qed simp

lemma plist_add_eval:
  assumes "plist_ok p head xs" "xs \<noteq> []" "length xs \<le> k"
    and A: "A = takeWhile (\<lambda>x. node_prio p x \<le> node_prio p n) xs"
    and B: "B = dropWhile (\<lambda>x. node_prio p x \<le> node_prio p n) xs"
  shows "plist_add k n head p = Some (p
    \<lparr>prio_list := (if A = [] \<or> node_prio p (last A) \<noteq> node_prio p n
       then list_add_tail n (case B of [] \<Rightarrow> hd xs | y # _ \<Rightarrow> y) (prio_list p) else prio_list p),
     node_list := list_add_tail n (case B of [] \<Rightarrow> head | y # _ \<Rightarrow> y) (node_list p)\<rparr>)"
proof -
  let ?f = "node_prio p"
  have s: "sorted (map ?f xs)" and l: "is_list (node_list p) head xs" using assms(1) by (auto simp: plist_ok_def)
  have ne: "\<not> plist_head_empty head p" using is_list_empty [OF l] assms(2) by (simp add: plist_head_empty_def)
  have fst: "plist_first head p = hd xs"
    using seg_first [of "node_list p" head xs head] l assms(2) by (simp add: plist_first_def is_list_def)
  obtain ms where ms: "leaders ?f xs = hd xs # ms"
    using assms(2) leaders_hd [OF assms(2), of ?f] by (cases "leaders ?f xs") auto
  have ring: "seg (prio_list p) (hd xs) ms (hd xs)" "hd xs \<notin> set ms"
    using assms(1) ms by (auto simp: plist_ok_def prio_ring_def is_list_def)
  have len: "length ms < k" using leaders_length [of ?f xs] ms assms(3) by simp
  have split: "hd xs # ms = leaders ?f A @ leaders ?f B" using leaders_split [OF s] ms unfolding A B by simp
  have below: "\<forall>a\<in>set (leaders ?f A). ?f a \<le> ?f n"
    using leaders_subset [of ?f A] takeWhile_below [of _ ?f "?f n" xs] unfolding A by blast
  have above: "\<forall>b\<in>set (leaders ?f B). ?f n < ?f b"
    using leaders_subset [of ?f B] sorted_above [OF s, of _ "?f n"] unfolding B by blast
  have loop: "plist_add_loop k p n head (hd xs) (hd xs) None =
    Some (case leaders ?f B of [] \<Rightarrow> (hd xs, Some (last (leaders ?f A)), head)
      | y # _ \<Rightarrow> (y, if leaders ?f A = [] then None else Some (last (leaders ?f A)), y))"
    by (rule add_loop_ring [OF ring len split below above])
  have lst: "A \<noteq> [] \<Longrightarrow> ?f (last (leaders ?f A)) = ?f (last A)" by (rule leaders_last_prio)
  show ?thesis
  proof (cases B)
    case Nil
    then have "A = xs" using A B takeWhile_dropWhile_id [of "\<lambda>x. ?f x \<le> ?f n" xs] by simp
    then show ?thesis
      using ne fst loop lst Nil assms(2) by (auto simp: plist_add_def Let_def)
  next
    case (Cons y ys)
    then show ?thesis using ne fst loop lst by (auto simp: plist_add_def Let_def)
  qed
qed

lemma plist_add_contents:
  assumes "plist_ok p head xs" "plist_free p n" "n \<notin> insert head (set xs)" "length xs \<le> k"
  shows "\<exists>p'. plist_add k n head p = Some p' \<and> plist_ok p' head (prio_insert (node_prio p) n xs) \<and>
    plist_same p p' (- insert n (insert head (set xs)))"
proof (cases "xs = []")
  case True
  have l: "is_list (node_list p) head []" using assms(1) True by (simp add: plist_ok_def)
  then have "plist_head_empty head p" using is_list_empty [OF l] by (simp add: plist_head_empty_def)
  moreover have "same_links (node_list p) (list_add_tail n head (node_list p)) (- {n, head})"
    by (rule list_add_same(2) [OF l]) auto
  ultimately show ?thesis
    using plist_add_empty [of p head n k] assms True
    by (auto simp: prio_insert_def plist_add_def plist_same_def)
next
  case False
  let ?f = "node_prio p"
  define A where "A = takeWhile (\<lambda>x. ?f x \<le> ?f n) xs"
  define B where "B = dropWhile (\<lambda>x. ?f x \<le> ?f n) xs"
  define P' where "P' = (if A = [] \<or> ?f (last A) \<noteq> ?f n
    then list_add_tail n (case B of [] \<Rightarrow> hd xs | y # _ \<Rightarrow> y) (prio_list p) else prio_list p)"
  define N' where "N' = list_add_tail n (case B of [] \<Rightarrow> head | y # _ \<Rightarrow> y) (node_list p)"
  note pr = plist_add_prio_list [OF assms(1) False assms(2,3) A_def B_def refl P'_def]
  have l: "is_list (node_list p) head xs" and s: "sorted (map ?f xs)" using assms(1) by (auto simp: plist_ok_def)
  have e: "plist_add k n head p = Some (p \<lparr>prio_list := P', node_list := N'\<rparr>)"
    unfolding P'_def N'_def by (rule plist_add_eval [OF assms(1) False assms(4) A_def B_def])
  have nx: "(case B of [] \<Rightarrow> head | y # _ \<Rightarrow> y) \<in> insert head (set xs)"
    using set_dropWhileD [of _ "\<lambda>x. ?f x \<le> ?f n" xs] unfolding B_def by (auto split: list.splits)
  have n: "is_list N' head (prio_insert ?f n xs)"
    unfolding N'_def prio_insert_def B_def by (rule plist_add_node_list [OF l assms(3) refl])
  have sub: "set (leaders ?f xs) \<subseteq> set (leaders ?f (prio_insert ?f n xs))"
    unfolding leaders_insert [OF s A_def B_def] leaders_split [OF s, of "?f n", folded A_def B_def] by auto
  have "is_list P' x []" if "x \<in> insert n (set xs)" "x \<notin> set (leaders ?f (prio_insert ?f n xs))" for x
  proof (cases "x = n")
    case True
    then show ?thesis using pr(3) that(2) assms(2) by (simp add: plist_free_def)
  next
    case xn: False
    then have "is_list (prio_list p) x []" "x \<notin> set (leaders ?f xs)" using that sub assms(1) by (auto simp: plist_ok_def)
    then show ?thesis using xn pr(2) by (auto intro: is_list_same simp: same_links_def)
  qed
  with n pr(1) prio_insert_sorted [OF s, of n] have "plist_ok (p \<lparr>prio_list := P', node_list := N'\<rparr>) head (prio_insert ?f n xs)"
    by (simp add: plist_ok_def)
  moreover have "same_links (node_list p) N' (- insert n (insert head (set xs)))"
    unfolding N'_def by (rule list_add_same(2) [OF l nx]) auto
  moreover have "same_links (prio_list p) P' (- insert n (insert head (set xs)))"
    using pr(2) leaders_subset [of ?f xs] by (auto simp: same_links_def)
  ultimately show ?thesis using e by (simp add: plist_same_def)
qed

end
