(* ===== verification/Plist_Props.thy ===== *)
theory Plist_Props
  imports Plist
begin

text \<open>
  Deletion and requeueing on the priority-sorted lists of theory \<open>Plist\<close>, and their main properties. A
  sorted list around the node to be deleted is split into the smaller priorities, the nodes of the same
  priority before and behind it, and the larger ones; which node leads its priority afterwards can be read
  off this decomposition.
\<close>

subsection \<open>Deleting a node\<close>

lemma prio_ring_behind:
  assumes "prio_ring P (as @ y # bs)" "n \<notin> set (as @ y # bs)"
  shows "prio_ring (list_add n y P) (as @ y # n # bs)"
proof (cases as)
  case Nil
  with assms show ?thesis using list_add_ring [of P y bs n] by (simp add: prio_ring_def)
next
  case (Cons l as')
  with assms show ?thesis using list_add_behind_ring [of P l as' y bs n] by (simp add: prio_ring_def)
qed

lemma list_del_init_alone: "is_list (list_del_init n P) n []"
  by (simp add: list_del_init_def INIT_LIST_HEAD_ring)

lemma prio_ring_del:
  assumes "prio_ring P (as @ n # bs)"
  shows "prio_ring (list_del_init n P) (as @ bs)"
proof (cases as)
  case Nil
  show ?thesis
  proof (cases bs)
    case (Cons b bs')
    with Nil assms have "is_list P n ([] @ b # bs')" by (simp add: prio_ring_def)
    from list_del_init_ring(1) [OF is_list_rotate1 [OF this, simplified]] show ?thesis
      using Nil Cons by (simp add: prio_ring_def)
  qed (use Nil in \<open>simp add: prio_ring_def\<close>)
next
  case (Cons l as')
  with assms show ?thesis using list_del_init_ring(1) [of P l as' n bs] by (simp add: prio_ring_def)
qed

lemma prio_ring_empty:
  assumes "prio_ring P ls" "a \<in> set ls"
  shows "list_empty a P \<longleftrightarrow> ls = [a]"
proof -
  obtain as bs where r: "ls = as @ a # bs" "is_list P a (bs @ as)" using assms by (rule prio_ring_as_list)
  from is_list_empty [OF r(2)] show ?thesis using r(1) by (auto simp: append_eq_Cons_conv)
qed

text \<open>A sorted list around one of its priorities.\<close>

lemma leaders_three:
  assumes "\<forall>x\<in>set L. f x < q" "\<forall>x\<in>set E. f x = q" "\<forall>x\<in>set R. (q::int) < f x"
  shows "leaders f (L @ E @ R) = leaders f L @ take 1 E @ leaders f R"
proof -
  have "leaders f (L @ E @ R) = leaders f L @ leaders f (E @ R)"
    by (rule leaders_append, intro ballI) (use assms in \<open>metis Un_iff less_irrefl less_trans set_append\<close>)
  also have "leaders f (E @ R) = leaders f E @ leaders f R"
    by (rule leaders_append, intro ballI) (use assms in \<open>metis less_irrefl\<close>)
  finally show ?thesis using leaders_group [OF assms(2)] by simp
qed

lemma sorted_around:
  assumes "sorted (map f (as @ n # bs))"
  obtains L E1 E2 R where "as = L @ E1" "bs = E2 @ R" "\<forall>x\<in>set L. f x < f n" "\<forall>x\<in>set E1. f x = (f n :: int)"
    "\<forall>x\<in>set E2. f x = f n" "\<forall>x\<in>set R. f n < f x"
proof -
  let ?q = "f n - 1"
  have a: "sorted (map f as)" "\<forall>x\<in>set as. f x \<le> f n" and b: "sorted (map f bs)" "\<forall>x\<in>set bs. f n \<le> f x"
    using assms by (auto simp: sorted_append)
  have f1: "\<forall>x\<in>set (takeWhile (\<lambda>x. f x \<le> ?q) as). f x < f n" by (auto dest: set_takeWhileD)
  have f2: "\<forall>x\<in>set (dropWhile (\<lambda>x. f x \<le> ?q) as). f x = f n"
  proof
    fix x assume x: "x \<in> set (dropWhile (\<lambda>x. f x \<le> ?q) as)"
    with a(2) have "f x \<le> f n" by (auto dest: set_dropWhileD)
    with sorted_above [OF a(1) x] show "f x = f n" by linarith
  qed
  have f3: "\<forall>x\<in>set (takeWhile (\<lambda>x. f x \<le> f n) bs). f x = f n"
    using b(2) by (auto dest!: set_takeWhileD intro: antisym)
  have f4: "\<forall>x\<in>set (dropWhile (\<lambda>x. f x \<le> f n) bs). f n < f x" using sorted_above [OF b(1)] by blast
  show ?thesis
    by (rule that [OF takeWhile_dropWhile_id [symmetric] takeWhile_dropWhile_id [symmetric] f1 f2 f3 f4])
qed

definition del_prio_list :: "'a \<Rightarrow> 'a \<Rightarrow> 'a plist \<Rightarrow> 'a links" where
  "del_prio_list n head p =
     (if list_empty n (prio_list p) then prio_list p
      else
        let nxt = lnext (node_list p) n
        in list_del_init n
             (if nxt \<noteq> head \<and> list_empty nxt (prio_list p) then list_add nxt n (prio_list p) else prio_list p))"

lemma plist_del_eq:
  "plist_del n head p = p \<lparr>prio_list := del_prio_list n head p, node_list := list_del_init n (node_list p)\<rparr>"
  by (simp add: plist_del_def del_prio_list_def Let_def)

text \<open>The \<open>prio_list\<close> after a deletion. The new leaders are the leaders of the remaining list, the node is on
  no ring, and only leaders, old and new, are touched.\<close>

lemma del_prio_list_ring:
  assumes "plist_ok p head (as @ n # bs)"
  defines "P' \<equiv> del_prio_list n head p"
  shows "prio_ring P' (leaders (node_prio p) (as @ bs)) \<and> is_list P' n [] \<and>
    same_links (prio_list p) P' (- (set (leaders (node_prio p) (as @ n # bs)) \<union> set (leaders (node_prio p) (as @ bs)))) \<and>
    set (leaders (node_prio p) (as @ n # bs)) \<subseteq> insert n (set (leaders (node_prio p) (as @ bs)))"
proof -
  let ?f = "node_prio p" and ?P = "prio_list p"
  have s: "sorted (map ?f (as @ n # bs))" and l: "is_list (node_list p) head (as @ n # bs)"
    and r: "prio_ring ?P (leaders ?f (as @ n # bs))"
    and o: "\<And>x. x \<in> set (as @ n # bs) \<Longrightarrow> x \<notin> set (leaders ?f (as @ n # bs)) \<Longrightarrow> is_list ?P x []"
    using assms(1) by (auto simp: plist_ok_def)
  have d: "distinct (head # as @ n # bs)" using l by (simp add: is_list_def)
  obtain L E1 E2 R where sp: "as = L @ E1" "bs = E2 @ R" "\<forall>x\<in>set L. ?f x < ?f n" "\<forall>x\<in>set E1. ?f x = ?f n"
    "\<forall>x\<in>set E2. ?f x = ?f n" "\<forall>x\<in>set R. ?f n < ?f x" using s by (rule sorted_around)
  have l1: "leaders ?f (as @ n # bs) = leaders ?f L @ take 1 (E1 @ n # E2) @ leaders ?f R"
  proof -
    have "\<forall>x\<in>set (E1 @ n # E2). ?f x = ?f n" using sp(4,5) unfolding set_append list.set by blast
    from leaders_three [OF sp(3) this sp(6)] show ?thesis unfolding sp(1,2) by (simp only: append.assoc append_Cons)
  qed
  have l2: "leaders ?f (as @ bs) = leaders ?f L @ take 1 (E1 @ E2) @ leaders ?f R"
  proof -
    have "\<forall>x\<in>set (E1 @ E2). ?f x = ?f n" using sp(4,5) unfolding set_append by blast
    from leaders_three [OF sp(3) this sp(6)] show ?thesis unfolding sp(1,2) by (simp only: append.assoc)
  qed
  have nL: "n \<notin> set (leaders ?f L)" "n \<notin> set (leaders ?f R)"
    using d sp(1,2) leaders_subset [of ?f L] leaders_subset [of ?f R] by auto
  show ?thesis
  proof (cases E1)
    case (Cons e E1')
    then have n: "n \<notin> set (leaders ?f (as @ n # bs))" using l1 nL d sp(1) by auto
    from o [OF _ this] have i: "is_list ?P n []" by simp
    then have "P' = ?P" using is_list_empty [OF i] by (simp add: P'_def del_prio_list_def)
    then show ?thesis using r l1 l2 Cons i by auto
  next
    case E1: Nil
    have l1': "leaders ?f (as @ n # bs) = leaders ?f L @ n # leaders ?f R" using l1 E1 by simp
    have l2': "leaders ?f (as @ bs) = leaders ?f L @ take 1 E2 @ leaders ?f R" using l2 E1 by simp
    have ne: "list_empty n ?P \<longleftrightarrow> leaders ?f L = [] \<and> leaders ?f R = []"
      using prio_ring_empty [OF r, of n] l1' by (auto simp: append_eq_Cons_conv)
    have nx: "lnext (node_list p) n = hd (E2 @ R @ [head])"
      using seg_first [of "node_list p" n bs head] l sp(2) by (simp add: is_list_def)
    show ?thesis
    proof (cases "list_empty n ?P")
      case True
      then have P: "P' = ?P" by (simp add: P'_def del_prio_list_def)
      have "is_list ?P n []" using r l1' ne True by (simp add: prio_ring_def)
      moreover have "prio_ring ?P (take 1 E2)"
      proof (cases E2)
        case (Cons m E2')
        then have "is_list ?P m []" using o [of m] l1' ne True sp(2) d by auto
        with Cons show ?thesis by (simp add: prio_ring_def)
      qed (simp add: prio_ring_def)
      ultimately show ?thesis using P l1' l2' ne True by auto
    next
      case False
      show ?thesis
      proof (cases E2)
        case (Cons m E2')
        have m: "m \<notin> set (leaders ?f (as @ n # bs))" "m \<noteq> head"
          using l1' sp(1,2) Cons d leaders_subset [of ?f L] leaders_subset [of ?f R] by auto
        then have em: "list_empty m ?P" using is_list_empty [OF o [of m]] sp(2) Cons by simp
        have P: "P' = list_del_init n (list_add m n ?P)"
          using False nx Cons em m(2) by (simp add: P'_def del_prio_list_def)
        have r1: "prio_ring (list_add m n ?P) (leaders ?f L @ n # m # leaders ?f R)"
          by (rule prio_ring_behind) (use r m l1' in auto)
        let ?A = "- (set (leaders ?f (as @ n # bs)) \<union> set (leaders ?f (as @ bs)))"
        have "same_links ?P (list_add m n ?P) ?A"
          by (rule prio_ring_same(2) [OF r]) (use l1' l2' Cons in auto)
        moreover have "same_links (list_add m n ?P) P' ?A"
          unfolding P by (rule prio_ring_same(3) [OF r1]) (use l1' l2' Cons in auto)
        ultimately have "same_links ?P P' ?A" by (rule same_links_trans)
        then show ?thesis
          using prio_ring_del [OF r1] list_del_init_alone [of n "list_add m n ?P"] l1' l2' Cons unfolding P by auto
      next
        case Nil
        have "\<not> (lnext (node_list p) n \<noteq> head \<and> list_empty (lnext (node_list p) n) ?P)"
        proof (cases R)
          case (Cons m R')
          then have "list_empty m ?P \<longleftrightarrow> leaders ?f (as @ n # bs) = [m]"
            using prio_ring_empty [OF r, of m] l1' by simp
          then show ?thesis using nx Nil Cons l1' by auto
        qed (use nx Nil in simp)
        then have P: "P' = list_del_init n ?P" using False by (auto simp: P'_def del_prio_list_def Let_def)
        have "same_links ?P P' (- (set (leaders ?f (as @ n # bs)) \<union> set (leaders ?f (as @ bs))))"
          unfolding P by (rule prio_ring_same(3) [OF r]) (use l1' in auto)
        then show ?thesis
          using prio_ring_del [of ?P "leaders ?f L" n "leaders ?f R"] r list_del_init_alone [of n ?P] l1' l2' Nil
          unfolding P by auto
      qed
    qed
  qed
qed

lemma plist_del_contents:
  assumes "plist_ok p head (as @ n # bs)"
  shows "plist_ok (plist_del n head p) head (as @ bs)" "plist_free (plist_del n head p) n"
    "plist_same p (plist_del n head p) (- insert head (set (as @ n # bs)))"
proof -
  let ?f = "node_prio p" and ?P' = "del_prio_list n head p"
  have l: "is_list (node_list p) head (as @ n # bs)" and s: "sorted (map ?f (as @ bs))"
    using assms by (auto simp: plist_ok_def sorted_append)
  note pr = del_prio_list_ring [OF assms]
  have sub: "set (leaders ?f (as @ n # bs)) \<union> set (leaders ?f (as @ bs)) \<subseteq> set (as @ n # bs)"
    using leaders_subset [of ?f "as @ n # bs"] leaders_subset [of ?f "as @ bs"] by auto
  have "is_list ?P' x []" if "x \<in> set (as @ bs)" "x \<notin> set (leaders ?f (as @ bs))" for x
  proof -
    have "x \<noteq> n" using that l by (auto simp: is_list_def)
    with pr that have "x \<notin> set (leaders ?f (as @ n # bs))" by auto
    with that have "is_list (prio_list p) x []" using assms by (auto simp: plist_ok_def)
    then show ?thesis
      by (rule is_list_same) (use pr \<open>x \<notin> set (leaders ?f (as @ n # bs))\<close> that in \<open>auto simp: same_links_def\<close>)
  qed
  then show "plist_ok (plist_del n head p) head (as @ bs)"
    using list_del_init_ring(1) [OF l] s pr unfolding plist_ok_def plist_del_eq by auto
  show "plist_free (plist_del n head p) n"
    using pr list_del_init_alone [of n "node_list p"] by (simp add: plist_free_def plist_del_eq)
  have "same_links (node_list p) (list_del_init n (node_list p)) (- insert head (set (as @ n # bs)))"
    by (rule list_del_init_same [OF l]) auto
  moreover have "same_links (prio_list p) ?P' (- insert head (set (as @ n # bs)))"
    using pr sub unfolding same_links_def by blast
  ultimately show "plist_same p (plist_del n head p) (- insert head (set (as @ n # bs)))"
    by (simp add: plist_same_def plist_del_eq)
qed

subsection \<open>Requeueing a node\<close>

lemma requeue_loop_seg:
  assumes "seg (node_list p) a xs head" "head \<notin> set xs" "length xs < k"
  shows "plist_requeue_loop k p n head (plist_next a p) =
    Some (case dropWhile (\<lambda>x. node_prio p x = node_prio p n) xs of [] \<Rightarrow> head | y # _ \<Rightarrow> y)"
  using assms
proof (induction xs arbitrary: a k)
  case Nil
  then show ?case by (cases k) (auto simp: plist_next_def)
next
  case (Cons x xs)
  then obtain j where j: "k = Suc j" "length xs < j" by (cases k) auto
  from Cons.prems have x: "plist_next a p = x" "x \<noteq> head" and r: "seg (node_list p) x xs head" "head \<notin> set xs"
    by (auto simp: plist_next_def)
  note IH = Cons.IH [OF r j(2)]
  show ?case
  proof (cases "node_prio p x = node_prio p n")
    case True
    then show ?thesis using IH x(2) unfolding x(1) j(1) by simp
  next
    case False
    then show ?thesis using x(2) unfolding x(1) j(1) by auto
  qed
qed

lemma prio_insert_here:
  assumes "sorted (map f (as @ n # bs))" "bs = [] \<or> f (hd bs) \<noteq> (f n :: int)"
  shows "prio_insert f n (as @ bs) = as @ n # bs"
proof -
  have "\<forall>x\<in>set as. f x \<le> f n" "\<forall>x\<in>set bs. f n \<le> f x" using assms(1) by (auto simp: sorted_append)
  moreover from this(2) assms(2) have "bs = [] \<or> \<not> f (hd bs) \<le> f n" by (cases bs) auto
  then have "takeWhile (\<lambda>x. f x \<le> f n) bs = []" "dropWhile (\<lambda>x. f x \<le> f n) bs = bs"
    by (simp_all only: takeWhile_eq_Nil_iff dropWhile_eq_self_iff)
  ultimately show ?thesis by (simp add: prio_insert_def takeWhile_append2 dropWhile_append2)
qed

text \<open>The list in which the node is not the last of its priority.\<close>

lemma prio_insert_later:
  assumes "sorted (map f (as @ n # i # bs))" "f i = (f n :: int)"
  shows "takeWhile (\<lambda>x. f x \<le> f n) (as @ i # bs) = as @ i # takeWhile (\<lambda>x. f x = f n) bs"
    "dropWhile (\<lambda>x. f x \<le> f n) (as @ i # bs) = dropWhile (\<lambda>x. f x = f n) bs"
proof -
  have a: "\<forall>x\<in>set as. f x \<le> f n" and b: "\<forall>x\<in>set bs. f n \<le> f x" using assms(1) by (auto simp: sorted_append)
  have c: "takeWhile (\<lambda>x. f x \<le> f n) bs = takeWhile (\<lambda>x. f x = f n) bs"
    by (rule takeWhile_cong) (use b in \<open>auto intro: antisym\<close>)
  have e: "dropWhile (\<lambda>x. f x \<le> f n) bs = dropWhile (\<lambda>x. f x = f n) bs"
    by (rule dropWhile_cong) (use b in \<open>auto intro: antisym\<close>)
  show "takeWhile (\<lambda>x. f x \<le> f n) (as @ i # bs) = as @ i # takeWhile (\<lambda>x. f x = f n) bs"
    using a assms(2) c by (simp add: takeWhile_append2)
  show "dropWhile (\<lambda>x. f x \<le> f n) (as @ i # bs) = dropWhile (\<lambda>x. f x = f n) bs"
    using a assms(2) e by (simp add: dropWhile_append2)
qed

lemma plist_requeue_moves:
  assumes "plist_ok p head (as @ n # i # bs)" "node_prio p i = node_prio p n" "length (as @ n # i # bs) \<le> k"
  shows "plist_requeue k n head p = plist_add k n head (plist_del n head p)"
proof -
  let ?p = "plist_del n head p" and ?f = "node_prio p"
  have l: "is_list (node_list p) head (as @ n # i # bs)" and s: "sorted (map ?f (as @ n # i # bs))"
    using assms(1) by (auto simp: plist_ok_def)
  have d: "distinct (head # as @ n # i # bs)" using l by (simp add: is_list_def)
  have ok: "plist_ok ?p head (as @ i # bs)" using plist_del_contents(1) [OF assms(1)] .
  have f [simp]: "node_prio ?p = ?f" by (simp add: plist_del_eq)
  have e: "\<not> plist_head_empty head p" using is_list_empty [OF l] by (simp add: plist_head_empty_def)
  have nx: "plist_next n p = i" using l by (simp add: plist_next_def is_list_def)
  then have en: "\<not> plist_node_empty n p" using d by (auto simp: plist_node_empty_def plist_next_def list_empty_def)
  have la: "plist_last head p = last (i # bs)"
    using seg_last [of "node_list p" i bs head] l by (simp add: plist_last_def is_list_def)
  have nl: "n \<noteq> plist_last head p" using d last_in_set [of "i # bs"] unfolding la by auto
  have "seg (node_list ?p) i bs head" using ok by (simp add: plist_ok_def is_list_def)
  from requeue_loop_seg [OF this, of k n] assms(3) d
  have lp: "plist_requeue_loop k ?p n head (plist_next i ?p) =
      Some (case dropWhile (\<lambda>x. ?f x = ?f n) bs of [] \<Rightarrow> head | y # _ \<Rightarrow> y)" by simp
  note w = prio_insert_later [OF s assms(2)]
  have "\<forall>x\<in>set (takeWhile (\<lambda>x. ?f x = ?f n) bs). ?f x = ?f n" by (auto dest: set_takeWhileD)
  then have q: "?f (last (as @ i # takeWhile (\<lambda>x. ?f x = ?f n) bs)) = ?f n"
    using last_in_set [of "takeWhile (\<lambda>x. ?f x = ?f n) bs"] assms(2) by (cases "takeWhile (\<lambda>x. ?f x = ?f n) bs") auto
  have ad: "plist_add k n head ?p = Some (?p \<lparr>prio_list := prio_list ?p,
      node_list := list_add_tail n (case dropWhile (\<lambda>x. ?f x = ?f n) bs of [] \<Rightarrow> head | y # _ \<Rightarrow> y) (node_list ?p)\<rparr>)"
    using plist_add_eval [OF ok _ _ refl refl, of k n] assms(3) unfolding f w using q by simp
  show ?thesis unfolding ad using e en nl nx assms(2) lp by (simp add: plist_requeue_def Let_def)
qed

lemma plist_requeue_contents:
  assumes "plist_ok p head (as @ n # bs)" "length (as @ n # bs) \<le> k"
  shows "\<exists>p'. plist_requeue k n head p = Some p' \<and> plist_ok p' head (prio_insert (node_prio p) n (as @ bs))"
proof (cases "bs = [] \<or> node_prio p (hd bs) \<noteq> node_prio p n")
  case True
  have l: "is_list (node_list p) head (as @ n # bs)" and s: "sorted (map (node_prio p) (as @ n # bs))"
    using assms(1) by (auto simp: plist_ok_def)
  have e: "\<not> plist_head_empty head p" using is_list_empty [OF l] by (simp add: plist_head_empty_def)
  have nx: "plist_next n p = hd (bs @ [head])"
    using seg_first [of "node_list p" n bs head] l by (simp add: plist_next_def is_list_def)
  have en: "\<not> plist_node_empty n p"
    using l hd_in_set [of "bs @ [head]"] nx
    by (auto simp: plist_node_empty_def list_empty_def plist_next_def is_list_def)
  have "bs = [] \<Longrightarrow> plist_last head p = n" using l by (simp add: plist_last_def is_list_def)
  then have "plist_requeue k n head p = Some p"
    using True e en nx by (cases bs) (auto simp: plist_requeue_def Let_def)
  with assms(1) prio_insert_here [OF s True] show ?thesis by simp
next
  case False
  then obtain i bs' where bs: "bs = i # bs'" "node_prio p i = node_prio p n" by (cases bs) auto
  let ?p = "plist_del n head p"
  have ok: "plist_ok ?p head (as @ i # bs')" "plist_free ?p n"
    using plist_del_contents [OF assms(1)] bs by auto
  have "n \<notin> insert head (set (as @ i # bs'))" using assms(1) bs by (auto simp: plist_ok_def is_list_def)
  from plist_add_contents [OF ok this, of k] plist_requeue_moves [of p head as n i bs' k] assms bs
  show ?thesis by (auto simp: plist_del_eq)
qed

subsection \<open>Properties\<close>

definition plist_start :: "nat plist" where
  "plist_start = plist_node_init 2 10 (plist_node_init 1 20 (plist_head_init 0
     \<lparr>node_list = \<lparr>lnext = \<lambda>_. 9, lprev = \<lambda>_. 9\<rparr>, prio_list = \<lparr>lnext = \<lambda>_. 9, lprev = \<lambda>_. 9\<rparr>, node_prio = \<lambda>_. 0\<rparr>))"

lemmas plist_start_defs = plist_start_def plist_node_init_def plist_head_init_def INIT_LIST_HEAD_def
  set_next_def set_prev_def

lemma plist_start_facts: "plist_ok plist_start 0 []" "plist_free plist_start 1" "plist_free plist_start 2"
  by (simp_all add: plist_start_defs plist_ok_def plist_free_def is_list_def prio_ring_def)

text \<open>C36: adding a node to a priority-sorted list puts it behind all nodes of smaller or equal priority
  and in front of the larger ones, so that nodes of the same priority stay in the order of their
  arrival. Both rings stay well formed: the list through the head is sorted, and the ring of the
  priorities runs through exactly the first node of every priority. The loop over the priorities ends
  within the length of the list, and nothing outside the list and the node is touched.\<close>

theorem plist_add_keeps_order:
  assumes "plist_ok p head xs" "plist_free p n" "n \<notin> insert head (set xs)" "length xs \<le> k"
  shows "\<exists>p'. plist_add k n head p = Some p' \<and> plist_ok p' head (prio_insert (node_prio p) n xs) \<and>
    plist_same p p' (- insert n (insert head (set xs)))"
  using assms by (rule plist_add_contents)

theorem plist_add_keeps_order_witness:
  "\<exists>p'. plist_add 0 1 0 plist_start = Some p' \<and> plist_ok p' 0 [1]"
  using plist_add_keeps_order [of plist_start 0 "[]" 1 0] plist_start_facts by (auto simp: prio_insert_def)

text \<open>C37: \<open>plist_requeue\<close> has the effect its comment claims. The result of the optimised version has the
  contents of a deletion followed by an addition: the node is moved behind the nodes of its priority.
  \<open>plist_del\<close> takes exactly that node out, whatever its place, and leaves it on no ring.\<close>

theorem plist_requeue_is_del_add:
  assumes "plist_ok p head (as @ n # bs)" "length (as @ n # bs) \<le> k"
  shows "plist_ok (plist_del n head p) head (as @ bs) \<and> plist_free (plist_del n head p) n \<and>
    (\<exists>p' p''. plist_requeue k n head p = Some p' \<and> plist_add k n head (plist_del n head p) = Some p'' \<and>
      plist_ok p' head (prio_insert (node_prio p) n (as @ bs)) \<and>
      plist_ok p'' head (prio_insert (node_prio p) n (as @ bs)))"
proof -
  have ok: "plist_ok (plist_del n head p) head (as @ bs)" "plist_free (plist_del n head p) n"
    by (rule plist_del_contents [OF assms(1)])+
  have "n \<notin> insert head (set (as @ bs))" using assms(1) by (auto simp: plist_ok_def is_list_def)
  from plist_add_contents [OF ok this, of k] plist_requeue_contents [OF assms] assms(2) ok show ?thesis
    by (auto simp: plist_del_eq)
qed

theorem plist_requeue_is_del_add_witness:
  "\<exists>p p'. plist_add 0 1 0 plist_start = Some p \<and> plist_requeue 1 1 0 p = Some p' \<and> plist_ok p' 0 [1]"
proof -
  obtain p where p: "plist_add 0 1 0 plist_start = Some p" "plist_ok p 0 [1]"
    using plist_add_contents [of plist_start 0 "[]" 1 0] plist_start_facts by (auto simp: prio_insert_def)
  with plist_requeue_is_del_add [of p 0 "[]" 1 "[]" 1] show ?thesis by (auto simp: prio_insert_def)
qed

end
