(* ===== verification/Kernel_Hlist.thy ===== *)
theory Kernel_Hlist
  imports Kernel_List
begin

text \<open>
  The lists with a single-pointer head of \<^verbatim>\<open>src/driver/src/user_space_kernel_def/include/linux/list.h\<close>, used as
  the chains of the hash tables. The back pointer of a node does not point at the previous node but at
  the field that holds the address of the node: the \<open>first\<close> field of a head or the \<open>next\<close> field of a node.
  \<open>hslot\<close> is the type of these pointers; a pointer that is \<open>NULL\<close> or poisoned cannot be stored through,
  and an operation that does so has no result (\<open>None\<close>).
\<close>

datatype ('h, 'n) hslot = HFirst 'h | HNext 'n | HWild u64

record ('h, 'n) hlinks =
  hfirst :: "'h \<Rightarrow> 'n option"
  hnext :: "'n \<Rightarrow> 'n option"
  pprev :: "'n \<Rightarrow> ('h, 'n) hslot option"

fun load_slot :: "('h, 'n) hlinks \<Rightarrow> ('h, 'n) hslot \<Rightarrow> 'n option" where
  "load_slot h (HFirst a) = hfirst h a"
| "load_slot h (HNext n) = hnext h n"
| "load_slot h (HWild u) = None"

fun store_slot :: "('h, 'n) hslot option \<Rightarrow> 'n option \<Rightarrow> ('h, 'n) hlinks \<Rightarrow> ('h, 'n) hlinks option" where
  "store_slot (Some (HFirst a)) v h = Some (h \<lparr>hfirst := (hfirst h) (a := v)\<rparr>)"
| "store_slot (Some (HNext n)) v h = Some (h \<lparr>hnext := (hnext h) (n := v)\<rparr>)"
| "store_slot (Some (HWild u)) v h = None"
| "store_slot None v h = None"

definition set_hnext :: "'n \<Rightarrow> 'n option \<Rightarrow> ('h, 'n) hlinks \<Rightarrow> ('h, 'n) hlinks" where
  "set_hnext n v h = h \<lparr>hnext := (hnext h) (n := v)\<rparr>"

definition set_pprev :: "'n \<Rightarrow> ('h, 'n) hslot option \<Rightarrow> ('h, 'n) hlinks \<Rightarrow> ('h, 'n) hlinks" where
  "set_pprev n v h = h \<lparr>pprev := (pprev h) (n := v)\<rparr>"

definition set_hfirst :: "'h \<Rightarrow> 'n option \<Rightarrow> ('h, 'n) hlinks \<Rightarrow> ('h, 'n) hlinks" where
  "set_hfirst a v h = h \<lparr>hfirst := (hfirst h) (a := v)\<rparr>"

subsection \<open>The operations\<close>

definition INIT_HLIST_HEAD :: "'h \<Rightarrow> ('h, 'n) hlinks \<Rightarrow> ('h, 'n) hlinks" where
  "INIT_HLIST_HEAD a h = set_hfirst a None h"

definition INIT_HLIST_NODE :: "'n \<Rightarrow> ('h, 'n) hlinks \<Rightarrow> ('h, 'n) hlinks" where
  "INIT_HLIST_NODE n h = set_pprev n None (set_hnext n None h)"

definition hlist_unhashed :: "'n \<Rightarrow> ('h, 'n) hlinks \<Rightarrow> bool" where
  "hlist_unhashed n h \<longleftrightarrow> pprev h n = None"

definition hlist_empty :: "'h \<Rightarrow> ('h, 'n) hlinks \<Rightarrow> bool" where
  "hlist_empty a h \<longleftrightarrow> hfirst h a = None"

definition hlist_del_raw :: "'n \<Rightarrow> ('h, 'n) hlinks \<Rightarrow> ('h, 'n) hlinks option" where
  "hlist_del_raw n h =
     (let nxt = hnext h n; pp = pprev h n
      in map_option (\<lambda>h. case nxt of None \<Rightarrow> h | Some m \<Rightarrow> set_pprev m pp h) (store_slot pp nxt h))"

definition hlist_del :: "u64 \<Rightarrow> ('h, u64) hlinks \<Rightarrow> ('h, u64) hlinks option" where
  "hlist_del n h =
     map_option (\<lambda>h. set_pprev n (Some (HWild LIST_POISON2)) (set_hnext n (Some LIST_POISON1) h)) (hlist_del_raw n h)"

definition hlist_del_init :: "'n \<Rightarrow> ('h, 'n) hlinks \<Rightarrow> ('h, 'n) hlinks option" where
  "hlist_del_init n h =
     (if \<not> hlist_unhashed n h then map_option (INIT_HLIST_NODE n) (hlist_del_raw n h) else Some h)"

definition hlist_add_head :: "'n \<Rightarrow> 'h \<Rightarrow> ('h, 'n) hlinks \<Rightarrow> ('h, 'n) hlinks" where
  "hlist_add_head n a h =
     (let first = hfirst h a;
          h = set_hnext n first h;
          h = (case first of None \<Rightarrow> h | Some m \<Rightarrow> set_pprev m (Some (HNext n)) h);
          h = set_hfirst a (Some n) h
      in set_pprev n (Some (HFirst a)) h)"

definition hlist_add_before :: "'n \<Rightarrow> 'n \<Rightarrow> ('h, 'n) hlinks \<Rightarrow> ('h, 'n) hlinks option" where
  "hlist_add_before n nxt h =
     (let h = set_pprev n (pprev h nxt) h;
          h = set_hnext n (Some nxt) h;
          h = set_pprev nxt (Some (HNext n)) h
      in store_slot (pprev h n) (Some n) h)"

definition hlist_add_behind :: "'n \<Rightarrow> 'n \<Rightarrow> ('h, 'n) hlinks \<Rightarrow> ('h, 'n) hlinks" where
  "hlist_add_behind n prev h =
     (let h = set_hnext n (hnext h prev) h;
          h = set_hnext prev (Some n) h;
          h = set_pprev n (Some (HNext prev)) h
      in case hnext h n of None \<Rightarrow> h | Some m \<Rightarrow> set_pprev m (Some (HNext n)) h)"

definition hlist_add_fake :: "'n \<Rightarrow> ('h, 'n) hlinks \<Rightarrow> ('h, 'n) hlinks" where
  "hlist_add_fake n h = set_pprev n (Some (HNext n)) h"

definition hlist_fake :: "'n \<Rightarrow> ('h, 'n) hlinks \<Rightarrow> bool" where
  "hlist_fake n h \<longleftrightarrow> pprev h n = Some (HNext n)"

definition hlist_move_list :: "'h \<Rightarrow> 'h \<Rightarrow> ('h, 'n) hlinks \<Rightarrow> ('h, 'n) hlinks" where
  "hlist_move_list old new h =
     (let h = set_hfirst new (hfirst h old) h;
          h = (case hfirst h new of None \<Rightarrow> h | Some m \<Rightarrow> set_pprev m (Some (HFirst new)) h)
      in set_hfirst old None h)"

text \<open>The loop \<open>hlist_for_each\<close>, with a bound on its rounds.\<close>

fun hlist_walk :: "nat \<Rightarrow> 'n option \<Rightarrow> ('h, 'n) hlinks \<Rightarrow> 'n list option" where
  "hlist_walk 0 pos h = None"
| "hlist_walk (Suc k) None h = Some []"
| "hlist_walk (Suc k) (Some n) h = map_option ((#) n) (hlist_walk k (hnext h n) h)"

definition hlist_for_each :: "nat \<Rightarrow> 'h \<Rightarrow> ('h, 'n) hlinks \<Rightarrow> 'n list option" where
  "hlist_for_each k a h = hlist_walk k (hfirst h a) h"

subsection \<open>Chains\<close>

fun hseg :: "('h, 'n) hlinks \<Rightarrow> ('h, 'n) hslot \<Rightarrow> 'n list \<Rightarrow> bool" where
  "hseg h s [] \<longleftrightarrow> load_slot h s = None"
| "hseg h s (x # xs) \<longleftrightarrow> load_slot h s = Some x \<and> pprev h x = Some s \<and> hseg h (HNext x) xs"

definition is_hlist :: "('h, 'n) hlinks \<Rightarrow> 'h \<Rightarrow> 'n list \<Rightarrow> bool" where
  "is_hlist h a xs \<longleftrightarrow> distinct xs \<and> hseg h (HFirst a) xs"

text \<open>A chain depends only on its head and on the fields of its nodes.\<close>

lemma hseg_frame:
  assumes "hseg h s xs" "load_slot h' s = load_slot h s"
    and "\<And>x. x \<in> set xs \<Longrightarrow> hnext h' x = hnext h x" "\<And>x. x \<in> set xs \<Longrightarrow> pprev h' x = pprev h x"
  shows "hseg h' s xs"
  using assms by (induction xs arbitrary: s) auto

lemma is_hlist_frame:
  assumes "is_hlist h a xs" "hfirst h' a = hfirst h a"
    and "\<And>x. x \<in> set xs \<Longrightarrow> hnext h' x = hnext h x" "\<And>x. x \<in> set xs \<Longrightarrow> pprev h' x = pprev h x"
  shows "is_hlist h' a xs"
  using assms hseg_frame [of h "HFirst a" xs h'] by (auto simp: is_hlist_def)

lemma hlinks_get_set [simp]:
  "hnext (set_hnext n v h) = (hnext h) (n := v)" "pprev (set_hnext n v h) = pprev h" "hfirst (set_hnext n v h) = hfirst h"
  "hnext (set_pprev n w h) = hnext h" "pprev (set_pprev n w h) = (pprev h) (n := w)" "hfirst (set_pprev n w h) = hfirst h"
  "hnext (set_hfirst a v h) = hnext h" "pprev (set_hfirst a v h) = pprev h" "hfirst (set_hfirst a v h) = (hfirst h) (a := v)"
  by (auto simp: set_hnext_def set_pprev_def set_hfirst_def)

lemma INIT_HLIST_HEAD_chain: "is_hlist (INIT_HLIST_HEAD a h) a []"
  by (simp add: is_hlist_def INIT_HLIST_HEAD_def)

lemma hlist_empty_chain: "is_hlist h a xs \<Longrightarrow> hlist_empty a h \<longleftrightarrow> xs = []"
  by (cases xs) (auto simp: is_hlist_def hlist_empty_def)

lemma hlist_unhashed_chain: "is_hlist h a xs \<Longrightarrow> n \<in> set xs \<Longrightarrow> \<not> hlist_unhashed n h"
proof -
  have "hseg h s xs \<Longrightarrow> n \<in> set xs \<Longrightarrow> pprev h n \<noteq> None" for s by (induction xs arbitrary: s) auto
  then show "is_hlist h a xs \<Longrightarrow> n \<in> set xs \<Longrightarrow> \<not> hlist_unhashed n h"
    by (auto simp: is_hlist_def hlist_unhashed_def)
qed

lemma hlist_walk_seg: "hseg h s xs \<Longrightarrow> length xs < k \<Longrightarrow> hlist_walk k (load_slot h s) h = Some xs"
proof (induction xs arbitrary: s k)
  case Nil
  then show ?case by (cases k) auto
next
  case (Cons x xs)
  then obtain j where "k = Suc j" "length xs < j" by (cases k) auto
  with Cons.prems Cons.IH [of "HNext x" j] show ?case by auto
qed

lemma hlist_for_each_chain: "is_hlist h a xs \<Longrightarrow> length xs < k \<Longrightarrow> hlist_for_each k a h = Some xs"
  using hlist_walk_seg [of h "HFirst a" xs k] by (simp add: is_hlist_def hlist_for_each_def)

subsection \<open>What the operations do to chains\<close>

lemma hlist_add_head_chain:
  assumes "is_hlist h a xs" "n \<notin> set xs"
  shows "is_hlist (hlist_add_head n a h) a (n # xs)"
proof (cases xs)
  case Nil
  with assms show ?thesis by (auto simp: is_hlist_def hlist_add_head_def Let_def)
next
  case (Cons y ys)
  have "hseg (hlist_add_head n a h) (HNext y) ys"
    by (rule hseg_frame [of h]) (use assms Cons in \<open>auto simp: is_hlist_def hlist_add_head_def Let_def\<close>)
  with assms Cons show ?thesis by (auto simp: is_hlist_def hlist_add_head_def Let_def)
qed

lemma hlist_add_head_other:
  assumes "is_hlist h b ys" "is_hlist h a xs" "b \<noteq> a" "n \<notin> set ys" "set xs \<inter> set ys = {}"
  shows "is_hlist (hlist_add_head n a h) b ys"
  by (rule is_hlist_frame [OF assms(1)])
     (use assms in \<open>cases xs; auto simp: is_hlist_def hlist_add_head_def Let_def\<close>)+

text \<open>Unlinking the node behind the slot \<open>s\<close> of a chain.\<close>

lemma hseg_slot: "hseg h s (xs @ n # ys) \<Longrightarrow> pprev h n = Some (if xs = [] then s else HNext (last xs))"
  by (induction xs arbitrary: s) auto

lemma hseg_split: "hseg h s (xs @ n # ys) \<Longrightarrow> hseg h (HNext n) ys \<and> hnext h n = (case ys of [] \<Rightarrow> None | y # _ \<Rightarrow> Some y)"
  by (induction xs arbitrary: s) (auto split: list.splits)

lemma hlist_del_raw_seg:
  assumes "hseg h s (xs @ n # ys)" "distinct (xs @ n # ys)" "\<And>x. s = HNext x \<Longrightarrow> x \<notin> set (xs @ n # ys)"
    and "\<And>u. s \<noteq> HWild u"
  shows "\<exists>h'. hlist_del_raw n h = Some h' \<and> hseg h' s (xs @ ys) \<and> hnext h' n = hnext h n \<and>
    (\<forall>b. HFirst b \<noteq> s \<longrightarrow> hfirst h' b = hfirst h b) \<and>
    (\<forall>x. HNext x \<noteq> s \<longrightarrow> x \<notin> set (xs @ n # ys) \<longrightarrow> hnext h' x = hnext h x) \<and>
    (\<forall>x. x \<notin> set (xs @ n # ys) \<longrightarrow> pprev h' x = pprev h x)"
  using assms
proof (induction xs arbitrary: s)
  case Nil
  let ?upd = "\<lambda>h'. case hnext h n of None \<Rightarrow> h' | Some m \<Rightarrow> set_pprev m (Some s) h'"
  from Nil obtain h1 where h1: "store_slot (Some s) (hnext h n) h = Some h1" by (cases s) auto
  have eff: "pprev h1 = pprev h" "load_slot h1 s = hnext h n"
    "\<And>x. HNext x \<noteq> s \<Longrightarrow> hnext h1 x = hnext h x" "\<And>b. HFirst b \<noteq> s \<Longrightarrow> hfirst h1 b = hfirst h b"
    using h1 by (cases s; auto)+
  have r: "hlist_del_raw n h = Some (?upd h1)" using Nil.prems(1) h1 by (auto simp: hlist_del_raw_def)
  have ns: "HNext n \<noteq> s" using Nil.prems(3) by auto
  have keep: "hnext h1 x = hnext h x" if "x \<in> set (n # ys)" for x
    using eff(3) [of x] Nil.prems(3) [of x] that by fastforce
  show ?case
  proof (cases ys)
    case Nil' : Nil
    with Nil.prems(1) have "hnext h n = None" by simp
    with r eff ns Nil' show ?thesis by auto
  next
    case (Cons y zs)
    with Nil.prems(1) have y: "hnext h n = Some y" "hseg h (HNext y) zs" by auto
    have "hseg (?upd h1) (HNext y) zs"
      by (rule hseg_frame [OF y(2)]) (use Nil.prems(2) Cons y eff(1) keep in auto)
    moreover have "load_slot (?upd h1) s = Some y" using eff(2) y by (cases s) auto
    ultimately show ?thesis using r eff ns y Cons by auto
  qed
next
  case (Cons x xs)
  then have "hseg h (HNext x) (xs @ n # ys)" "x \<notin> set (xs @ n # ys)" "distinct (xs @ n # ys)" by auto
  with Cons.IH [of "HNext x"] obtain h' where h': "hlist_del_raw n h = Some h'" "hseg h' (HNext x) (xs @ ys)"
    "hnext h' n = hnext h n" "\<forall>b. hfirst h' b = hfirst h b"
    "\<forall>z. z \<noteq> x \<longrightarrow> z \<notin> set (xs @ n # ys) \<longrightarrow> hnext h' z = hnext h z"
    "\<forall>z. z \<notin> set (xs @ n # ys) \<longrightarrow> pprev h' z = pprev h z" by auto
  have "load_slot h' s = load_slot h s"
    using Cons.prems(3) h'(4,5) by (cases s) auto
  with Cons.prems h' show ?case by auto
qed

lemma hlist_del_raw_chain:
  assumes "is_hlist h a (xs @ n # ys)"
  obtains h' where "hlist_del_raw n h = Some h'" "is_hlist h' a (xs @ ys)"
    "\<And>b. b \<noteq> a \<Longrightarrow> hfirst h' b = hfirst h b" "\<And>x. x \<notin> set (xs @ n # ys) \<Longrightarrow> hnext h' x = hnext h x"
    "\<And>x. x \<notin> set (xs @ n # ys) \<Longrightarrow> pprev h' x = pprev h x"
  using hlist_del_raw_seg [of h "HFirst a" xs n ys] assms by (auto simp: is_hlist_def)

lemma hlist_del_chain:
  assumes "is_hlist h a (xs @ n # ys)"
  obtains h' where "hlist_del n h = Some h'" "is_hlist h' a (xs @ ys)"
    "pprev h' n = Some (HWild LIST_POISON2)"
    "\<And>b zs. b \<noteq> a \<Longrightarrow> is_hlist h b zs \<Longrightarrow> set zs \<inter> set (xs @ n # ys) = {} \<Longrightarrow> is_hlist h' b zs"
proof -
  obtain h1 where h1: "hlist_del_raw n h = Some h1" "is_hlist h1 a (xs @ ys)"
    "\<And>b. b \<noteq> a \<Longrightarrow> hfirst h1 b = hfirst h b" "\<And>x. x \<notin> set (xs @ n # ys) \<Longrightarrow> hnext h1 x = hnext h x"
    "\<And>x. x \<notin> set (xs @ n # ys) \<Longrightarrow> pprev h1 x = pprev h x"
    by (rule hlist_del_raw_chain [OF assms]) blast
  let ?h = "set_pprev n (Some (HWild LIST_POISON2)) (set_hnext n (Some LIST_POISON1) h1)"
  have n: "n \<notin> set (xs @ ys)" using assms by (auto simp: is_hlist_def)
  have "is_hlist ?h a (xs @ ys)" by (rule is_hlist_frame [OF h1(2)]) (use n in auto)
  moreover have "is_hlist ?h b zs" if "b \<noteq> a" "is_hlist h b zs" "set zs \<inter> set (xs @ n # ys) = {}" for b zs
    by (rule is_hlist_frame [OF that(2)]) (use that h1 in auto)
  ultimately show ?thesis using that [of ?h] h1(1) by (auto simp: hlist_del_def)
qed

lemma hlist_del_init_chain:
  assumes "is_hlist h a (xs @ n # ys)"
  obtains h' where "hlist_del_init n h = Some h'" "is_hlist h' a (xs @ ys)" "hlist_unhashed n h'"
proof -
  obtain h1 where h1: "hlist_del_raw n h = Some h1" "is_hlist h1 a (xs @ ys)"
    by (rule hlist_del_raw_chain [OF assms]) blast
  have n: "n \<notin> set (xs @ ys)" using assms by (auto simp: is_hlist_def)
  have "is_hlist (INIT_HLIST_NODE n h1) a (xs @ ys)"
    by (rule is_hlist_frame [OF h1(2)]) (use n in \<open>auto simp: INIT_HLIST_NODE_def\<close>)
  then show ?thesis
    using that [of "INIT_HLIST_NODE n h1"] h1 hlist_unhashed_chain [OF assms, of n]
    by (auto simp: hlist_del_init_def hlist_unhashed_def INIT_HLIST_NODE_def)
qed

lemma hlist_add_behind_chain:
  assumes "is_hlist h a (xs @ p # ys)" "n \<notin> set (xs @ p # ys)"
  shows "is_hlist (hlist_add_behind n p h) a (xs @ p # n # ys)"
proof -
  have step: "hseg h s (xs @ p # ys) \<Longrightarrow> distinct (xs @ p # ys) \<Longrightarrow> n \<notin> set (xs @ p # ys) \<Longrightarrow>
      (\<And>x. s = HNext x \<Longrightarrow> x \<notin> set (n # xs @ p # ys)) \<Longrightarrow> hseg (hlist_add_behind n p h) s (xs @ p # n # ys)" for s
  proof (induction xs arbitrary: s)
    case Nil
    show ?case
    proof (cases ys)
      case Nil' : Nil
      with Nil show ?thesis by (cases s) (auto simp: hlist_add_behind_def Let_def)
    next
      case (Cons y zs)
      have "hseg (hlist_add_behind n p h) (HNext y) zs"
        by (rule hseg_frame [of h]) (use Nil Cons in \<open>auto simp: hlist_add_behind_def Let_def\<close>)
      with Nil Cons show ?thesis by (cases s) (auto simp: hlist_add_behind_def Let_def)
    qed
  next
    case (Cons x xs)
    have ld: "load_slot (hlist_add_behind n p h) s = load_slot h s"
      using Cons.prems(4) by (cases s) (auto simp: hlist_add_behind_def Let_def split: option.splits)
    have y: "hnext h p = (case ys of [] \<Rightarrow> None | y # _ \<Rightarrow> Some y)"
      using hseg_split [of h s "x # xs" p ys] Cons.prems(1) by simp
    have "pprev (hlist_add_behind n p h) x = pprev h x"
      using Cons.prems y by (cases ys) (auto simp: hlist_add_behind_def Let_def)
    with Cons ld show ?case by auto
  qed
  then show ?thesis using assms by (auto simp: is_hlist_def)
qed

lemma hlist_add_before_seg:
  assumes "hseg h s (xs @ m # ys)" "distinct (xs @ m # ys)" "n \<notin> set (xs @ m # ys)"
    "\<And>x. s = HNext x \<Longrightarrow> x \<notin> set (n # xs @ m # ys)" "\<And>u. s \<noteq> HWild u"
  shows "\<exists>h'. hlist_add_before n m h = Some h' \<and> hseg h' s (xs @ n # m # ys) \<and>
    (\<forall>b. HFirst b \<noteq> s \<longrightarrow> hfirst h' b = hfirst h b) \<and>
    (\<forall>x. HNext x \<noteq> s \<longrightarrow> x \<notin> set (n # xs @ m # ys) \<longrightarrow> hnext h' x = hnext h x) \<and>
    (\<forall>x. x \<noteq> n \<longrightarrow> x \<noteq> m \<longrightarrow> pprev h' x = pprev h x)"
  using assms
proof (induction xs arbitrary: s)
  case Nil
  let ?h = "set_pprev m (Some (HNext n)) (set_hnext n (Some m) (set_pprev n (Some s) h))"
  from Nil obtain h1 where h1: "store_slot (Some s) (Some n) ?h = Some h1" by (cases s) auto
  have eff: "pprev h1 = pprev ?h" "load_slot h1 s = Some n"
    "\<And>x. HNext x \<noteq> s \<Longrightarrow> hnext h1 x = hnext ?h x" "\<And>b. HFirst b \<noteq> s \<Longrightarrow> hfirst h1 b = hfirst h b"
    using h1 by (cases s; auto)+
  have r: "hlist_add_before n m h = Some h1" using Nil.prems(1,3) h1 by (auto simp: hlist_add_before_def Let_def)
  have keep: "hnext h1 x = hnext ?h x" if "x \<in> set (n # m # ys)" for x
    using eff(3) [of x] Nil.prems(4) [of x] that by fastforce
  have "hseg h1 (HNext m) ys"
    by (rule hseg_frame [of h]) (use Nil.prems eff(1) keep in auto)
  with r eff keep [of n] Nil.prems show ?case by auto
next
  case (Cons x xs)
  then have "hseg h (HNext x) (xs @ m # ys)" "x \<notin> set (n # xs @ m # ys)" "distinct (xs @ m # ys)"
    "n \<notin> set (xs @ m # ys)" by auto
  with Cons.IH [of "HNext x"] obtain h' where h': "hlist_add_before n m h = Some h'"
    "hseg h' (HNext x) (xs @ n # m # ys)" "\<forall>b. hfirst h' b = hfirst h b"
    "\<forall>z. z \<noteq> x \<longrightarrow> z \<notin> set (n # xs @ m # ys) \<longrightarrow> hnext h' z = hnext h z"
    "\<forall>z. z \<noteq> n \<longrightarrow> z \<noteq> m \<longrightarrow> pprev h' z = pprev h z" by auto
  have "load_slot h' s = load_slot h s"
    using Cons.prems(4) h'(3,4) by (cases s) auto
  with Cons.prems h' show ?case by auto
qed

lemma hlist_add_before_chain:
  assumes "is_hlist h a (xs @ m # ys)" "n \<notin> set (xs @ m # ys)"
  shows "\<exists>h'. hlist_add_before n m h = Some h' \<and> is_hlist h' a (xs @ n # m # ys)"
  using hlist_add_before_seg [of h "HFirst a" xs m ys n] assms by (auto simp: is_hlist_def)

lemma hlist_move_list_chain:
  assumes "is_hlist h old xs" "old \<noteq> new"
  shows "is_hlist (hlist_move_list old new h) new xs" "is_hlist (hlist_move_list old new h) old []"
proof -
  show "is_hlist (hlist_move_list old new h) new xs"
  proof (cases xs)
    case (Cons y ys)
    have "hseg (hlist_move_list old new h) (HNext y) ys"
      by (rule hseg_frame [of h]) (use assms Cons in \<open>auto simp: is_hlist_def hlist_move_list_def Let_def\<close>)
    with assms Cons show ?thesis by (auto simp: is_hlist_def hlist_move_list_def Let_def)
  qed (use assms in \<open>auto simp: is_hlist_def hlist_move_list_def Let_def\<close>)
qed (simp add: is_hlist_def hlist_move_list_def Let_def)

end
