(* ===== verification/Hash_Index.thy ===== *)
theory Hash_Index
  imports Kernel_Hlist Obj_Records TTAS_Lock Meta_Alloc
begin

text \<open>
  The hash functions of the kernel headers (\<^verbatim>\<open>linux/hash.h\<close>, \<^verbatim>\<open>linux/jhash.h\<close>, \<open>rol32\<close> of
  \<^verbatim>\<open>linux/bitops.h\<close> under \<^verbatim>\<open>src/driver/src/user_space_kernel_def/include\<close>) and the volatile index from program
  identifiers to object headers, \<^verbatim>\<open>src/driver/src/hash_index.c\<close>, in its user-space variant on \<open>hlist\<close> chains.
  Each operation on a chain runs under the lock of the index, so that it is one step here.

  A key is the list of the bytes before its terminating zero. The allocation of a record is an argument:
  the address \<open>calloc\<close> returns, or \<open>None\<close>. The index is shown to be a map from keys to stacks of headers:
  an insertion pushes, a deletion pops, a lookup reads the top.
\<close>

unbundle bit_operations_syntax

subsection \<open>Hashing\<close>

definition GOLDEN_RATIO_32 :: u32 where "GOLDEN_RATIO_32 = 0x61C88647"
definition GOLDEN_RATIO_64 :: u64 where "GOLDEN_RATIO_64 = 0x61C8864680B583EB"

definition hash_32_generic :: "u32 \<Rightarrow> u32" where
  "hash_32_generic val = val * GOLDEN_RATIO_32"

definition hash_32 :: "u32 \<Rightarrow> nat \<Rightarrow> u32" where
  "hash_32 val bits = drop_bit (32 - bits) (hash_32_generic val)"

definition hash_64 :: "u64 \<Rightarrow> nat \<Rightarrow> u32" where
  "hash_64 val bits = ucast (drop_bit (64 - bits) (val * GOLDEN_RATIO_64))"

definition hash_long :: "u64 \<Rightarrow> nat \<Rightarrow> u32" where
  "hash_long val bits = hash_64 val bits"

definition hash_ptr :: "u64 \<Rightarrow> nat \<Rightarrow> u32" where
  "hash_ptr ptr bits = hash_long ptr bits"

definition hash32_ptr :: "u64 \<Rightarrow> u32" where
  "hash32_ptr ptr = ucast (ptr XOR drop_bit 32 ptr)"

definition rol32 :: "u32 \<Rightarrow> nat \<Rightarrow> u32" where
  "rol32 w shift = push_bit shift w OR drop_bit (unat ((- (word_of_nat shift :: u32)) AND 31)) w"

text \<open>Every line of the mixing is the same operation, with the three words in turn.\<close>

definition mix_line :: "nat \<Rightarrow> u32 \<times> u32 \<times> u32 \<Rightarrow> u32 \<times> u32 \<times> u32" where
  "mix_line s = (\<lambda>(a, b, c). let a = a - c; a = a XOR rol32 c s; c = c + b in (a, b, c))"

definition jhash_mix :: "u32 \<times> u32 \<times> u32 \<Rightarrow> u32 \<times> u32 \<times> u32" where
  "jhash_mix = (\<lambda>(a, b, c).
     let (a, b, c) = mix_line 4 (a, b, c);
         (b, c, a) = mix_line 6 (b, c, a);
         (c, a, b) = mix_line 8 (c, a, b);
         (a, b, c) = mix_line 16 (a, b, c);
         (b, c, a) = mix_line 19 (b, c, a);
         (c, a, b) = mix_line 4 (c, a, b)
     in (a, b, c))"

definition jhash_final :: "u32 \<times> u32 \<times> u32 \<Rightarrow> u32 \<times> u32 \<times> u32" where
  "jhash_final = (\<lambda>(a, b, c).
     let c = c XOR b; c = c - rol32 b 14;
         a = a XOR c; a = a - rol32 c 11;
         b = b XOR a; b = b - rol32 a 25;
         c = c XOR b; c = c - rol32 b 16;
         a = a XOR c; a = a - rol32 c 4;
         b = b XOR a; b = b - rol32 a 14;
         c = c XOR b; c = c - rol32 b 24
     in (a, b, c))"

definition JHASH_INITVAL :: u32 where "JHASH_INITVAL = 0xdeadbeef"

definition get_unaligned_cpu32 :: "u8 list \<Rightarrow> u32" where
  "get_unaligned_cpu32 k =
     ucast (k ! 0) OR push_bit 8 (ucast (k ! 1)) OR push_bit 16 (ucast (k ! 2)) OR push_bit 24 (ucast (k ! 3))"

text \<open>The cases of the last block fall through: every byte below the length is added at its place.\<close>

definition tail_byte :: "u8 list \<Rightarrow> nat \<Rightarrow> nat \<Rightarrow> u32" where
  "tail_byte k i shift = (if i < length k then push_bit shift (ucast (k ! i)) else 0)"

definition jhash_tail :: "u8 list \<Rightarrow> u32 \<times> u32 \<times> u32 \<Rightarrow> u32 \<times> u32 \<times> u32" where
  "jhash_tail k = (\<lambda>(a, b, c).
     if k = [] then (a, b, c)
     else
       let c = c + tail_byte k 11 24; c = c + tail_byte k 10 16; c = c + tail_byte k 9 8; c = c + tail_byte k 8 0;
           b = b + tail_byte k 7 24; b = b + tail_byte k 6 16; b = b + tail_byte k 5 8; b = b + tail_byte k 4 0;
           a = a + tail_byte k 3 24; a = a + tail_byte k 2 16; a = a + tail_byte k 1 8; a = a + tail_byte k 0 0
       in jhash_final (a, b, c))"

function jhash_loop :: "u8 list \<Rightarrow> u32 \<times> u32 \<times> u32 \<Rightarrow> u32 \<times> u32 \<times> u32" where
  "jhash_loop k abc =
     (if 12 < length k then
        let (a, b, c) = abc;
            a = a + get_unaligned_cpu32 k;
            b = b + get_unaligned_cpu32 (drop 4 k);
            c = c + get_unaligned_cpu32 (drop 8 k)
        in jhash_loop (drop 12 k) (jhash_mix (a, b, c))
      else jhash_tail k abc)"
  by pat_completeness auto
termination by (relation "measure (\<lambda>(k, abc). length k)") auto

declare jhash_loop.simps [simp del]

definition jhash :: "u8 list \<Rightarrow> u32 \<Rightarrow> u32" where
  "jhash key initval =
     (let i = JHASH_INITVAL + word_of_nat (length key) + initval; (a, b, c) = jhash_loop key (i, i, i) in c)"

definition jhash_nwords :: "u32 \<Rightarrow> u32 \<Rightarrow> u32 \<Rightarrow> u32 \<Rightarrow> u32" where
  "jhash_nwords a b c initval = (let (a, b, c) = jhash_final (a + initval, b + initval, c + initval) in c)"

definition jhash_3words :: "u32 \<Rightarrow> u32 \<Rightarrow> u32 \<Rightarrow> u32 \<Rightarrow> u32" where
  "jhash_3words a b c initval = jhash_nwords a b c (initval + JHASH_INITVAL + push_bit 2 3)"

definition jhash_2words :: "u32 \<Rightarrow> u32 \<Rightarrow> u32 \<Rightarrow> u32" where
  "jhash_2words a b initval = jhash_nwords a b 0 (initval + JHASH_INITVAL + push_bit 2 2)"

definition jhash_1word :: "u32 \<Rightarrow> u32 \<Rightarrow> u32" where
  "jhash_1word a initval = jhash_nwords a 0 0 (initval + JHASH_INITVAL + push_bit 2 1)"

definition word_at :: "u32 list \<Rightarrow> nat \<Rightarrow> u32" where
  "word_at k i = (if i < length k then k ! i else 0)"

function jhash2_loop :: "u32 list \<Rightarrow> u32 \<times> u32 \<times> u32 \<Rightarrow> u32 \<times> u32 \<times> u32" where
  "jhash2_loop k abc =
     (let (a, b, c) = abc in
      if 3 < length k then jhash2_loop (drop 3 k) (jhash_mix (a + k ! 0, b + k ! 1, c + k ! 2))
      else if k = [] then (a, b, c)
      else jhash_final (a + word_at k 0, b + word_at k 1, c + word_at k 2))"
  by pat_completeness auto
termination by (relation "measure (\<lambda>(k, abc). length k)") auto

declare jhash2_loop.simps [simp del]

definition jhash2 :: "u32 list \<Rightarrow> u32 \<Rightarrow> u32" where
  "jhash2 k initval =
     (let i = JHASH_INITVAL + push_bit 2 (word_of_nat (length k)) + initval; (a, b, c) = jhash2_loop k (i, i, i) in c)"

subsection \<open>The index\<close>

record shmem_index =
  idx_table :: "(nat, u64) hlinks"
  idx_size :: u32
  hash_seed :: u32
  rec_key :: "u64 \<Rightarrow> u8 list"
  rec_obj_hdr :: "u64 \<Rightarrow> u64"

definition index_buckets :: u32 where "index_buckets = 16 * 1024 div 8"

text \<open>\<open>table\<close> tells whether the array of buckets was allocated, \<open>rnd\<close> is the result of the random number
  generator: an error code or the seed.\<close>

definition init_shmem_index :: "bool \<Rightarrow> int + u32 \<Rightarrow> shmem_index \<Rightarrow> int \<times> shmem_index" where
  "init_shmem_index table rnd idx =
     (let idx = idx \<lparr>idx_size := index_buckets\<rparr>
      in if \<not> table then (- ENOMEM, idx)
         else
           let idx = idx \<lparr>idx_table := fold INIT_HLIST_HEAD [0..<unat (idx_size idx)] (idx_table idx)\<rparr>
           in case rnd of Inl ret \<Rightarrow> (ret, idx) | Inr seed \<Rightarrow> (0, idx \<lparr>hash_seed := seed\<rparr>))"

definition index_bucket :: "shmem_index \<Rightarrow> u8 list \<Rightarrow> nat" where
  "index_bucket idx key = unat (jhash key (hash_seed idx) mod idx_size idx)"

text \<open>The record is not checked for \<open>NULL\<close>, and the copy of the key is not limited to the field.\<close>

definition shmem_index_insert ::
  "u64 option \<Rightarrow> shmem_index \<Rightarrow> u8 list \<Rightarrow> u64 \<Rightarrow> shmem_index outcome" where
  "shmem_index_insert rec idx key obj_hdr =
     (let b = index_bucket idx key
      in case rec of
           None \<Rightarrow> Bug
         | Some r \<Rightarrow>
             let idx = idx \<lparr>rec_obj_hdr := (rec_obj_hdr idx) (r := obj_hdr)\<rparr>
             in if PROG_ID_SIZE < length key + 1 then Bug
                else
                  let idx = idx \<lparr>rec_key := (rec_key idx) (r := key)\<rparr>
                  in Done (idx \<lparr>idx_table := hlist_add_head r b (idx_table idx)\<rparr>))"

fun find_record :: "nat \<Rightarrow> u64 option \<Rightarrow> shmem_index \<Rightarrow> u8 list \<Rightarrow> u64 option outcome" where
  "find_record 0 cursor idx key = Blocked"
| "find_record (Suc k) None idx key = Done None"
| "find_record (Suc k) (Some r) idx key =
     (if rec_key idx r = key then Done (Some r) else find_record k (hnext (idx_table idx) r) idx key)"

definition shmem_index_del :: "nat \<Rightarrow> shmem_index \<Rightarrow> u8 list \<Rightarrow> (bool \<times> shmem_index) outcome" where
  "shmem_index_del k idx key =
     bind_outcome (find_record k (hfirst (idx_table idx) (index_bucket idx key)) idx key) (\<lambda>cursor.
       case cursor of
         None \<Rightarrow> Done (False, idx)
       | Some r \<Rightarrow>
           (case hlist_del r (idx_table idx) of
              None \<Rightarrow> Bug
            | Some t \<Rightarrow> Done (True, idx \<lparr>idx_table := t\<rparr>)))"

definition lookup_shmem_alloc_record :: "nat \<Rightarrow> shmem_index \<Rightarrow> u8 list \<Rightarrow> u64 option outcome" where
  "lookup_shmem_alloc_record k idx key =
     bind_outcome (find_record k (hfirst (idx_table idx) (index_bucket idx key)) idx key) (\<lambda>cursor.
       Done (map_option (rec_obj_hdr idx) cursor))"

text \<open>\<open>shmem_index_exit\<close> frees the records of every bucket; the result is the list of the calls to
  \<open>free\<close>.\<close>

fun index_exit_loop :: "nat \<Rightarrow> nat list \<Rightarrow> shmem_index \<Rightarrow> u64 list option" where
  "index_exit_loop k [] idx = Some []"
| "index_exit_loop k (i # is) idx =
     (case hlist_for_each k i (idx_table idx) of
        None \<Rightarrow> None
      | Some rs \<Rightarrow> map_option ((@) rs) (index_exit_loop k is idx))"

definition shmem_index_exit :: "nat \<Rightarrow> shmem_index \<Rightarrow> u64 list option" where
  "shmem_index_exit k idx = index_exit_loop k [0..<unat (idx_size idx)] idx"

subsection \<open>Facts on the hash functions\<close>

text \<open>The inverse of one line and of the mixing.\<close>

definition unmix_line :: "nat \<Rightarrow> u32 \<times> u32 \<times> u32 \<Rightarrow> u32 \<times> u32 \<times> u32" where
  "unmix_line s = (\<lambda>(a, b, c). let c = c - b; a = a XOR rol32 c s; a = a + c in (a, b, c))"

definition jhash_unmix :: "u32 \<times> u32 \<times> u32 \<Rightarrow> u32 \<times> u32 \<times> u32" where
  "jhash_unmix = (\<lambda>(a, b, c).
     let (c, a, b) = unmix_line 4 (c, a, b);
         (b, c, a) = unmix_line 19 (b, c, a);
         (a, b, c) = unmix_line 16 (a, b, c);
         (c, a, b) = unmix_line 8 (c, a, b);
         (b, c, a) = unmix_line 6 (b, c, a);
         (a, b, c) = unmix_line 4 (a, b, c)
     in (a, b, c))"

lemma xor_cancel: "(x XOR y) XOR y = (x :: 'a::len word)"
  by (simp add: xor.assoc)

lemma mix_line_inverse: "unmix_line s t = u \<longleftrightarrow> t = mix_line s u"
  by (cases t; cases u) (auto simp: mix_line_def unmix_line_def Let_def xor_cancel)

lemma unmix_lineI: "mix_line s u = t \<Longrightarrow> unmix_line s t = u"
  by (simp add: mix_line_inverse)

lemma jhash_unmix_mix: "jhash_unmix (jhash_mix abc) = abc"
proof (cases abc)
  case (fields a b c)
  obtain a1 b1 c1 where l1: "mix_line 4 (a, b, c) = (a1, b1, c1)" by (rule prod_cases3)
  obtain b2 c2 a2 where l2: "mix_line 6 (b1, c1, a1) = (b2, c2, a2)" by (rule prod_cases3)
  obtain c3 a3 b3 where l3: "mix_line 8 (c2, a2, b2) = (c3, a3, b3)" by (rule prod_cases3)
  obtain a4 b4 c4 where l4: "mix_line 16 (a3, b3, c3) = (a4, b4, c4)" by (rule prod_cases3)
  obtain b5 c5 a5 where l5: "mix_line 19 (b4, c4, a4) = (b5, c5, a5)" by (rule prod_cases3)
  obtain c6 a6 b6 where l6: "mix_line 4 (c5, a5, b5) = (c6, a6, b6)" by (rule prod_cases3)
  note ls = l1 l2 l3 l4 l5 l6
  show ?thesis by (simp add: fields jhash_mix_def jhash_unmix_def ls ls [THEN unmix_lineI])
qed

lemma hash_long_bound: "bits \<le> 32 \<Longrightarrow> unat (hash_long v bits) < 2 ^ bits"
proof -
  assume b: "bits \<le> 32"
  have "unat (drop_bit (64 - bits) (v * GOLDEN_RATIO_64)) = unat (v * GOLDEN_RATIO_64) div 2 ^ (64 - bits)"
    by (simp only: unat_drop_bit_eq) (simp add: drop_bit_eq_div)
  also have "\<dots> < 2 ^ bits"
  proof -
    have "unat (v * GOLDEN_RATIO_64) < 2 ^ 64" using unsigned_less [of "v * GOLDEN_RATIO_64"] by simp
    also have "(2::nat) ^ 64 = 2 ^ (64 - bits) * 2 ^ bits" using b by (simp flip: power_add)
    finally show ?thesis by (simp add: less_mult_imp_div_less mult.commute)
  qed
  finally have l: "unat (drop_bit (64 - bits) (v * GOLDEN_RATIO_64)) < 2 ^ bits" .
  have "unat (hash_long v bits) \<le> unat (drop_bit (64 - bits) (v * GOLDEN_RATIO_64))"
    by (simp add: hash_long_def hash_64_def unsigned_ucast_eq take_bit_nat_less_eq_self)
  with l show ?thesis by simp
qed

subsection \<open>The index as a map to stacks\<close>

text \<open>\<open>index_holds idx U S\<close>: the chains are well formed and disjoint, \<open>U\<close> is the set of their records, and
  the headers stored under a key, newest first, are \<open>S key\<close>.\<close>

definition index_ok :: "shmem_index \<Rightarrow> (nat \<Rightarrow> u64 list) \<Rightarrow> bool" where
  "index_ok idx cs \<longleftrightarrow> idx_size idx \<noteq> 0 \<and> (\<forall>b<unat (idx_size idx). is_hlist (idx_table idx) b (cs b)) \<and>
     (\<forall>b<unat (idx_size idx). \<forall>c<unat (idx_size idx). b \<noteq> c \<longrightarrow> set (cs b) \<inter> set (cs c) = {})"

definition index_used :: "shmem_index \<Rightarrow> (nat \<Rightarrow> u64 list) \<Rightarrow> u64 set" where
  "index_used idx cs = (\<Union>b\<in>{..<unat (idx_size idx)}. set (cs b))"

definition index_stack :: "shmem_index \<Rightarrow> (nat \<Rightarrow> u64 list) \<Rightarrow> u8 list \<Rightarrow> u64 list" where
  "index_stack idx cs key = map (rec_obj_hdr idx) (filter (\<lambda>r. rec_key idx r = key) (cs (index_bucket idx key)))"

definition index_holds :: "shmem_index \<Rightarrow> u64 set \<Rightarrow> (u8 list \<Rightarrow> u64 list) \<Rightarrow> bool" where
  "index_holds idx U S \<longleftrightarrow> (\<exists>cs. index_ok idx cs \<and> U = index_used idx cs \<and> S = index_stack idx cs)"

lemma index_bucket_less: "idx_size idx \<noteq> 0 \<Longrightarrow> index_bucket idx key < unat (idx_size idx)"
  by (simp add: index_bucket_def unat_mod_distrib unat_gt_0)

lemma find_record_seg:
  assumes "hseg (idx_table idx) s rs" "length rs < k"
  shows "find_record k (load_slot (idx_table idx) s) idx key = Done (find (\<lambda>r. rec_key idx r = key) rs)"
  using assms
proof (induction rs arbitrary: s k)
  case Nil
  then show ?case by (cases k) auto
next
  case (Cons r rs)
  then obtain j where j: "k = Suc j" "length rs < j" by (cases k) auto
  with Cons.prems Cons.IH [of "HNext r" j] show ?case by auto
qed

lemma chain_short:
  assumes "index_ok idx cs" "b < unat (idx_size idx)"
  shows "length (cs b) \<le> card (index_used idx cs)"
proof -
  have "distinct (cs b)" using assms by (auto simp: index_ok_def is_hlist_def)
  then have "length (cs b) = card (set (cs b))" by (simp add: distinct_card)
  also have "\<dots> \<le> card (index_used idx cs)"
    by (rule card_mono) (use assms(2) in \<open>auto simp: index_used_def\<close>)
  finally show ?thesis .
qed

lemma find_record_index:
  assumes "index_ok idx cs" "card (index_used idx cs) < k"
  shows "find_record k (hfirst (idx_table idx) (index_bucket idx key)) idx key =
    Done (find (\<lambda>r. rec_key idx r = key) (cs (index_bucket idx key)))"
proof -
  have b: "index_bucket idx key < unat (idx_size idx)" using assms by (simp add: index_ok_def index_bucket_less)
  with assms have "hseg (idx_table idx) (HFirst (index_bucket idx key)) (cs (index_bucket idx key))"
    by (simp add: index_ok_def is_hlist_def)
  from find_record_seg [OF this] chain_short [OF assms(1) b] assms(2) show ?thesis by simp
qed

lemma find_filter: "find P xs = (case filter P xs of [] \<Rightarrow> None | x # _ \<Rightarrow> Some x)"
  by (induction xs) auto

lemma init_shmem_index_holds:
  "index_holds (snd (init_shmem_index True (Inr seed) idx)) {} (\<lambda>_. [])"
proof -
  have h: "b \<in> set bs \<Longrightarrow> is_hlist (fold INIT_HLIST_HEAD bs t) b []" for b bs and t :: "(nat, u64) hlinks"
  proof (induction bs arbitrary: t rule: rev_induct)
    case (snoc c bs)
    then show ?case by (cases "b = c") (auto simp: INIT_HLIST_HEAD_def is_hlist_def)
  qed simp
  let ?idx = "snd (init_shmem_index True (Inr seed) idx)"
  have "index_ok ?idx (\<lambda>_. [])"
    by (auto simp: index_ok_def init_shmem_index_def index_buckets_def intro!: h)
  then show ?thesis
    by (auto simp: index_holds_def index_used_def index_stack_def fun_eq_iff intro!: exI [of _ "\<lambda>_. []"])
qed

lemma insert_index:
  assumes "index_ok idx cs" "r \<notin> index_used idx cs" "length key < PROG_ID_SIZE"
  shows "\<exists>idx'. shmem_index_insert (Some r) idx key hdr = Done idx' \<and>
    index_holds idx' (insert r (index_used idx cs)) ((index_stack idx cs) (key := hdr # index_stack idx cs key))"
proof -
  let ?b = "index_bucket idx key"
  define idx' where "idx' = idx \<lparr>rec_obj_hdr := (rec_obj_hdr idx) (r := hdr), rec_key := (rec_key idx) (r := key),
    idx_table := hlist_add_head r ?b (idx_table idx)\<rparr>"
  let ?cs = "cs (?b := r # cs ?b)"
  have b: "?b < unat (idx_size idx)" using assms by (simp add: index_ok_def index_bucket_less)
  have r: "r \<notin> set (cs c)" if "c < unat (idx_size idx)" for c using assms(2) that by (auto simp: index_used_def)
  have e: "shmem_index_insert (Some r) idx key hdr = Done idx'"
    using assms(3) by (simp add: shmem_index_insert_def idx'_def Let_def)
  have s [simp]: "idx_size idx' = idx_size idx" "index_bucket idx' = index_bucket idx"
    by (auto simp: idx'_def index_bucket_def)
  have "is_hlist (idx_table idx') c (?cs c)" if c: "c < unat (idx_size idx)" for c
  proof (cases "c = ?b")
    case True
    then show ?thesis using assms(1) b r [OF b] by (simp add: idx'_def index_ok_def hlist_add_head_chain)
  next
    case False
    have "is_hlist (hlist_add_head r ?b (idx_table idx)) c (cs c)"
      by (rule hlist_add_head_other [of _ c "cs c" ?b "cs ?b"])
         (use assms(1) b c False r in \<open>auto simp: index_ok_def\<close>)
    then show ?thesis using False by (simp add: idx'_def)
  qed
  then have ok: "index_ok idx' ?cs" using assms(1) b r by (auto simp: index_ok_def)
  have u: "index_used idx' ?cs = insert r (index_used idx cs)" using b by (auto simp: index_used_def split: if_splits)
  have "index_stack idx' ?cs = (index_stack idx cs) (key := hdr # index_stack idx cs key)"
  proof
    fix k
    have c: "r \<notin> set (cs (index_bucket idx k))"
      using r assms(1) by (simp add: index_ok_def index_bucket_less)
    then have f: "filter (\<lambda>x. rec_key idx' x = k) (cs (index_bucket idx k)) = filter (\<lambda>x. rec_key idx x = k) (cs (index_bucket idx k))"
      "map (rec_obj_hdr idx') (filter P (cs (index_bucket idx k))) = map (rec_obj_hdr idx) (filter P (cs (index_bucket idx k)))" for P
      by (auto simp: idx'_def intro!: filter_cong)
    have kr: "rec_key idx' r = key" "rec_obj_hdr idx' r = hdr" by (simp_all add: idx'_def)
    show "index_stack idx' ?cs k = ((index_stack idx cs) (key := hdr # index_stack idx cs key)) k"
      using f kr by (auto simp: index_stack_def)
  qed
  with ok u e show ?thesis by (auto simp: index_holds_def intro!: exI [of _ ?cs])
qed

lemma filter_find_split:
  assumes "find P xs = Some x"
  obtains as bs where "xs = as @ x # bs" "filter P xs = x # filter P bs" "filter P as = []" "P x"
proof -
  from assms obtain i where i: "i < length xs" "P (xs ! i)" "x = xs ! i" "\<forall>j<i. \<not> P (xs ! j)"
    by (auto simp: find_Some_iff)
  have "xs = take i xs @ x # drop (Suc i) xs" using i by (simp add: id_take_nth_drop)
  moreover have "filter P (take i xs) = []" using i by (auto simp: filter_empty_conv in_set_conv_nth)
  ultimately show ?thesis using that [of "take i xs" "drop (Suc i) xs"] i
    by (metis append_Nil filter.simps(2) filter_append)
qed

lemma del_index:
  assumes "index_ok idx cs" "card (index_used idx cs) < k"
  shows "\<exists>idx' U'. shmem_index_del k idx key = Done (index_stack idx cs key \<noteq> [], idx') \<and>
    index_holds idx' U' ((index_stack idx cs) (key := tl (index_stack idx cs key))) \<and> U' \<subseteq> index_used idx cs"
proof (cases "find (\<lambda>r. rec_key idx r = key) (cs (index_bucket idx key))")
  case None
  then have "index_stack idx cs key = []" by (auto simp: index_stack_def find_None_iff filter_empty_conv)
  moreover from this have "(index_stack idx cs) (key := tl (index_stack idx cs key)) = index_stack idx cs" by auto
  moreover have "index_holds idx (index_used idx cs) (index_stack idx cs)" using assms(1) by (auto simp: index_holds_def)
  ultimately show ?thesis using None assms by (auto simp: shmem_index_del_def find_record_index)
next
  case (Some r)
  let ?b = "index_bucket idx key"
  obtain as bs where c: "cs ?b = as @ r # bs"
    "filter (\<lambda>r. rec_key idx r = key) (cs ?b) = r # filter (\<lambda>r. rec_key idx r = key) bs"
    "filter (\<lambda>r. rec_key idx r = key) as = []" "rec_key idx r = key" using Some by (rule filter_find_split)
  have b: "?b < unat (idx_size idx)" using assms by (simp add: index_ok_def index_bucket_less)
  have hb: "is_hlist (idx_table idx) ?b (as @ r # bs)" using assms(1) b c(1) by (auto simp: index_ok_def)
  obtain t where t: "hlist_del r (idx_table idx) = Some t" "is_hlist t ?b (as @ bs)"
    "\<And>d zs. d \<noteq> ?b \<Longrightarrow> is_hlist (idx_table idx) d zs \<Longrightarrow> set zs \<inter> set (as @ r # bs) = {} \<Longrightarrow> is_hlist t d zs"
    by (rule hlist_del_chain [OF hb]) blast
  let ?idx = "idx \<lparr>idx_table := t\<rparr>"
  let ?cs = "cs (?b := as @ bs)"
  have s [simp]: "index_bucket ?idx = index_bucket idx" by (auto simp: index_bucket_def)
  have "is_hlist t d (?cs d)" if d: "d < unat (idx_size idx)" for d
  proof (cases "d = ?b")
    case False
    with assms(1) b d have "set (cs d) \<inter> set (cs ?b) = {}" unfolding index_ok_def by blast
    with False assms(1) d c(1) show ?thesis using t(3) [of d "cs d"] by (simp add: index_ok_def)
  qed (use t(2) in simp)
  moreover have sub: "set (?cs d) \<subseteq> set (cs d)" for d using c(1) by auto
  have "set (?cs d) \<inter> set (?cs e) = {}" if "d < unat (idx_size idx)" "e < unat (idx_size idx)" "d \<noteq> e" for d e
  proof -
    have "set (cs d) \<inter> set (cs e) = {}" using assms(1) that unfolding index_ok_def by blast
    with sub [of d] sub [of e] show ?thesis by blast
  qed
  ultimately have ok: "index_ok ?idx ?cs" using assms(1) by (simp add: index_ok_def)
  have u: "index_used ?idx ?cs \<subseteq> index_used idx cs" using c(1) by (auto simp: index_used_def split: if_splits)
  have "index_stack ?idx ?cs = (index_stack idx cs) (key := tl (index_stack idx cs key))"
    using c by (auto simp: index_stack_def fun_eq_iff)
  moreover have "shmem_index_del k idx key = Done (True, ?idx)"
    using Some t(1) by (simp add: shmem_index_del_def find_record_index [OF assms])
  moreover have "index_stack idx cs key \<noteq> []" using c by (simp add: index_stack_def)
  ultimately show ?thesis using ok u by (auto simp: index_holds_def intro!: exI [of _ ?cs])
qed

lemma lookup_index:
  assumes "index_ok idx cs" "card (index_used idx cs) < k"
  shows "lookup_shmem_alloc_record k idx key =
    Done (case index_stack idx cs key of [] \<Rightarrow> None | h # _ \<Rightarrow> Some h)"
  using assms
  by (auto simp: lookup_shmem_alloc_record_def find_record_index index_stack_def find_filter split: list.splits)

text \<open>C38: the index of allocated objects maps every program identifier to a stack of object headers. A
  lookup returns the header inserted last under the key and reports a miss exactly when there is none. An
  insertion of a key that fits its field, with a fresh record, pushes the header and leaves every other
  key alone, whether or not it hashes to the same bucket; a deletion pops it and tells whether there was
  one. All three return after at most one round more than there are records.\<close>

theorem index_maps_to_stacks:
  assumes "index_holds idx U S" "card U < k"
  shows "lookup_shmem_alloc_record k idx key = Done (case S key of [] \<Rightarrow> None | h # _ \<Rightarrow> Some h) \<and>
    (\<exists>idx' U'. shmem_index_del k idx key = Done (S key \<noteq> [], idx') \<and>
       index_holds idx' U' (S (key := tl (S key))) \<and> U' \<subseteq> U) \<and>
    (r \<notin> U \<and> length key < PROG_ID_SIZE \<longrightarrow>
       (\<exists>idx'. shmem_index_insert (Some r) idx key hdr = Done idx' \<and>
          index_holds idx' (insert r U) (S (key := hdr # S key))))"
proof -
  obtain cs where cs: "index_ok idx cs" "U = index_used idx cs" "S = index_stack idx cs"
    using assms(1) by (auto simp: index_holds_def)
  show ?thesis
    using lookup_index [of idx cs k key] del_index [of idx cs k key] insert_index [of idx cs r key hdr] assms(2) cs
    by blast
qed

definition empty_index :: shmem_index where
  "empty_index = \<lparr>idx_table = \<lparr>hfirst = \<lambda>_. None, hnext = \<lambda>_. None, pprev = \<lambda>_. None\<rparr>,
     idx_size = 0, hash_seed = 0, rec_key = \<lambda>_. [], rec_obj_hdr = \<lambda>_. 0\<rparr>"

theorem index_maps_to_stacks_witness:
  "\<exists>idx'. shmem_index_insert (Some 64) (snd (init_shmem_index True (Inr 7) empty_index)) [97, 98] 4096 = Done idx' \<and>
    index_holds idx' {64} ((\<lambda>_. []) ([97, 98] := [4096]))"
  using index_maps_to_stacks [of "snd (init_shmem_index True (Inr 7) empty_index)" "{}" "\<lambda>_. []" 1 "[97, 98]" 64 4096]
    init_shmem_index_holds by (simp add: PROG_ID_SIZE_def)

end
