(* ===== verification/Futex.thy ===== *)
theory Futex
  imports Plist_Props Hash_Index Circular_Queue Meta_Alloc
begin

text \<open>
  The futexes on shared memory, \<^verbatim>\<open>src/driver/src/cxl_futex_waitwake.c\<close> with \<^verbatim>\<open>cxl_futex.h\<close>, \<^verbatim>\<open>cxl_dev.h\<close> and the
  argument structures of \<^verbatim>\<open>uapi/vcxl_shm.h\<close>: a hash table of waiters, each bucket with a counter of waiters and
  a priority-sorted chain of \<open>vcxl_futex_q\<close> entries.

  The memory of all chains is one \<open>plist\<close> over the addresses \<open>faddr\<close>: the chain heads of the buckets and the
  list nodes of the entries. Sections under the lock of a bucket are single steps; what other processors do
  while a lock is awaited or a task sleeps is an argument, a change of the state. The wake queue, linked
  through the tasks by the scheduler, is the list of its tasks with a mark in every task that is on one.
  Walks along a chain are bounded by an argument, and \<open>None\<close> or \<open>Blocked\<close> is a walk or a wait that does not
  end within the bound.
\<close>

unbundle bit_operations_syntax

definition WAIT_TABLE_BITS :: nat where "WAIT_TABLE_BITS = 12"
definition WAIT_TABLE_SIZE :: nat where "WAIT_TABLE_SIZE = push_bit WAIT_TABLE_BITS 1"
definition MAX_RT_PRIO :: int where "MAX_RT_PRIO = 100"
definition NSEC_PER_SEC :: u32 where "NSEC_PER_SEC = 1000000000"
definition EAGAIN :: int where "EAGAIN = 11"
definition EFAULT :: int where "EFAULT = 14"
definition E2BIG :: int where "E2BIG = 7"
definition EADDRNOTAVAIL :: int where "EADDRNOTAVAIL = 99"
definition ETIMEDOUT :: int where "ETIMEDOUT = 110"
definition EVM_ID :: int where "EVM_ID = 142"
definition CXL_IVPCI_VECTOR_PROCESS_WAKE_TABLE_NEXT :: u16 where "CXL_IVPCI_VECTOR_PROCESS_WAKE_TABLE_NEXT = 1"
definition CXL_IVPCI_VECTOR_PROCESS_WAKE_TABLE_ALL :: u16 where "CXL_IVPCI_VECTOR_PROCESS_WAKE_TABLE_ALL = 2"

datatype wake_types = WAKE_NEXT | WAKE_ALL

record vcxl_cond_wait =
  cw_offset :: u64
  cw_waiter_arr_offset :: u64
  cw_wake_time_sec :: u64
  cw_value :: u64
  cw_wake_time_nsec :: u32
  cw_wait_type :: u8
  cw_wakes :: u32

record vcxl_cond_wake =
  wk_offset :: u64
  wk_arg :: u32

datatype faddr = Chain nat | Qlist u64

text \<open>\<open>q_lock_ptr\<close> names the bucket whose lock it points to. \<open>sleeping\<close> is the task state
  \<open>TASK_INTERRUPTIBLE\<close>, \<open>task_refs\<close> the reference count, \<open>wake_queued\<close> whether \<open>wake_q.next\<close> is set.
  \<open>words\<close> are the 64-bit words of the shared memory by offset, \<open>waiter_arr\<close> the counters of the waiting
  machines.\<close>

record futex_state =
  fx_lists :: "faddr plist"
  hb_waiters :: "nat \<Rightarrow> int"
  q_key :: "u64 \<Rightarrow> u64"
  q_task :: "u64 \<Rightarrow> u64"
  q_lock_ptr :: "u64 \<Rightarrow> nat option"
  sleeping :: "u64 \<Rightarrow> bool"
  task_refs :: "u64 \<Rightarrow> int"
  wake_queued :: "u64 \<Rightarrow> bool"
  fx_words :: "u64 \<Rightarrow> u64"
  waiter_arr :: "u64 \<Rightarrow> u16 \<Rightarrow> u32"

subsection \<open>Buckets and entries\<close>

definition cxl_proc_hashbucket :: "u64 \<Rightarrow> nat" where
  "cxl_proc_hashbucket offset = unat (hash_long offset WAIT_TABLE_BITS) mod WAIT_TABLE_SIZE"

definition vcxl_futex_hb_waiters_inc :: "nat \<Rightarrow> futex_state \<Rightarrow> futex_state" where
  "vcxl_futex_hb_waiters_inc hb s = s \<lparr>hb_waiters := (hb_waiters s) (hb := hb_waiters s hb + 1)\<rparr>"

definition vcxl_futex_hb_waiters_dec :: "nat \<Rightarrow> futex_state \<Rightarrow> futex_state" where
  "vcxl_futex_hb_waiters_dec hb s = s \<lparr>hb_waiters := (hb_waiters s) (hb := hb_waiters s hb - 1)\<rparr>"

definition vcxl_futex_hb_waiters_pending :: "nat \<Rightarrow> futex_state \<Rightarrow> int" where
  "vcxl_futex_hb_waiters_pending hb s = hb_waiters s hb"

text \<open>\<open>__vcxl_futex_unqueue\<close>, called with the lock of the bucket held.\<close>

definition vcxl_futex_unqueue_locked :: "u64 \<Rightarrow> futex_state \<Rightarrow> futex_state" where
  "vcxl_futex_unqueue_locked q s =
     (case q_lock_ptr s q of
        None \<Rightarrow> s
      | Some hb \<Rightarrow>
          if plist_node_empty (Qlist q) (fx_lists s) then s
          else vcxl_futex_hb_waiters_dec hb (s \<lparr>fx_lists := plist_del (Qlist q) (Chain hb) (fx_lists s)\<rparr>))"

text \<open>The first read of \<open>lock_ptr\<close> is not protected: before the lock is taken the state changes by the
  next element of \<open>es\<close>.\<close>

fun vcxl_futex_unqueue :: "(futex_state \<Rightarrow> futex_state) list \<Rightarrow> u64 \<Rightarrow> futex_state \<Rightarrow> (int \<times> futex_state) outcome" where
  "vcxl_futex_unqueue es q s =
     (case q_lock_ptr s q of
        None \<Rightarrow> Done (0, s)
      | Some lock_ptr \<Rightarrow>
          (case es of
             [] \<Rightarrow> Blocked
           | e # es' \<Rightarrow>
               let s = e s
               in if q_lock_ptr s q \<noteq> Some lock_ptr then vcxl_futex_unqueue es' q s
                  else Done (1, vcxl_futex_unqueue_locked q s)))"

declare vcxl_futex_unqueue.simps [simp del]

text \<open>\<open>__vcxl_futex_queue\<close>: \<open>current\<close> and its priority are arguments.\<close>

definition vcxl_futex_queue_locked :: "nat \<Rightarrow> u64 \<Rightarrow> int \<Rightarrow> u64 \<Rightarrow> nat \<Rightarrow> futex_state \<Rightarrow> futex_state option" where
  "vcxl_futex_queue_locked k current normal_prio q hb s =
     (let prio = min normal_prio MAX_RT_PRIO;
          p = plist_node_init (Qlist q) prio (fx_lists s)
      in map_option (\<lambda>p. s \<lparr>fx_lists := p, q_task := (q_task s) (q := current)\<rparr>) (plist_add k (Qlist q) (Chain hb) p))"

text \<open>The part of \<open>vcxl_futex_q_lock\<close> before the lock is taken, and \<open>vcxl_futex_q_unlock\<close>.\<close>

definition vcxl_futex_q_lock :: "u64 \<Rightarrow> futex_state \<Rightarrow> nat \<times> futex_state" where
  "vcxl_futex_q_lock q s =
     (let hb = cxl_proc_hashbucket (q_key s q);
          s = vcxl_futex_hb_waiters_inc hb s
      in (hb, s \<lparr>q_lock_ptr := (q_lock_ptr s) (q := Some hb)\<rparr>))"

definition vcxl_futex_q_unlock :: "nat \<Rightarrow> futex_state \<Rightarrow> futex_state" where
  "vcxl_futex_q_unlock hb s = vcxl_futex_hb_waiters_dec hb s"

subsection \<open>Waiting\<close>

text \<open>\<open>e\<close> is what happens until the lock is taken. A failure releases the lock again.\<close>

definition vcxl_futex_wait_setup ::
  "(futex_state \<Rightarrow> futex_state) \<Rightarrow> vcxl_cond_wait \<Rightarrow> u64 \<Rightarrow> futex_state \<Rightarrow> int \<times> nat \<times> futex_state" where
  "vcxl_futex_wait_setup e cond q s =
     (let s = s \<lparr>q_key := (q_key s) (q := cw_offset cond)\<rparr>;
          (hb, s) = vcxl_futex_q_lock q s;
          s = e s;
          uval = fx_words s (cw_offset cond)
      in if uval \<noteq> cw_value cond then (- EAGAIN, hb, vcxl_futex_q_unlock hb s) else (0, hb, s))"

text \<open>\<open>vcxl_futex_wait_queue\<close>: the entry is queued with the task already marked as sleeping, the lock is
  released, and \<open>e\<close> is what happens until the task runs again.\<close>

definition vcxl_futex_wait_queue ::
  "nat \<Rightarrow> u64 \<Rightarrow> int \<Rightarrow> (futex_state \<Rightarrow> futex_state) \<Rightarrow> nat \<Rightarrow> u64 \<Rightarrow> futex_state \<Rightarrow> futex_state option" where
  "vcxl_futex_wait_queue k current normal_prio e hb q s =
     (let s = s \<lparr>sleeping := (sleeping s) (current := True)\<rparr>
      in map_option (\<lambda>s. let s = e s in s \<lparr>sleeping := (sleeping s) (current := False)\<rparr>)
           (vcxl_futex_queue_locked k current normal_prio q hb s))"

text \<open>One round of the loop: what happens before the lock is taken, while the task sleeps and while it
  unqueues itself, and whether the timer has expired by then (\<open>to->task\<close> is null).\<close>

record wait_round =
  wr_lock :: "futex_state \<Rightarrow> futex_state"
  wr_sleep :: "futex_state \<Rightarrow> futex_state"
  wr_unqueue :: "(futex_state \<Rightarrow> futex_state) list"
  wr_expired :: bool

fun cond_wait_loop ::
  "nat \<Rightarrow> u64 \<Rightarrow> int \<Rightarrow> u16 \<Rightarrow> bool \<Rightarrow> u64 \<Rightarrow> wait_round list \<Rightarrow> vcxl_cond_wait \<Rightarrow> futex_state \<Rightarrow>
    (int \<times> vcxl_cond_wait \<times> futex_state) outcome" where
  "cond_wait_loop k current normal_prio machine_id to q [] cond s = Blocked"
| "cond_wait_loop k current normal_prio machine_id to q (r # rs) cond s =
     (let (ret, hb, s) = vcxl_futex_wait_setup (wr_lock r) cond q s
      in if ret \<noteq> 0 then Done (ret, cond, s)
         else
           let a = cw_waiter_arr_offset cond; i = machine_id - 1;
               s = s \<lparr>waiter_arr := (waiter_arr s) (a := (waiter_arr s a) (i := waiter_arr s a i + 1))\<rparr>
           in case vcxl_futex_wait_queue k current normal_prio (wr_sleep r) hb q s of
                None \<Rightarrow> Blocked
              | Some s \<Rightarrow>
                  bind_outcome (vcxl_futex_unqueue (wr_unqueue r) q s) (\<lambda>(was_queued, s).
                    if was_queued = 0 then Done (0, cond, s)
                    else if to \<and> wr_expired r then Done (- ETIMEDOUT, cond, s)
                    else cond_wait_loop k current normal_prio machine_id to q rs
                           (cond \<lparr>cw_wakes := cw_wakes cond + 1\<rparr>) s))"

text \<open>\<open>dev\<close> is the device the local variable \<open>ivpci_dev\<close> points to. The code never assigns it; the handler
  is the one it would be if it were the device of the caller.\<close>

definition handle_vcxl_cond_wait ::
  "nat \<Rightarrow> u64 \<Rightarrow> int \<Rightarrow> meta_dram \<Rightarrow> u64 \<Rightarrow> wait_round list \<Rightarrow> vcxl_cond_wait \<Rightarrow> futex_state \<Rightarrow>
    (int \<times> vcxl_cond_wait \<times> futex_state) outcome" where
  "handle_vcxl_cond_wait k current normal_prio dev q rs cond s =
     (if cw_offset cond AND (8 - 1) \<noteq> 0 then Done (- EADDRNOTAVAIL, cond, s)
      else if mem_length dev < unat (cw_offset cond + 8) then Done (- E2BIG, cond, s)
      else
        let waiting_type = cw_wait_type cond
        in if waiting_type \<noteq> 1 \<and> waiting_type \<noteq> 2 then Done (- EINVAL, cond, s)
           else if waiting_type = 2 \<and> NSEC_PER_SEC \<le> cw_wake_time_nsec cond then Done (- EINVAL, cond, s)
           else cond_wait_loop k current normal_prio (md_machine_id dev) (waiting_type = 2) q rs cond s)"

text \<open>\<open>in_ok\<close> and \<open>out_ok\<close> tell whether the copies from and to user space succeed.\<close>

definition do_vcxl_cond_wait ::
  "nat \<Rightarrow> u64 \<Rightarrow> int \<Rightarrow> meta_dram \<Rightarrow> u64 \<Rightarrow> wait_round list \<Rightarrow> bool \<Rightarrow> bool \<Rightarrow> vcxl_cond_wait \<Rightarrow> futex_state \<Rightarrow>
    (int \<times> vcxl_cond_wait \<times> futex_state) outcome" where
  "do_vcxl_cond_wait k current normal_prio dev q rs in_ok out_ok ucond s =
     (if \<not> in_ok then Done (- EFAULT, ucond, s)
      else
        bind_outcome (handle_vcxl_cond_wait k current normal_prio dev q rs (ucond \<lparr>cw_wakes := 0\<rparr>) s) (\<lambda>(rval, cond, s).
          if \<not> out_ok then Done (- EFAULT, ucond, s) else Done (rval, cond, s)))"

subsection \<open>Waking\<close>

definition wake_q_add :: "u64 list \<Rightarrow> u64 \<Rightarrow> futex_state \<Rightarrow> bool \<times> u64 list \<times> futex_state" where
  "wake_q_add head task s =
     (if wake_queued s task then (False, head, s)
      else (True, head @ [task], s \<lparr>wake_queued := (wake_queued s) (task := True)\<rparr>))"

definition get_task_struct :: "u64 \<Rightarrow> futex_state \<Rightarrow> futex_state" where
  "get_task_struct task s = s \<lparr>task_refs := (task_refs s) (task := task_refs s task + 1)\<rparr>"

definition put_task_struct :: "u64 \<Rightarrow> futex_state \<Rightarrow> futex_state" where
  "put_task_struct task s = s \<lparr>task_refs := (task_refs s) (task := task_refs s task - 1)\<rparr>"

definition vcxl_wake_q_add_safe :: "u64 list \<Rightarrow> u64 \<Rightarrow> futex_state \<Rightarrow> u64 list \<times> futex_state" where
  "vcxl_wake_q_add_safe head task s =
     (let (added, head, s) = wake_q_add head task s in (head, if \<not> added then put_task_struct task s else s))"

definition vcxl_futex_wake_mark :: "u64 list \<Rightarrow> u64 \<Rightarrow> futex_state \<Rightarrow> u64 list \<times> futex_state" where
  "vcxl_futex_wake_mark wake_q q s =
     (let task = q_task s q;
          s = get_task_struct task s;
          s = vcxl_futex_unqueue_locked q s;
          s = s \<lparr>q_lock_ptr := (q_lock_ptr s) (q := None)\<rparr>
      in vcxl_wake_q_add_safe wake_q task s)"

fun vcxl_wake_up_q :: "u64 list \<Rightarrow> futex_state \<Rightarrow> futex_state" where
  "vcxl_wake_up_q [] s = s"
| "vcxl_wake_up_q (task # head) s =
     (let s = s \<lparr>wake_queued := (wake_queued s) (task := False)\<rparr>;
          s = s \<lparr>sleeping := (sleeping s) (task := False)\<rparr>
      in vcxl_wake_up_q head (put_task_struct task s))"

text \<open>The walk of \<open>wake_proc\<close>, safe against the removal of the entry it stands at: \<open>nxt\<close> is read before
  the entry is handled.\<close>

fun wake_walk ::
  "nat \<Rightarrow> nat \<Rightarrow> u64 \<Rightarrow> wake_types \<Rightarrow> faddr \<Rightarrow> faddr \<Rightarrow> u64 list \<Rightarrow> futex_state \<Rightarrow> (u64 list \<times> futex_state) option" where
  "wake_walk 0 hb offset wt this nxt wake_q s = None"
| "wake_walk (Suc k) hb offset wt this nxt wake_q s =
     (case this of
        Chain c \<Rightarrow> if c = hb then Some (wake_q, s) else None
      | Qlist q \<Rightarrow>
          if q_key s q = offset then
            let (wake_q, s) = vcxl_futex_wake_mark wake_q q s
            in if wt = WAKE_NEXT then Some (wake_q, s)
               else wake_walk k hb offset wt nxt (plist_next nxt (fx_lists s)) wake_q s
          else wake_walk k hb offset wt nxt (plist_next nxt (fx_lists s)) wake_q s)"

definition wake_locked :: "nat \<Rightarrow> nat \<Rightarrow> u64 \<Rightarrow> wake_types \<Rightarrow> futex_state \<Rightarrow> (u64 list \<times> futex_state) option" where
  "wake_locked k hb offset wt s =
     (let this = plist_first (Chain hb) (fx_lists s)
      in wake_walk k hb offset wt this (plist_next this (fx_lists s)) [] s)"

definition wake_proc :: "nat \<Rightarrow> u64 \<Rightarrow> wake_types \<Rightarrow> futex_state \<Rightarrow> futex_state option" where
  "wake_proc k offset wt s =
     (let hb = cxl_proc_hashbucket offset
      in if vcxl_futex_hb_waiters_pending hb s = 0 then Some s
         else map_option (\<lambda>(wake_q, s). vcxl_wake_up_q wake_q s) (wake_locked k hb offset wt s))"

text \<open>The interrupt handlers take one offset from the queue of this machine.\<close>

definition vcxl_futex_wake ::
  "granularity \<Rightarrow> cpu \<Rightarrow> nat \<Rightarrow> meta_dram \<Rightarrow> env \<Rightarrow> wake_types \<Rightarrow> circular_queue \<Rightarrow> futex_state \<Rightarrow>
    (circular_queue \<times> futex_state) outcome" where
  "vcxl_futex_wake g c k md es wt cq s =
     (if self_vcxl_addr_queue md = 0 then Done (cq, s)
      else
        bind_outcome (circular_queue_dequeue g c (md_machine_id md) es cq) (\<lambda>(deq_ret, offset, cq).
          if deq_ret = -1 then Done (cq, s)
          else
            case offset of
              None \<Rightarrow> Bug
            | Some offset \<Rightarrow> (case wake_proc k offset wt s of None \<Rightarrow> Blocked | Some s \<Rightarrow> Done (cq, s))))"

definition vcxl_ivpci_interrupt_process_wake_table_next ::
  "granularity \<Rightarrow> cpu \<Rightarrow> nat \<Rightarrow> meta_dram option \<Rightarrow> env \<Rightarrow> circular_queue \<Rightarrow> futex_state \<Rightarrow>
    (bool \<times> circular_queue \<times> futex_state) outcome" where
  "vcxl_ivpci_interrupt_process_wake_table_next g c k dev es cq s =
     (case dev of
        None \<Rightarrow> Done (False, cq, s)
      | Some md \<Rightarrow> bind_outcome (vcxl_futex_wake g c k md es WAKE_NEXT cq s) (\<lambda>(cq, s). Done (True, cq, s)))"

definition vcxl_ivpci_interrupt_process_wake_table_all ::
  "granularity \<Rightarrow> cpu \<Rightarrow> nat \<Rightarrow> meta_dram option \<Rightarrow> env \<Rightarrow> circular_queue \<Rightarrow> futex_state \<Rightarrow>
    (bool \<times> circular_queue \<times> futex_state) outcome" where
  "vcxl_ivpci_interrupt_process_wake_table_all g c k dev es cq s =
     (case dev of
        None \<Rightarrow> Done (False, cq, s)
      | Some md \<Rightarrow> bind_outcome (vcxl_futex_wake g c k md es WAKE_ALL cq s) (\<lambda>(cq, s). Done (True, cq, s)))"

text \<open>Sending an offset to a peer repeats until the queue has room. Every attempt comes with what others
  did to the queue before it and to its lock during it.\<close>

fun enqueue_until_room ::
  "granularity \<Rightarrow> cpu \<Rightarrow> u16 \<Rightarrow> ((circular_queue \<Rightarrow> circular_queue) \<times> env) list \<Rightarrow> u64 \<Rightarrow> circular_queue \<Rightarrow> circular_queue outcome" where
  "enqueue_until_room g c ivposition [] dat cq = Blocked"
| "enqueue_until_room g c ivposition ((e, es) # rounds) dat cq =
     bind_outcome (circular_queue_enqueue g c ivposition es (e cq) dat) (\<lambda>(enq_ret, cq).
       if enq_ret = 0 then Done cq else enqueue_until_room g c ivposition rounds dat cq)"

text \<open>\<open>cq\<close> is the queue of the peer; the last component of the result is what is written to the doorbell
  register.\<close>

definition do_vcxl_wake ::
  "granularity \<Rightarrow> cpu \<Rightarrow> nat \<Rightarrow> meta_dram \<Rightarrow> ((circular_queue \<Rightarrow> circular_queue) \<times> env) list \<Rightarrow> bool \<Rightarrow>
    vcxl_cond_wake \<Rightarrow> circular_queue \<Rightarrow> futex_state \<Rightarrow> (int \<times> circular_queue \<times> futex_state \<times> u32 option) outcome" where
  "do_vcxl_wake g c k md rounds in_ok wake cq s =
     (if \<not> in_ok then Done (- EFAULT, cq, s, None)
      else
        let vector = ucast (wk_arg wake AND 0xffff) :: u16;
            ivposition = ucast (drop_bit 16 (wk_arg wake AND 0xffff0000)) :: u16;
            wt = (if vector = CXL_IVPCI_VECTOR_PROCESS_WAKE_TABLE_ALL then Some WAKE_ALL
                  else if vector = CXL_IVPCI_VECTOR_PROCESS_WAKE_TABLE_NEXT then Some WAKE_NEXT else None)
        in case wt of
             None \<Rightarrow> Done (- EINVAL, cq, s, None)
           | Some wt \<Rightarrow>
               if ivposition = md_machine_id md then
                 (case wake_proc k (wk_offset wake) wt s of None \<Rightarrow> Blocked | Some s \<Rightarrow> Done (0, cq, s, None))
               else if peer_vcxl_addr_queue md ivposition = 0 then Done (- EVM_ID, cq, s, None)
               else
                 bind_outcome (enqueue_until_room g c ivposition rounds (wk_offset wake) cq) (\<lambda>cq.
                   Done (0, cq, s, Some (wk_arg wake AND 0xffffffff))))"

subsection \<open>Contents of the table\<close>

text \<open>\<open>fx_ok s qs\<close>: the chain of every bucket \<open>b\<close> holds the entries \<open>qs b\<close> in the order of their priorities, no
  entry is on two chains, every entry on a chain points to the lock of its bucket and hashes to it, and the
  counter of the bucket is at least the length of its chain.\<close>

definition fx_ok :: "futex_state \<Rightarrow> (nat \<Rightarrow> u64 list) \<Rightarrow> bool" where
  "fx_ok s qs \<longleftrightarrow>
     (\<forall>b. plist_ok (fx_lists s) (Chain b) (map Qlist (qs b))) \<and>
     (\<forall>b c. b \<noteq> c \<longrightarrow> set (qs b) \<inter> set (qs c) = {}) \<and>
     (\<forall>b. \<forall>q\<in>set (qs b). q_lock_ptr s q = Some b \<and> cxl_proc_hashbucket (q_key s q) = b) \<and>
     (\<forall>b. int (length (qs b)) \<le> hb_waiters s b)"

definition woken :: "wake_types \<Rightarrow> u64 \<Rightarrow> futex_state \<Rightarrow> u64 list \<Rightarrow> u64 list" where
  "woken wt offset s qs =
     (let same = filter (\<lambda>q. q_key s q = offset) qs in case wt of WAKE_NEXT \<Rightarrow> take 1 same | WAKE_ALL \<Rightarrow> same)"

lemma cxl_proc_hashbucket_less: "cxl_proc_hashbucket offset < WAIT_TABLE_SIZE"
  by (simp add: cxl_proc_hashbucket_def WAIT_TABLE_SIZE_def)

text \<open>The fields that \<open>fx_ok\<close> reads.\<close>

lemma fx_ok_cong:
  assumes "fx_ok s qs" "fx_lists t = fx_lists s" "hb_waiters t = hb_waiters s" "q_key t = q_key s"
    and "\<And>b q. q \<in> set (qs b) \<Longrightarrow> q_lock_ptr t q = q_lock_ptr s q"
  shows "fx_ok t qs"
  using assms by (simp add: fx_ok_def)

lemma queued_not_empty:
  assumes "plist_ok p head (as @ n # bs)"
  shows "\<not> plist_node_empty n p"
proof -
  have "is_list (node_list p) head (as @ n # bs)" using assms by (simp add: plist_ok_def)
  from is_list_empty [OF is_list_rotate1 [OF this]] show ?thesis by (simp add: plist_node_empty_def)
qed

text \<open>Taking an entry off its chain.\<close>

lemma unqueue_locked_ok:
  assumes "fx_ok s qs" "qs b = as @ q # bs"
  defines "s' \<equiv> vcxl_futex_unqueue_locked q s"
  shows "fx_ok s' (qs (b := as @ bs))" "plist_free (fx_lists s') (Qlist q)"
    "s' = s \<lparr>fx_lists := fx_lists s', hb_waiters := (hb_waiters s) (b := hb_waiters s b - 1)\<rparr>"
proof -
  let ?p = "fx_lists s" and ?p' = "plist_del (Qlist q) (Chain b) (fx_lists s)"
  have ok: "plist_ok ?p (Chain b) (map Qlist as @ Qlist q # map Qlist bs)"
    using assms(1,2) by (metis fx_ok_def list.simps(9) map_append)
  have lp: "q_lock_ptr s q = Some b" using assms(1,2) unfolding fx_ok_def by (metis in_set_conv_decomp)
  have e: "s' = s \<lparr>fx_lists := ?p', hb_waiters := (hb_waiters s) (b := hb_waiters s b - 1)\<rparr>"
    using lp queued_not_empty [OF ok]
    by (simp add: s'_def vcxl_futex_unqueue_locked_def vcxl_futex_hb_waiters_dec_def)
  then show "s' = s \<lparr>fx_lists := fx_lists s', hb_waiters := (hb_waiters s) (b := hb_waiters s b - 1)\<rparr>" by simp
  note del = plist_del_contents [OF ok]
  show "plist_free (fx_lists s') (Qlist q)" using del(2) e by simp
  have "plist_ok ?p' (Chain c) (map Qlist ((qs (b := as @ bs)) c))" for c
  proof (cases "c = b")
    case False
    have "set (qs b) \<inter> set (qs c) = {}" using assms(1) False unfolding fx_ok_def by blast
    then have "insert (Chain c) (set (map Qlist (qs c))) \<subseteq> - insert (Chain b) (set (map Qlist as @ Qlist q # map Qlist bs))"
      using False assms(2) by auto
    with del(3) have "plist_same ?p ?p' (insert (Chain c) (set (map Qlist (qs c))))"
      unfolding plist_same_def same_links_def by blast
    moreover have "plist_ok ?p (Chain c) (map Qlist (qs c))" using assms(1) by (simp add: fx_ok_def)
    ultimately have "plist_ok ?p' (Chain c) (map Qlist (qs c))" by (rule plist_same_ok [rotated])
    then show ?thesis using False by simp
  qed (use del(1) in simp)
  moreover have "set ((qs (b := as @ bs)) c) \<subseteq> set (qs c)" for c using assms(2) by auto
  moreover have "int (length ((qs (b := as @ bs)) c)) \<le> ((hb_waiters s) (b := hb_waiters s b - 1)) c" for c
    using assms(1,2) unfolding fx_ok_def by (cases "c = b") (auto dest: spec [of _ b])
  ultimately show "fx_ok s' (qs (b := as @ bs))"
    using assms(1) unfolding e fx_ok_def by (simp del: fun_upd_apply) (meson disjoint_iff subsetD)
qed

subsection \<open>The wake queue\<close>

text \<open>The state \<open>s\<close> differs from \<open>s0\<close> by the tasks \<open>wq\<close> put on the wake queue, each with a reference.\<close>

definition wq_rel :: "futex_state \<Rightarrow> u64 list \<Rightarrow> futex_state \<Rightarrow> bool" where
  "wq_rel s0 wq s \<longleftrightarrow> distinct wq \<and> (\<forall>t\<in>set wq. \<not> wake_queued s0 t) \<and>
     wake_queued s = (\<lambda>t. wake_queued s0 t \<or> t \<in> set wq) \<and>
     task_refs s = (\<lambda>t. task_refs s0 t + (if t \<in> set wq then 1 else 0)) \<and> sleeping s = sleeping s0"

lemma wake_up_q_effect:
  assumes "wq_rel s0 wq s"
  shows "vcxl_wake_up_q wq s =
    s \<lparr>wake_queued := wake_queued s0, task_refs := task_refs s0, sleeping := (\<lambda>t. sleeping s0 t \<and> t \<notin> set wq)\<rparr>"
proof -
  have *: "vcxl_wake_up_q wq s = s \<lparr>wake_queued := (\<lambda>t. wake_queued s t \<and> t \<notin> set wq),
      task_refs := (\<lambda>t. task_refs s t - (if t \<in> set wq then 1 else 0)), sleeping := (\<lambda>t. sleeping s t \<and> t \<notin> set wq)\<rparr>"
    if "distinct wq" for s
    using that
  proof (induction wq arbitrary: s)
    case (Cons t wq)
    show ?case
      by (auto simp: Cons.IH [OF distinct.simps(2) [THEN iffD1, OF Cons.prems, THEN conjunct2]] put_task_struct_def
          Let_def fun_eq_iff intro!: futex_state.equality)
         (use Cons.prems in auto)
  qed simp
  have "distinct wq" using assms by (simp add: wq_rel_def)
  from * [OF this] assms show ?thesis
    by (auto simp: wq_rel_def fun_eq_iff intro!: futex_state.equality)
qed

lemma wake_mark_effect:
  assumes "fx_ok s qs" "qs b = as @ q # bs" "vcxl_futex_wake_mark wq q s = (wq', s')"
  shows "fx_ok s' (qs (b := as @ bs))" "q_lock_ptr s' = (q_lock_ptr s) (q := None)"
    "hb_waiters s' = (hb_waiters s) (b := hb_waiters s b - 1)" "q_key s' = q_key s" "q_task s' = q_task s"
    "fx_words s' = fx_words s" "plist_free (fx_lists s') (Qlist q)"
    "wq_rel s0 wq s \<Longrightarrow> wq_rel s0 wq' s' \<and> set wq' = set wq \<union> ({q_task s q} - {t. wake_queued s0 t})"
proof -
  let ?g = "get_task_struct (q_task s q) s"
  define u where "u = vcxl_futex_unqueue_locked q ?g"
  define v where "v = u \<lparr>q_lock_ptr := (q_lock_ptr u) (q := None)\<rparr>"
  have "fx_ok ?g qs" by (rule fx_ok_cong [OF assms(1)]) (simp_all add: get_task_struct_def)
  note un = unqueue_locked_ok [OF this assms(2), folded u_def]
  have q: "q \<notin> set ((qs (b := as @ bs)) c)" for c
  proof (cases "c = b")
    case True
    have "distinct (map Qlist (as @ q # bs))"
      using assms(1,2) by (metis distinct.simps(2) fx_ok_def is_list_def plist_ok_def)
    then show ?thesis using True by auto
  next
    case False
    then show ?thesis using assms(1,2) unfolding fx_ok_def by (auto dest: spec [of _ b])
  qed
  have vok: "fx_ok v (qs (b := as @ bs))"
  proof (rule fx_ok_cong [OF un(1)])
    fix c x assume "x \<in> set ((qs (b := as @ bs)) c)"
    then have "x \<noteq> q" using q [of c] by blast
    then show "q_lock_ptr v x = q_lock_ptr u x" by (simp add: v_def)
  qed (simp_all add: v_def)
  have r: "vcxl_wake_q_add_safe wq (q_task s q) v = (wq', s')"
    using assms(3) by (simp add: vcxl_futex_wake_mark_def Let_def u_def v_def)
  have sv: "s' = v \<lparr>wake_queued := wake_queued s', task_refs := task_refs s'\<rparr>"
    using r by (auto simp: vcxl_wake_q_add_safe_def wake_q_add_def put_task_struct_def split: if_splits)
  show "fx_ok s' (qs (b := as @ bs))"
    by (rule fx_ok_cong [OF vok]; subst sv; simp)
  have fu: "q_lock_ptr u = q_lock_ptr s" "hb_waiters u = (hb_waiters s) (b := hb_waiters s b - 1)"
    "q_key u = q_key s" "q_task u = q_task s" "fx_words u = fx_words s" "sleeping u = sleeping s"
    "task_refs u = task_refs ?g" "wake_queued u = wake_queued s"
    by (subst un(3), simp add: get_task_struct_def)+
  show "q_lock_ptr s' = (q_lock_ptr s) (q := None)" "hb_waiters s' = (hb_waiters s) (b := hb_waiters s b - 1)"
    "q_key s' = q_key s" "q_task s' = q_task s" "fx_words s' = fx_words s" "plist_free (fx_lists s') (Qlist q)"
    using un(2) by (subst sv; simp add: v_def fu)+
  assume rel: "wq_rel s0 wq s"
  then have w: "wake_queued v = (\<lambda>t. wake_queued s0 t \<or> t \<in> set wq)" "sleeping v = sleeping s0"
    "task_refs v = (\<lambda>t. task_refs s0 t + (if t \<in> set wq then 1 else 0) + (if t = q_task s q then 1 else 0))"
    by (auto simp: wq_rel_def v_def fu get_task_struct_def)
  show "wq_rel s0 wq' s' \<and> set wq' = set wq \<union> ({q_task s q} - {t. wake_queued s0 t})"
  proof (cases "wake_queued v (q_task s q)")
    case True
    then have "wq' = wq" "s' = put_task_struct (q_task s q) v"
      using r by (simp_all add: vcxl_wake_q_add_safe_def wake_q_add_def)
    then show ?thesis using rel w True by (auto simp: wq_rel_def put_task_struct_def intro!: ext)
  next
    case False
    then have "wq' = wq @ [q_task s q]" "s' = v \<lparr>wake_queued := (wake_queued v) (q_task s q := True)\<rparr>"
      using r by (simp_all add: vcxl_wake_q_add_safe_def wake_q_add_def)
    then show ?thesis using rel w False by (auto simp: wq_rel_def intro!: ext split: if_splits)
  qed
qed

subsection \<open>The walk\<close>

lemma chain_next:
  assumes "plist_ok p head (as @ n # bs)"
  shows "plist_next n p = hd (bs @ [head])"
proof -
  have "is_list (node_list p) head (as @ n # bs)" using assms by (simp add: plist_ok_def)
  then have "seg (node_list p) n bs head" by (simp add: is_list_def)
  from seg_first [OF this] show ?thesis by (simp add: plist_next_def)
qed

lemma chain_first: "plist_ok p head xs \<Longrightarrow> plist_first head p = hd (xs @ [head])"
  using seg_first [of "node_list p" head xs head] by (simp add: plist_first_def plist_ok_def is_list_def)

text \<open>The effect of a walk over the rest \<open>rs\<close> of the chain of bucket \<open>b\<close> from the state \<open>s\<close>: the entries \<open>W\<close>
  are off the chain and no longer point to its lock, their tasks are on the wake queue, the rest is as
  it was.\<close>

definition walked :: "nat \<Rightarrow> (nat \<Rightarrow> u64 list) \<Rightarrow> u64 list \<Rightarrow> u64 list \<Rightarrow> u64 list \<Rightarrow> futex_state \<Rightarrow> u64 list \<times> futex_state \<Rightarrow> bool" where
  "walked b qs pre rs W s = (\<lambda>(wq, s').
     fx_ok s' (qs (b := pre @ filter (\<lambda>q. q \<notin> set W) rs)) \<and>
     q_lock_ptr s' = (\<lambda>q. if q \<in> set W then None else q_lock_ptr s q) \<and>
     hb_waiters s' = (hb_waiters s) (b := hb_waiters s b - int (length W)) \<and>
     q_key s' = q_key s \<and> q_task s' = q_task s \<and> fx_words s' = fx_words s)"

lemma woken_subset: "set (woken wt offset s qs) \<subseteq> set qs"
  by (cases wt) (auto simp: woken_def Let_def dest: in_set_takeD)

lemma wake_walk_effect:
  assumes "fx_ok s qs" "qs b = pre @ rs" "length rs < k" "wq_rel s0 wq s"
    and "this = hd (map Qlist rs @ [Chain b])" "nxt = plist_next this (fx_lists s)"
  shows "\<exists>wq' s'. wake_walk k b offset wt this nxt wq s = Some (wq', s') \<and>
    walked b qs pre rs (woken wt offset s rs) s (wq', s') \<and> wq_rel s0 wq' s' \<and>
    set wq' = set wq \<union> (q_task s ` set (woken wt offset s rs) - {t. wake_queued s0 t})"
  using assms
proof (induction rs arbitrary: s qs pre k wq this nxt)
  case Nil
  then obtain j where "k = Suc j" by (cases k) auto
  moreover have "qs (b := pre) = qs" using Nil by auto
  ultimately show ?case using Nil by (auto simp: walked_def woken_def split: wake_types.splits)
next
  case (Cons q rs)
  obtain j where j: "k = Suc j" "length rs < j" using Cons.prems(3) by (cases k) auto
  have ok: "plist_ok (fx_lists s) (Chain b) (map Qlist pre @ Qlist q # map Qlist rs)"
    using Cons.prems(1,2) by (metis fx_ok_def list.simps(9) map_append)
  have th: "this = Qlist q" using Cons.prems(5) by simp
  have nx: "nxt = hd (map Qlist rs @ [Chain b])" using Cons.prems(6) chain_next [OF ok] th by simp
  have dist: "distinct (pre @ q # rs)"
    using ok by (auto simp: plist_ok_def is_list_def distinct_map image_iff)
  show ?case
  proof (cases "q_key s q = offset")
    case False
    have "qs b = (pre @ [q]) @ rs" using Cons.prems(2) by simp
    from Cons.IH [OF Cons.prems(1) this j(2) Cons.prems(4) nx refl] obtain wq' s' where r:
      "wake_walk j b offset wt nxt (plist_next nxt (fx_lists s)) wq s = Some (wq', s')"
      "walked b qs (pre @ [q]) rs (woken wt offset s rs) s (wq', s')" "wq_rel s0 wq' s'"
      "set wq' = set wq \<union> (q_task s ` set (woken wt offset s rs) - {t. wake_queued s0 t})" by blast
    have w: "woken wt offset s (q # rs) = woken wt offset s rs" using False by (simp add: woken_def)
    have "q \<notin> set (woken wt offset s rs)" using dist woken_subset [of wt offset s rs] by auto
    with r False w show ?thesis by (auto simp: j(1) th walked_def)
  next
    case True
    obtain wq1 s1 where m: "vcxl_futex_wake_mark wq q s = (wq1, s1)" by (cases "vcxl_futex_wake_mark wq q s")
    note me = wake_mark_effect [OF Cons.prems(1,2) m]
    have rel: "wq_rel s0 wq1 s1" "set wq1 = set wq \<union> ({q_task s q} - {t. wake_queued s0 t})"
      using me(8) [OF Cons.prems(4)] by auto
    show ?thesis
    proof (cases wt)
      case WAKE_NEXT
      have w: "woken wt offset s (q # rs) = [q]" using True WAKE_NEXT by (simp add: woken_def)
      have "filter (\<lambda>x. x \<notin> set [q]) (q # rs) = rs" using dist by (auto intro!: filter_True)
      then have "walked b qs pre (q # rs) [q] s (wq1, s1)"
        using me by (simp add: walked_def fun_eq_iff del: filter.simps)
      then show ?thesis using True WAKE_NEXT m rel w by (auto simp: j(1) th)
    next
      case WAKE_ALL
      have "(qs (b := pre @ rs)) b = pre @ rs" by simp
      from Cons.IH [OF me(1) this j(2) rel(1) nx refl] obtain wq' s' where r:
        "wake_walk j b offset wt nxt (plist_next nxt (fx_lists s1)) wq1 s1 = Some (wq', s')"
        "walked b (qs (b := pre @ rs)) pre rs (woken wt offset s1 rs) s1 (wq', s')" "wq_rel s0 wq' s'"
        "set wq' = set wq1 \<union> (q_task s1 ` set (woken wt offset s1 rs) - {t. wake_queued s0 t})" by blast
      have w1: "woken wt offset s1 rs = woken wt offset s rs" using me(4) by (simp add: woken_def)
      have w: "woken wt offset s (q # rs) = q # woken wt offset s rs" using True WAKE_ALL by (simp add: woken_def)
      have "filter (\<lambda>x. x \<notin> set (q # woken wt offset s rs)) (q # rs) = filter (\<lambda>x. x \<notin> set (woken wt offset s rs)) rs"
        using dist by (auto intro!: filter_cong)
      then have "walked b qs pre (q # rs) (q # woken wt offset s rs) s (wq', s')"
        using r(2) me by (auto simp: walked_def w1 fun_eq_iff simp del: filter.simps)
      then show ?thesis using True WAKE_ALL m r rel w w1 me(5) by (auto simp: j(1) th)
    qed
  qed
qed

lemma wq_rel_start: "wq_rel s [] s"
  by (simp add: wq_rel_def)

lemma wake_locked_effect:
  assumes "fx_ok s qs" "length (qs b) < k"
  shows "\<exists>wq s'. wake_locked k b offset wt s = Some (wq, s') \<and>
    walked b qs [] (qs b) (woken wt offset s (qs b)) s (wq, s') \<and> wq_rel s wq s' \<and>
    set wq = q_task s ` set (woken wt offset s (qs b)) - {t. wake_queued s t}"
proof -
  have "plist_first (Chain b) (fx_lists s) = hd (map Qlist (qs b) @ [Chain b])"
    using assms(1) by (intro chain_first) (simp add: fx_ok_def)
  from wake_walk_effect [OF assms(1) _ assms(2) wq_rel_start this refl, of "[]" offset wt] show ?thesis
    by (simp add: wake_locked_def Let_def)
qed

text \<open>The whole of \<open>wake_proc\<close>.\<close>

lemma wake_proc_effect:
  fixes wt :: wake_types
  assumes "fx_ok s qs" "length (qs (cxl_proc_hashbucket offset)) < k"
  defines "b \<equiv> cxl_proc_hashbucket offset"
  defines "W \<equiv> woken wt offset s (qs b)"
  shows "\<exists>s'. wake_proc k offset wt s = Some s' \<and> fx_ok s' (qs (b := filter (\<lambda>q. q \<notin> set W) (qs b))) \<and>
    q_lock_ptr s' = (\<lambda>q. if q \<in> set W then None else q_lock_ptr s q) \<and>
    hb_waiters s' = (hb_waiters s) (b := hb_waiters s b - int (length W)) \<and>
    sleeping s' = (\<lambda>t. sleeping s t \<and> \<not> (t \<in> q_task s ` set W \<and> \<not> wake_queued s t)) \<and>
    task_refs s' = task_refs s \<and> wake_queued s' = wake_queued s \<and> q_key s' = q_key s \<and> fx_words s' = fx_words s"
proof (cases "hb_waiters s b = 0")
  case True
  have "int (length (qs b)) \<le> hb_waiters s b" using assms(1) by (simp add: fx_ok_def)
  with True have "qs b = []" by simp
  then have "W = []" by (simp add: W_def woken_def split: wake_types.splits)
  moreover have "qs (b := []) = qs" using \<open>qs b = []\<close> by auto
  ultimately show ?thesis
    using True assms(1) \<open>qs b = []\<close>
    by (simp add: fun_upd_idem_iff [THEN iffD2] wake_proc_def vcxl_futex_hb_waiters_pending_def b_def [symmetric])
next
  case False
  from wake_locked_effect [OF assms(1,2), folded b_def, of offset wt, folded W_def] obtain wq s1 where r:
    "wake_locked k b offset wt s = Some (wq, s1)" "walked b qs [] (qs b) W s (wq, s1)" "wq_rel s wq s1"
    "set wq = q_task s ` set W - {t. wake_queued s t}" by blast
  note up = wake_up_q_effect [OF r(3)]
  have e: "wake_proc k offset wt s = Some (vcxl_wake_up_q wq s1)"
    using False r(1) by (simp add: wake_proc_def vcxl_futex_hb_waiters_pending_def b_def [symmetric])
  have "fx_ok (vcxl_wake_up_q wq s1) (qs (b := filter (\<lambda>q. q \<notin> set W) (qs b)))"
    by (rule fx_ok_cong [of s1]) (use r(2) in \<open>simp_all add: walked_def up\<close>)
  then show ?thesis using e r(2,4) by (auto simp: up walked_def fun_eq_iff)
qed

end
