(* ===== verification/Futex_Props.thy ===== *)
theory Futex_Props
  imports Futex Lock_Spec
begin

text \<open>
  Waiters and wakers of theory \<open>Futex\<close> in any interleaving. A thread is named by the address of its
  \<open>vcxl_futex_q\<close>, which is also its task. A waiter counts itself, takes the lock of its bucket, compares the
  futex word, queues itself and sleeps; it leaves when it finds itself woken, or on its own because of a
  timeout or a signal. A waker changes the futex word, reads the counter of the bucket, walks the chain under
  the lock and then wakes the tasks it has collected. Each step runs the functions of theory \<open>Futex\<close>.

  The main result is that no wake-up is lost: when no waker is on its way, every sleeping task waits for a
  word that still has the value it expects.
\<close>

subsection \<open>Queueing an entry\<close>

lemma leaders_cong: "(\<And>x. x \<in> set xs \<Longrightarrow> f x = g x) \<Longrightarrow> leaders f xs = leaders g xs"
proof (induction f xs rule: leaders.induct)
  case (2 f x xs)
  have d: "dropWhile (\<lambda>y. f y = f x) xs = dropWhile (\<lambda>y. g y = g x) xs"
    by (rule dropWhile_cong) (use 2(2) in auto)
  have "leaders f (dropWhile (\<lambda>y. f y = f x) xs) = leaders g (dropWhile (\<lambda>y. f y = f x) xs)"
    by (rule 2(1)) (use 2(2) in \<open>auto dest: set_dropWhileD\<close>)
  with d show ?case by simp
qed simp

lemma plist_node_init_ok:
  assumes "plist_ok p head xs" "n \<notin> insert head (set xs)"
  shows "plist_ok (plist_node_init n prio p) head xs"
proof -
  let ?p = "p \<lparr>prio_list := INIT_LIST_HEAD n (prio_list p), node_list := INIT_LIST_HEAD n (node_list p)\<rparr>"
  have ok: "plist_ok ?p head xs"
    by (rule plist_same_ok [OF assms(1)])
       (use assms(2) in \<open>auto simp: plist_same_def same_links_def INIT_LIST_HEAD_def\<close>)
  have f: "((node_prio p) (n := prio)) x = node_prio p x" if "x \<in> set xs" for x using that assms(2) by auto
  have l: "leaders ((node_prio p) (n := prio)) xs = leaders (node_prio p) xs" by (rule leaders_cong) (rule f)
  have m: "map ((node_prio p) (n := prio)) xs = map (node_prio p) xs" by (rule map_cong [OF refl]) (rule f)
  show ?thesis using ok by (simp add: plist_node_init_def plist_ok_def l m)
qed

lemma plist_node_init_free: "plist_free (plist_node_init n prio p) n"
  by (simp add: plist_free_def plist_node_init_def INIT_LIST_HEAD_ring)

lemma prio_insert_map: "prio_insert f (h x) (map h xs) = map h (prio_insert (\<lambda>y. f (h y)) x xs)"
  by (simp add: prio_insert_def takeWhile_map dropWhile_map comp_def)

lemma length_prio_insert [simp]: "length (prio_insert f n xs) = Suc (length xs)"
proof -
  have "length (takeWhile (\<lambda>x. f x \<le> f n) xs) + length (dropWhile (\<lambda>x. f x \<le> f n) xs) = length xs"
    by (metis length_append takeWhile_dropWhile_id)
  then show ?thesis by (simp add: prio_insert_def)
qed

lemma queue_locked_ok:
  assumes "fx_ok s qs" "\<And>c. q \<notin> set (qs c)" "q_lock_ptr s q = Some b" "cxl_proc_hashbucket (q_key s q) = b"
    "int (length (qs b)) + 1 \<le> hb_waiters s b" "length (qs b) \<le> k"
  shows "\<exists>p' xs. vcxl_futex_queue_locked k cur prio q b s = Some (s \<lparr>fx_lists := p', q_task := (q_task s) (q := cur)\<rparr>) \<and>
    fx_ok (s \<lparr>fx_lists := p', q_task := (q_task s) (q := cur)\<rparr>) (qs (b := xs)) \<and>
    set xs = insert q (set (qs b)) \<and> length xs = Suc (length (qs b))"
proof -
  let ?p = "plist_node_init (Qlist q) (min prio MAX_RT_PRIO) (fx_lists s)"
  have o: "Qlist q \<notin> insert (Chain c) (set (map Qlist (qs c)))" for c using assms(2) by auto
  have ok: "plist_ok ?p (Chain c) (map Qlist (qs c))" for c
    by (rule plist_node_init_ok [OF _ o]) (use assms(1) in \<open>simp add: fx_ok_def\<close>)
  define xs where "xs = prio_insert (\<lambda>x. node_prio ?p (Qlist x)) q (qs b)"
  have "length (map Qlist (qs b)) \<le> k" using assms(6) by simp
  from plist_add_contents [OF ok [of b] plist_node_init_free o [of b] this] obtain p' where p':
    "plist_add k (Qlist q) (Chain b) ?p = Some p'" "plist_ok p' (Chain b) (map Qlist xs)"
    "plist_same ?p p' (- insert (Qlist q) (insert (Chain b) (set (map Qlist (qs b)))))"
    unfolding xs_def prio_insert_map by blast
  have "plist_ok p' (Chain c) (map Qlist ((qs (b := xs)) c))" for c
  proof (cases "c = b")
    case False
    have "set (qs b) \<inter> set (qs c) = {}" using assms(1) False unfolding fx_ok_def by blast
    then have sub: "insert (Chain c) (set (map Qlist (qs c))) \<subseteq> - insert (Qlist q) (insert (Chain b) (set (map Qlist (qs b))))"
      using False assms(2) [of c] by auto
    have "plist_same ?p p' (insert (Chain c) (set (map Qlist (qs c))))"
      using p'(3) sub unfolding plist_same_def same_links_def by blast
    from plist_same_ok [OF ok this] show ?thesis using False by simp
  qed (use p'(2) in simp)
  moreover have x: "set xs = insert q (set (qs b))" "length xs = Suc (length (qs b))" by (simp_all add: xs_def)
  moreover have "vcxl_futex_queue_locked k cur prio q b s = Some (s \<lparr>fx_lists := p', q_task := (q_task s) (q := cur)\<rparr>)"
    using p'(1) by (simp add: vcxl_futex_queue_locked_def Let_def)
  moreover have "set ((qs (b := xs)) c) \<inter> set ((qs (b := xs)) d) = {}" if "c \<noteq> d" for c d
  proof -
    have "set (qs c) \<inter> set (qs d) = {}" using assms(1) that unfolding fx_ok_def by blast
    then show ?thesis using x(1) assms(2) [of c] assms(2) [of d] that by (cases "c = b"; cases "d = b") auto
  qed
  moreover have "\<forall>y\<in>set ((qs (b := xs)) c). q_lock_ptr s y = Some c \<and> cxl_proc_hashbucket (q_key s y) = c" for c
    using assms(1,3,4) x(1) unfolding fx_ok_def by (cases "c = b") auto
  moreover have "int (length ((qs (b := xs)) c)) \<le> hb_waiters s c" for c
    using assms(1,5) x(2) unfolding fx_ok_def by (cases "c = b") auto
  ultimately show ?thesis unfolding fx_ok_def by (intro exI [of _ p'] exI [of _ xs]) simp
qed

subsection \<open>The system\<close>

text \<open>The program points of a waiter, with the offset and the expected value, and of a waker.\<close>

datatype wait_pc = WIdle | WCounted u64 u64 | WLocked u64 u64 | WQueue u64 u64 | WLeave u64 u64 | WWait u64 u64

datatype wake_pc = KIdle | KStored u64 | KWant u64 | KWake "u64 list"

record fsys =
  fs :: futex_state
  hb_lock :: "nat \<Rightarrow> u64 option"
  wpc :: "u64 \<Rightarrow> wait_pc"
  kpc :: "nat \<Rightarrow> wake_pc"

definition fsys_init :: "fsys \<Rightarrow> bool" where
  "fsys_init \<sigma> \<longleftrightarrow> fx_ok (fs \<sigma>) (\<lambda>_. []) \<and> hb_waiters (fs \<sigma>) = (\<lambda>_. 0) \<and> hb_lock \<sigma> = (\<lambda>_. None) \<and>
     wpc \<sigma> = (\<lambda>_. WIdle) \<and> kpc \<sigma> = (\<lambda>_. KIdle) \<and> wake_queued (fs \<sigma>) = (\<lambda>_. False)"

inductive fstep :: "(u64 \<Rightarrow> int) \<Rightarrow> fsys \<Rightarrow> fsys \<Rightarrow> bool" for prio where
  w_start: "wpc \<sigma> q = WIdle \<Longrightarrow> vcxl_futex_q_lock q (fs \<sigma> \<lparr>q_key := (q_key (fs \<sigma>)) (q := key)\<rparr>) = (hb, s') \<Longrightarrow>
     fstep prio \<sigma> (\<sigma> \<lparr>fs := s', wpc := (wpc \<sigma>) (q := WCounted key val)\<rparr>)"
| w_lock: "wpc \<sigma> q = WCounted key val \<Longrightarrow> hb_lock \<sigma> (cxl_proc_hashbucket key) = None \<Longrightarrow>
     fstep prio \<sigma> (\<sigma> \<lparr>hb_lock := (hb_lock \<sigma>) (cxl_proc_hashbucket key := Some q), wpc := (wpc \<sigma>) (q := WLocked key val)\<rparr>)"
| w_differs: "wpc \<sigma> q = WLocked key val \<Longrightarrow> fx_words (fs \<sigma>) key \<noteq> val \<Longrightarrow>
     fstep prio \<sigma> (\<sigma> \<lparr>hb_lock := (hb_lock \<sigma>) (cxl_proc_hashbucket key := None), wpc := (wpc \<sigma>) (q := WLeave key val)\<rparr>)"
| w_uncount: "wpc \<sigma> q = WLeave key val \<Longrightarrow>
     fstep prio \<sigma> (\<sigma> \<lparr>fs := vcxl_futex_q_unlock (cxl_proc_hashbucket key) (fs \<sigma>), wpc := (wpc \<sigma>) (q := WIdle)\<rparr>)"
| w_equal: "wpc \<sigma> q = WLocked key val \<Longrightarrow> fx_words (fs \<sigma>) key = val \<Longrightarrow>
     fstep prio \<sigma> (\<sigma> \<lparr>wpc := (wpc \<sigma>) (q := WQueue key val)\<rparr>)"
| w_queue: "wpc \<sigma> q = WQueue key val \<Longrightarrow>
     vcxl_futex_queue_locked k q (prio q) q (cxl_proc_hashbucket key) (fs \<sigma> \<lparr>sleeping := (sleeping (fs \<sigma>)) (q := True)\<rparr>) = Some s' \<Longrightarrow>
     fstep prio \<sigma> (\<sigma> \<lparr>fs := s', hb_lock := (hb_lock \<sigma>) (cxl_proc_hashbucket key := None), wpc := (wpc \<sigma>) (q := WWait key val)\<rparr>)"
| w_woken: "wpc \<sigma> q = WWait key val \<Longrightarrow> q_lock_ptr (fs \<sigma>) q = None \<Longrightarrow>
     fstep prio \<sigma> (\<sigma> \<lparr>fs := (fs \<sigma>) \<lparr>sleeping := (sleeping (fs \<sigma>)) (q := False)\<rparr>, wpc := (wpc \<sigma>) (q := WIdle)\<rparr>)"
| w_leave: "wpc \<sigma> q = WWait key val \<Longrightarrow> q_lock_ptr (fs \<sigma>) q = Some b \<Longrightarrow> hb_lock \<sigma> b = None \<Longrightarrow>
     fstep prio \<sigma> (\<sigma> \<lparr>fs := (vcxl_futex_unqueue_locked q (fs \<sigma>)) \<lparr>sleeping := (sleeping (fs \<sigma>)) (q := False)\<rparr>,
       wpc := (wpc \<sigma>) (q := WIdle)\<rparr>)"
| k_store: "kpc \<sigma> i = KIdle \<Longrightarrow>
     fstep prio \<sigma> (\<sigma> \<lparr>fs := (fs \<sigma>) \<lparr>fx_words := (fx_words (fs \<sigma>)) (key := v)\<rparr>, kpc := (kpc \<sigma>) (i := KStored key)\<rparr>)"
| k_none: "kpc \<sigma> i = KStored key \<Longrightarrow> vcxl_futex_hb_waiters_pending (cxl_proc_hashbucket key) (fs \<sigma>) = 0 \<Longrightarrow>
     fstep prio \<sigma> (\<sigma> \<lparr>kpc := (kpc \<sigma>) (i := KIdle)\<rparr>)"
| k_some: "kpc \<sigma> i = KStored key \<Longrightarrow> vcxl_futex_hb_waiters_pending (cxl_proc_hashbucket key) (fs \<sigma>) \<noteq> 0 \<Longrightarrow>
     fstep prio \<sigma> (\<sigma> \<lparr>kpc := (kpc \<sigma>) (i := KWant key)\<rparr>)"
| k_walk: "kpc \<sigma> i = KWant key \<Longrightarrow> hb_lock \<sigma> (cxl_proc_hashbucket key) = None \<Longrightarrow>
     wake_locked k (cxl_proc_hashbucket key) key WAKE_ALL (fs \<sigma>) = Some (wq, s') \<Longrightarrow>
     fstep prio \<sigma> (\<sigma> \<lparr>fs := s', kpc := (kpc \<sigma>) (i := KWake wq)\<rparr>)"
| k_up: "kpc \<sigma> i = KWake (t # wq) \<Longrightarrow>
     fstep prio \<sigma> (\<sigma> \<lparr>fs := vcxl_wake_up_q [t] (fs \<sigma>), kpc := (kpc \<sigma>) (i := KWake wq)\<rparr>)"
| k_done: "kpc \<sigma> i = KWake [] \<Longrightarrow> fstep prio \<sigma> (\<sigma> \<lparr>kpc := (kpc \<sigma>) (i := KIdle)\<rparr>)"

subsection \<open>The invariant\<close>

text \<open>A waiter between counting itself and being on the chain (or uncounting itself).\<close>

fun pre_key :: "wait_pc \<Rightarrow> u64 option" where
  "pre_key (WCounted key val) = Some key"
| "pre_key (WLocked key val) = Some key"
| "pre_key (WQueue key val) = Some key"
| "pre_key (WLeave key val) = Some key"
| "pre_key WIdle = None"
| "pre_key (WWait key val) = None"

fun lock_key :: "wait_pc \<Rightarrow> u64 option" where
  "lock_key (WLocked key val) = Some key"
| "lock_key (WQueue key val) = Some key"
| "lock_key pc = None"

definition pc_ok :: "futex_state \<Rightarrow> (nat \<Rightarrow> u64 list) \<Rightarrow> u64 \<Rightarrow> wait_pc \<Rightarrow> bool" where
  "pc_ok s qs q pc \<longleftrightarrow>
     (\<forall>key. pre_key pc = Some key \<longrightarrow> q_key s q = key \<and> q_lock_ptr s q = Some (cxl_proc_hashbucket key)) \<and>
     (\<forall>key val. pc = WWait key val \<longrightarrow> q_key s q = key \<and> q_task s q = q \<and>
        (q_lock_ptr s q = None \<or> q_lock_ptr s q = Some (cxl_proc_hashbucket key) \<and> q \<in> set (qs (cxl_proc_hashbucket key)))) \<and>
     (\<forall>b. q \<in> set (qs b) \<longrightarrow> (\<exists>val. pc = WWait (q_key s q) val))"

definition counted :: "fsys \<Rightarrow> (nat \<Rightarrow> u64 list) \<Rightarrow> nat \<Rightarrow> u64 set" where
  "counted \<sigma> qs b = {q. map_option cxl_proc_hashbucket (pre_key (wpc \<sigma> q)) = Some b} \<union> set (qs b)"

definition waker_pending :: "fsys \<Rightarrow> u64 \<Rightarrow> bool" where
  "waker_pending \<sigma> key \<longleftrightarrow> (\<exists>i. kpc \<sigma> i = KStored key \<or> kpc \<sigma> i = KWant key)"

definition value_ok :: "fsys \<Rightarrow> bool" where
  "value_ok \<sigma> \<longleftrightarrow> (\<forall>q key val.
     (wpc \<sigma> q = WQueue key val \<or> wpc \<sigma> q = WWait key val \<and> q_lock_ptr (fs \<sigma>) q \<noteq> None) \<longrightarrow>
     fx_words (fs \<sigma>) key = val \<or> waker_pending \<sigma> key)"

definition in_wake_q :: "fsys \<Rightarrow> nat \<Rightarrow> u64 \<Rightarrow> bool" where
  "in_wake_q \<sigma> i t \<longleftrightarrow> (\<exists>wq. kpc \<sigma> i = KWake wq \<and> t \<in> set wq)"

definition wake_ok :: "fsys \<Rightarrow> bool" where
  "wake_ok \<sigma> \<longleftrightarrow> (\<forall>t. wake_queued (fs \<sigma>) t \<longleftrightarrow> (\<exists>i. in_wake_q \<sigma> i t)) \<and>
     (\<forall>i j t. in_wake_q \<sigma> i t \<longrightarrow> in_wake_q \<sigma> j t \<longrightarrow> i = j) \<and> (\<forall>i wq. kpc \<sigma> i = KWake wq \<longrightarrow> distinct wq) \<and>
     (\<forall>q key val. wpc \<sigma> q = WWait key val \<longrightarrow> q_lock_ptr (fs \<sigma>) q = None \<longrightarrow> sleeping (fs \<sigma>) q \<longrightarrow> (\<exists>i. in_wake_q \<sigma> i q))"

definition sys_ok :: "fsys \<Rightarrow> (nat \<Rightarrow> u64 list) \<Rightarrow> bool" where
  "sys_ok \<sigma> qs \<longleftrightarrow> fx_ok (fs \<sigma>) qs \<and> (\<forall>q. pc_ok (fs \<sigma>) qs q (wpc \<sigma> q)) \<and>
     (\<forall>b. hb_waiters (fs \<sigma>) b = int (card (counted \<sigma> qs b))) \<and>
     (\<forall>b q. hb_lock \<sigma> b = Some q \<longleftrightarrow> map_option cxl_proc_hashbucket (lock_key (wpc \<sigma> q)) = Some b) \<and>
     value_ok \<sigma> \<and> wake_ok \<sigma>"

definition fsys_inv :: "fsys \<Rightarrow> bool" where
  "fsys_inv \<sigma> \<longleftrightarrow> (\<exists>qs. sys_ok \<sigma> qs)"

lemma pc_ok_off: "pc_ok s qs q pc \<Longrightarrow> (\<And>key val. pc \<noteq> WWait key val) \<Longrightarrow> q \<notin> set (qs b)"
  unfolding pc_ok_def by blast

text \<open>Threads other than the one that moves, and the state they see.\<close>

lemma pc_ok_cong:
  assumes "pc_ok s qs q pc" "q_key s' q = q_key s q" "q_task s' q = q_task s q" "q_lock_ptr s' q = q_lock_ptr s q"
    "\<And>b. q \<in> set (qs' b) \<longleftrightarrow> q \<in> set (qs b)"
  shows "pc_ok s' qs' q pc"
  using assms unfolding pc_ok_def by simp

lemma fx_ok_weaken:
  assumes "fx_ok s qs" "fx_lists t = fx_lists s"
    and "\<And>b q. q \<in> set (qs b) \<Longrightarrow> q_lock_ptr t q = q_lock_ptr s q \<and> q_key t q = q_key s q"
    and "\<And>b. int (length (qs b)) \<le> hb_waiters t b"
  shows "fx_ok t qs"
  using assms by (simp add: fx_ok_def)

lemma chain_length:
  assumes "fx_ok s qs"
  shows "length (qs b) = card (set (qs b))"
proof -
  have "distinct (map Qlist (qs b))" using assms by (auto simp: fx_ok_def plist_ok_def is_list_def)
  then show ?thesis by (simp add: distinct_map distinct_card)
qed

lemma counted_bound:
  assumes "fx_ok s qs"
  shows "int (length (qs b)) \<le> int (card (counted \<sigma> qs b))"
  using chain_length [OF assms, of b] card_mono [of "counted \<sigma> qs b" "set (qs b)"] by (simp add: counted_def)

lemma sys_okD:
  assumes "sys_ok \<sigma> qs"
  shows "fx_ok (fs \<sigma>) qs" "pc_ok (fs \<sigma>) qs q (wpc \<sigma> q)" "hb_waiters (fs \<sigma>) b = int (card (counted \<sigma> qs b))"
    "hb_lock \<sigma> b = Some q \<longleftrightarrow> map_option cxl_proc_hashbucket (lock_key (wpc \<sigma> q)) = Some b" "value_ok \<sigma>" "wake_ok \<sigma>"
  using assms by (auto simp: sys_ok_def)

lemma counted_upd:
  "q \<notin> set (qs b) \<Longrightarrow> counted (\<sigma> \<lparr>fs := s', hb_lock := l, wpc := (wpc \<sigma>) (q := pc)\<rparr>) qs b =
    (if map_option cxl_proc_hashbucket (pre_key pc) = Some b then insert q (counted \<sigma> qs b)
     else counted \<sigma> qs b - {q})"
  by (auto simp: counted_def)

text \<open>A step of a waiter that leaves the chains alone: what has to be shown for the waiter itself.\<close>

lemma sys_ok_waiter:
  assumes ok: "sys_ok \<sigma> qs" and fx: "fx_lists s' = fx_lists (fs \<sigma>)"
    and others: "\<And>p. p \<noteq> q \<Longrightarrow> q_key s' p = q_key (fs \<sigma>) p \<and> q_task s' p = q_task (fs \<sigma>) p \<and> q_lock_ptr s' p = q_lock_ptr (fs \<sigma>) p \<and> sleeping s' p = sleeping (fs \<sigma>) p"
    and words: "fx_words s' = fx_words (fs \<sigma>)" and wk: "wake_queued s' = wake_queued (fs \<sigma>)"
    and off: "\<And>b. q \<notin> set (qs b)"
    and pc: "pc_ok s' qs q pc" "\<And>key val. pc \<noteq> WWait key val" "\<And>key val. pc = WQueue key val \<Longrightarrow> fx_words (fs \<sigma>) key = val"
    and count: "\<And>b. hb_waiters s' b = int (card (counted (\<sigma> \<lparr>fs := s', hb_lock := l, wpc := (wpc \<sigma>) (q := pc)\<rparr>) qs b))"
    and lock: "\<And>b p. l b = Some p \<longleftrightarrow> map_option cxl_proc_hashbucket (lock_key (((wpc \<sigma>) (q := pc)) p)) = Some b"
  shows "sys_ok (\<sigma> \<lparr>fs := s', hb_lock := l, wpc := (wpc \<sigma>) (q := pc)\<rparr>) qs"
proof -
  let ?\<sigma> = "\<sigma> \<lparr>fs := s', hb_lock := l, wpc := (wpc \<sigma>) (q := pc)\<rparr>"
  note d = sys_okD [OF ok]
  have q': "p \<noteq> q" if "p \<in> set (qs b)" for p b using that off by auto
  have "fx_ok s' qs"
    by (rule fx_ok_weaken [OF d(1) fx]) (use others q' count counted_bound [OF d(1)] in \<open>auto simp del: of_nat_le_iff\<close>)
  moreover have "pc_ok s' qs p (((wpc \<sigma>) (q := pc)) p)" for p
    using pc(1) others pc_ok_cong [OF d(2) [of p], of s' qs] by (cases "p = q") auto
  moreover have "waker_pending ?\<sigma> = waker_pending \<sigma>" "in_wake_q ?\<sigma> = in_wake_q \<sigma>"
    by (simp_all add: waker_pending_def in_wake_q_def fun_eq_iff)
  moreover from this have "value_ok ?\<sigma>"
    using d(5) pc(2,3) others words unfolding value_ok_def by auto
  moreover have "wake_ok ?\<sigma>"
    using d(6) pc(2) others wk \<open>in_wake_q ?\<sigma> = in_wake_q \<sigma>\<close> unfolding wake_ok_def by auto
  ultimately show ?thesis using count lock by (simp add: sys_ok_def)
qed

subsection \<open>Steps of a waiter\<close>

lemma step_start:
  assumes "sys_ok \<sigma> qs" "wpc \<sigma> q = WIdle" "vcxl_futex_q_lock q (fs \<sigma> \<lparr>q_key := (q_key (fs \<sigma>)) (q := key)\<rparr>) = (hb, s')"
  shows "sys_ok (\<sigma> \<lparr>fs := s', wpc := (wpc \<sigma>) (q := WCounted key val)\<rparr>) qs"
proof -
  note d = sys_okD [OF assms(1)]
  have off: "q \<notin> set (qs b)" for b using pc_ok_off [OF d(2) [of q]] assms(2) by simp
  have hb: "hb = cxl_proc_hashbucket key" and s': "s' = fs \<sigma> \<lparr>q_key := (q_key (fs \<sigma>)) (q := key),
      hb_waiters := (hb_waiters (fs \<sigma>)) (hb := hb_waiters (fs \<sigma>) hb + 1), q_lock_ptr := (q_lock_ptr (fs \<sigma>)) (q := Some hb)\<rparr>"
    using assms(3) by (auto simp: vcxl_futex_q_lock_def vcxl_futex_hb_waiters_inc_def Let_def)
  have nc: "q \<notin> counted \<sigma> qs b" for b using off assms(2) by (simp add: counted_def)
  have "sys_ok (\<sigma> \<lparr>fs := s', hb_lock := hb_lock \<sigma>, wpc := (wpc \<sigma>) (q := WCounted key val)\<rparr>) qs"
  proof (rule sys_ok_waiter [OF assms(1)])
    fix b
    show "hb_waiters s' b = int (card (counted (\<sigma> \<lparr>fs := s', hb_lock := hb_lock \<sigma>, wpc := (wpc \<sigma>) (q := WCounted key val)\<rparr>) qs b))"
      unfolding counted_upd [of q qs b, OF off] using nc [of b] d(3) by (auto simp: s' hb)
    show "hb_lock \<sigma> b = Some p \<longleftrightarrow> map_option cxl_proc_hashbucket (lock_key (((wpc \<sigma>) (q := WCounted key val)) p)) = Some b" for p
      using d(4) [of b p] assms(2) by auto
  qed (use off in \<open>auto simp: s' hb pc_ok_def\<close>)
  then show ?thesis by simp
qed

lemma step_lock:
  assumes "sys_ok \<sigma> qs" "wpc \<sigma> q = WCounted key val" "hb_lock \<sigma> (cxl_proc_hashbucket key) = None"
  shows "sys_ok (\<sigma> \<lparr>hb_lock := (hb_lock \<sigma>) (cxl_proc_hashbucket key := Some q), wpc := (wpc \<sigma>) (q := WLocked key val)\<rparr>) qs"
proof -
  note d = sys_okD [OF assms(1)]
  let ?l = "(hb_lock \<sigma>) (cxl_proc_hashbucket key := Some q)"
  have off: "q \<notin> set (qs b)" for b using pc_ok_off [OF d(2) [of q]] assms(2) by simp
  have "sys_ok (\<sigma> \<lparr>fs := fs \<sigma>, hb_lock := ?l, wpc := (wpc \<sigma>) (q := WLocked key val)\<rparr>) qs"
  proof (rule sys_ok_waiter [OF assms(1)])
    show "pc_ok (fs \<sigma>) qs q (WLocked key val)" using d(2) [of q] assms(2) by (simp add: pc_ok_def)
    fix b
    have "counted (\<sigma> \<lparr>fs := fs \<sigma>, hb_lock := ?l, wpc := (wpc \<sigma>) (q := WLocked key val)\<rparr>) qs b = counted \<sigma> qs b"
      using assms(2) by (auto simp: counted_def)
    then show "hb_waiters (fs \<sigma>) b = int (card (counted (\<sigma> \<lparr>fs := fs \<sigma>, hb_lock := ?l, wpc := (wpc \<sigma>) (q := WLocked key val)\<rparr>) qs b))"
      using d(3) by simp
    show "?l b = Some p \<longleftrightarrow> map_option cxl_proc_hashbucket (lock_key (((wpc \<sigma>) (q := WLocked key val)) p)) = Some b" for p
      using d(4) [of b p] d(4) [of "cxl_proc_hashbucket key" p] assms(2,3) by auto
  qed (use off in auto)
  then show ?thesis by simp
qed

lemma step_differs:
  assumes "sys_ok \<sigma> qs" "wpc \<sigma> q = WLocked key val"
  shows "sys_ok (\<sigma> \<lparr>hb_lock := (hb_lock \<sigma>) (cxl_proc_hashbucket key := None), wpc := (wpc \<sigma>) (q := WLeave key val)\<rparr>) qs"
proof -
  note d = sys_okD [OF assms(1)]
  let ?l = "(hb_lock \<sigma>) (cxl_proc_hashbucket key := None)"
  have off: "q \<notin> set (qs b)" for b using pc_ok_off [OF d(2) [of q]] assms(2) by simp
  have hold: "hb_lock \<sigma> (cxl_proc_hashbucket key) = Some q" using d(4) assms(2) by simp
  have "sys_ok (\<sigma> \<lparr>fs := fs \<sigma>, hb_lock := ?l, wpc := (wpc \<sigma>) (q := WLeave key val)\<rparr>) qs"
  proof (rule sys_ok_waiter [OF assms(1)])
    show "pc_ok (fs \<sigma>) qs q (WLeave key val)" using d(2) [of q] assms(2) by (simp add: pc_ok_def)
    fix b
    have "counted (\<sigma> \<lparr>fs := fs \<sigma>, hb_lock := ?l, wpc := (wpc \<sigma>) (q := WLeave key val)\<rparr>) qs b = counted \<sigma> qs b"
      using assms(2) by (auto simp: counted_def)
    then show "hb_waiters (fs \<sigma>) b = int (card (counted (\<sigma> \<lparr>fs := fs \<sigma>, hb_lock := ?l, wpc := (wpc \<sigma>) (q := WLeave key val)\<rparr>) qs b))"
      using d(3) by simp
    show "?l b = Some p \<longleftrightarrow> map_option cxl_proc_hashbucket (lock_key (((wpc \<sigma>) (q := WLeave key val)) p)) = Some b" for p
      using d(4) [of b p] d(4) [of "cxl_proc_hashbucket key" p] hold assms(2) by auto
  qed (use off in auto)
  then show ?thesis by simp
qed

lemma step_equal:
  assumes "sys_ok \<sigma> qs" "wpc \<sigma> q = WLocked key val" "fx_words (fs \<sigma>) key = val"
  shows "sys_ok (\<sigma> \<lparr>wpc := (wpc \<sigma>) (q := WQueue key val)\<rparr>) qs"
proof -
  note d = sys_okD [OF assms(1)]
  have off: "q \<notin> set (qs b)" for b using pc_ok_off [OF d(2) [of q]] assms(2) by simp
  have "sys_ok (\<sigma> \<lparr>fs := fs \<sigma>, hb_lock := hb_lock \<sigma>, wpc := (wpc \<sigma>) (q := WQueue key val)\<rparr>) qs"
  proof (rule sys_ok_waiter [OF assms(1)])
    show "pc_ok (fs \<sigma>) qs q (WQueue key val)" using d(2) [of q] assms(2) by (simp add: pc_ok_def)
    fix b
    have "counted (\<sigma> \<lparr>fs := fs \<sigma>, hb_lock := hb_lock \<sigma>, wpc := (wpc \<sigma>) (q := WQueue key val)\<rparr>) qs b = counted \<sigma> qs b"
      using assms(2) by (auto simp: counted_def)
    then show "hb_waiters (fs \<sigma>) b = int (card (counted (\<sigma> \<lparr>fs := fs \<sigma>, hb_lock := hb_lock \<sigma>, wpc := (wpc \<sigma>) (q := WQueue key val)\<rparr>) qs b))"
      using d(3) by simp
    show "hb_lock \<sigma> b = Some p \<longleftrightarrow> map_option cxl_proc_hashbucket (lock_key (((wpc \<sigma>) (q := WQueue key val)) p)) = Some b" for p
      using d(4) [of b p] assms(2) by auto
  qed (use off assms(3) in auto)
  then show ?thesis by simp
qed

lemma step_uncount:
  assumes "sys_ok \<sigma> qs" "wpc \<sigma> q = WLeave key val"
  shows "sys_ok (\<sigma> \<lparr>fs := vcxl_futex_q_unlock (cxl_proc_hashbucket key) (fs \<sigma>), wpc := (wpc \<sigma>) (q := WIdle)\<rparr>) qs"
proof -
  note d = sys_okD [OF assms(1)]
  let ?s = "vcxl_futex_q_unlock (cxl_proc_hashbucket key) (fs \<sigma>)"
  note s_def = vcxl_futex_q_unlock_def vcxl_futex_hb_waiters_dec_def
  have off: "q \<notin> set (qs b)" for b using pc_ok_off [OF d(2) [of q]] assms(2) by simp
  have c: "q \<in> counted \<sigma> qs b \<longleftrightarrow> b = cxl_proc_hashbucket key" for b using off assms(2) by (auto simp: counted_def)
  have "sys_ok (\<sigma> \<lparr>fs := ?s, hb_lock := hb_lock \<sigma>, wpc := (wpc \<sigma>) (q := WIdle)\<rparr>) qs"
  proof (rule sys_ok_waiter [OF assms(1)])
    fix b
    have "0 < card (counted \<sigma> qs (cxl_proc_hashbucket key))" using c by (metis card_gt_0_iff empty_iff finite)
    then show "hb_waiters ?s b = int (card (counted (\<sigma> \<lparr>fs := ?s, hb_lock := hb_lock \<sigma>, wpc := (wpc \<sigma>) (q := WIdle)\<rparr>) qs b))"
      unfolding counted_upd [of q qs b, OF off] using c [of b] d(3) [of b]
      by (cases "b = cxl_proc_hashbucket key") (auto simp: s_def card_Diff_singleton)
    show "hb_lock \<sigma> b = Some p \<longleftrightarrow> map_option cxl_proc_hashbucket (lock_key (((wpc \<sigma>) (q := WIdle)) p)) = Some b" for p
      using d(4) [of b p] assms(2) by auto
  qed (use off in \<open>auto simp: s_def pc_ok_def\<close>)
  then show ?thesis by simp
qed

lemma step_woken:
  assumes "sys_ok \<sigma> qs" "wpc \<sigma> q = WWait key val" "q_lock_ptr (fs \<sigma>) q = None"
  shows "sys_ok (\<sigma> \<lparr>fs := (fs \<sigma>) \<lparr>sleeping := (sleeping (fs \<sigma>)) (q := False)\<rparr>, wpc := (wpc \<sigma>) (q := WIdle)\<rparr>) qs"
proof -
  note d = sys_okD [OF assms(1)]
  let ?s = "(fs \<sigma>) \<lparr>sleeping := (sleeping (fs \<sigma>)) (q := False)\<rparr>"
  have off: "q \<notin> set (qs b)" for b using d(1) assms(3) by (auto simp: fx_ok_def)
  have "sys_ok (\<sigma> \<lparr>fs := ?s, hb_lock := hb_lock \<sigma>, wpc := (wpc \<sigma>) (q := WIdle)\<rparr>) qs"
  proof (rule sys_ok_waiter [OF assms(1)])
    fix b
    have "counted (\<sigma> \<lparr>fs := ?s, hb_lock := hb_lock \<sigma>, wpc := (wpc \<sigma>) (q := WIdle)\<rparr>) qs b = counted \<sigma> qs b"
      using assms(2) by (auto simp: counted_def)
    then show "hb_waiters ?s b = int (card (counted (\<sigma> \<lparr>fs := ?s, hb_lock := hb_lock \<sigma>, wpc := (wpc \<sigma>) (q := WIdle)\<rparr>) qs b))"
      using d(3) by simp
    show "hb_lock \<sigma> b = Some p \<longleftrightarrow> map_option cxl_proc_hashbucket (lock_key (((wpc \<sigma>) (q := WIdle)) p)) = Some b" for p
      using d(4) [of b p] assms(2) by auto
  qed (use off in \<open>auto simp: pc_ok_def\<close>)
  then show ?thesis by simp
qed

lemma plist_add_loop_more:
  "plist_add_loop k p n head first it prv = Some r \<Longrightarrow> plist_add_loop (k + j) p n head first it prv = Some r"
  by (induction k arbitrary: it prv) (auto simp: Let_def split: if_splits)

lemma plist_add_more:
  assumes "plist_add k n head p = Some r"
  shows "plist_add (k + j) n head p = Some r"
proof (cases "plist_head_empty head p")
  case False
  then obtain x where "plist_add_loop k p n head (plist_first head p) (plist_first head p) None = Some x"
    using assms by (auto simp: plist_add_def Let_def split: option.splits)
  with plist_add_loop_more [OF this, of j] False assms show ?thesis by (simp add: plist_add_def)
qed (use assms in \<open>simp add: plist_add_def\<close>)

lemma queue_locked_more:
  "vcxl_futex_queue_locked k cur prio q b s = Some r \<Longrightarrow> vcxl_futex_queue_locked (k + j) cur prio q b s = Some r"
  using plist_add_more by (fastforce simp: vcxl_futex_queue_locked_def Let_def)

lemma step_queue:
  assumes "sys_ok \<sigma> qs" "wpc \<sigma> q = WQueue key val"
    "vcxl_futex_queue_locked k q (prio q) q (cxl_proc_hashbucket key) (fs \<sigma> \<lparr>sleeping := (sleeping (fs \<sigma>)) (q := True)\<rparr>) = Some s'"
  shows "\<exists>qs'. sys_ok (\<sigma> \<lparr>fs := s', hb_lock := (hb_lock \<sigma>) (cxl_proc_hashbucket key := None), wpc := (wpc \<sigma>) (q := WWait key val)\<rparr>) qs'"
proof -
  note d = sys_okD [OF assms(1)]
  let ?b = "cxl_proc_hashbucket key" and ?s = "fs \<sigma> \<lparr>sleeping := (sleeping (fs \<sigma>)) (q := True)\<rparr>"
  let ?\<sigma> = "\<sigma> \<lparr>fs := s', hb_lock := (hb_lock \<sigma>) (?b := None), wpc := (wpc \<sigma>) (q := WWait key val)\<rparr>"
  have off: "q \<notin> set (qs b)" for b using pc_ok_off [OF d(2) [of q]] assms(2) by simp
  have me: "q_key (fs \<sigma>) q = key" "q_lock_ptr (fs \<sigma>) q = Some ?b" using d(2) [of q] assms(2) by (auto simp: pc_ok_def)
  have hold: "hb_lock \<sigma> ?b = Some q" using d(4) assms(2) by simp
  have fx: "fx_ok ?s qs" by (rule fx_ok_cong [OF d(1)]) simp_all
  have "insert q (set (qs ?b)) \<subseteq> counted \<sigma> qs ?b" using assms(2) by (auto simp: counted_def)
  then have "card (insert q (set (qs ?b))) \<le> card (counted \<sigma> qs ?b)" by (rule card_mono [rotated]) simp
  then have room: "int (length (qs ?b)) + 1 \<le> hb_waiters ?s ?b"
    using off [of ?b] chain_length [OF d(1), of ?b] d(3) [of ?b] by simp
  from queue_locked_ok [OF fx off _ _ room, of "k + length (qs ?b)" q "prio q"] me obtain p' xs where r:
    "vcxl_futex_queue_locked (k + length (qs ?b)) q (prio q) q ?b ?s = Some (?s \<lparr>fx_lists := p', q_task := (q_task ?s) (q := q)\<rparr>)"
    "fx_ok (?s \<lparr>fx_lists := p', q_task := (q_task ?s) (q := q)\<rparr>) (qs (?b := xs))" "set xs = insert q (set (qs ?b))" by auto
  have s': "s' = ?s \<lparr>fx_lists := p', q_task := (q_task ?s) (q := q)\<rparr>"
    using queue_locked_more [OF assms(3), of "length (qs ?b)"] r(1) by simp
  have mem: "p \<in> set ((qs (?b := xs)) c) \<longleftrightarrow> p \<in> set (qs c)" if "p \<noteq> q" for p c using that r(3) by auto
  have pcs: "pc_ok s' (qs (?b := xs)) p (((wpc \<sigma>) (q := WWait key val)) p)" for p
  proof (cases "p = q")
    case True
    then show ?thesis using me off r(3) by (auto simp: pc_ok_def s')
  next
    case False
    have "pc_ok s' (qs (?b := xs)) p (wpc \<sigma> p)"
      by (rule pc_ok_cong [OF d(2)]) (use False mem [OF False] in \<open>simp_all add: s' del: fun_upd_apply\<close>, use False in simp)
    then show ?thesis using False by simp
  qed
  have "counted ?\<sigma> (qs (?b := xs)) c = counted \<sigma> qs c" for c
    using assms(2) r(3) by (auto simp: counted_def split: if_splits)
  then have cnt: "hb_waiters s' c = int (card (counted ?\<sigma> (qs (?b := xs)) c))" for c using d(3) by (simp add: s')
  have lk: "((hb_lock \<sigma>) (?b := None)) c = Some p \<longleftrightarrow>
      map_option cxl_proc_hashbucket (lock_key (((wpc \<sigma>) (q := WWait key val)) p)) = Some c" for c p
    using d(4) [of c p] d(4) [of ?b p] hold assms(2) by auto
  have w: "waker_pending ?\<sigma> = waker_pending \<sigma>" "in_wake_q ?\<sigma> = in_wake_q \<sigma>"
    by (simp_all add: waker_pending_def in_wake_q_def fun_eq_iff)
  have "value_ok ?\<sigma>" using d(5) assms(2) unfolding value_ok_def w by (auto simp: s')
  moreover have "wake_ok ?\<sigma>" using d(6) me unfolding wake_ok_def w by (auto simp: s')
  ultimately have "sys_ok ?\<sigma> (qs (?b := xs))" using r(2) pcs cnt lk unfolding s' [symmetric] by (simp add: sys_ok_def)
  then show ?thesis by blast
qed

lemma step_leave:
  assumes "sys_ok \<sigma> qs" "wpc \<sigma> q = WWait key val" "q_lock_ptr (fs \<sigma>) q = Some b"
  shows "\<exists>qs'. sys_ok (\<sigma> \<lparr>fs := (vcxl_futex_unqueue_locked q (fs \<sigma>)) \<lparr>sleeping := (sleeping (fs \<sigma>)) (q := False)\<rparr>,
    wpc := (wpc \<sigma>) (q := WIdle)\<rparr>) qs'"
proof -
  note d = sys_okD [OF assms(1)]
  have q: "q \<in> set (qs b)" using d(2) [of q] assms(2,3) by (auto simp: pc_ok_def)
  then obtain as bs where sp: "qs b = as @ q # bs" by (auto dest: split_list)
  define u where "u = vcxl_futex_unqueue_locked q (fs \<sigma>)"
  note un = unqueue_locked_ok [OF d(1) sp, folded u_def]
  let ?s = "u \<lparr>sleeping := (sleeping (fs \<sigma>)) (q := False)\<rparr>" and ?qs = "qs (b := as @ bs)"
  let ?\<sigma> = "\<sigma> \<lparr>fs := ?s, wpc := (wpc \<sigma>) (q := WIdle)\<rparr>"
  have f: "q_key u = q_key (fs \<sigma>)" "q_task u = q_task (fs \<sigma>)" "q_lock_ptr u = q_lock_ptr (fs \<sigma>)"
    "hb_waiters u = (hb_waiters (fs \<sigma>)) (b := hb_waiters (fs \<sigma>) b - 1)" "fx_words u = fx_words (fs \<sigma>)"
    "wake_queued u = wake_queued (fs \<sigma>)" by (subst un(3), simp)+
  have "distinct (map Qlist (qs b))" using d(1) by (auto simp: fx_ok_def plist_ok_def is_list_def)
  then have dist: "q \<notin> set (as @ bs)" using sp by auto
  have oth: "q \<notin> set (qs c)" if "c \<noteq> b" for c using q that d(1) unfolding fx_ok_def by blast
  have mem: "p \<in> set (?qs c) \<longleftrightarrow> p \<in> set (qs c) \<and> p \<noteq> q" for p c using sp dist oth by auto
  have pcs: "pc_ok ?s ?qs p (((wpc \<sigma>) (q := WIdle)) p)" for p
  proof (cases "p = q")
    case True
    then show ?thesis using mem by (simp add: pc_ok_def del: fun_upd_apply) simp
  next
    case False
    have "pc_ok ?s ?qs p (wpc \<sigma> p)"
      by (rule pc_ok_cong [OF d(2)]) (use False mem in \<open>simp_all add: f del: fun_upd_apply\<close>)
    then show ?thesis using False by simp
  qed
  have fx: "fx_ok ?s ?qs" by (rule fx_ok_cong [OF un(1)]) simp_all
  have "counted ?\<sigma> ?qs c = counted \<sigma> qs c - (if c = b then {q} else {})" for c
    using assms(2) mem [of _ c] oth unfolding counted_def by (auto simp del: fun_upd_apply) (auto split: if_splits)
  moreover have "q \<in> counted \<sigma> qs b" using q by (simp add: counted_def)
  moreover from this have "0 < card (counted \<sigma> qs b)" by (metis card_gt_0_iff empty_iff finite)
  ultimately have cnt: "hb_waiters ?s c = int (card (counted ?\<sigma> ?qs c))" for c
    using d(3) by (cases "c = b") (auto simp: f)
  have lk: "hb_lock \<sigma> c = Some p \<longleftrightarrow> map_option cxl_proc_hashbucket (lock_key (((wpc \<sigma>) (q := WIdle)) p)) = Some c" for c p
    using d(4) [of c p] assms(2) by auto
  have w: "waker_pending ?\<sigma> = waker_pending \<sigma>" "in_wake_q ?\<sigma> = in_wake_q \<sigma>"
    by (simp_all add: waker_pending_def in_wake_q_def fun_eq_iff)
  have "value_ok ?\<sigma>" using d(5) unfolding value_ok_def w by (auto simp: f)
  moreover have "wake_ok ?\<sigma>" using d(6) unfolding wake_ok_def w by (auto simp: f)
  ultimately have "sys_ok ?\<sigma> ?qs" using fx pcs cnt lk by (simp add: sys_ok_def)
  then show ?thesis unfolding u_def by blast
qed

subsection \<open>Steps of a waker\<close>

lemma waker_pending_other:
  assumes "waker_pending \<sigma> key" "kpc \<sigma> i \<noteq> KStored key" "kpc \<sigma> i \<noteq> KWant key"
  shows "waker_pending (\<sigma> \<lparr>fs := s, kpc := (kpc \<sigma>) (i := pc)\<rparr>) key"
proof -
  obtain j where j: "kpc \<sigma> j = KStored key \<or> kpc \<sigma> j = KWant key" using assms(1) by (auto simp: waker_pending_def)
  with assms(2,3) have "j \<noteq> i" by auto
  with j show ?thesis by (auto simp: waker_pending_def intro!: exI [of _ j])
qed

text \<open>Steps that change only the program point of the waker, and the futex word.\<close>

lemma sys_ok_waker:
  assumes "sys_ok \<sigma> qs" "\<And>t. in_wake_q (\<sigma> \<lparr>fs := fs \<sigma> \<lparr>fx_words := w\<rparr>, kpc := (kpc \<sigma>) (i := pc)\<rparr>) i t \<longleftrightarrow> in_wake_q \<sigma> i t"
    "\<And>wq. pc = KWake wq \<Longrightarrow> distinct wq" "value_ok (\<sigma> \<lparr>fs := fs \<sigma> \<lparr>fx_words := w\<rparr>, kpc := (kpc \<sigma>) (i := pc)\<rparr>)"
  shows "sys_ok (\<sigma> \<lparr>fs := fs \<sigma> \<lparr>fx_words := w\<rparr>, kpc := (kpc \<sigma>) (i := pc)\<rparr>) qs"
proof -
  let ?\<sigma> = "\<sigma> \<lparr>fs := fs \<sigma> \<lparr>fx_words := w\<rparr>, kpc := (kpc \<sigma>) (i := pc)\<rparr>"
  note d = sys_okD [OF assms(1)]
  have "fx_ok (fs ?\<sigma>) qs" by (rule fx_ok_cong [OF d(1)]) simp_all
  moreover have "pc_ok (fs ?\<sigma>) qs q (wpc \<sigma> q)" for q by (rule pc_ok_cong [OF d(2)]) simp_all
  moreover have "counted ?\<sigma> qs b = counted \<sigma> qs b" for b by (simp add: counted_def)
  moreover have iw: "in_wake_q ?\<sigma> = in_wake_q \<sigma>"
  proof (intro ext)
    fix j t show "in_wake_q ?\<sigma> j t = in_wake_q \<sigma> j t"
      using assms(2) [of t] by (cases "j = i") (simp_all add: in_wake_q_def)
  qed
  moreover have "wake_ok ?\<sigma>"
    using d(6) assms(3) unfolding wake_ok_def iw by (auto split: if_splits)
  ultimately show ?thesis using d(3,4) assms(4) by (simp add: sys_ok_def)
qed

lemma step_store:
  assumes "sys_ok \<sigma> qs" "kpc \<sigma> i = KIdle"
  shows "sys_ok (\<sigma> \<lparr>fs := (fs \<sigma>) \<lparr>fx_words := (fx_words (fs \<sigma>)) (key := v)\<rparr>, kpc := (kpc \<sigma>) (i := KStored key)\<rparr>) qs"
    (is "sys_ok ?\<sigma> qs")
proof (rule sys_ok_waker [OF assms(1)])
  have p: "waker_pending ?\<sigma> k \<longleftrightarrow> k = key \<or> waker_pending \<sigma> k" for k
    using assms(2) by (auto simp: waker_pending_def) (metis wake_pc.distinct(1,3))+
  show "value_ok ?\<sigma>" using sys_okD(5) [OF assms(1)] unfolding value_ok_def p by auto
qed (use assms(2) in \<open>auto simp: in_wake_q_def\<close>)

lemma step_some:
  assumes "sys_ok \<sigma> qs" "kpc \<sigma> i = KStored key"
  shows "sys_ok (\<sigma> \<lparr>kpc := (kpc \<sigma>) (i := KWant key)\<rparr>) qs"
proof -
  let ?\<sigma> = "\<sigma> \<lparr>fs := fs \<sigma> \<lparr>fx_words := fx_words (fs \<sigma>)\<rparr>, kpc := (kpc \<sigma>) (i := KWant key)\<rparr>"
  have p: "waker_pending \<sigma> k \<Longrightarrow> waker_pending ?\<sigma> k" for k
    using assms(2) by (auto simp: waker_pending_def) (metis wake_pc.inject(1) wake_pc.distinct(7))+
  have "sys_ok ?\<sigma> qs"
  proof (rule sys_ok_waker [OF assms(1)])
    show "value_ok ?\<sigma>" using sys_okD(5) [OF assms(1)] p unfolding value_ok_def by simp blast
  qed (use assms(2) in \<open>auto simp: in_wake_q_def\<close>)
  then show ?thesis by simp
qed

lemma step_none:
  assumes "sys_ok \<sigma> qs" "kpc \<sigma> i = KStored key" "vcxl_futex_hb_waiters_pending (cxl_proc_hashbucket key) (fs \<sigma>) = 0"
  shows "sys_ok (\<sigma> \<lparr>kpc := (kpc \<sigma>) (i := KIdle)\<rparr>) qs"
proof -
  let ?\<sigma> = "\<sigma> \<lparr>fs := fs \<sigma> \<lparr>fx_words := fx_words (fs \<sigma>)\<rparr>, kpc := (kpc \<sigma>) (i := KIdle)\<rparr>"
  note d = sys_okD [OF assms(1)]
  have p: "waker_pending \<sigma> k \<Longrightarrow> k \<noteq> key \<Longrightarrow> waker_pending ?\<sigma> k" for k
    using assms(2) by (auto simp: waker_pending_def) (metis wake_pc.inject(1) wake_pc.distinct(7))+
  have empty: "counted \<sigma> qs (cxl_proc_hashbucket key) = {}"
    using assms(3) d(3) [of "cxl_proc_hashbucket key"] by (simp add: vcxl_futex_hb_waiters_pending_def)
  have "k \<noteq> key" if "wpc \<sigma> q = WQueue k val \<or> wpc \<sigma> q = WWait k val \<and> q_lock_ptr (fs \<sigma>) q \<noteq> None" for q k val
  proof -
    have "q \<in> counted \<sigma> qs (cxl_proc_hashbucket k)" using that d(2) [of q] by (auto simp: counted_def pc_ok_def)
    then show ?thesis using empty by auto
  qed
  then have v: "value_ok ?\<sigma>" using d(5) p unfolding value_ok_def by simp blast
  have "sys_ok ?\<sigma> qs" by (rule sys_ok_waker [OF assms(1) _ _ v]) (use assms(2) in \<open>auto simp: in_wake_q_def\<close>)
  then show ?thesis by simp
qed

lemma step_done:
  assumes "sys_ok \<sigma> qs" "kpc \<sigma> i = KWake []"
  shows "sys_ok (\<sigma> \<lparr>kpc := (kpc \<sigma>) (i := KIdle)\<rparr>) qs"
proof -
  let ?\<sigma> = "\<sigma> \<lparr>fs := fs \<sigma> \<lparr>fx_words := fx_words (fs \<sigma>)\<rparr>, kpc := (kpc \<sigma>) (i := KIdle)\<rparr>"
  have p: "waker_pending \<sigma> k \<Longrightarrow> waker_pending ?\<sigma> k" for k
    using assms(2) by (auto simp: waker_pending_def) (metis wake_pc.distinct(9,11))+
  have v: "value_ok ?\<sigma>" using sys_okD(5) [OF assms(1)] p unfolding value_ok_def by simp blast
  have "sys_ok ?\<sigma> qs" by (rule sys_ok_waker [OF assms(1) _ _ v]) (use assms(2) in \<open>auto simp: in_wake_q_def\<close>)
  then show ?thesis by simp
qed

lemma step_up:
  assumes "sys_ok \<sigma> qs" "kpc \<sigma> i = KWake (t # wq)"
  shows "sys_ok (\<sigma> \<lparr>fs := vcxl_wake_up_q [t] (fs \<sigma>), kpc := (kpc \<sigma>) (i := KWake wq)\<rparr>) qs" (is "sys_ok ?\<sigma> qs")
proof -
  note d = sys_okD [OF assms(1)]
  let ?s = "vcxl_wake_up_q [t] (fs \<sigma>)"
  have f: "q_key ?s = q_key (fs \<sigma>)" "q_task ?s = q_task (fs \<sigma>)" "q_lock_ptr ?s = q_lock_ptr (fs \<sigma>)" "fx_lists ?s = fx_lists (fs \<sigma>)"
    "hb_waiters ?s = hb_waiters (fs \<sigma>)" "fx_words ?s = fx_words (fs \<sigma>)" "wake_queued ?s = (wake_queued (fs \<sigma>)) (t := False)"
    "sleeping ?s = (sleeping (fs \<sigma>)) (t := False)" by (simp_all add: put_task_struct_def Let_def)
  have "distinct (t # wq)" using d(6) assms(2) unfolding wake_ok_def by blast
  have un: "in_wake_q \<sigma> j t \<Longrightarrow> j = i" for j
    using d(6) assms(2) unfolding wake_ok_def by (metis in_wake_q_def list.set_intros(1))
  have iw: "in_wake_q ?\<sigma> j x \<longleftrightarrow> in_wake_q \<sigma> j x \<and> x \<noteq> t" for j x
  proof (cases "j = i")
    case True
    then show ?thesis using \<open>distinct (t # wq)\<close> assms(2) by (auto simp: in_wake_q_def)
  next
    case False
    then show ?thesis using un [of j] by (auto simp: in_wake_q_def)
  qed
  have "fx_ok (fs ?\<sigma>) qs" by (rule fx_ok_cong [OF d(1)]) (simp_all add: f del: vcxl_wake_up_q.simps)
  moreover have "pc_ok (fs ?\<sigma>) qs q (wpc \<sigma> q)" for q
    by (rule pc_ok_cong [OF d(2)]) (simp_all add: f del: vcxl_wake_up_q.simps)
  moreover have "counted ?\<sigma> qs b = counted \<sigma> qs b" for b by (simp add: counted_def)
  moreover have "waker_pending \<sigma> k \<Longrightarrow> waker_pending ?\<sigma> k" for k
    by (rule waker_pending_other) (use assms(2) in simp_all)
  then have "value_ok ?\<sigma>"
    using d(5) unfolding value_ok_def by (simp add: f del: vcxl_wake_up_q.simps) blast
  moreover have "wake_ok ?\<sigma>"
    using d(6) \<open>distinct (t # wq)\<close> unfolding wake_ok_def iw by (auto simp: f simp del: vcxl_wake_up_q.simps split: if_splits)
  ultimately show ?thesis using d(3,4) by (simp add: sys_ok_def f del: vcxl_wake_up_q.simps)
qed

lemma wake_walk_more:
  "wake_walk k b offset wt this nxt wq s = Some r \<Longrightarrow> wake_walk (k + j) b offset wt this nxt wq s = Some r"
  by (induction k arbitrary: this nxt wq s) (auto simp: Let_def split: if_splits faddr.splits prod.splits)

lemma step_walk:
  assumes "sys_ok \<sigma> qs" "kpc \<sigma> i = KWant key" "hb_lock \<sigma> (cxl_proc_hashbucket key) = None"
    "wake_locked k (cxl_proc_hashbucket key) key WAKE_ALL (fs \<sigma>) = Some (wq, s')"
  shows "\<exists>qs'. sys_ok (\<sigma> \<lparr>fs := s', kpc := (kpc \<sigma>) (i := KWake wq)\<rparr>) qs'"
proof -
  note d = sys_okD [OF assms(1)]
  let ?b = "cxl_proc_hashbucket key" and ?\<sigma> = "\<sigma> \<lparr>fs := s', kpc := (kpc \<sigma>) (i := KWake wq)\<rparr>"
  define W where "W = woken WAKE_ALL key (fs \<sigma>) (qs ?b)"
  have W: "set W = {q \<in> set (qs ?b). q_key (fs \<sigma>) q = key}" by (auto simp: W_def woken_def)
  have "wake_locked (k + Suc (length (qs ?b))) ?b key WAKE_ALL (fs \<sigma>) = Some (wq, s')"
    using assms(4) wake_walk_more by (simp add: wake_locked_def Let_def del: add_Suc_right)
  with wake_locked_effect [OF d(1), of ?b "k + Suc (length (qs ?b))" key WAKE_ALL]
  have r: "walked ?b qs [] (qs ?b) W (fs \<sigma>) (wq, s')" "wq_rel (fs \<sigma>) wq s'"
    "set wq = q_task (fs \<sigma>) ` set W - {t. wake_queued (fs \<sigma>) t}" unfolding W_def by auto
  define qs' where "qs' = qs (?b := filter (\<lambda>q. q \<notin> set W) (qs ?b))"
  have fx: "fx_ok s' qs'" and f: "q_lock_ptr s' = (\<lambda>q. if q \<in> set W then None else q_lock_ptr (fs \<sigma>) q)"
    "hb_waiters s' = (hb_waiters (fs \<sigma>)) (?b := hb_waiters (fs \<sigma>) ?b - int (length W))" "q_key s' = q_key (fs \<sigma>)"
    "q_task s' = q_task (fs \<sigma>)" "fx_words s' = fx_words (fs \<sigma>)" using r(1) by (auto simp: walked_def qs'_def)
  have g: "sleeping s' = sleeping (fs \<sigma>)" "wake_queued s' = (\<lambda>t. wake_queued (fs \<sigma>) t \<or> t \<in> set wq)" "distinct wq"
    "\<And>t. t \<in> set wq \<Longrightarrow> \<not> wake_queued (fs \<sigma>) t" using r(2) by (auto simp: wq_rel_def)
  have oth: "q \<notin> set (qs c)" if "q \<in> set W" "c \<noteq> ?b" for q c using that W d(1) unfolding fx_ok_def by blast
  have mem: "q \<in> set (qs' c) \<longleftrightarrow> q \<in> set (qs c) \<and> q \<notin> set W" for q c using oth by (auto simp: qs'_def)
  have ww: "\<exists>val. wpc \<sigma> q = WWait key val" "q_task (fs \<sigma>) q = q" if "q \<in> set W" for q
    using that W d(2) [of q] unfolding pc_ok_def by auto
  have pcs: "pc_ok s' qs' q (wpc \<sigma> q)" for q
  proof (cases "q \<in> set W")
    case True
    then obtain val where "wpc \<sigma> q = WWait key val" using ww(1) by blast
    moreover have "q_key (fs \<sigma>) q = key" using True W by simp
    ultimately show ?thesis using True ww(2) [OF True] mem [of q] by (simp add: pc_ok_def f)
  next
    case False
    show ?thesis by (rule pc_ok_cong [OF d(2)]) (use False mem [of q] in \<open>simp_all add: f\<close>)
  qed
  have "distinct (qs ?b)" using d(1) by (auto simp: fx_ok_def plist_ok_def is_list_def distinct_map)
  then have "distinct W" by (simp add: W_def woken_def)
  have "counted ?\<sigma> qs' c = counted \<sigma> qs c - (if c = ?b then set W else {})" for c
  proof -
    have "pre_key (wpc \<sigma> q) = None" if "q \<in> set W" for q using ww(1) [OF that] by auto
    then show ?thesis using mem [of _ c] oth unfolding counted_def by (auto split: if_splits)
  qed
  moreover have "set W \<subseteq> counted \<sigma> qs ?b" using W by (auto simp: counted_def)
  ultimately have cnt: "hb_waiters s' c = int (card (counted ?\<sigma> qs' c))" for c
    using d(3) distinct_card [OF \<open>distinct W\<close>] card_mono [of "counted \<sigma> qs ?b" "set W"]
    by (cases "c = ?b") (auto simp: f card_Diff_subset)
  have "value_ok ?\<sigma>"
    unfolding value_ok_def
  proof (intro allI impI)
    fix q k val
    assume a: "wpc ?\<sigma> q = WQueue k val \<or> wpc ?\<sigma> q = WWait k val \<and> q_lock_ptr (fs ?\<sigma>) q \<noteq> None"
    then have "fx_words (fs \<sigma>) k = val \<or> waker_pending \<sigma> k"
      using d(5) unfolding value_ok_def by (auto simp: f split: if_splits)
    moreover have "k \<noteq> key"
    proof
      assume k: "k = key"
      show False
      proof (cases "wpc \<sigma> q = WQueue k val")
        case True
        then show False using d(4) [of ?b q] assms(3) k by simp
      next
        case False
        then have "wpc \<sigma> q = WWait k val" "q \<notin> set W" "q_lock_ptr (fs \<sigma>) q \<noteq> None" using a by (auto simp: f split: if_splits)
        then show False using d(2) [of q] W k by (auto simp: pc_ok_def)
      qed
    qed
    then have "waker_pending \<sigma> k \<Longrightarrow> waker_pending ?\<sigma> k"
      using assms(2) waker_pending_other [of \<sigma> k i] by simp
    ultimately show "fx_words (fs ?\<sigma>) k = val \<or> waker_pending ?\<sigma> k" by (auto simp: f)
  qed
  moreover have "wake_ok ?\<sigma>"
  proof -
    have iw: "in_wake_q ?\<sigma> j t \<longleftrightarrow> in_wake_q \<sigma> j t \<or> j = i \<and> t \<in> set wq" for j t
      using assms(2) by (auto simp: in_wake_q_def)
    have new: "t \<in> set wq \<Longrightarrow> \<not> in_wake_q \<sigma> j t" for j t using d(6) g(4) unfolding wake_ok_def by blast
    have sl: "\<exists>j. in_wake_q ?\<sigma> j q" if "q \<in> set W" for q
      using that r(3) ww(2) [OF that] d(6) unfolding iw wake_ok_def by (auto simp: image_iff) (metis that ww(2))
    note o = d(6) [unfolded wake_ok_def]
    have "wake_queued (fs ?\<sigma>) t \<longleftrightarrow> (\<exists>j. in_wake_q ?\<sigma> j t)" for t
      using o unfolding iw by (simp add: g) blast
    moreover have "j = j'" if "in_wake_q ?\<sigma> j t" "in_wake_q ?\<sigma> j' t" for j j' t
      using o new [of t] that unfolding iw by blast
    moreover have "distinct wq'" if "kpc ?\<sigma> j = KWake wq'" for j wq'
      using o g(3) that by (cases "j = i") auto
    moreover have "\<exists>j. in_wake_q ?\<sigma> j q" if "wpc \<sigma> q = WWait k val" "q_lock_ptr s' q = None" "sleeping s' q" for q k val
    proof (cases "q \<in> set W")
      case False
      with that have "\<exists>j. in_wake_q \<sigma> j q" using o by (simp add: f g)
      then show ?thesis unfolding iw by blast
    qed (rule sl)
    ultimately show ?thesis unfolding wake_ok_def by simp
  qed
  ultimately have "sys_ok ?\<sigma> qs'" using fx pcs cnt d(4) by (simp add: sys_ok_def)
  then show ?thesis by blast
qed

subsection \<open>Properties\<close>

lemma fsys_init_inv: "fsys_init \<sigma> \<Longrightarrow> fsys_inv \<sigma>"
  unfolding fsys_inv_def
  by (rule exI [of _ "\<lambda>_. []"])
     (auto simp: sys_ok_def fsys_init_def pc_ok_def counted_def value_ok_def wake_ok_def in_wake_q_def)

lemma fstep_inv: "fsys_inv \<sigma> \<Longrightarrow> fstep prio \<sigma> \<sigma>' \<Longrightarrow> fsys_inv \<sigma>'"
  unfolding fsys_inv_def
proof (elim exE)
  fix qs assume ok: "sys_ok \<sigma> qs" and "fstep prio \<sigma> \<sigma>'"
  from this(2) show "\<exists>qs'. sys_ok \<sigma>' qs'"
  proof cases
    case w_start then show ?thesis using step_start [OF ok] by blast
  next case w_lock then show ?thesis using step_lock [OF ok] by blast
  next case w_differs then show ?thesis using step_differs [OF ok] by blast
  next case w_uncount then show ?thesis using step_uncount [OF ok] by blast
  next case w_equal then show ?thesis using step_equal [OF ok] by blast
  next case w_queue then show ?thesis using step_queue [OF ok] by blast
  next case w_woken then show ?thesis using step_woken [OF ok] by blast
  next case w_leave then show ?thesis using step_leave [OF ok] by blast
  next case k_store then show ?thesis using step_store [OF ok] by blast
  next case k_none then show ?thesis using step_none [OF ok] by blast
  next case k_some then show ?thesis using step_some [OF ok] by blast
  next case k_walk then show ?thesis using step_walk [OF ok] by blast
  next case k_up then show ?thesis using step_up [OF ok] by blast
  next case k_done then show ?thesis using step_done [OF ok] by blast
  qed
qed

interpretation futexes: transition_invariant fsys_init "fstep prio" fsys_inv for prio
  by unfold_locales (auto intro: fsys_init_inv fstep_inv)

text \<open>The table after its initialisation, with one word set.\<close>

definition fx_start :: futex_state where
  "fx_start = \<lparr>fx_lists = \<lparr>node_list = \<lparr>lnext = \<lambda>a. a, lprev = \<lambda>a. a\<rparr>, prio_list = \<lparr>lnext = \<lambda>a. a, lprev = \<lambda>a. a\<rparr>, node_prio = \<lambda>_. 0\<rparr>,
     hb_waiters = \<lambda>_. 0, q_key = \<lambda>_. 0, q_task = \<lambda>_. 0, q_lock_ptr = \<lambda>_. None, sleeping = \<lambda>_. False, task_refs = \<lambda>_. 1,
     wake_queued = \<lambda>_. False, fx_words = (\<lambda>_. 0) (64 := 5), waiter_arr = \<lambda>_ _. 0\<rparr>"

definition fsys_start :: fsys where
  "fsys_start = \<lparr>fs = fx_start, hb_lock = \<lambda>_. None, wpc = \<lambda>_. WIdle, kpc = \<lambda>_. KIdle\<rparr>"

lemma fx_start_ok: "fx_ok fx_start (\<lambda>_. [])"
  by (simp add: fx_ok_def fx_start_def plist_ok_def is_list_def prio_ring_def)

lemma fsys_start_init: "fsys_init fsys_start"
  using fx_start_ok by (simp add: fsys_init_def fsys_start_def) (simp add: fx_start_def)

text \<open>A waiter that has gone to sleep on the word at offset 64.\<close>

lemma sleeper_reachable:
  "\<exists>\<sigma>. reach fsys_init (fstep prio) \<sigma> \<and> kpc \<sigma> = (\<lambda>_. KIdle) \<and> wpc \<sigma> 8 = WWait 64 5 \<and> sleeping (fs \<sigma>) 8"
proof -
  let ?b = "cxl_proc_hashbucket 64"
  define s1 where "s1 = fx_start \<lparr>q_key := (q_key fx_start) (8 := 64), hb_waiters := (hb_waiters fx_start) (?b := 1),
    q_lock_ptr := (q_lock_ptr fx_start) (8 := Some ?b)\<rparr>"
  define \<sigma>1 where "\<sigma>1 = fsys_start \<lparr>fs := s1, wpc := (wpc fsys_start) (8 := WCounted 64 5)\<rparr>"
  define \<sigma>2 where "\<sigma>2 = \<sigma>1 \<lparr>hb_lock := (hb_lock \<sigma>1) (?b := Some 8), wpc := (wpc \<sigma>1) (8 := WLocked 64 5)\<rparr>"
  define \<sigma>3 where "\<sigma>3 = \<sigma>2 \<lparr>wpc := (wpc \<sigma>2) (8 := WQueue 64 5)\<rparr>"
  have "reach fsys_init (fstep prio) fsys_start" by (rule reach.start) (rule fsys_start_init)
  moreover have "fstep prio fsys_start \<sigma>1"
    unfolding \<sigma>1_def by (rule fstep.w_start [of _ _ 64 ?b])
      (simp_all add: fsys_start_def s1_def vcxl_futex_q_lock_def vcxl_futex_hb_waiters_inc_def Let_def fx_start_def)
  moreover have "fstep prio \<sigma>1 \<sigma>2"
    unfolding \<sigma>2_def by (rule fstep.w_lock) (simp_all add: \<sigma>1_def fsys_start_def)
  moreover have "fstep prio \<sigma>2 \<sigma>3"
    unfolding \<sigma>3_def by (rule fstep.w_equal) (simp_all add: \<sigma>2_def \<sigma>1_def s1_def fx_start_def)
  ultimately have r: "reach fsys_init (fstep prio) \<sigma>3" by (blast intro: reach.step)
  let ?s = "fs \<sigma>3 \<lparr>sleeping := (sleeping (fs \<sigma>3)) (8 := True)\<rparr>"
  have "fx_ok ?s (\<lambda>_. [])"
    by (rule fx_ok_weaken [OF fx_start_ok]) (simp_all add: \<sigma>3_def \<sigma>2_def \<sigma>1_def s1_def fx_start_def)
  from queue_locked_ok [OF this, of 8 ?b 0 8 "prio 8"] obtain p' where
    q: "vcxl_futex_queue_locked 0 8 (prio 8) 8 ?b ?s = Some (?s \<lparr>fx_lists := p', q_task := (q_task ?s) (8 := 8)\<rparr>)"
    by (auto simp: \<sigma>3_def \<sigma>2_def \<sigma>1_def s1_def)
  define s4 where "s4 = ?s \<lparr>fx_lists := p', q_task := (q_task ?s) (8 := 8)\<rparr>"
  define \<sigma>4 where "\<sigma>4 = \<sigma>3 \<lparr>fs := s4, hb_lock := (hb_lock \<sigma>3) (?b := None), wpc := (wpc \<sigma>3) (8 := WWait 64 5)\<rparr>"
  have "wpc \<sigma>3 8 = WQueue 64 5" by (simp add: \<sigma>3_def)
  then have "fstep prio \<sigma>3 \<sigma>4"
    unfolding \<sigma>4_def by (rule fstep.w_queue [of \<sigma>3 8 64 5 0 prio s4]) (simp only: q s4_def)
  then have "reach fsys_init (fstep prio) \<sigma>4" by (rule reach.step [OF r])
  moreover have "kpc \<sigma>4 = (\<lambda>_. KIdle)" "wpc \<sigma>4 8 = WWait 64 5" "sleeping (fs \<sigma>4) 8"
    by (simp_all add: \<sigma>4_def s4_def \<sigma>3_def \<sigma>2_def \<sigma>1_def fsys_start_def)
  ultimately show ?thesis by blast
qed

text \<open>C1: no wake-up is lost. Let any number of tasks wait on futex words, with timeouts and signals at any
  moment, and any number of wakers change words and wake the waiters of the word they changed, all steps
  interleaved in any way. Whenever no waker is on its way, every task that still sleeps waits for a word that
  has the value the task expects: a waiter either sees the changed word before it queues itself, or its waker
  sees it counted and finds it on the chain.\<close>

theorem no_lost_wakeup:
  assumes "reach fsys_init (fstep prio) \<sigma>" "\<forall>i. kpc \<sigma> i = KIdle" "wpc \<sigma> q = WWait key val" "sleeping (fs \<sigma>) q"
  shows "fx_words (fs \<sigma>) key = val"
proof -
  obtain qs where ok: "sys_ok \<sigma> qs" using futexes.reach_inv [OF assms(1)] by (auto simp: fsys_inv_def)
  have "\<not> in_wake_q \<sigma> i t" "\<not> waker_pending \<sigma> k" for i t k using assms(2) by (simp_all add: in_wake_q_def waker_pending_def)
  with sys_okD(5,6) [OF ok] assms(3,4) show ?thesis unfolding value_ok_def wake_ok_def by blast
qed

theorem no_lost_wakeup_witness:
  "\<exists>\<sigma>. reach fsys_init (fstep (\<lambda>_. 120)) \<sigma> \<and> wpc \<sigma> 8 = WWait 64 5 \<and> sleeping (fs \<sigma>) 8 \<and> fx_words (fs \<sigma>) 64 = 5"
proof -
  obtain \<sigma> where r: "reach fsys_init (fstep (\<lambda>_. 120)) \<sigma>" "kpc \<sigma> = (\<lambda>_. KIdle)" "wpc \<sigma> 8 = WWait 64 5" "sleeping (fs \<sigma>) 8"
    using sleeper_reachable by blast
  with no_lost_wakeup [OF r(1) _ r(3,4)] show ?thesis by auto
qed

text \<open>C39: what a waker does. On a well-formed table, \<open>wake_proc\<close> takes off the chain of the bucket the
  first waiter of the offset in the order of priority and arrival (\<open>WAKE_NEXT\<close>) or all of them
  (\<open>WAKE_ALL\<close>), and no waiter of another offset, even in the same bucket. It lowers the counter of the bucket by
  their number, marks them as woken, and makes their tasks runnable unless another wake-up of that task is
  already under way. Reference counts are balanced and the walk ends within the length of the chain.\<close>

theorem wake_proc_wakes_in_order:
  fixes wt :: wake_types
  assumes "fx_ok s qs" "length (qs (cxl_proc_hashbucket offset)) < k"
  shows "\<exists>s'. let b = cxl_proc_hashbucket offset; W = woken wt offset s (qs b) in
    wake_proc k offset wt s = Some s' \<and> fx_ok s' (qs (b := filter (\<lambda>q. q \<notin> set W) (qs b))) \<and>
    q_lock_ptr s' = (\<lambda>q. if q \<in> set W then None else q_lock_ptr s q) \<and>
    hb_waiters s' = (hb_waiters s) (b := hb_waiters s b - int (length W)) \<and>
    sleeping s' = (\<lambda>t. sleeping s t \<and> \<not> (t \<in> q_task s ` set W \<and> \<not> wake_queued s t)) \<and>
    task_refs s' = task_refs s \<and> wake_queued s' = wake_queued s"
  using wake_proc_effect [OF assms, of wt] unfolding Let_def by blast

theorem wake_proc_wakes_in_order_witness:
  "\<exists>s k s'. sleeping s 8 \<and> wake_proc k 64 WAKE_ALL s = Some s' \<and> \<not> sleeping s' 8 \<and> task_refs s' = task_refs s"
proof -
  obtain \<sigma> where r: "reach fsys_init (fstep (\<lambda>_. 120)) \<sigma>" "kpc \<sigma> = (\<lambda>_. KIdle)" "wpc \<sigma> 8 = WWait 64 5" "sleeping (fs \<sigma>) 8"
    using sleeper_reachable by blast
  obtain qs where ok: "sys_ok \<sigma> qs" using futexes.reach_inv [OF r(1)] by (auto simp: fsys_inv_def)
  let ?b = "cxl_proc_hashbucket 64"
  have none: "\<not> in_wake_q \<sigma> i 8" for i using r(2) by (simp add: in_wake_q_def)
  have w: "q_lock_ptr (fs \<sigma>) 8 \<noteq> None" "\<not> wake_queued (fs \<sigma>) 8"
    using sys_okD(6) [OF ok, unfolded wake_ok_def] r(3,4) none by blast+
  have "8 \<in> set (qs ?b)" "q_key (fs \<sigma>) 8 = 64" "q_task (fs \<sigma>) 8 = 8"
    using sys_okD(2) [OF ok, of 8] r(3) w(1) by (auto simp: pc_ok_def)
  then have "8 \<in> q_task (fs \<sigma>) ` set (woken WAKE_ALL 64 (fs \<sigma>) (qs ?b))" by (force simp: woken_def)
  moreover obtain s' where s': "wake_proc (Suc (length (qs ?b))) 64 WAKE_ALL (fs \<sigma>) = Some s'" "task_refs s' = task_refs (fs \<sigma>)"
    "sleeping s' = (\<lambda>t. sleeping (fs \<sigma>) t \<and>
      \<not> (t \<in> q_task (fs \<sigma>) ` set (woken WAKE_ALL 64 (fs \<sigma>) (qs ?b)) \<and> \<not> wake_queued (fs \<sigma>) t))"
    using wake_proc_wakes_in_order [OF sys_okD(1) [OF ok], of 64 "Suc (length (qs ?b))" WAKE_ALL] unfolding Let_def by blast
  ultimately have "\<not> sleeping s' 8" using w(2) by simp
  then show ?thesis using r(4) s'(1,2) by blast
qed


definition wrapped_wait :: vcxl_cond_wait where
  "wrapped_wait = \<lparr>cw_offset = - 8, cw_waiter_arr_offset = 0, cw_wake_time_sec = 0, cw_value = 3, cw_wake_time_nsec = 0,
     cw_wait_type = 1, cw_wakes = 0\<rparr>"

definition small_memory :: meta_dram where
  "small_memory = \<lparr>mem_start = 4096, mem_length = 65536, cur_obj_recs = 0, md_machine_id = 1, md_total_machines = 2\<rparr>"


end
