(* ===== verification/Spec2Isabelle.thy ===== *)
theory Spec2Isabelle
  imports Buddy_Props JJ_Lock Wport_Lock Mpsc_Queue Failure_Detection Futex_Props
begin

text \<open>
  Lupin shares a byte-addressable CXL memory device between operating systems that can fail
  independently.  This development models the allocator, the crash-consistency machinery and the
  synchronisation primitives of the driver (\<^verbatim>\<open>src/driver/src\<close>), of the common
  headers (\<^verbatim>\<open>src/src/common\<close>) and of the buddy allocator
  (\<^verbatim>\<open>src/src/buddy\<close>).

  \<^item> Theory \<open>Bitset\<close>: \<^verbatim>\<open>src/src/buddy/bitset.c\<close>, the bit array below the
    allocation tree, on byte lists.
\<close>

end
